(* ===== verification/Edgion_Prelude.thy ===== *)
theory Edgion_Prelude
  imports Main "HOL-Library.Word" "HOL-Library.Product_Lexorder"
begin

text \<open>
  Shared vocabulary of the development: the machine integer types of the Rust sources,
  checked list access (a Rust index out of range panics, so a read is an option), signed
  64-bit ranges, and the generic list lemmas several components use.

  Conventions. A Rust panic is the value \<open>None\<close> of an option result. A Rust
  \<open>Result<T, E>\<close> is the sum \<open>'e + 't\<close> with \<open>Inl\<close> for the error. A string is the
  list of its UTF-8 bytes, so \<open>length\<close> is \<open>str::len\<close>.
\<close>

type_synonym u8 = "8 word"
type_synonym u16 = "16 word"
type_synonym u32 = "32 word"
type_synonym u64 = "64 word"

named_theorems wf_intros \<open>introduction rules for well-formedness of component states\<close>
named_theorems step_simps \<open>unfolding rules of one machine step\<close>

section \<open>Checked access\<close>

definition nth_opt :: "'a list \<Rightarrow> nat \<Rightarrow> 'a option" where
  "nth_opt xs i = (if i < length xs then Some (xs ! i) else None)"

lemma nth_opt_Some_iff [simp]: "nth_opt xs i = Some x \<longleftrightarrow> i < length xs \<and> xs ! i = x"
  by (auto simp: nth_opt_def)

lemma nth_opt_None_iff [simp]: "nth_opt xs i = None \<longleftrightarrow> length xs \<le> i"
  by (auto simp: nth_opt_def)

section \<open>Results\<close>

text \<open>The \<open>?\<close> operator: go on with the value of a result, or return its error.\<close>

definition res_bind :: "'e + 'a \<Rightarrow> ('a \<Rightarrow> 'e + 'b) \<Rightarrow> 'e + 'b" where
  "res_bind m f = (case m of Inl e \<Rightarrow> Inl e | Inr x \<Rightarrow> f x)"

lemma res_bind_simps [simp]: "res_bind (Inl e) f = Inl e" "res_bind (Inr x) f = f x"
  by (simp_all add: res_bind_def)

lemma res_bind_Inr_iff: "res_bind m f = Inr y \<longleftrightarrow> (\<exists>x. m = Inr x \<and> f x = Inr y)"
  by (cases m) auto

lemma res_bind_cong [fundef_cong]:
  "m = m' \<Longrightarrow> (\<And>x. m' = Inr x \<Longrightarrow> f x = f' x) \<Longrightarrow> res_bind m f = res_bind m' f'"
  by (cases m') auto

section \<open>Signed 64-bit integers\<close>

text \<open>An \<open>i64\<close> is an integer in range; Rust's \<open>checked_\<close> operations leave the range as None.\<close>

definition is_i64 :: "int \<Rightarrow> bool" where
  "is_i64 n \<longleftrightarrow> - (2 ^ 63) \<le> n \<and> n < 2 ^ 63"

definition checked_i64 :: "int \<Rightarrow> int option" where
  "checked_i64 n = (if is_i64 n then Some n else None)"

lemma checked_i64_Some_iff [simp]: "checked_i64 n = Some m \<longleftrightarrow> is_i64 n \<and> m = n"
  by (auto simp: checked_i64_def)

section \<open>Decimal numbers\<close>

text \<open>The decimal notation that \<open>format!\<close> writes and \<open>str::parse\<close> reads.\<close>

fun show_nat :: "nat \<Rightarrow> string" where
  "show_nat n = (if n < 10 then [char_of (48 + n)] else show_nat (n div 10) @ [char_of (48 + n mod 10)])"

declare show_nat.simps [simp del]

definition show_int :: "int \<Rightarrow> string" where
  "show_int n = (if n < 0 then CHR 0x2D # show_nat (nat (- n)) else show_nat (nat n))"

definition digit_value :: "char \<Rightarrow> nat option" where
  "digit_value c = (let n = of_char c in if 48 \<le> n \<and> n \<le> 57 then Some (n - 48) else None)"

fun parse_digits :: "nat \<Rightarrow> string \<Rightarrow> nat option" where
  "parse_digits acc [] = Some acc"
| "parse_digits acc (c # cs) =
     (case digit_value c of None \<Rightarrow> None | Some d \<Rightarrow> parse_digits (acc * 10 + d) cs)"

definition parse_unsigned :: "string \<Rightarrow> nat option" where
  "parse_unsigned s = (if s = [] then None else parse_digits 0 s)"

definition parse_i64 :: "string \<Rightarrow> int option" where
  "parse_i64 s =
     Option.bind
       (case s of
          [] \<Rightarrow> None
        | c # cs \<Rightarrow>
            if c = CHR 0x2D then map_option (\<lambda>n. - int n) (parse_unsigned cs)
            else if c = CHR 0x2B then map_option int (parse_unsigned cs)
            else map_option int (parse_unsigned s))
       checked_i64"

lemma parse_digits_append:
  "parse_digits acc (xs @ ys) = Option.bind (parse_digits acc xs) (\<lambda>a. parse_digits a ys)"
  by (induction xs arbitrary: acc) (auto split: option.splits)

lemma digit_value_digit [simp]: "d < 10 \<Longrightarrow> digit_value (char_of (48 + d)) = Some d"
  by (simp add: digit_value_def Let_def)

lemma show_nat_not_Nil [simp]: "show_nat n \<noteq> []"
  by (subst show_nat.simps) simp

lemma parse_digits_show: "parse_digits 0 (show_nat n) = Some n"
proof (induction n rule: show_nat.induct)
  case (1 n)
  then show ?case
    by (subst show_nat.simps) (auto simp: parse_digits_append)
qed

lemma hd_show_nat: "\<exists>d < 10. hd (show_nat n) = char_of (48 + d :: nat)"
proof (induction n rule: show_nat.induct)
  case (1 n)
  then show ?case by (cases "n < 10") (auto simp: show_nat.simps [of n] hd_append)
qed

lemma parse_i64_show:
  assumes "is_i64 n"
  shows "parse_i64 (show_int n) = Some n"
proof (cases "n < 0")
  case True
  then show ?thesis
    using assms parse_digits_show [of "nat (- n)"] by (simp add: show_int_def parse_i64_def parse_unsigned_def)
next
  case False
  obtain c cs where c: "show_nat (nat n) = c # cs" by (cases "show_nat (nat n)") auto
  obtain d where "d < 10" "c = char_of (48 + d :: nat)" using hd_show_nat [of "nat n"] c by auto
  then have "of_char c = 48 + d" by simp
  then have "c \<noteq> CHR 0x2D" "c \<noteq> CHR 0x2B" by auto
  then show ?thesis
    using False assms c parse_digits_show [of "nat n"] by (simp add: show_int_def parse_i64_def parse_unsigned_def)
qed

section \<open>Lists\<close>

lemma count_list_rotate: "count_list (rotate n xs) x = count_list xs x"
proof -
  have "count_list xs x = count_list (take k xs @ drop k xs) x" for k
    by simp
  then show ?thesis
    by (metis add.commute count_list_append rotate_drop_take)
qed

lemma map_nth_mod_rotate:
  "map (\<lambda>j. xs ! ((c + j) mod length xs)) [0..<length xs] = rotate c xs"
  by (rule nth_equalityI) (simp_all add: nth_rotate)

lemma sum_list_update_int:
  fixes xs :: "int list"
  shows "k < length xs \<Longrightarrow> sum_list (xs[k := v]) = sum_list xs + v - xs ! k"
  by (induction xs arbitrary: k) (auto split: nat.splits)

lemma sum_list_map2_add:
  fixes xs ys :: "int list"
  shows "length xs = length ys \<Longrightarrow> sum_list (map2 (+) xs ys) = sum_list xs + sum_list ys"
  by (induction xs ys rule: list_induct2) auto

lemma sum_list_nonpos_int:
  fixes xs :: "int list"
  shows "(\<And>i. i < length xs \<Longrightarrow> xs ! i \<le> 0) \<Longrightarrow> sum_list xs \<le> 0"
proof (induction xs)
  case (Cons x xs)
  have "x \<le> 0" using Cons.prems [of 0] by simp
  moreover have "sum_list xs \<le> 0" using Cons.prems [of "Suc i" for i] by (intro Cons.IH) auto
  ultimately show ?case by simp
qed simp

lemma find_SomeD: "List.find P xs = Some x \<Longrightarrow> x \<in> set xs \<and> P x"
  by (auto simp: find_Some_iff)

lemma find_filter_subset:
  assumes "List.find P xs = Some x" "\<And>y. y \<in> set xs \<Longrightarrow> Q y \<Longrightarrow> P y" "Q x"
  shows "List.find Q xs = Some x"
  using assms by (induction xs) (auto split: if_splits)

lemma set_map_filter: "set (List.map_filter f xs) = {y. \<exists>x \<in> set xs. f x = Some y}"
  by (induction xs) (auto split: option.splits)

lemma map_filter_append: "List.map_filter g (xs @ ys) = List.map_filter g xs @ List.map_filter g ys"
  by (induction xs) (auto split: option.splits)

lemma map_filter_map: "List.map_filter g (map f xs) = List.map_filter (\<lambda>x. g (f x)) xs"
  by (induction xs) (auto split: option.splits)

lemma length_map_filter: "length (List.map_filter g xs) \<le> length xs"
  by (induction xs) (auto split: option.splits)

text \<open>Filtering and mapping the values of an association list with distinct keys.\<close>

lemma map_of_map_filter:
  assumes "distinct (map fst al)"
  shows "map_of (List.map_filter (\<lambda>(k, v). map_option (Pair k) (g k v)) al) k = Option.bind (map_of al k) (g k)"
  using assms
proof (induction al)
  case (Cons kv al)
  obtain k' v where kv: "kv = (k', v)" by (cases kv)
  have IH: "map_of (List.map_filter (\<lambda>(k, v). map_option (Pair k) (g k v)) al) k = Option.bind (map_of al k) (g k)"
    using Cons by simp
  have "map_of al k' = None" using Cons.prems kv by (simp add: map_of_eq_None_iff)
  then show ?case using IH kv by (cases "g k' v") (auto simp del: map_of_eq_Some_iff)
qed simp

section \<open>Words\<close>

lemma unat_bound: "unat (w :: 'a::len word) < 2 ^ LENGTH('a)"
  by (rule unsigned_less)

end
