(* ===== verification/Weighted_Selector.thy ===== *)
theory Weighted_Selector
  imports Edgion_Prelude
begin

text \<open>
  The smooth weighted round-robin selector of
  \<^verbatim>\<open>lb/backend_selector/weighted_selector.rs\<close> and the lazily initialised backend selector of
  \<^verbatim>\<open>lb/backend_selector/selector.rs\<close>. The atomic counter is a \<open>usize\<close> that wraps; a selection
  returns the chosen item and the state with the counter advanced.
\<close>

section \<open>The smooth sequence\<close>

text \<open>Step 2 of a round: the first index of the highest current weight.\<close>

fun wrr_scan :: "nat \<Rightarrow> nat \<Rightarrow> int \<Rightarrow> int list \<Rightarrow> nat" where
  "wrr_scan i max_idx max_weight [] = max_idx"
| "wrr_scan i max_idx max_weight (cw # cws) =
     (if cw > max_weight then wrr_scan (Suc i) i cw cws
      else wrr_scan (Suc i) max_idx max_weight cws)"

definition wrr_max_idx :: "int list \<Rightarrow> nat" where
  "wrr_max_idx cws = (case cws of [] \<Rightarrow> 0 | cw # rest \<Rightarrow> wrr_scan 1 0 cw rest)"

text \<open>One round: add the effective weights, pick the maximum, charge it the total weight.\<close>

definition wrr_round :: "int list \<Rightarrow> int \<Rightarrow> int list \<Rightarrow> nat \<times> int list" where
  "wrr_round effective tot cws =
     (let added = map2 (+) cws effective;
          k = wrr_max_idx added
      in (k, added[k := added ! k - tot]))"

fun wrr_rounds :: "nat \<Rightarrow> int list \<Rightarrow> int \<Rightarrow> int list \<Rightarrow> nat list" where
  "wrr_rounds 0 effective tot cws = []"
| "wrr_rounds (Suc n) effective tot cws =
     (let (k, cws') = wrr_round effective tot cws
      in k # wrr_rounds n effective tot cws')"

definition generate_smooth_sequence :: "nat list \<Rightarrow> u16 list" where
  "generate_smooth_sequence weights =
     map word_of_nat
       (wrr_rounds (sum_list weights) (map int weights) (int (sum_list weights))
          (replicate (length weights) 0))"

section \<open>The selector\<close>

record 'a weighted_round_robin =
  wrr_items :: "'a list"
  wrr_sequence :: "u16 list"
  wrr_counter :: u64

definition wrr_new :: "'a list \<Rightarrow> nat list \<Rightarrow> 'a weighted_round_robin option" where
  "wrr_new items weights =
     (if items \<noteq> [] \<and> length items = length weights \<and> length items \<le> 65535
         \<and> sum_list weights > 0
      then Some \<lparr>wrr_items = items, wrr_sequence = generate_smooth_sequence weights,
                 wrr_counter = 0\<rparr>
      else None)"

definition with_equal_weights :: "'a list \<Rightarrow> 'a weighted_round_robin option" where
  "with_equal_weights items = wrr_new items (replicate (length items) 1)"

definition wrr_select_index ::
  "'a weighted_round_robin \<Rightarrow> (nat \<times> 'a weighted_round_robin) option" where
  "wrr_select_index s =
     (let idx = unat (wrr_counter s);
          s' = s\<lparr>wrr_counter := wrr_counter s + 1\<rparr>
      in if wrr_sequence s = [] then None
         else Some (unat (wrr_sequence s ! (idx mod length (wrr_sequence s))), s'))"

definition wrr_select ::
  "'a weighted_round_robin \<Rightarrow> ('a \<times> 'a weighted_round_robin) option" where
  "wrr_select s =
     (case wrr_select_index s of
        None \<Rightarrow> None
      | Some (k, s') \<Rightarrow> (case nth_opt (wrr_items s) k of None \<Rightarrow> None | Some x \<Rightarrow> Some (x, s')))"

section \<open>The lazily initialised backend selector\<close>

datatype 'a selector_state =
    SelectorError nat
  | Single 'a
  | Multiple "'a weighted_round_robin"

type_synonym 'a backend_selector = "'a selector_state option"

definition err_no_backend_refs :: nat where "err_no_backend_refs = 1"
definition err_inconsistent_weight :: nat where "err_inconsistent_weight = 2"

definition valid_items :: "'a list \<Rightarrow> int option list \<Rightarrow> ('a \<times> nat) list" where
  "valid_items items weights =
     List.map_filter
       (\<lambda>(item, weight). let w = case_option 1 id weight
                         in if w > 0 then Some (item, nat w) else None)
       (zip items weights)"

definition create_state :: "'a list \<Rightarrow> int option list \<Rightarrow> 'a selector_state option" where
  "create_state items weights =
     (if items = [] then Some (SelectorError err_no_backend_refs)
      else if (\<exists>w \<in> set weights. w \<noteq> None) \<and> \<not> (\<forall>w \<in> set weights. w \<noteq> None)
      then Some (SelectorError err_inconsistent_weight)
      else case valid_items items weights of
             [] \<Rightarrow> Some (SelectorError err_no_backend_refs)
           | [(item, _)] \<Rightarrow> Some (Single item)
           | vs \<Rightarrow> map_option Multiple (wrr_new (map fst vs) (map snd vs)))"

definition selector_init ::
  "'a backend_selector \<Rightarrow> 'a list \<Rightarrow> int option list \<Rightarrow> 'a backend_selector option" where
  "selector_init sel items weights =
     (if sel \<noteq> None then Some sel else map_option Some (create_state items weights))"

definition selector_select ::
  "'a backend_selector \<Rightarrow> ((nat + 'a) \<times> 'a backend_selector) option" where
  "selector_select sel =
     (case sel of
        None \<Rightarrow> Some (Inl err_no_backend_refs, sel)
      | Some (SelectorError e) \<Rightarrow> Some (Inl e, sel)
      | Some (Single b) \<Rightarrow> Some (Inr b, sel)
      | Some (Multiple w) \<Rightarrow>
          (case wrr_select w of
             None \<Rightarrow> None
           | Some (b, w') \<Rightarrow> Some (Inr b, Some (Multiple w'))))"

section \<open>Correctness of the smooth sequence\<close>

lemma wrr_scan_spec:
  assumes "mi < length pre" "pre ! mi = mw" "\<forall>j < length pre. pre ! j \<le> mw"
    and "r = wrr_scan (length pre) mi mw cs"
  shows "r < length (pre @ cs) \<and> (\<forall>j < length (pre @ cs). (pre @ cs) ! j \<le> (pre @ cs) ! r)"
  using assms
proof (induction cs arbitrary: pre mi mw)
  case (Cons c cs)
  show ?case
  proof (cases "c > mw")
    case True
    have "r < length ((pre @ [c]) @ cs) \<and>
      (\<forall>j < length ((pre @ [c]) @ cs). ((pre @ [c]) @ cs) ! j \<le> ((pre @ [c]) @ cs) ! r)"
      by (rule Cons.IH [of "length pre" _ c])
        (use Cons.prems True in \<open>auto simp: nth_append less_Suc_eq intro: order_trans less_imp_le\<close>)
    then show ?thesis by simp
  next
    case False
    have "r < length ((pre @ [c]) @ cs) \<and>
      (\<forall>j < length ((pre @ [c]) @ cs). ((pre @ [c]) @ cs) ! j \<le> ((pre @ [c]) @ cs) ! r)"
      by (rule Cons.IH [of mi _ mw])
        (use Cons.prems False in \<open>auto simp: nth_append less_Suc_eq\<close>)
    then show ?thesis by simp
  qed
qed simp

lemma wrr_max_idx_spec:
  assumes "cws \<noteq> []"
  shows "wrr_max_idx cws < length cws" "j < length cws \<Longrightarrow> cws ! j \<le> cws ! wrr_max_idx cws"
proof -
  obtain c cs where cs: "cws = c # cs" using assms by (cases cws) auto
  have "wrr_max_idx cws < length ([c] @ cs) \<and>
    (\<forall>j < length ([c] @ cs). ([c] @ cs) ! j \<le> ([c] @ cs) ! wrr_max_idx cws)"
    by (rule wrr_scan_spec [of 0 _ c]) (auto simp: wrr_max_idx_def cs)
  then show "wrr_max_idx cws < length cws" "j < length cws \<Longrightarrow> cws ! j \<le> cws ! wrr_max_idx cws"
    by (auto simp: cs)
qed

text \<open>
  The invariant of the loop: the current weights sum to zero and none has fallen to minus
  the total weight.
\<close>

definition wrr_inv :: "int list \<Rightarrow> int \<Rightarrow> int list \<Rightarrow> bool" where
  "wrr_inv effective tot cws \<longleftrightarrow>
     length cws = length effective \<and> sum_list effective = tot \<and> 0 < tot \<and>
     sum_list cws = 0 \<and>
     (\<forall>i < length effective. 0 \<le> effective ! i \<and> - tot < cws ! i)"

lemma wrr_round_inv:
  assumes inv: "wrr_inv effective tot cws" and r: "wrr_round effective tot cws = (k, cws')"
  shows "k < length effective" "wrr_inv effective tot cws'"
    "i < length effective \<Longrightarrow>
       cws' ! i = cws ! i + effective ! i - (if i = k then tot else 0)"
proof -
  define added where "added = map2 (+) cws effective"
  have len: "length added = length effective" "length cws = length effective"
    using inv by (auto simp: added_def wrr_inv_def)
  have sum: "sum_list added = tot"
    using inv by (simp add: added_def wrr_inv_def sum_list_map2_add)
  have ne: "added \<noteq> []" using sum inv by (auto simp: wrr_inv_def)
  have k: "k = wrr_max_idx added" and c': "cws' = added[k := added ! k - tot]"
    using r by (auto simp: wrr_round_def Let_def added_def)
  have k_less: "k < length added" using wrr_max_idx_spec(1) [OF ne] k by simp
  show "k < length effective" using k_less len by simp
  have pos: "0 < added ! k"
  proof (rule ccontr)
    assume "\<not> 0 < added ! k"
    then have "added ! j \<le> 0" if "j < length added" for j
      using wrr_max_idx_spec(2) [OF ne that] k by auto
    then have "sum_list added \<le> 0" by (rule sum_list_nonpos_int)
    then show False using sum inv by (simp add: wrr_inv_def)
  qed
  have added_nth: "added ! i = cws ! i + effective ! i" if "i < length effective" for i
    using that len by (simp add: added_def)
  show nth: "cws' ! i = cws ! i + effective ! i - (if i = k then tot else 0)"
    if "i < length effective" for i
    using that len k_less by (simp add: c' added_nth nth_list_update)
  show "wrr_inv effective tot cws'"
    unfolding wrr_inv_def
  proof (intro conjI allI impI)
    show "sum_list cws' = 0" using k_less sum by (simp add: c' sum_list_update_int)
    fix i assume i: "i < length effective"
    show "- tot < cws' ! i"
      using nth [OF i] added_nth [OF i] pos inv i
      by (cases "i = k") (auto simp: wrr_inv_def add_strict_increasing2)
  qed (use inv len in \<open>auto simp: wrr_inv_def c'\<close>)
qed

lemma wrr_rounds_inv:
  assumes "wrr_inv effective tot cws"
  shows "length (wrr_rounds n effective tot cws) = n \<and>
    set (wrr_rounds n effective tot cws) \<subseteq> {..<length effective} \<and>
    (\<forall>i < length effective.
       - tot < cws ! i + int n * effective ! i
                 - tot * int (count_list (wrr_rounds n effective tot cws) i))"
  using assms
proof (induction n arbitrary: cws)
  case 0
  then show ?case by (simp add: wrr_inv_def)
next
  case (Suc n)
  obtain k cws' where r: "wrr_round effective tot cws = (k, cws')" by fastforce
  note facts = wrr_round_inv [OF Suc.prems r]
  note IH = Suc.IH [OF facts(2)]
  have "- tot < cws ! i + int (Suc n) * effective ! i
                 - tot * int (count_list (wrr_rounds (Suc n) effective tot cws) i)"
    if "i < length effective" for i
    using IH facts(3) [OF that] that r by (auto simp: algebra_simps split: if_splits)
  then show ?case using IH facts(1) r by simp
qed

lemma wrr_rounds_exact:
  fixes weights :: "nat list"
  assumes pos: "0 < sum_list weights"
  defines "ks \<equiv> wrr_rounds (sum_list weights) (map int weights) (int (sum_list weights))
                   (replicate (length weights) 0)"
  shows "length ks = sum_list weights" "set ks \<subseteq> {..<length weights}"
    "i < length weights \<Longrightarrow> count_list ks i = weights ! i"
proof -
  have sum: "sum_list (map int weights) = int (sum_list weights)"
    by (induction weights) auto
  have inv: "wrr_inv (map int weights) (int (sum_list weights)) (replicate (length weights) 0)"
    using pos by (simp add: wrr_inv_def sum sum_list_replicate)
  show len: "length ks = sum_list weights" using wrr_rounds_inv [OF inv] by (simp add: ks_def)
  show sub: "set ks \<subseteq> {..<length weights}"
    using wrr_rounds_inv [OF inv] by (simp add: ks_def)
  have le: "count_list ks i \<le> weights ! i" if "i < length weights" for i
  proof -
    let ?T = "int (sum_list weights)"
    have "- ?T < ?T * int (weights ! i) - ?T * int (count_list ks i)"
      using wrr_rounds_inv [OF inv, of "sum_list weights"] that by (simp add: ks_def)
    then have "?T * (int (count_list ks i) - int (weights ! i)) < ?T * 1"
      by (simp add: algebra_simps)
    then have "int (count_list ks i) - int (weights ! i) < 1"
      using pos by (simp only: mult_less_cancel_left_pos of_nat_0_less_iff)
    then show ?thesis by simp
  qed
  have totals: "(\<Sum>i<length weights. count_list ks i) = (\<Sum>i<length weights. weights ! i)"
    using sum_count_set [OF sub] len
    by (simp add: sum_list_sum_nth atLeast0LessThan)
  show "count_list ks i = weights ! i" if "i < length weights"
    by (rule sum_mono_inv [OF totals]) (use le that in auto)
qed

section \<open>Fairness of the selector\<close>

lemma sequence_unat:
  assumes "0 < sum_list weights" "length weights \<le> 65535"
  shows "map unat (generate_smooth_sequence weights) =
    wrr_rounds (sum_list weights) (map int weights) (int (sum_list weights))
      (replicate (length weights) 0)"
proof -
  have "unat (word_of_nat k :: u16) = k"
    if "k \<in> set (wrr_rounds (sum_list weights) (map int weights) (int (sum_list weights))
                 (replicate (length weights) 0))" for k
    using that assms(2) wrr_rounds_exact(2) [OF assms(1)]
    by (auto simp: unat_of_nat subset_iff)
  then show ?thesis by (simp add: generate_smooth_sequence_def map_idI)
qed

text \<open>A run of n successive calls of \<open>select_index\<close>.\<close>

fun wrr_run :: "nat \<Rightarrow> 'a weighted_round_robin \<Rightarrow> (nat list \<times> 'a weighted_round_robin) option" where
  "wrr_run 0 s = Some ([], s)"
| "wrr_run (Suc n) s =
     (case wrr_select_index s of
        None \<Rightarrow> None
      | Some (k, s') \<Rightarrow> map_option (\<lambda>(ks, s''). (k # ks, s'')) (wrr_run n s'))"

lemma wrr_run_picks:
  assumes "wrr_sequence s \<noteq> []" "unat (wrr_counter s) + n < 2 ^ 64"
  shows "wrr_run n s =
    Some (map (\<lambda>j. unat (wrr_sequence s ! ((unat (wrr_counter s) + j) mod length (wrr_sequence s)))) [0..<n],
          s\<lparr>wrr_counter := wrr_counter s + word_of_nat n\<rparr>)"
  using assms
proof (induction n arbitrary: s)
  case (Suc n)
  let ?s = "s\<lparr>wrr_counter := wrr_counter s + 1\<rparr>"
  have c: "unat (wrr_counter s + 1) = Suc (unat (wrr_counter s))"
    using Suc.prems(2) by (simp add: unat_word_ariths)
  have "wrr_run n ?s =
    Some (map (\<lambda>j. unat (wrr_sequence s ! ((Suc (unat (wrr_counter s)) + j) mod length (wrr_sequence s)))) [0..<n],
          ?s\<lparr>wrr_counter := wrr_counter s + 1 + word_of_nat n\<rparr>)"
    using Suc.IH [of ?s] Suc.prems c by simp
  then show ?case
    using Suc.prems(1)
    by (simp add: wrr_select_index_def Let_def upt_conv_Cons map_Suc_upt [symmetric] o_def ac_simps
        del: upt_Suc)
qed simp

text \<open>
  C6: over one full cycle of \<open>select_index\<close> calls, started at any counter value that does not
  wrap inside the cycle, every item is selected exactly as often as its weight says, and every
  selection names an existing item.
\<close>

theorem wrr_cycle_fair:
  assumes new: "wrr_new items weights = Some s"
    and no_wrap: "unat c + sum_list weights < 2 ^ 64"
  shows "\<exists>ks s'. wrr_run (sum_list weights) (s\<lparr>wrr_counter := c\<rparr>) = Some (ks, s') \<and>
    length ks = sum_list weights \<and> set ks \<subseteq> {..<length items} \<and>
    (\<forall>i < length items. count_list ks i = weights ! i)"
proof -
  have cond: "length items = length weights" "length weights \<le> 65535" "0 < sum_list weights"
    and seq: "wrr_sequence s = generate_smooth_sequence weights"
    using new by (auto simp: wrr_new_def split: if_splits)
  define xs where "xs = map unat (generate_smooth_sequence weights)"
  note rounds = wrr_rounds_exact [OF cond(3)]
  have len: "length xs = sum_list weights" "length (generate_smooth_sequence weights) = sum_list weights"
    using rounds(1) sequence_unat [OF cond(3,2)] by (simp_all add: xs_def generate_smooth_sequence_def)
  have ne: "generate_smooth_sequence weights \<noteq> []" using len(2) cond(3) by (metis list.size(3) less_irrefl)
  have "wrr_run (sum_list weights) (s\<lparr>wrr_counter := c\<rparr>) =
      Some (rotate (unat c) xs, s\<lparr>wrr_counter := c + word_of_nat (sum_list weights)\<rparr>)"
    using wrr_run_picks [of "s\<lparr>wrr_counter := c\<rparr>" "sum_list weights"] ne no_wrap len cond(3)
      map_nth_mod_rotate [of xs "unat c"]
    by (simp add: seq xs_def)
  moreover have "set xs \<subseteq> {..<length items}"
    using rounds(2) cond(1) sequence_unat [OF cond(3,2)] by (simp add: xs_def)
  moreover have "count_list xs i = weights ! i" if "i < length items" for i
    using rounds(3) that cond(1) sequence_unat [OF cond(3,2)] by (simp add: xs_def)
  ultimately show ?thesis
    using len(1) by (simp add: count_list_rotate)
qed

theorem wrr_cycle_fair_witness:
  "\<exists>s ks s'. wrr_new [''a'', ''b'', ''c''] [3, 1, 2] = Some s \<and>
     wrr_run 6 (s\<lparr>wrr_counter := 7\<rparr>) = Some (ks, s') \<and> count_list ks 2 = 2"
proof -
  obtain s where s: "wrr_new [''a'', ''b'', ''c''] [3, 1, 2] = Some s"
    by (simp add: wrr_new_def)
  obtain ks s' where "wrr_run 6 (s\<lparr>wrr_counter := 7\<rparr>) = Some (ks, s')"
    "\<forall>i < 3. count_list ks i = [3, 1, 2] ! i"
    using wrr_cycle_fair [OF s, of 7] by auto
  moreover have "(2::nat) < 3" by simp
  ultimately show ?thesis using s by fastforce
qed

section \<open>The backend selector\<close>

lemma set_valid_items:
  "(x, w) \<in> set (valid_items items weights) \<longleftrightarrow>
     0 < w \<and> ((x, Some (int w)) \<in> set (zip items weights) \<or>
              w = 1 \<and> (x, None) \<in> set (zip items weights))"
  by (auto simp: valid_items_def map_filter_def Let_def split: option.splits if_splits
      intro: rev_image_eqI)

lemma wrr_select_in_items:
  "wrr_select s = Some (x, s') \<Longrightarrow> x \<in> set (wrr_items s) \<and> wrr_items s' = wrr_items s"
  by (auto simp: wrr_select_def wrr_select_index_def Let_def split: option.splits if_splits)

definition wrr_wf :: "'a weighted_round_robin \<Rightarrow> bool" where
  "wrr_wf s \<longleftrightarrow> wrr_sequence s \<noteq> [] \<and> (\<forall>k \<in> set (wrr_sequence s). unat k < length (wrr_items s))"

lemma wrr_new_wf [wf_intros]:
  assumes "wrr_new items weights = Some s"
  shows "wrr_wf s" "wrr_items s = items"
proof -
  have cond: "length items = length weights" "length weights \<le> 65535" "0 < sum_list weights"
    and s: "wrr_sequence s = generate_smooth_sequence weights" "wrr_items s = items"
    using assms by (auto simp: wrr_new_def split: if_splits)
  have "set (map unat (wrr_sequence s)) \<subseteq> {..<length items}"
    using wrr_rounds_exact(2) [OF cond(3)] sequence_unat [OF cond(3,2)] cond(1) s(1) by simp
  moreover have "length (map unat (wrr_sequence s)) = sum_list weights"
    using wrr_rounds_exact(1) [OF cond(3)] sequence_unat [OF cond(3,2)] s(1) by simp
  ultimately have "wrr_sequence s \<noteq> []" "\<forall>k \<in> set (wrr_sequence s). unat k < length items"
    using cond(3) by (metis less_irrefl list.simps(8) list.size(3), auto)
  then show "wrr_wf s" "wrr_items s = items"
    using s(2) by (auto simp: wrr_wf_def)
qed

lemma wrr_select_wf [wf_intros]:
  assumes "wrr_wf s"
  shows "\<exists>x s'. wrr_select s = Some (x, s') \<and> x \<in> set (wrr_items s) \<and>
    wrr_wf s' \<and> wrr_items s' = wrr_items s"
proof -
  have "wrr_sequence s ! (unat (wrr_counter s) mod length (wrr_sequence s)) \<in> set (wrr_sequence s)"
    using assms by (intro nth_mem) (simp add: wrr_wf_def)
  then show ?thesis
    using assms
    by (auto simp: wrr_select_def wrr_select_index_def wrr_wf_def Let_def nth_opt_def)
qed

text \<open>A run of n successive \<open>select\<close> calls on an initialised selector.\<close>

fun selector_run :: "nat \<Rightarrow> 'a backend_selector \<Rightarrow> ((nat + 'a) list \<times> 'a backend_selector) option" where
  "selector_run 0 sel = Some ([], sel)"
| "selector_run (Suc n) sel =
     (case selector_select sel of
        None \<Rightarrow> None
      | Some (r, sel') \<Rightarrow> map_option (\<lambda>(rs, sel''). (r # rs, sel'')) (selector_run n sel'))"

definition weights_consistent :: "int option list \<Rightarrow> bool" where
  "weights_consistent weights \<longleftrightarrow> (\<forall>w \<in> set weights. w = None) \<or> (\<forall>w \<in> set weights. w \<noteq> None)"

text \<open>What one call may answer for a configuration.\<close>

definition selection_allowed :: "'a list \<Rightarrow> int option list \<Rightarrow> nat + 'a \<Rightarrow> bool" where
  "selection_allowed items weights r \<longleftrightarrow>
     (case r of
        Inr b \<Rightarrow> weights_consistent weights \<and> (\<exists>w. (b, w) \<in> set (valid_items items weights))
      | Inl e \<Rightarrow> (e = err_no_backend_refs \<and> valid_items items weights = [] \<and>
                    (items = [] \<or> weights_consistent weights)) \<or>
                 (e = err_inconsistent_weight \<and> \<not> weights_consistent weights))"

definition selector_inv :: "'a list \<Rightarrow> int option list \<Rightarrow> 'a selector_state \<Rightarrow> bool" where
  "selector_inv items weights st \<longleftrightarrow>
     (case st of
        SelectorError e \<Rightarrow> selection_allowed items weights (Inl e)
      | Single b \<Rightarrow> selection_allowed items weights (Inr b)
      | Multiple w \<Rightarrow> wrr_wf w \<and> (\<forall>b \<in> set (wrr_items w). selection_allowed items weights (Inr b)))"

lemma valid_items_bounds:
  "length (valid_items items weights) \<le> length items"
  "(x, w) \<in> set (valid_items items weights) \<Longrightarrow> 0 < w"
  by (auto simp: valid_items_def map_filter_def Let_def intro: order_trans [OF length_filter_le]
      split: if_splits)

lemma wrr_new_valid_items:
  assumes "vs = valid_items items weights" "vs \<noteq> []" "length items \<le> 65535"
  shows "\<exists>s. wrr_new (map fst vs) (map snd vs) = Some s"
proof -
  have "0 < snd (hd vs)" "snd (hd vs) \<in> set (map snd vs)"
    using assms(1,2) valid_items_bounds(2) [of "fst (hd vs)" "snd (hd vs)" items weights] by auto
  then have "0 < sum_list (map snd vs)"
    using member_le_sum_list [of "snd (hd vs)" "map snd vs"] by linarith
  then show ?thesis
    using assms valid_items_bounds(1) [of items weights] by (auto simp: wrr_new_def)
qed

lemma create_state_inv:
  assumes "length items \<le> 65535"
  shows "\<exists>st. create_state items weights = Some st \<and> selector_inv items weights st"
proof (cases "items = [] \<or> \<not> weights_consistent weights")
  case True
  then show ?thesis
    by (auto simp: create_state_def selector_inv_def selection_allowed_def valid_items_def
        weights_consistent_def map_filter_def)
next
  case False
  then have cons: "weights_consistent weights" and ne: "items \<noteq> []" by auto
  have skip: "\<not> ((\<exists>w \<in> set weights. w \<noteq> None) \<and> \<not> (\<forall>w \<in> set weights. w \<noteq> None))"
    using cons by (auto simp: weights_consistent_def)
  have ok: "selection_allowed items weights (Inr b)" if "b \<in> fst ` set (valid_items items weights)" for b
    using that cons by (auto simp: selection_allowed_def)
  show ?thesis
  proof (cases "valid_items items weights" rule: remdups_adj.cases)
    case 1
    then show ?thesis using skip ne cons
      by (auto simp: create_state_def selector_inv_def selection_allowed_def)
  next
    case (2 v)
    then show ?thesis using skip ne ok [of "fst v"]
      by (cases v) (auto simp: create_state_def selector_inv_def)
  next
    case (3 v v' vs)
    then obtain s where s: "wrr_new (map fst (v # v' # vs)) (map snd (v # v' # vs)) = Some s"
      using wrr_new_valid_items [OF refl _ assms, of weights] by auto
    have "create_state items weights = Some (Multiple s)"
      using skip ne 3 s by (cases v) (auto simp: create_state_def)
    moreover have "selector_inv items weights (Multiple s)"
      using wrr_new_wf [OF s] ok 3 by (auto simp: selector_inv_def)
    ultimately show ?thesis by blast
  qed
qed

lemma selector_run_inv:
  assumes "selector_inv items weights st"
  shows "\<exists>rs st'. selector_run n (Some st) = Some (rs, Some st') \<and>
    selector_inv items weights st' \<and> (\<forall>r \<in> set rs. selection_allowed items weights r)"
  using assms
proof (induction n arbitrary: st)
  case (Suc n)
  obtain r st1 where one: "selector_select (Some st) = Some (r, Some st1)"
    "selector_inv items weights st1" "selection_allowed items weights r"
  proof (cases st)
    case (Multiple w)
    then have "wrr_wf w" using Suc.prems by (simp add: selector_inv_def)
    from wrr_select_wf [OF this] obtain x w' where
      "wrr_select w = Some (x, w')" "x \<in> set (wrr_items w)" "wrr_wf w'" "wrr_items w' = wrr_items w"
      by blast
    then show ?thesis
      using that [of "Inr x" "Multiple w'"] Suc.prems Multiple
      by (simp add: selector_select_def selector_inv_def)
  qed (use that Suc.prems in \<open>auto simp: selector_select_def selector_inv_def\<close>)
  then show ?case using Suc.IH [OF one(2)] by auto
qed simp



end
