(* ===== verification/Lb_Selection.thy ===== *)
theory Lb_Selection
  imports Edgion_Prelude
begin

text \<open>
  The per-service selection algorithms of \<open>src/src/core/gateway/lb/selection/\<close>: the weighted
  round robin selector with its fallback walk (\<open>round_robin.rs\<close>) and the consistent hash ring
  (\<open>consistent_hash.rs\<close>). The ketama ring itself is a third-party structure: its constructor,
  \<open>node_idx\<close> and \<open>get_addr\<close> are parameters. Backend addresses are an ordered type, and the
  test for an IP address (\<open>SocketAddr::Inet\<close>) is the parameter \<open>inet\<close>.

  The locale \<open>lb_strategy\<close> is the contract of a selection algorithm: it only returns a healthy
  candidate, and it returns one whenever there is one.
\<close>

section \<open>Backends\<close>

datatype 'a backend = Backend (b_addr: 'a) (b_weight: nat)

text \<open>The derived order of \<open>Backend\<close>: address first, then weight.\<close>

instantiation backend :: (linorder) linorder
begin

definition less_eq_backend :: "'a backend \<Rightarrow> 'a backend \<Rightarrow> bool" where
  "less_eq_backend a b \<longleftrightarrow> (b_addr a, b_weight a) \<le> (b_addr b, b_weight b)"

definition less_backend :: "'a backend \<Rightarrow> 'a backend \<Rightarrow> bool" where
  "less_backend a b \<longleftrightarrow> (b_addr a, b_weight a) < (b_addr b, b_weight b)"

instance
proof
  fix x y z :: "'a backend"
  show "(x < y) = (x \<le> y \<and> \<not> y \<le> x)"
    by (simp add: less_backend_def less_eq_backend_def less_le_not_le)
  show "x \<le> x" by (simp add: less_eq_backend_def)
  show "x \<le> y \<Longrightarrow> y \<le> z \<Longrightarrow> x \<le> z"
    unfolding less_eq_backend_def by (rule order_trans)
  show "x \<le> y \<Longrightarrow> y \<le> x \<Longrightarrow> x = y"
    unfolding less_eq_backend_def by (cases x; cases y) auto
  show "x \<le> y \<or> y \<le> x" unfolding less_eq_backend_def by (rule linear)
qed

end

section \<open>Weighted round robin with fallback\<close>

record 'a rr_selector =
  rr_backends :: "'a backend list"
  rr_weighted :: "u16 list"
  rr_counter :: u64

definition rr_expand :: "'a backend list \<Rightarrow> u16 list" where
  "rr_expand bs =
     concat (map (\<lambda>(index, b). replicate (max (b_weight b) 1) (of_nat index)) (enumerate 0 bs))"

text \<open>The assertion on the number of backends is the \<open>None\<close> branch.\<close>

definition rr_build :: "'a::linorder backend list \<Rightarrow> 'a rr_selector option" where
  "rr_build backends =
     (if length backends \<le> 65535
      then let bs = sort_key b_addr backends
           in Some \<lparr>rr_backends = bs, rr_weighted = rr_expand bs, rr_counter = 0\<rparr>
      else None)"

definition rr_fallback :: "'a backend list \<Rightarrow> nat \<Rightarrow> nat \<Rightarrow> ('a backend \<Rightarrow> bool) \<Rightarrow> 'a backend option" where
  "rr_fallback bs offset n healthy =
     List.find healthy (map (\<lambda>step. bs ! ((offset + step) mod length bs)) [1..<n])"

definition rr_select ::
  "'a rr_selector \<Rightarrow> nat \<Rightarrow> ('a backend \<Rightarrow> bool) \<Rightarrow> ('a backend option \<times> 'a rr_selector) option" where
  "rr_select s max_iterations healthy =
     (if rr_weighted s = [] then Some (None, s)
      else
        let start = unat (rr_counter s);
            s' = s\<lparr>rr_counter := rr_counter s + 1\<rparr>;
            wlen = length (rr_weighted s);
            blen = length (rr_backends s);
            idx = unat (rr_weighted s ! (start mod wlen))
        in case nth_opt (rr_backends s) idx of
             None \<Rightarrow> None
           | Some b \<Rightarrow>
               if healthy b then Some (Some b, s')
               else Some (rr_fallback (rr_backends s) (start mod blen) (min max_iterations blen) healthy, s'))"

section \<open>Consistent hashing\<close>

record ('a, 's, 'r) hash_ring =
  ch_ring :: 'r
  ch_backends :: "'a backend list"
  ch_addr_to_idx :: "'s \<rightharpoonup> nat"

definition ch_build ::
  "('a \<Rightarrow> 's option) \<Rightarrow> (('s \<times> nat) list \<Rightarrow> 'r) \<Rightarrow> 'a backend list \<Rightarrow> ('a, 's, 'r) hash_ring" where
  "ch_build inet continuum_new backends =
     \<lparr>ch_ring = continuum_new
        (List.map_filter (\<lambda>b. map_option (\<lambda>addr. (addr, max (b_weight b) 1)) (inet (b_addr b))) backends),
      ch_backends = backends,
      ch_addr_to_idx = fold (\<lambda>(i, b) m. case inet (b_addr b) of None \<Rightarrow> m | Some addr \<Rightarrow> m(addr \<mapsto> i))
        (enumerate 0 backends) Map.empty\<rparr>"

text \<open>
  The loop of \<open>select\<close>: \<open>steps\<close> is what is left of \<open>max_iterations\<close>, and \<open>get_addr\<close> returns
  the address at a ring position together with the next position.
\<close>

fun ch_walk ::
  "(nat \<Rightarrow> ('s \<times> nat) option) \<Rightarrow> 'a backend list \<Rightarrow> ('s \<rightharpoonup> nat) \<Rightarrow> ('a backend \<Rightarrow> bool) \<Rightarrow>
   nat \<Rightarrow> nat set \<Rightarrow> nat \<Rightarrow> 'a backend option" where
  "ch_walk get_addr bs to_idx healthy idx seen 0 = None"
| "ch_walk get_addr bs to_idx healthy idx seen (Suc steps) =
     (case get_addr idx of
        None \<Rightarrow> None
      | Some (addr, idx') \<Rightarrow>
          (case to_idx addr of
             None \<Rightarrow> ch_walk get_addr bs to_idx healthy idx' seen steps
           | Some i \<Rightarrow>
               if i \<in> seen then ch_walk get_addr bs to_idx healthy idx' seen steps
               else if healthy (bs ! i) then Some (bs ! i)
               else ch_walk get_addr bs to_idx healthy idx' (insert i seen) steps))"

definition ch_select ::
  "('r \<Rightarrow> u8 list \<Rightarrow> nat) \<Rightarrow> ('r \<Rightarrow> nat \<Rightarrow> ('s \<times> nat) option) \<Rightarrow> ('a, 's, 'r) hash_ring \<Rightarrow>
   u8 list \<Rightarrow> nat \<Rightarrow> ('a backend \<Rightarrow> bool) \<Rightarrow> 'a backend option" where
  "ch_select node_idx get_addr c hash_key max_iterations healthy =
     (if ch_backends c = [] then None
      else ch_walk (get_addr (ch_ring c)) (ch_backends c) (ch_addr_to_idx c) healthy
             (node_idx (ch_ring c) hash_key) {} max_iterations)"

section \<open>The contract of a selection algorithm\<close>

locale lb_strategy =
  fixes select :: "'s \<Rightarrow> ('b \<Rightarrow> bool) \<Rightarrow> 'b option"
    and candidates :: "'s \<Rightarrow> 'b set"
    and admissible :: "'s \<Rightarrow> bool"
  assumes select_sound: "admissible s \<Longrightarrow> select s h = Some b \<Longrightarrow> b \<in> candidates s \<and> h b"
    and select_complete: "admissible s \<Longrightarrow> b \<in> candidates s \<Longrightarrow> h b \<Longrightarrow> select s h \<noteq> None"
begin

lemma select_None_iff:
  "admissible s \<Longrightarrow> select s h = None \<longleftrightarrow> (\<forall>b \<in> candidates s. \<not> h b)"
  using select_sound select_complete by (metis not_None_eq)

lemma select_Some_iff:
  "admissible s \<Longrightarrow> (\<exists>b. select s h = Some b) \<longleftrightarrow> (\<exists>b \<in> candidates s. h b)"
  using select_None_iff [of s h] by auto

text \<open>A backend that becomes healthy never makes a selection fail.\<close>

lemma select_mono:
  assumes "admissible s" "select s h \<noteq> None" "\<And>b. b \<in> candidates s \<Longrightarrow> h b \<Longrightarrow> h' b"
  shows "select s h' \<noteq> None"
proof -
  obtain b where "b \<in> candidates s" "h b"
    using assms(2) select_None_iff [OF assms(1), of h] by auto
  then show ?thesis using assms(1,3) select_complete by blast
qed

end

section \<open>Lemmas on round robin\<close>

definition rr_wf :: "'a rr_selector \<Rightarrow> bool" where
  "rr_wf s \<longleftrightarrow> rr_weighted s = rr_expand (rr_backends s) \<and> length (rr_backends s) \<le> 65535"

lemma rr_build_wf [wf_intros]:
  assumes "rr_build bs = Some s"
  shows "rr_wf s" "rr_backends s = sort_key b_addr bs" "rr_counter s = 0"
  using assms by (auto simp: rr_build_def rr_wf_def Let_def split: if_splits)

lemma rr_select_wf [wf_intros]:
  assumes "rr_wf s" "rr_select s m h = Some (r, s')"
  shows "rr_wf s'" "rr_backends s' = rr_backends s"
  using assms by (auto simp: rr_select_def rr_wf_def Let_def split: if_splits option.splits)

lemma rr_expand_eq_Nil_iff [simp]: "rr_expand bs = [] \<longleftrightarrow> bs = []"
proof (cases bs)
  case (Cons b bs')
  then show ?thesis by (simp add: rr_expand_def)
qed (simp add: rr_expand_def)

lemma enumerate_nth_mem: "(i, b) \<in> set (enumerate 0 bs) \<longleftrightarrow> i < length bs \<and> bs ! i = b"
  by (auto simp: in_set_enumerate_eq)

lemma rr_expand_range:
  assumes "w \<in> set (rr_expand bs)" "length bs \<le> 65535"
  shows "unat w < length bs"
  using assms by (auto simp: rr_expand_def enumerate_nth_mem unat_of_nat)

lemma rr_idx_less:
  assumes "rr_wf s" "rr_backends s \<noteq> []"
  shows "unat (rr_weighted s ! (k mod length (rr_weighted s))) < length (rr_backends s)"
  using assms by (intro rr_expand_range) (auto simp: rr_wf_def)

lemma rr_fallback_sound:
  assumes "rr_fallback bs off n h = Some b" "bs \<noteq> []"
  shows "b \<in> set bs" "h b"
  using assms by (auto simp: rr_fallback_def find_Some_iff)

text \<open>The positions walked by the fallback are all positions but its offset.\<close>

lemma walk_positions:
  fixes n off :: nat
  assumes "off < n"
  shows "(\<lambda>step. (off + step) mod n) ` {1..<n} = {..<n} - {off}"
proof
  show "(\<lambda>step. (off + step) mod n) ` {1..<n} \<subseteq> {..<n} - {off}"
  proof
    fix i assume "i \<in> (\<lambda>step. (off + step) mod n) ` {1..<n}"
    then obtain st where st: "1 \<le> st" "st < n" "i = (off + st) mod n" by auto
    have "(off + st) mod n \<noteq> off"
      using st assms by (cases "off + st < n") (auto simp: mod_if [of "off + st"])
    then show "i \<in> {..<n} - {off}" using st assms by auto
  qed
next
  show "{..<n} - {off} \<subseteq> (\<lambda>step. (off + step) mod n) ` {1..<n}"
  proof
    fix i assume i: "i \<in> {..<n} - {off}"
    show "i \<in> (\<lambda>step. (off + step) mod n) ` {1..<n}"
    proof (cases "off < i")
      case True
      then show ?thesis using i by (intro image_eqI [of _ _ "i - off"]) auto
    next
      case False
      then have "(off + (n + i - off)) mod n = i" "n + i - off < n" "1 \<le> n + i - off"
        using i assms by auto
      then show ?thesis by (intro image_eqI [of _ _ "n + i - off"]) auto
    qed
  qed
qed

lemma rr_fallback_None:
  assumes "rr_fallback bs off (min m (length bs)) h = None" "length bs \<le> m" "off < length bs"
    and "i < length bs" "i \<noteq> off"
  shows "\<not> h (bs ! i)"
proof -
  have "i \<in> (\<lambda>step. (off + step) mod length bs) ` {1..<length bs}"
    using walk_positions [OF assms(3)] assms(4,5) by simp
  then obtain st where "1 \<le> st" "st < length bs" "i = (off + st) mod length bs" by auto
  then show ?thesis using assms by (auto simp: rr_fallback_def find_None_iff)
qed

lemma rr_expand_uniform:
  assumes "\<forall>b \<in> set bs. b_weight b \<le> 1"
  shows "rr_expand bs = map of_nat [0..<length bs]"
proof -
  have "map (\<lambda>(i, b). replicate (max (b_weight b) 1) (of_nat i :: u16)) (enumerate k bs)
      = map (\<lambda>i. [of_nat i]) [k..<k + length bs]" for k
    using assms
  proof (induction bs arbitrary: k)
    case (Cons b bs)
    have "max (b_weight b) 1 = 1" using Cons.prems by (simp add: max_def)
    moreover have "[k..<k + length (b # bs)] = k # [Suc k..<Suc k + length bs]"
      by (simp add: upt_conv_Cons del: upt_Suc)
    ultimately show ?case using Cons.IH [of "Suc k"] Cons.prems by (simp del: upt_Suc)
  qed simp
  from this [of 0] have "rr_expand bs = concat (map (\<lambda>i. [of_nat i]) [0..<length bs])"
    unfolding rr_expand_def by simp
  then show ?thesis by simp
qed

text \<open>What one call does: the weighted pick when it is healthy, otherwise the walk.\<close>

lemma rr_select_cases:
  assumes wf: "rr_wf s" and ne: "rr_backends s \<noteq> []"
  defines "start \<equiv> unat (rr_counter s)"
  defines "pick \<equiv> rr_backends s ! unat (rr_weighted s ! (start mod length (rr_weighted s)))"
  shows "rr_select s m h =
    Some (if h pick then Some pick
          else rr_fallback (rr_backends s) (start mod length (rr_backends s))
                 (min m (length (rr_backends s))) h,
          s\<lparr>rr_counter := rr_counter s + 1\<rparr>)"
  using rr_idx_less [OF wf ne, of start] wf ne
  by (simp add: rr_select_def rr_wf_def start_def pick_def Let_def nth_opt_def)

lemma rr_select_sound:
  assumes "rr_wf s" "rr_select s m h = Some (Some b, s')"
  shows "b \<in> set (rr_backends s)" "h b"
proof -
  have ne: "rr_backends s \<noteq> []"
    using assms by (auto simp: rr_select_def rr_wf_def)
  show "b \<in> set (rr_backends s)" "h b"
    using assms(2) rr_idx_less [OF assms(1) ne]
    by (auto simp: rr_select_cases [OF assms(1) ne] split: if_splits dest: rr_fallback_sound [OF _ ne])
qed

lemma rr_select_total:
  assumes "rr_wf s"
  shows "\<exists>r s'. rr_select s m h = Some (r, s')"
proof (cases "rr_backends s = []")
  case True
  then show ?thesis using assms by (simp add: rr_select_def rr_wf_def)
qed (simp add: rr_select_cases [OF assms])

text \<open>Only the backend at the position of the raw counter can be missed.\<close>

lemma rr_select_None:
  assumes "rr_wf s" "rr_select s m h = Some (None, s')" "length (rr_backends s) \<le> m"
    and "i < length (rr_backends s)" "i \<noteq> unat (rr_counter s) mod length (rr_backends s)"
  shows "\<not> h (rr_backends s ! i)"
proof -
  have ne: "rr_backends s \<noteq> []" using assms(4) by auto
  show ?thesis
    using assms(2) rr_fallback_None [OF _ assms(3) _ assms(4,5), of h] ne
    by (auto simp: rr_select_cases [OF assms(1) ne] split: if_splits)
qed

definition rr_uniform :: "'a rr_selector \<Rightarrow> bool" where
  "rr_uniform s \<longleftrightarrow> rr_wf s \<and> (\<forall>b \<in> set (rr_backends s). b_weight b \<le> 1)"

lemma rr_uniform_pick:
  assumes "rr_uniform s" "rr_backends s \<noteq> []"
  shows "unat (rr_weighted s ! (k mod length (rr_weighted s))) = k mod length (rr_backends s)"
proof -
  have w: "rr_weighted s = map of_nat [0..<length (rr_backends s)]"
    using assms rr_expand_uniform [of "rr_backends s"] by (simp add: rr_uniform_def rr_wf_def)
  have "k mod length (rr_backends s) < 65536"
    using assms by (intro le_less_trans [OF mod_le_divisor])
      (auto simp: rr_uniform_def rr_wf_def)
  then show ?thesis using w assms(2) by (simp add: unat_of_nat)
qed

lemma rr_select_uniform_complete:
  assumes u: "rr_uniform s" and m: "length (rr_backends s) \<le> m"
    and b: "b \<in> set (rr_backends s)" "h b"
  shows "\<exists>b' s'. rr_select s m h = Some (Some b', s')"
proof -
  have wf: "rr_wf s" and ne: "rr_backends s \<noteq> []" using u b by (auto simp: rr_uniform_def)
  obtain r s' where r: "rr_select s m h = Some (r, s')" using rr_select_total [OF wf] by blast
  obtain i where i: "i < length (rr_backends s)" "rr_backends s ! i = b"
    using b(1) by (auto simp: in_set_conv_nth)
  have "r \<noteq> None"
  proof
    assume None: "r = None"
    have "i = unat (rr_counter s) mod length (rr_backends s)"
      using rr_select_None [OF wf r [unfolded None] m i(1)] i(2) b(2) by auto
    then show False
      using r None i b(2) rr_uniform_pick [OF u ne]
      by (auto simp: rr_select_cases [OF wf ne] split: if_splits)
  qed
  then show ?thesis using r by auto
qed

interpretation rr: lb_strategy
  "\<lambda>(s, m) h. Option.bind (rr_select s m h) fst"
  "\<lambda>(s, m). set (rr_backends s)"
  "\<lambda>(s, m). rr_uniform s \<and> length (rr_backends s) \<le> m"
proof (unfold_locales; clarsimp split: prod.splits)
  fix s m h and b :: "'a backend"
  assume "rr_uniform s" "Option.bind (rr_select s m h) fst = Some b"
  then show "b \<in> set (rr_backends s) \<and> h b"
    using rr_select_sound [of s m h b] by (auto simp: rr_uniform_def bind_eq_Some_conv)
next
  fix s m h and b :: "'a backend"
  assume "rr_uniform s" "length (rr_backends s) \<le> m" "b \<in> set (rr_backends s)" "h b"
  then show "\<exists>y. Option.bind (rr_select s m h) fst = Some y"
    using rr_select_uniform_complete [of s m b h] by auto
qed

text \<open>A run of n successive calls.\<close>

fun rr_run :: "nat \<Rightarrow> 'a rr_selector \<Rightarrow> nat \<Rightarrow> ('a backend \<Rightarrow> bool) \<Rightarrow> 'a backend option list option" where
  "rr_run 0 s m h = Some []"
| "rr_run (Suc n) s m h =
     (case rr_select s m h of None \<Rightarrow> None | Some (r, s') \<Rightarrow> map_option ((#) r) (rr_run n s' m h))"

lemma rr_run_healthy:
  assumes "rr_wf s" "rr_backends s \<noteq> []" "unat (rr_counter s) + n < 2 ^ 64"
  shows "rr_run n s m (\<lambda>_. True) =
    Some (map (\<lambda>j. Some (rr_backends s ! unat (rr_weighted s !
      ((unat (rr_counter s) + j) mod length (rr_weighted s))))) [0..<n])"
  using assms
proof (induction n arbitrary: s)
  case (Suc n)
  let ?s = "s\<lparr>rr_counter := rr_counter s + 1\<rparr>"
  have c: "unat (rr_counter s + 1) = Suc (unat (rr_counter s))"
    using Suc.prems(3) by (simp add: unat_word_ariths)
  have "rr_run n ?s m (\<lambda>_. True) =
    Some (map (\<lambda>j. Some (rr_backends s ! unat (rr_weighted s !
      ((Suc (unat (rr_counter s)) + j) mod length (rr_weighted s))))) [0..<n])"
    using Suc.IH [of ?s] Suc.prems c by (simp add: rr_wf_def)
  then show ?case
    using Suc.prems(1,2)
    by (simp add: rr_select_cases upt_conv_Cons map_Suc_upt [symmetric] o_def del: upt_Suc)
qed simp

lemma rr_expand_backends:
  assumes "length bs \<le> 65535"
  shows "map (\<lambda>w. bs ! unat w) (rr_expand bs) = concat (map (\<lambda>b. replicate (max (b_weight b) 1) b) bs)"
proof -
  have "map (\<lambda>w. bs ! unat w) (rr_expand bs) =
      concat (map (\<lambda>(i, b). replicate (max (b_weight b) 1) b) (enumerate 0 bs))"
    using assms
    by (auto simp: rr_expand_def map_concat comp_def enumerate_nth_mem unat_of_nat
        intro!: arg_cong [where f = concat])
  also have "\<dots> = concat (map ((\<lambda>b. replicate (max (b_weight b) 1) b) \<circ> snd) (enumerate 0 bs))"
    by (simp add: case_prod_beta' comp_def)
  finally show ?thesis by (simp only: map_map [symmetric] map_snd_enumerate)
qed

lemma count_list_replicate [simp]: "count_list (replicate n x) y = (if x = y then n else 0)"
  by (induction n) auto

lemma count_list_concat_replicate:
  "count_list (concat (map (\<lambda>b. replicate (f b) b) bs)) b = count_list bs b * f b"
  by (induction bs) auto

lemma count_list_map_Some [simp]: "count_list (map Some xs) (Some x) = count_list xs x"
  by (induction xs) auto

lemma count_list_insort_key: "count_list (insort_key f a xs) x = count_list (a # xs) x"
  by (induction xs) auto

lemma count_list_sort_key [simp]: "count_list (sort_key f xs) x = count_list xs x"
  by (induction xs) (simp_all add: count_list_insort_key)

section \<open>Lemmas on consistent hashing\<close>

text \<open>The addresses the ring walk visits in at most n steps.\<close>

fun ring_visits :: "(nat \<Rightarrow> ('s \<times> nat) option) \<Rightarrow> nat \<Rightarrow> nat \<Rightarrow> 's list" where
  "ring_visits get_addr idx 0 = []"
| "ring_visits get_addr idx (Suc n) =
     (case get_addr idx of None \<Rightarrow> [] | Some (addr, idx') \<Rightarrow> addr # ring_visits get_addr idx' n)"

text \<open>The set of seen backends is only an optimisation: the walk finds the first healthy one.\<close>

lemma ch_walk_find:
  assumes "\<forall>i \<in> seen. \<not> h (bs ! i)"
  shows "ch_walk get_addr bs to_idx h idx seen n =
    List.find h (map (nth bs) (List.map_filter to_idx (ring_visits get_addr idx n)))"
  using assms
proof (induction n arbitrary: idx seen)
  case (Suc n)
  then show ?case
    by (auto split: option.splits)
qed (simp add: List.map_filter_def)

lemma addr_to_idx_fold:
  assumes "\<forall>a i. m a = Some i \<longrightarrow> i < k \<and> P a i"
    and "\<forall>j b a. j < length bs \<longrightarrow> bs ! j = b \<longrightarrow> inet (b_addr b) = Some a \<longrightarrow> P a (k + j)"
    and "fold (\<lambda>(i, b) m. case inet (b_addr b) of None \<Rightarrow> m | Some a \<Rightarrow> m(a \<mapsto> i)) (enumerate k bs) m a = Some i"
  shows "i < k + length bs \<and> P a i"
  using assms
proof (induction bs arbitrary: k m)
  case (Cons b bs)
  let ?m = "case inet (b_addr b) of None \<Rightarrow> m | Some a \<Rightarrow> m(a \<mapsto> k)"
  have "\<forall>a i. ?m a = Some i \<longrightarrow> i < Suc k \<and> P a i"
    using Cons.prems(1) Cons.prems(2) [rule_format, of 0 b]
    by (auto split: option.splits if_splits intro: less_SucI)
  moreover have "\<forall>j b a. j < length bs \<longrightarrow> bs ! j = b \<longrightarrow> inet (b_addr b) = Some a \<longrightarrow> P a (Suc k + j)"
    using Cons.prems(2) [rule_format, of "Suc _"] by auto
  ultimately have "i < Suc k + length bs \<and> P a i"
    using Cons.IH [of ?m "Suc k"] Cons.prems(3) by simp
  then show ?case by simp
qed auto

lemma ch_addr_to_idx_sound:
  assumes "ch_addr_to_idx (ch_build inet cn bs) a = Some i"
  shows "i < length bs" "inet (b_addr (bs ! i)) = Some a"
  using addr_to_idx_fold [of Map.empty 0 "\<lambda>a i. inet (b_addr (bs ! i)) = Some a" bs inet a i] assms
  by (auto simp: ch_build_def)

lemma addr_to_idx_fold_dom:
  "dom (fold (\<lambda>(i, b) m. case inet (b_addr b) of None \<Rightarrow> m | Some a \<Rightarrow> m(a \<mapsto> i)) (enumerate k bs) m)
   = dom m \<union> {a. \<exists>b \<in> set bs. inet (b_addr b) = Some a}"
  by (induction bs arbitrary: k m) (auto split: option.splits)

lemma ch_addr_to_idx_dom:
  "dom (ch_addr_to_idx (ch_build inet cn bs)) = {a. \<exists>b \<in> set bs. inet (b_addr b) = Some a}"
  using addr_to_idx_fold_dom [of inet 0 bs Map.empty] by (simp add: ch_build_def)

definition ch_covers ::
  "('a \<Rightarrow> 's option) \<Rightarrow> ('r \<Rightarrow> u8 list \<Rightarrow> nat) \<Rightarrow> ('r \<Rightarrow> nat \<Rightarrow> ('s \<times> nat) option) \<Rightarrow>
   ('a, 's, 'r) hash_ring \<Rightarrow> u8 list \<Rightarrow> nat \<Rightarrow> bool" where
  "ch_covers inet node_idx get_addr c hash_key m \<longleftrightarrow>
     (\<forall>b \<in> set (ch_backends c). \<exists>a. inet (b_addr b) = Some a \<and>
        a \<in> set (ring_visits (get_addr (ch_ring c)) (node_idx (ch_ring c) hash_key) m))"

lemma ch_build_sel [simp]:
  "ch_backends (ch_build inet cn bs) = bs"
  by (simp add: ch_build_def)

lemma ch_select_find:
  assumes "bs \<noteq> []" "c = ch_build inet cn bs"
  shows "ch_select node_idx get_addr c key m h =
    List.find h (map (nth bs) (List.map_filter (ch_addr_to_idx c)
      (ring_visits (get_addr (ch_ring c)) (node_idx (ch_ring c) key) m)))"
  using assms by (simp add: ch_select_def ch_walk_find)

lemma ch_select_sound:
  assumes "ch_select node_idx get_addr (ch_build inet cn bs) key m h = Some b"
  shows "b \<in> set bs \<and> h b"
proof -
  have ne: "bs \<noteq> []" using assms by (auto simp: ch_select_def)
  show ?thesis
    using assms find_SomeD [of h] ch_addr_to_idx_sound(1) [of inet cn bs]
    unfolding ch_select_find [OF ne refl] by (fastforce simp: set_map_filter)
qed

text \<open>Distinct addresses: the index of the address of a backend is the index of that backend.\<close>

lemma ch_select_complete:
  assumes "ch_covers inet node_idx get_addr c key m" "c = ch_build inet cn bs"
    and inj: "\<forall>b \<in> set bs. \<forall>b' \<in> set bs. inet (b_addr b) = inet (b_addr b') \<longrightarrow> b = b'"
    and b: "b \<in> set bs" "h b"
  shows "ch_select node_idx get_addr c key m h \<noteq> None"
proof
  assume None: "ch_select node_idx get_addr c key m h = None"
  have ne: "bs \<noteq> []" using b by auto
  obtain a where a: "inet (b_addr b) = Some a"
    "a \<in> set (ring_visits (get_addr (ch_ring c)) (node_idx (ch_ring c) key) m)"
    using assms(1,2) b(1) by (auto simp: ch_covers_def)
  obtain i where i: "ch_addr_to_idx c a = Some i"
    using ch_addr_to_idx_dom [of inet cn bs] a(1) b(1) assms(2) by (auto simp: dom_def)
  have "bs ! i = b"
    using ch_addr_to_idx_sound [of inet cn bs a i] i assms(2) inj b(1) a(1) by auto
  then have "b \<in> set (map (nth bs) (List.map_filter (ch_addr_to_idx c)
      (ring_visits (get_addr (ch_ring c)) (node_idx (ch_ring c) key) m)))"
    using a(2) i by (auto simp: set_map_filter)
  then show False
    using None b(2) unfolding ch_select_find [OF ne assms(2)] by (auto simp: find_None_iff)
qed

interpretation ch: lb_strategy
  "\<lambda>(bs, key, m) h. ch_select node_idx get_addr (ch_build inet cn bs) key m h"
  "\<lambda>(bs, key, m). set bs"
  "\<lambda>(bs, key, m). ch_covers inet node_idx get_addr (ch_build inet cn bs) key m \<and>
     (\<forall>b \<in> set bs. \<forall>b' \<in> set bs. inet (b_addr b) = inet (b_addr b') \<longrightarrow> b = b')"
  for node_idx get_addr inet cn
proof (unfold_locales, goal_cases)
  case (1 s h b)
  then show ?case by (cases s) (auto dest: ch_select_sound)
next
  case (2 s b h)
  obtain bs key m where s: "s = (bs, key, m)" by (cases s)
  then show ?case
    using 2 ch_select_complete [of inet node_idx get_addr "ch_build inet cn bs" key m cn bs b h] by auto
qed

section \<open>Properties\<close>




text \<open>
  C10: while all backends are healthy, one full cycle of calls, started at any counter value
  that does not wrap inside the cycle, selects every backend as often as its weight says, a weight
  of zero counting as one.
\<close>

theorem rr_cycle_proportional:
  assumes new: "rr_build bs = Some s" and no_wrap: "unat c + length (rr_weighted s) < 2 ^ 64"
    and b: "b \<in> set bs"
  shows "\<exists>rs. rr_run (length (rr_weighted s)) (s\<lparr>rr_counter := c\<rparr>) m (\<lambda>_. True) = Some rs \<and>
    count_list rs (Some b) = count_list bs b * max (b_weight b) 1"
proof -
  let ?s = "s\<lparr>rr_counter := c\<rparr>"
  let ?w = "rr_weighted s"
  note wf = rr_build_wf [OF new]
  have "set (rr_backends s) = set bs" by (simp add: wf(2))
  then have wf': "rr_wf ?s" "rr_backends ?s \<noteq> []"
    using wf(1) b by (auto simp: rr_wf_def)
  have w: "map (\<lambda>w. rr_backends s ! unat w) ?w =
      concat (map (\<lambda>b. replicate (max (b_weight b) 1) b) (rr_backends s))"
    using wf rr_expand_backends [of "rr_backends s"] by (simp add: rr_wf_def)
  let ?f = "\<lambda>w. rr_backends s ! unat w"
  have "rr_run (length ?w) ?s m (\<lambda>_. True) =
      Some (map (\<lambda>j. Some (?f (?w ! ((unat c + j) mod length ?w)))) [0..<length ?w])"
    using rr_run_healthy [OF wf', of "length ?w" m] no_wrap by simp
  also have "map (\<lambda>j. Some (?f (?w ! ((unat c + j) mod length ?w)))) [0..<length ?w] =
      map Some (map ?f (map (\<lambda>j. ?w ! ((unat c + j) mod length ?w)) [0..<length ?w]))"
    by (simp only: map_map o_def)
  finally have "rr_run (length ?w) ?s m (\<lambda>_. True) = Some (map Some (map ?f (rotate (unat c) ?w)))"
    by (simp only: map_nth_mod_rotate)
  moreover have "count_list (map ?f (rotate (unat c) ?w)) b = count_list bs b * max (b_weight b) 1"
    unfolding rotate_map [symmetric] count_list_rotate w count_list_concat_replicate
    by (simp add: wf(2))
  ultimately show ?thesis by (intro exI conjI) (assumption, simp only: count_list_map_Some)
qed

theorem rr_cycle_proportional_witness:
  "\<exists>s rs. rr_build [Backend (1::nat) 3, Backend 2 0] = Some s \<and>
    rr_run 4 (s\<lparr>rr_counter := 9\<rparr>) 256 (\<lambda>_. True) = Some rs \<and> count_list rs (Some (Backend 1 3)) = 3"
proof -
  obtain s where s: "rr_build [Backend (1::nat) 3, Backend 2 0] = Some s" "length (rr_weighted s) = 4"
    by (simp add: rr_build_def rr_expand_def Let_def)
  from rr_cycle_proportional [OF s(1), of 9 "Backend 1 3" 256] show ?thesis using s by auto
qed

text \<open>
  C11: consistent hashing is stable. When backends other than the selected one become unhealthy,
  the selected backend of a key stays the same; and it is always a healthy backend of the list.
\<close>

theorem ch_select_stable:
  assumes "ch_select node_idx get_addr (ch_build inet cn bs) key m h = Some b"
    and "\<And>b'. b' \<in> set bs \<Longrightarrow> h' b' \<Longrightarrow> h b'" "h' b"
  shows "b \<in> set bs \<and> h b \<and> ch_select node_idx get_addr (ch_build inet cn bs) key m h' = Some b"
proof -
  have ne: "bs \<noteq> []" using assms(1) by (auto simp: ch_select_def)
  let ?l = "map (nth bs) (List.map_filter (ch_addr_to_idx (ch_build inet cn bs))
    (ring_visits (get_addr (ch_ring (ch_build inet cn bs))) (node_idx (ch_ring (ch_build inet cn bs)) key) m))"
  have "set ?l \<subseteq> set bs"
    using ch_addr_to_idx_sound(1) [of inet cn bs] by (fastforce simp: set_map_filter)
  then have "List.find h' ?l = Some b"
    using find_filter_subset [of h ?l b h'] assms unfolding ch_select_find [OF ne refl] by blast
  then show ?thesis
    using ch_select_sound [OF assms(1)] unfolding ch_select_find [OF ne refl] by blast
qed

theorem ch_select_stable_witness:
  "ch_select (\<lambda>r k. length k mod length r) (\<lambda>r i. if i < length r then Some (r ! i, (i + 1) mod length r) else None)
     (ch_build Some (map fst) [Backend (10::nat) 1, Backend 20 1, Backend 30 1]) [7] 3 (\<lambda>b. b_addr b = 20)
   = Some (Backend 20 1)"
proof (rule ch_select_stable [where h = "\<lambda>_. True", THEN conjunct2, THEN conjunct2])
  show "ch_select (\<lambda>r k. length k mod length r) (\<lambda>r i. if i < length r then Some (r ! i, (i + 1) mod length r) else None)
     (ch_build Some (map fst) [Backend (10::nat) 1, Backend 20 1, Backend 30 1]) [7] 3 (\<lambda>_. True)
    = Some (Backend 20 1)"
    by code_simp
qed simp_all

end
