(* ===== verification/Lb_Runtime.thy ===== *)
theory Lb_Runtime
  imports Lb_Selection "HOL-Library.AList"
begin

text \<open>
  The service-scoped runtime state of the load balancer
  (\<open>src/src/core/gateway/lb/runtime_state/mod.rs\<close>), the smoothing factor
  (\<open>lb/ewma/metrics.rs\<close>), the cleaner of draining backends (\<open>lb/leastconn/cleaner.rs\<close>) and
  the two selections by minimal metric (\<open>lb/selection/mod.rs\<close>, \<open>least_conn.rs\<close>, \<open>ewma.rs\<close>).

  A concurrent map is an association list: its order is the iteration order. Each atomic operation
  is one step, so a compare-and-exchange loop is the one successful exchange. Arithmetic on
  \<open>u64\<close> wraps, as it does in a release build.
\<close>

section \<open>State\<close>

datatype backend_state = Active | Draining | Removed

type_synonym ('k, 'v) alist = "('k \<times> 'v) list"

record 'a service_state =
  sv_ewma :: "('a, u64) alist"
  sv_conn_counts :: "('a, u64) alist"
  sv_backend_states :: "('a, backend_state) alist"

definition service_state_new :: "'a service_state" where
  "service_state_new = \<lparr>sv_ewma = [], sv_conn_counts = [], sv_backend_states = []\<rparr>"

record ('a, 's, 'r) lb_runtime =
  rt_services :: "(string, 'a service_state) alist"
  rt_rr_cache :: "(string, 'a rr_selector) alist"
  rt_ch_cache :: "(string, ('a, 's, 'r) hash_ring) alist"
  rt_alpha :: u32

definition runtime_new :: "('a, 's, 'r) lb_runtime" where
  "runtime_new = \<lparr>rt_services = [], rt_rr_cache = [], rt_ch_cache = [], rt_alpha = 20\<rparr>"

section \<open>Selector caches\<close>

definition get_rr_selector ::
  "string \<Rightarrow> 'a::linorder backend list \<Rightarrow> ('a, 's, 'r) lb_runtime \<Rightarrow>
   ('a rr_selector \<times> ('a, 's, 'r) lb_runtime) option" where
  "get_rr_selector key backends rt =
     (case map_of (rt_rr_cache rt) key of
        Some sel \<Rightarrow> Some (sel, rt)
      | None \<Rightarrow>
          (case rr_build backends of
             None \<Rightarrow> None
           | Some sel \<Rightarrow> Some (sel, rt\<lparr>rt_rr_cache := AList.update key sel (rt_rr_cache rt)\<rparr>)))"

definition get_ch_ring ::
  "('a \<Rightarrow> 's option) \<Rightarrow> (('s \<times> nat) list \<Rightarrow> 'r) \<Rightarrow> string \<Rightarrow> 'a backend list \<Rightarrow>
   ('a, 's, 'r) lb_runtime \<Rightarrow> ('a, 's, 'r) hash_ring \<times> ('a, 's, 'r) lb_runtime" where
  "get_ch_ring inet continuum_new key backends rt =
     (case map_of (rt_ch_cache rt) key of
        Some ring \<Rightarrow> (ring, rt)
      | None \<Rightarrow>
          let ring = ch_build inet continuum_new backends
          in (ring, rt\<lparr>rt_ch_cache := AList.update key ring (rt_ch_cache rt)\<rparr>))"

definition invalidate_selector_cache ::
  "string \<Rightarrow> ('a, 's, 'r) lb_runtime \<Rightarrow> ('a, 's, 'r) lb_runtime" where
  "invalidate_selector_cache key rt =
     rt\<lparr>rt_rr_cache := AList.delete key (rt_rr_cache rt),
        rt_ch_cache := AList.delete key (rt_ch_cache rt)\<rparr>"

section \<open>Access to the state of one service\<close>

definition get_service :: "string \<Rightarrow> ('a, 's, 'r) lb_runtime \<Rightarrow> 'a service_state option" where
  "get_service key rt = map_of (rt_services rt) key"

definition get_or_create_service :: "string \<Rightarrow> ('a, 's, 'r) lb_runtime \<Rightarrow> 'a service_state" where
  "get_or_create_service key rt = case_option service_state_new id (get_service key rt)"

text \<open>Writing back the state of a service: the services are shared by reference in the code.\<close>

definition put_service ::
  "string \<Rightarrow> 'a service_state \<Rightarrow> ('a, 's, 'r) lb_runtime \<Rightarrow> ('a, 's, 'r) lb_runtime" where
  "put_service key svc rt = rt\<lparr>rt_services := AList.update key svc (rt_services rt)\<rparr>"

section \<open>EWMA\<close>

definition INITIAL_EWMA_US :: u64 where "INITIAL_EWMA_US = 1000"

definition set_alpha :: "u32 \<Rightarrow> ('a, 's, 'r) lb_runtime \<Rightarrow> ('a, 's, 'r) lb_runtime" where
  "set_alpha alpha rt = rt\<lparr>rt_alpha := min alpha 100\<rparr>"

definition ewma_step :: "u32 \<Rightarrow> u64 \<Rightarrow> u64 \<Rightarrow> u64" where
  "ewma_step alpha latency_us current =
     (ucast alpha * latency_us + (100 - ucast alpha) * current) div 100"

definition update_ewma ::
  "string \<Rightarrow> 'a \<Rightarrow> u64 \<Rightarrow> ('a, 's, 'r) lb_runtime \<Rightarrow> ('a, 's, 'r) lb_runtime" where
  "update_ewma key addr latency_us rt =
     (let svc = get_or_create_service key rt;
          current = case_option INITIAL_EWMA_US id (map_of (sv_ewma svc) addr);
          new_ewma = ewma_step (rt_alpha rt) latency_us current
      in put_service key (svc\<lparr>sv_ewma := AList.update addr new_ewma (sv_ewma svc)\<rparr>) rt)"

definition get_ewma :: "string \<Rightarrow> 'a \<Rightarrow> ('a, 's, 'r) lb_runtime \<Rightarrow> u64" where
  "get_ewma key addr rt =
     case_option INITIAL_EWMA_US id
       (Option.bind (get_service key rt) (\<lambda>svc. map_of (sv_ewma svc) addr))"

section \<open>Connection counts\<close>

definition increment :: "string \<Rightarrow> 'a \<Rightarrow> ('a, 's, 'r) lb_runtime \<Rightarrow> ('a, 's, 'r) lb_runtime" where
  "increment key addr rt =
     (let svc = get_or_create_service key rt;
          count = case_option 0 id (map_of (sv_conn_counts svc) addr)
      in put_service key (svc\<lparr>sv_conn_counts := AList.update addr (count + 1) (sv_conn_counts svc)\<rparr>) rt)"

definition decrement :: "string \<Rightarrow> 'a \<Rightarrow> ('a, 's, 'r) lb_runtime \<Rightarrow> ('a, 's, 'r) lb_runtime" where
  "decrement key addr rt =
     (case get_service key rt of
        None \<Rightarrow> rt
      | Some svc \<Rightarrow>
          (case map_of (sv_conn_counts svc) addr of
             None \<Rightarrow> rt
           | Some count \<Rightarrow>
               if count = 0 then rt
               else put_service key
                      (svc\<lparr>sv_conn_counts := AList.update addr (count - 1) (sv_conn_counts svc)\<rparr>) rt))"

definition get_count :: "string \<Rightarrow> 'a \<Rightarrow> ('a, 's, 'r) lb_runtime \<Rightarrow> u64" where
  "get_count key addr rt =
     case_option 0 id (Option.bind (get_service key rt) (\<lambda>svc. map_of (sv_conn_counts svc) addr))"

section \<open>Backend lifecycle\<close>

definition set_backend_state ::
  "string \<Rightarrow> 'a \<Rightarrow> backend_state \<Rightarrow> ('a, 's, 'r) lb_runtime \<Rightarrow> ('a, 's, 'r) lb_runtime" where
  "set_backend_state key addr st rt =
     (let svc = get_or_create_service key rt
      in put_service key (svc\<lparr>sv_backend_states := AList.update addr st (sv_backend_states svc)\<rparr>) rt)"

definition get_backend_state :: "string \<Rightarrow> 'a \<Rightarrow> ('a, 's, 'r) lb_runtime \<Rightarrow> backend_state" where
  "get_backend_state key addr rt =
     case_option Active id
       (Option.bind (get_service key rt) (\<lambda>svc. map_of (sv_backend_states svc) addr))"

definition is_backend_active :: "string \<Rightarrow> 'a \<Rightarrow> ('a, 's, 'r) lb_runtime \<Rightarrow> bool" where
  "is_backend_active key addr rt \<longleftrightarrow> get_backend_state key addr rt = Active"

definition mark_backend_draining ::
  "string \<Rightarrow> 'a \<Rightarrow> ('a, 's, 'r) lb_runtime \<Rightarrow> ('a, 's, 'r) lb_runtime" where
  "mark_backend_draining key addr rt = set_backend_state key addr Draining rt"

definition reactivate_backend ::
  "string \<Rightarrow> 'a \<Rightarrow> ('a, 's, 'r) lb_runtime \<Rightarrow> ('a, 's, 'r) lb_runtime" where
  "reactivate_backend key addr rt = set_backend_state key addr Active rt"

section \<open>Cleanup\<close>

definition forget_backend :: "'a \<Rightarrow> 'a service_state \<Rightarrow> 'a service_state" where
  "forget_backend addr svc =
     \<lparr>sv_ewma = AList.delete addr (sv_ewma svc),
      sv_conn_counts = AList.delete addr (sv_conn_counts svc),
      sv_backend_states = AList.delete addr (sv_backend_states svc)\<rparr>"

definition remove_backend :: "string \<Rightarrow> 'a \<Rightarrow> ('a, 's, 'r) lb_runtime \<Rightarrow> ('a, 's, 'r) lb_runtime" where
  "remove_backend key addr rt =
     (case get_service key rt of
        None \<Rightarrow> rt
      | Some svc \<Rightarrow> put_service key (forget_backend addr svc) rt)"

definition remove_backends ::
  "string \<Rightarrow> 'a list \<Rightarrow> ('a, 's, 'r) lb_runtime \<Rightarrow> ('a, 's, 'r) lb_runtime" where
  "remove_backends key addrs rt =
     (case get_service key rt of
        None \<Rightarrow> rt
      | Some svc \<Rightarrow> put_service key (fold forget_backend addrs svc) rt)"

definition remove_service :: "string \<Rightarrow> ('a, 's, 'r) lb_runtime \<Rightarrow> ('a, 's, 'r) lb_runtime" where
  "remove_service key rt =
     invalidate_selector_cache key (rt\<lparr>rt_services := AList.delete key (rt_services rt)\<rparr>)"

definition get_draining_backends :: "string \<Rightarrow> ('a, 's, 'r) lb_runtime \<Rightarrow> 'a list" where
  "get_draining_backends key rt =
     (case get_service key rt of
        None \<Rightarrow> []
      | Some svc \<Rightarrow> map fst (filter (\<lambda>(_, st). st = Draining) (sv_backend_states svc)))"

definition all_service_keys :: "('a, 's, 'r) lb_runtime \<Rightarrow> string list" where
  "all_service_keys rt = map fst (rt_services rt)"

text \<open>One tick of the background cleaner.\<close>

definition clean_service :: "string \<Rightarrow> ('a, 's, 'r) lb_runtime \<Rightarrow> ('a, 's, 'r) lb_runtime" where
  "clean_service key rt =
     fold (\<lambda>addr rt. if get_count key addr rt = 0 then remove_backend key addr rt else rt)
       (get_draining_backends key rt) rt"

definition cleaner_tick :: "('a, 's, 'r) lb_runtime \<Rightarrow> ('a, 's, 'r) lb_runtime" where
  "cleaner_tick rt = fold clean_service (all_service_keys rt) rt"

section \<open>Selection by minimal metric\<close>

definition select_by_min_metric ::
  "'a backend list \<Rightarrow> string \<Rightarrow> nat \<Rightarrow> (string \<Rightarrow> 'a \<Rightarrow> u64) \<Rightarrow> ('a backend \<Rightarrow> bool) \<Rightarrow>
   ('a, 's, 'r) lb_runtime \<Rightarrow> 'a backend option" where
  "select_by_min_metric backends key max_iterations metric healthy rt =
     (let heap = map (\<lambda>(i, b). (metric key (b_addr b), i))
                   (filter (\<lambda>(i, b). is_backend_active key (b_addr b) rt) (enumerate 0 backends))
      in List.find healthy (map (\<lambda>(_, idx). backends ! idx) (take max_iterations (sort heap))))"

definition least_conn_select ::
  "'a backend list \<Rightarrow> string \<Rightarrow> nat \<Rightarrow> ('a backend \<Rightarrow> bool) \<Rightarrow> ('a, 's, 'r) lb_runtime \<Rightarrow> 'a backend option" where
  "least_conn_select backends key max_iterations healthy rt =
     select_by_min_metric backends key max_iterations (\<lambda>svc addr. get_count svc addr rt) healthy rt"

definition ewma_select ::
  "'a backend list \<Rightarrow> string \<Rightarrow> nat \<Rightarrow> ('a backend \<Rightarrow> bool) \<Rightarrow> ('a, 's, 'r) lb_runtime \<Rightarrow> 'a backend option" where
  "ewma_select backends key max_iterations healthy rt =
     select_by_min_metric backends key max_iterations (\<lambda>svc addr. get_ewma svc addr rt) healthy rt"

section \<open>Reading after writing\<close>

lemma map_of_alist_update [simp]: "map_of (AList.update k v al) k' = (if k' = k then Some v else map_of al k')"
  by (simp add: update_conv')

lemma map_of_alist_delete [simp]: "map_of (AList.delete k al) k' = (if k' = k then None else map_of al k')"
  by (simp add: delete_conv')

lemma get_service_put [simp]:
  "get_service key (put_service key' svc rt) = (if key = key' then Some svc else get_service key rt)"
  by (simp add: get_service_def put_service_def)

lemma put_service_frame [simp]:
  "rt_rr_cache (put_service key svc rt) = rt_rr_cache rt"
  "rt_ch_cache (put_service key svc rt) = rt_ch_cache rt"
  "rt_alpha (put_service key svc rt) = rt_alpha rt"
  by (simp_all add: put_service_def)

lemma get_service_remove [simp]:
  "get_service key (remove_service key' rt) = (if key = key' then None else get_service key rt)"
  by (simp add: get_service_def remove_service_def invalidate_selector_cache_def)

lemma get_service_invalidate [simp]:
  "get_service key (invalidate_selector_cache key' rt) = get_service key rt"
  by (simp add: get_service_def invalidate_selector_cache_def)

lemma get_service_remove_backend [simp]:
  "get_service key (remove_backend key' addr rt) =
     (if key = key' then map_option (forget_backend addr) (get_service key rt) else get_service key rt)"
  by (auto simp: remove_backend_def split: option.splits)

lemma map_of_forget_backend [simp]:
  "map_of (sv_ewma (forget_backend addr svc)) a = (if a = addr then None else map_of (sv_ewma svc) a)"
  "map_of (sv_conn_counts (forget_backend addr svc)) a =
     (if a = addr then None else map_of (sv_conn_counts svc) a)"
  "map_of (sv_backend_states (forget_backend addr svc)) a =
     (if a = addr then None else map_of (sv_backend_states svc) a)"
  by (simp_all add: forget_backend_def)

text \<open>Everything a selection reads of one backend.\<close>

definition backend_view ::
  "string \<Rightarrow> 'a \<Rightarrow> ('a, 's, 'r) lb_runtime \<Rightarrow> u64 option \<times> u64 option \<times> backend_state option" where
  "backend_view key addr rt =
     (case get_service key rt of
        None \<Rightarrow> (None, None, None)
      | Some svc \<Rightarrow> (map_of (sv_ewma svc) addr, map_of (sv_conn_counts svc) addr,
                     map_of (sv_backend_states svc) addr))"

lemma backend_view_reads:
  "get_ewma key addr rt = case_option INITIAL_EWMA_US id (fst (backend_view key addr rt))"
  "get_count key addr rt = case_option 0 id (fst (snd (backend_view key addr rt)))"
  "get_backend_state key addr rt = case_option Active id (snd (snd (backend_view key addr rt)))"
  by (auto simp: get_ewma_def get_count_def get_backend_state_def backend_view_def split: option.splits)

lemma backend_view_remove_backend [simp]:
  "backend_view key addr (remove_backend key' addr' rt) =
     (if key = key' \<and> addr = addr' then (None, None, None) else backend_view key addr rt)"
  by (auto simp: backend_view_def split: option.splits)

section \<open>Operations as values\<close>

datatype 'a rt_op =
    UpdateEwma 'a u64
  | Increment 'a
  | Decrement 'a
  | MarkDraining 'a
  | Reactivate 'a
  | RemoveBackend 'a
  | RemoveBackends "'a list"
  | RemoveService
  | InvalidateSelectorCache

fun rt_apply :: "string \<times> 'a rt_op \<Rightarrow> ('a, 's, 'r) lb_runtime \<Rightarrow> ('a, 's, 'r) lb_runtime" where
  "rt_apply (key, UpdateEwma addr latency) rt = update_ewma key addr latency rt"
| "rt_apply (key, Increment addr) rt = increment key addr rt"
| "rt_apply (key, Decrement addr) rt = decrement key addr rt"
| "rt_apply (key, MarkDraining addr) rt = mark_backend_draining key addr rt"
| "rt_apply (key, Reactivate addr) rt = reactivate_backend key addr rt"
| "rt_apply (key, RemoveBackend addr) rt = remove_backend key addr rt"
| "rt_apply (key, RemoveBackends addrs) rt = remove_backends key addrs rt"
| "rt_apply (key, RemoveService) rt = remove_service key rt"
| "rt_apply (key, InvalidateSelectorCache) rt = invalidate_selector_cache key rt"

lemmas rt_op_defs =
  update_ewma_def increment_def decrement_def mark_backend_draining_def reactivate_backend_def
  set_backend_state_def remove_backend_def remove_backends_def remove_service_def
  invalidate_selector_cache_def Let_def

lemma rt_apply_other:
  assumes "key' \<noteq> key"
  shows "get_service key (rt_apply (key', oper) rt) = get_service key rt"
    "map_of (rt_rr_cache (rt_apply (key', oper) rt)) key = map_of (rt_rr_cache rt) key"
    "map_of (rt_ch_cache (rt_apply (key', oper) rt)) key = map_of (rt_ch_cache rt) key"
proof -
  show "get_service key (rt_apply (key', oper) rt) = get_service key rt"
    using assms
    by (cases oper) (auto simp: update_ewma_def increment_def decrement_def mark_backend_draining_def
        reactivate_backend_def set_backend_state_def remove_backends_def Let_def split: option.splits)
  show "map_of (rt_rr_cache (rt_apply (key', oper) rt)) key = map_of (rt_rr_cache rt) key"
    "map_of (rt_ch_cache (rt_apply (key', oper) rt)) key = map_of (rt_ch_cache rt) key"
    using assms by (cases oper; simp add: rt_op_defs split: option.splits)+
qed

section \<open>Well-formed runtime states\<close>

definition service_wf :: "'a service_state \<Rightarrow> bool" where
  "service_wf svc \<longleftrightarrow> distinct (map fst (sv_backend_states svc))"

definition runtime_wf :: "('a, 's, 'r) lb_runtime \<Rightarrow> bool" where
  "runtime_wf rt \<longleftrightarrow> distinct (map fst (rt_services rt)) \<and> (\<forall>svc \<in> snd ` set (rt_services rt). service_wf svc)"

lemma get_service_wf: "runtime_wf rt \<Longrightarrow> get_service key rt = Some svc \<Longrightarrow> service_wf svc"
  by (force simp: runtime_wf_def get_service_def dest: map_of_SomeD)

lemma get_or_create_service_wf: "runtime_wf rt \<Longrightarrow> service_wf (get_or_create_service key rt)"
  by (auto simp: get_or_create_service_def service_state_new_def service_wf_def
      dest: get_service_wf split: option.splits)

lemma alist_update_values: "snd ` set (AList.update k v al) \<subseteq> insert v (snd ` set al)"
  by (induction al) auto

lemma put_service_wf [wf_intros]:
  assumes "runtime_wf rt" "service_wf svc"
  shows "runtime_wf (put_service key svc rt)"
  using assms alist_update_values [of key svc "rt_services rt"]
  unfolding runtime_wf_def put_service_def by (fastforce simp: distinct_update)

lemma forget_backend_wf [wf_intros]: "service_wf svc \<Longrightarrow> service_wf (forget_backend addr svc)"
  by (simp add: service_wf_def forget_backend_def distinct_delete)

lemma fold_forget_backend_wf [wf_intros]: "service_wf svc \<Longrightarrow> service_wf (fold forget_backend addrs svc)"
  by (induction addrs arbitrary: svc) (simp_all add: forget_backend_wf)

lemma remove_backend_wf [wf_intros]: "runtime_wf rt \<Longrightarrow> runtime_wf (remove_backend key addr rt)"
  by (auto simp: remove_backend_def split: option.splits intro!: wf_intros dest: get_service_wf)

lemma service_wf_update [wf_intros]:
  "service_wf svc \<Longrightarrow> service_wf (svc\<lparr>sv_ewma := e\<rparr>)"
  "service_wf svc \<Longrightarrow> service_wf (svc\<lparr>sv_conn_counts := c\<rparr>)"
  "service_wf svc \<Longrightarrow> service_wf (svc\<lparr>sv_backend_states := AList.update addr st (sv_backend_states svc)\<rparr>)"
  by (auto simp: service_wf_def distinct_update)

lemma rt_apply_wf [wf_intros]:
  assumes "runtime_wf rt"
  shows "runtime_wf (rt_apply ko rt)"
proof -
  obtain key oper where ko: "ko = (key, oper)" by (cases ko)
  have del: "set (AList.delete key (rt_services rt)) \<subseteq> set (rt_services rt)"
    by (auto simp: AList.delete_eq)
  have "runtime_wf (rt\<lparr>rt_rr_cache := x, rt_ch_cache := y\<rparr>)" for x y
    using assms by (simp add: runtime_wf_def)
  moreover have "runtime_wf (remove_service key rt)"
    using assms del
    by (fastforce simp: runtime_wf_def remove_service_def invalidate_selector_cache_def distinct_delete)
  ultimately show ?thesis
    using assms get_or_create_service_wf [OF assms, of key] unfolding ko
    by (cases oper) (auto simp: update_ewma_def increment_def decrement_def mark_backend_draining_def
        reactivate_backend_def set_backend_state_def remove_backends_def invalidate_selector_cache_def
        Let_def split: option.splits intro!: wf_intros dest: get_service_wf)
qed

lemma reachable_runtime_wf [wf_intros]: "runtime_wf (fold rt_apply ops runtime_new)"
proof -
  have "runtime_wf rt \<Longrightarrow> runtime_wf (fold rt_apply ops rt)" for rt
    by (induction ops arbitrary: rt) (auto intro: wf_intros)
  moreover have "runtime_wf runtime_new" by (simp add: runtime_wf_def runtime_new_def)
  ultimately show ?thesis by blast
qed

section \<open>The cleaner\<close>

abbreviation fully_drained :: "string \<Rightarrow> 'a \<Rightarrow> ('a, 's, 'r) lb_runtime \<Rightarrow> bool" where
  "fully_drained key addr rt \<equiv> get_backend_state key addr rt = Draining \<and> get_count key addr rt = 0"

lemma clean_fold_view:
  "backend_view key addr
     (fold (\<lambda>addr rt. if get_count key' addr rt = 0 then remove_backend key' addr rt else rt) as rt) =
   (if key = key' \<and> addr \<in> set as \<and> get_count key addr rt = 0 then (None, None, None)
    else backend_view key addr rt)"
  by (induction as arbitrary: rt) (auto simp: backend_view_reads)

lemma clean_fold_wf:
  "runtime_wf rt \<Longrightarrow> runtime_wf
     (fold (\<lambda>addr rt. if get_count key addr rt = 0 then remove_backend key addr rt else rt) as rt)"
  by (induction as arbitrary: rt) (auto intro: wf_intros)

lemma draining_iff:
  assumes "runtime_wf rt"
  shows "addr \<in> set (get_draining_backends key rt) \<longleftrightarrow> get_backend_state key addr rt = Draining"
proof (cases "get_service key rt")
  case (Some svc)
  then have "distinct (map fst (sv_backend_states svc))"
    using get_service_wf [OF assms] by (simp add: service_wf_def)
  moreover from this have "map_of (sv_backend_states svc) addr = Some Draining \<longleftrightarrow>
      (addr, Draining) \<in> set (sv_backend_states svc)" by simp
  ultimately show ?thesis
    using Some by (auto simp: get_draining_backends_def get_backend_state_def image_iff
        split: option.splits dest: eq_key_imp_eq_value)
qed (simp add: get_draining_backends_def get_backend_state_def)

lemma clean_service_view:
  assumes "runtime_wf rt"
  shows "backend_view key addr (clean_service key' rt) =
    (if key = key' \<and> fully_drained key addr rt then (None, None, None) else backend_view key addr rt)"
  by (auto simp: clean_service_def clean_fold_view draining_iff [OF assms])

lemma clean_service_wf [wf_intros]: "runtime_wf rt \<Longrightarrow> runtime_wf (clean_service key rt)"
  by (simp add: clean_service_def clean_fold_wf)

lemma fold_clean_service_view:
  "runtime_wf rt \<Longrightarrow> backend_view key addr (fold clean_service keys rt) =
     (if key \<in> set keys \<and> fully_drained key addr rt then (None, None, None) else backend_view key addr rt)"
proof (induction keys arbitrary: rt)
  case (Cons k keys)
  show ?case
    using Cons.IH [OF clean_service_wf [OF Cons.prems], of k] clean_service_view [OF Cons.prems]
    by (auto simp: backend_view_reads)
qed simp

lemma tracked_draining:
  "get_backend_state key addr rt = Draining \<Longrightarrow> key \<in> set (all_service_keys rt)"
  by (auto simp: get_backend_state_def get_service_def all_service_keys_def bind_eq_Some_conv
      split: option.splits dest!: map_of_SomeD intro: rev_image_eqI)

section \<open>Selection by minimal metric\<close>

definition metric_heap ::
  "'a backend list \<Rightarrow> string \<Rightarrow> (string \<Rightarrow> 'a \<Rightarrow> u64) \<Rightarrow> ('a, 's, 'r) lb_runtime \<Rightarrow> (u64 \<times> nat) list" where
  "metric_heap backends key metric rt =
     map (\<lambda>(i, b). (metric key (b_addr b), i))
       (filter (\<lambda>(i, b). is_backend_active key (b_addr b) rt) (enumerate 0 backends))"

lemma set_metric_heap:
  "set (metric_heap bs key metric rt) =
     {(metric key (b_addr (bs ! i)), i) | i. i < length bs \<and> is_backend_active key (b_addr (bs ! i)) rt}"
  by (auto simp: metric_heap_def enumerate_nth_mem image_iff)

lemma length_metric_heap: "length (metric_heap bs key metric rt) \<le> length bs"
  by (auto simp: metric_heap_def intro: order_trans [OF length_filter_le])

lemma select_by_min_metric_heap:
  assumes "length bs \<le> m"
  shows "select_by_min_metric bs key m metric h rt =
    map_option (\<lambda>(_, i). bs ! i) (List.find (\<lambda>(_, i). h (bs ! i)) (sort (metric_heap bs key metric rt)))"
proof -
  have find_map: "List.find P (map f xs) = map_option f (List.find (P \<circ> f) xs)" for P f and xs :: "(u64 \<times> nat) list"
    by (induction xs) auto
  have "take m (sort (metric_heap bs key metric rt)) = sort (metric_heap bs key metric rt)"
    using length_metric_heap [of bs key metric rt] assms by simp
  then show ?thesis
    by (simp add: select_by_min_metric_def metric_heap_def find_map o_def case_prod_beta')
qed

lemma find_sorted_min:
  assumes "sorted xs" "List.find P xs = Some x" "y \<in> set xs" "P y"
  shows "x \<le> y"
  using assms by (induction xs) (auto split: if_splits)

lemma min_metric_Some:
  assumes "length bs \<le> m" "select_by_min_metric bs key m metric h rt = Some b"
  shows "b \<in> set bs" "is_backend_active key (b_addr b) rt" "h b"
    and "b' \<in> set bs \<Longrightarrow> is_backend_active key (b_addr b') rt \<Longrightarrow> h b' \<Longrightarrow>
      metric key (b_addr b) \<le> metric key (b_addr b')"
proof -
  let ?heap = "metric_heap bs key metric rt"
  obtain v i where vi: "List.find (\<lambda>(_, i). h (bs ! i)) (sort ?heap) = Some (v, i)" and b: "b = bs ! i"
    using assms by (auto simp: select_by_min_metric_heap)
  have mem: "(v, i) \<in> set ?heap" "h b" using find_SomeD [OF vi] b by auto
  then show "b \<in> set bs" "is_backend_active key (b_addr b) rt" "h b"
    using b by (auto simp: set_metric_heap)
  show "metric key (b_addr b) \<le> metric key (b_addr b')"
    if b': "b' \<in> set bs" "is_backend_active key (b_addr b') rt" "h b'"
  proof -
    obtain j where "j < length bs" "bs ! j = b'" using b'(1) by (auto simp: in_set_conv_nth)
    then have "(metric key (b_addr b'), j) \<in> set (sort ?heap)" "h (bs ! j)"
      using b' by (auto simp: set_metric_heap)
    from find_sorted_min [OF sorted_sort vi this(1)] this(2) have "(v, i) \<le> (metric key (b_addr b'), j)"
      by simp
    then show ?thesis using mem(1) b by (auto simp: set_metric_heap less_eq_prod_def)
  qed
qed

lemma min_metric_None:
  assumes "length bs \<le> m" "select_by_min_metric bs key m metric h rt = None"
    and "b \<in> set bs" "is_backend_active key (b_addr b) rt"
  shows "\<not> h b"
proof -
  obtain j where j: "j < length bs" "bs ! j = b" using assms(3) by (auto simp: in_set_conv_nth)
  then have "(metric key (b_addr b), j) \<in> set (metric_heap bs key metric rt)"
    using assms(4) by (auto simp: set_metric_heap)
  then show ?thesis using assms(2) j(2)
    by (auto simp: select_by_min_metric_heap [OF assms(1)] find_None_iff)
qed

interpretation mm: lb_strategy
  "\<lambda>(bs, key, m, metric, rt) h. select_by_min_metric bs key m metric h rt"
  "\<lambda>(bs, key, m, metric, rt). {b \<in> set bs. is_backend_active key (b_addr b) rt}"
  "\<lambda>(bs, key, m, metric, rt). length bs \<le> m"
proof (unfold_locales, goal_cases)
  case (1 s h b)
  then show ?case by (cases s) (auto dest: min_metric_Some)
next
  case (2 s b h)
  obtain bs key m metric rt where s: "s = (bs, key, m, metric, rt)" by (cases s)
  then show ?case using 2 min_metric_None [of bs m key metric h rt b] by auto
qed

section \<open>Connection counting\<close>

datatype 'a conn_event = Opened string 'a | Closed string 'a

fun conn_apply :: "'a conn_event \<Rightarrow> ('a, 's, 'r) lb_runtime \<Rightarrow> ('a, 's, 'r) lb_runtime" where
  "conn_apply (Opened key addr) rt = increment key addr rt"
| "conn_apply (Closed key addr) rt = decrement key addr rt"

lemma get_count_increment:
  "get_count key addr (increment key' addr' rt) =
     (if key = key' \<and> addr = addr' then get_count key addr rt + 1 else get_count key addr rt)"
  by (auto simp: get_count_def increment_def Let_def get_or_create_service_def service_state_new_def
      split: option.splits)

lemma get_count_decrement:
  "get_count key addr (decrement key' addr' rt) =
     (if key = key' \<and> addr = addr' \<and> get_count key addr rt \<noteq> 0
      then get_count key addr rt - 1 else get_count key addr rt)"
  by (auto simp: get_count_def decrement_def split: option.splits)

lemma conn_count:
  assumes "\<forall>n \<le> length evs.
      count_list (take n evs) (Closed key addr) \<le> count_list (take n evs) (Opened key addr)"
    and "length evs < 2 ^ 64" "get_count key addr rt = 0"
  shows "unat (get_count key addr (fold conn_apply evs rt)) =
    count_list evs (Opened key addr) - count_list evs (Closed key addr)"
  using assms
proof (induction evs rule: rev_induct)
  case Nil
  then show ?case by simp
next
  case (snoc e evs)
  let ?c = "get_count key addr (fold conn_apply evs rt)"
  let ?o = "count_list evs (Opened key addr)" and ?d = "count_list evs (Closed key addr)"
  have IH: "unat ?c = ?o - ?d"
  proof (rule snoc.IH)
    show "\<forall>n \<le> length evs.
      count_list (take n evs) (Closed key addr) \<le> count_list (take n evs) (Opened key addr)"
      using snoc.prems(1) by (metis append_Nil2 diff_is_0_eq le_SucI length_append_singleton take0 take_append)
  qed (use snoc.prems(2,3) in simp_all)
  have bal: "?d \<le> ?o" using snoc.prems(1) [rule_format, of "length evs"] by simp
  have full: "count_list (evs @ [e]) (Closed key addr) \<le> count_list (evs @ [e]) (Opened key addr)"
    using snoc.prems(1) [rule_format, of "length (evs @ [e])"] by simp
  have "?o \<le> length evs" by (rule count_le_length)
  then have small: "unat ?c + 1 < 2 ^ 64" using IH snoc.prems(2) by simp
  show ?case
  proof (cases e)
    case (Opened k a)
    then show ?thesis
      using IH bal small by (auto simp: get_count_increment unat_word_ariths)
  next
    case (Closed k a)
    show ?thesis
    proof (cases "k = key \<and> a = addr")
      case True
      then have "?d < ?o" using full Closed by simp
      then have "unat ?c \<noteq> 0" using IH by simp
      then have "?c \<noteq> 0" by (metis unat_0)
      then have "unat (?c - 1) = unat ?c - 1" by (simp add: unat_minus_one)
      then show ?thesis using True Closed IH \<open>?c \<noteq> 0\<close> by (simp add: get_count_decrement)
    qed (use IH Closed in \<open>auto simp: get_count_decrement\<close>)
  qed
qed

section \<open>Smoothing\<close>

lemma ewma_step_bounds:
  assumes "unat alpha \<le> 100" "lo \<le> unat lat" "unat lat \<le> hi" "lo \<le> unat cur" "unat cur \<le> hi"
    and "hi * 100 < 2 ^ 64"
  shows "lo \<le> unat (ewma_step alpha lat cur)" "unat (ewma_step alpha lat cur) \<le> hi"
proof -
  let ?a = "unat alpha"
  define t where "t = ?a * unat lat + (100 - ?a) * unat cur"
  have hi: "t \<le> hi * 100" and lo: "lo * 100 \<le> t"
  proof -
    have "t \<le> ?a * hi + (100 - ?a) * hi"
      unfolding t_def by (intro add_mono mult_le_mono2) (use assms in auto)
    then show "t \<le> hi * 100" using assms(1) by (simp flip: distrib_right)
    have "?a * lo + (100 - ?a) * lo \<le> t"
      unfolding t_def by (intro add_mono mult_le_mono2) (use assms in auto)
    then show "lo * 100 \<le> t" using assms(1) by (simp flip: distrib_right)
  qed
  have a: "ucast alpha = (of_nat ?a :: u64)" by (simp add: unsigned_ucast_eq)
  have "ucast alpha * lat + (100 - ucast alpha) * cur = (of_nat t :: u64)"
    using assms(1) unfolding t_def a by (simp add: of_nat_diff)
  then have "unat (ewma_step alpha lat cur) = t div 100"
    using hi assms(6) by (simp add: ewma_step_def unat_div unat_of_nat)
  then show "lo \<le> unat (ewma_step alpha lat cur)" "unat (ewma_step alpha lat cur) \<le> hi"
    using hi lo by auto
qed

section \<open>Properties\<close>

text \<open>
  C14: the runtime state is isolated by service. No sequence of operations on other services
  changes what the load balancer reads of a backend of this service, nor its cached selectors.
\<close>

theorem service_state_isolated:
  assumes "\<forall>ko \<in> set ops. fst ko \<noteq> key"
  shows "backend_view key addr (fold rt_apply ops rt) = backend_view key addr rt \<and>
    map_of (rt_rr_cache (fold rt_apply ops rt)) key = map_of (rt_rr_cache rt) key \<and>
    map_of (rt_ch_cache (fold rt_apply ops rt)) key = map_of (rt_ch_cache rt) key"
  using assms
proof (induction ops arbitrary: rt)
  case (Cons ko ops)
  obtain key' oper where "ko = (key', oper)" by (cases ko)
  then show ?case
    using Cons rt_apply_other [of key' key oper rt] by (auto simp: backend_view_def)
qed simp

theorem service_state_isolated_witness:
  "get_count ''b/s'' (1::nat) (fold rt_apply [(''a/s'', Increment 1), (''a/s'', RemoveService)]
     (increment ''b/s'' 1 (runtime_new :: (nat, nat, nat) lb_runtime))) = 1"
proof -
  have "get_count ''b/s'' 1 (increment ''b/s'' 1 (runtime_new :: (nat, nat, nat) lb_runtime)) = 1"
    by code_simp
  then show ?thesis
    using service_state_isolated [of "[(''a/s'', Increment 1), (''a/s'', RemoveService)]" "''b/s''" 1
        "increment ''b/s'' 1 (runtime_new :: (nat, nat, nat) lb_runtime)"]
    by (simp del: rt_apply.simps add: backend_view_reads(2))
qed

text \<open>
  C13: one tick of the cleaner, in any reachable state, forgets exactly the backends that are
  draining and have no open connection; everything it tracks about any other backend is unchanged.
\<close>

theorem cleaner_removes_exactly_drained:
  fixes ops :: "(string \<times> 'a rt_op) list"
  defines "rt \<equiv> fold rt_apply ops (runtime_new :: ('a, 's, 'r) lb_runtime)"
  shows "backend_view key addr (cleaner_tick rt) =
    (if get_backend_state key addr rt = Draining \<and> get_count key addr rt = 0
     then (None, None, None) else backend_view key addr rt)"
proof -
  have "runtime_wf rt" unfolding rt_def by (rule reachable_runtime_wf)
  from fold_clean_service_view [OF this, of key addr "all_service_keys rt"] show ?thesis
    using tracked_draining [of key addr rt] by (auto simp: cleaner_tick_def)
qed





text \<open>
  C16: the smoothed latency stays between the bounds of the samples. From a value between lo and
  hi, samples between lo and hi keep it there for every smoothing factor one can set, as long as a
  hundred times hi fits in 64 bits.
\<close>

theorem ewma_stays_in_range:
  assumes "\<forall>lat \<in> set lats. lo \<le> unat lat \<and> unat lat \<le> hi" "hi * 100 < 2 ^ 64"
    and "lo \<le> unat (get_ewma key addr rt)" "unat (get_ewma key addr rt) \<le> hi"
  shows "lo \<le> unat (get_ewma key addr (fold (update_ewma key addr) lats (set_alpha alpha rt))) \<and>
    unat (get_ewma key addr (fold (update_ewma key addr) lats (set_alpha alpha rt))) \<le> hi"
proof -
  have step: "get_ewma key addr (update_ewma key addr lat rt) = ewma_step (rt_alpha rt) lat (get_ewma key addr rt)"
    for lat and rt :: "('a, 'b, 'c) lb_runtime"
    by (auto simp: get_ewma_def update_ewma_def Let_def get_or_create_service_def service_state_new_def
        split: option.splits)
  have "lo \<le> unat (get_ewma key addr (fold (update_ewma key addr) lats rt)) \<and>
    unat (get_ewma key addr (fold (update_ewma key addr) lats rt)) \<le> hi"
    if "unat (rt_alpha rt) \<le> 100" "lo \<le> unat (get_ewma key addr rt)" "unat (get_ewma key addr rt) \<le> hi"
    for rt :: "('a, 'b, 'c) lb_runtime"
    using that assms(1)
  proof (induction lats arbitrary: rt)
    case (Cons lat lats)
    have "rt_alpha (update_ewma key addr lat rt) = rt_alpha rt" by (simp add: update_ewma_def Let_def)
    then show ?case
      using Cons.IH [of "update_ewma key addr lat rt"] Cons.prems
        ewma_step_bounds [of "rt_alpha rt" lo lat hi "get_ewma key addr rt"] assms(2) by (simp add: step)
  qed simp
  moreover have "unat (rt_alpha (set_alpha alpha rt)) \<le> 100"
    by (simp add: set_alpha_def min_def word_le_nat_alt)
  moreover have "get_ewma key addr (set_alpha alpha rt) = get_ewma key addr rt"
    by (simp add: get_ewma_def get_service_def set_alpha_def)
  ultimately show ?thesis using assms(3,4) by simp
qed

theorem ewma_stays_in_range_witness:
  "500 \<le> unat (get_ewma ''a/s'' (1::nat) (fold (update_ewma ''a/s'' 1) [700, 900]
     (set_alpha 250 (runtime_new :: (nat, nat, nat) lb_runtime))))"
proof -
  have "unat (get_ewma ''a/s'' (1::nat) (runtime_new :: (nat, nat, nat) lb_runtime)) = 1000" by code_simp
  then show ?thesis
    using ewma_stays_in_range [of "[700, 900]" 500 2000 "''a/s''" "1::nat"
        "runtime_new :: (nat, nat, nat) lb_runtime" 250] by simp
qed

end
