(* ===== verification/Health_Status.thy ===== *)
theory Health_Status
  imports Lb_Runtime
begin

text \<open>
  Active health checking of \<open>src/src/core/gateway/backends/health/check/\<close>: the store of probe
  results with its hysteresis (\<open>status_store.rs\<close>), the store of health check configurations with
  their priorities (\<open>config_store.rs\<close>), and the reconciliation of the probe tasks of a service
  (\<open>manager.rs\<close>). A running task is represented by the configuration it runs with; the probes
  themselves are network input and output. Instants are natural numbers.
\<close>

section \<open>Health status of backends\<close>

record backend_health =
  bh_healthy :: bool
  bh_successes :: u32
  bh_failures :: u32
  bh_last_check :: nat
  bh_last_transition :: "nat option"

definition backend_health_default :: "nat \<Rightarrow> backend_health" where
  "backend_health_default now =
     \<lparr>bh_healthy = True, bh_successes = 0, bh_failures = 0, bh_last_check = now, bh_last_transition = None\<rparr>"

record service_health =
  sh_tracked :: "u64 set"
  sh_unhealthy :: "u64 set"
  sh_states :: "(u64, backend_health) alist"

definition service_health_default :: service_health where
  "service_health_default = \<lparr>sh_tracked = {}, sh_unhealthy = {}, sh_states = []\<rparr>"

type_synonym health_store = "(string, service_health) alist"

definition is_healthy :: "string \<Rightarrow> u64 \<Rightarrow> health_store \<Rightarrow> bool" where
  "is_healthy key hash st =
     (case map_of st key of None \<Rightarrow> True | Some sh \<Rightarrow> hash \<notin> sh_unhealthy sh)"

definition has_service :: "string \<Rightarrow> health_store \<Rightarrow> bool" where
  "has_service key st \<longleftrightarrow> map_of st key \<noteq> None"

definition saturating_add1 :: "u32 \<Rightarrow> u32" where
  "saturating_add1 n = (if n = 0xFFFFFFFF then n else n + 1)"

definition health_entry_step :: "bool \<Rightarrow> u32 \<Rightarrow> u32 \<Rightarrow> nat \<Rightarrow> backend_health \<Rightarrow> backend_health" where
  "health_entry_step success healthy_threshold unhealthy_threshold now e =
     (let e = e\<lparr>bh_last_check := now\<rparr>
      in if success then
           let e = e\<lparr>bh_failures := 0, bh_successes := saturating_add1 (bh_successes e)\<rparr>
           in if \<not> bh_healthy e \<and> bh_successes e \<ge> healthy_threshold
              then e\<lparr>bh_healthy := True, bh_last_transition := Some now\<rparr> else e
         else
           let e = e\<lparr>bh_successes := 0, bh_failures := saturating_add1 (bh_failures e)\<rparr>
           in if bh_healthy e \<and> bh_failures e \<ge> unhealthy_threshold
              then e\<lparr>bh_healthy := False, bh_last_transition := Some now\<rparr> else e)"

definition record_check ::
  "string \<Rightarrow> u64 \<Rightarrow> bool \<Rightarrow> u32 \<Rightarrow> u32 \<Rightarrow> nat \<Rightarrow> health_store \<Rightarrow> health_store" where
  "record_check key hash success healthy_threshold unhealthy_threshold now st =
     (case map_of st key of
        None \<Rightarrow> st
      | Some sh \<Rightarrow>
          if hash \<notin> sh_tracked sh then st
          else
            let entry = case_option (backend_health_default now) id (map_of (sh_states sh) hash);
                entry' = health_entry_step success (max healthy_threshold 1) (max unhealthy_threshold 1) now entry;
                sh' = sh\<lparr>sh_states := AList.update hash entry' (sh_states sh)\<rparr>;
                sh'' = (if bh_healthy entry \<noteq> bh_healthy entry'
                        then sh'\<lparr>sh_unhealthy := (if bh_healthy entry' then sh_unhealthy sh' - {hash}
                                                  else insert hash (sh_unhealthy sh'))\<rparr>
                        else sh')
            in AList.update key sh'' st)"

definition get_or_create_service_state :: "string \<Rightarrow> health_store \<Rightarrow> service_health" where
  "get_or_create_service_state key st = case_option service_health_default id (map_of st key)"

definition register_service :: "string \<Rightarrow> u64 list \<Rightarrow> nat \<Rightarrow> health_store \<Rightarrow> health_store" where
  "register_service key backend_hashes now st =
     (let sh = get_or_create_service_state key st;
          backend_set = set backend_hashes
      in if sh_tracked sh = backend_set then AList.update key sh st
         else
           let retained = filter (\<lambda>(hash, _). hash \<in> backend_set) (sh_states sh);
               states = fold (\<lambda>hash states. if map_of states hash = None
                                then AList.update hash (backend_health_default now) states else states)
                          (remdups backend_hashes) retained
           in AList.update key
                \<lparr>sh_tracked = backend_set,
                 sh_unhealthy = set (map fst (filter (\<lambda>(_, e). \<not> bh_healthy e) states)),
                 sh_states = states\<rparr> st)"

definition unregister_service :: "string \<Rightarrow> health_store \<Rightarrow> health_store" where
  "unregister_service key st = (if map_of st key = None then st else AList.delete key st)"

section \<open>Health check configurations\<close>

datatype hc_source = SourceService | SourceEndpointSlice | SourceEndpoint

record 'c hc_config_store =
  hc_service :: "(string, 'c) alist"
  hc_endpoint_slice :: "(string, 'c) alist"
  hc_endpoint :: "(string, 'c) alist"

definition hc_config_new :: "'c hc_config_store" where
  "hc_config_new = \<lparr>hc_service = [], hc_endpoint_slice = [], hc_endpoint = []\<rparr>"

definition resolve :: "string \<Rightarrow> 'c hc_config_store \<Rightarrow> ('c \<times> hc_source) option" where
  "resolve key cs =
     (case map_of (hc_endpoint_slice cs) key of
        Some config \<Rightarrow> Some (config, SourceEndpointSlice)
      | None \<Rightarrow>
          (case map_of (hc_endpoint cs) key of
             Some config \<Rightarrow> Some (config, SourceEndpoint)
           | None \<Rightarrow> map_option (\<lambda>config. (config, SourceService)) (map_of (hc_service cs) key)))"

definition all_configured_services :: "'c hc_config_store \<Rightarrow> string set" where
  "all_configured_services cs =
     set (map fst (hc_service cs)) \<union> set (map fst (hc_endpoint_slice cs)) \<union> set (map fst (hc_endpoint cs))"

definition set_config :: "string \<Rightarrow> 'c option \<Rightarrow> (string, 'c) alist \<Rightarrow> (string, 'c) alist" where
  "set_config key config m =
     (case config of Some cfg \<Rightarrow> AList.update key cfg m | None \<Rightarrow> AList.delete key m)"

definition set_service_config :: "string \<Rightarrow> 'c option \<Rightarrow> 'c hc_config_store \<Rightarrow> 'c hc_config_store" where
  "set_service_config key config cs = cs\<lparr>hc_service := set_config key config (hc_service cs)\<rparr>"

definition set_endpoint_slice_config :: "string \<Rightarrow> 'c option \<Rightarrow> 'c hc_config_store \<Rightarrow> 'c hc_config_store" where
  "set_endpoint_slice_config key config cs =
     cs\<lparr>hc_endpoint_slice := set_config key config (hc_endpoint_slice cs)\<rparr>"

definition set_endpoint_config :: "string \<Rightarrow> 'c option \<Rightarrow> 'c hc_config_store \<Rightarrow> 'c hc_config_store" where
  "set_endpoint_config key config cs = cs\<lparr>hc_endpoint := set_config key config (hc_endpoint cs)\<rparr>"

definition hc_remove_service :: "string \<Rightarrow> 'c hc_config_store \<Rightarrow> 'c hc_config_store" where
  "hc_remove_service key cs =
     set_endpoint_config key None (set_endpoint_slice_config key None (set_service_config key None cs))"

section \<open>The health check manager\<close>

record 'c hc_manager =
  hm_tasks :: "(string, 'c) alist"
  hm_health :: health_store
  hm_configs :: "'c hc_config_store"

text \<open>The boolean says whether the call runs inside an asynchronous runtime that can start a task.\<close>

definition upsert_task :: "bool \<Rightarrow> string \<Rightarrow> 'c \<Rightarrow> 'c hc_manager \<Rightarrow> 'c hc_manager" where
  "upsert_task has_runtime key config m =
     (let tasks = AList.delete key (hm_tasks m)
      in m\<lparr>hm_tasks := (if has_runtime then AList.update key config tasks else tasks)\<rparr>)"

definition reconcile_service :: "bool \<Rightarrow> string \<Rightarrow> 'c hc_manager \<Rightarrow> 'c hc_manager" where
  "reconcile_service has_runtime key m =
     (case resolve key (hm_configs m) of
        Some (config, _) \<Rightarrow> upsert_task has_runtime key config m
      | None \<Rightarrow> m\<lparr>hm_tasks := AList.delete key (hm_tasks m),
                  hm_health := unregister_service key (hm_health m)\<rparr>)"

section \<open>Invariant of the status store\<close>

definition service_health_wf :: "service_health \<Rightarrow> bool" where
  "service_health_wf sh \<longleftrightarrow>
     distinct (map fst (sh_states sh)) \<and> set (map fst (sh_states sh)) = sh_tracked sh \<and>
     (\<forall>hash. hash \<in> sh_unhealthy sh \<longleftrightarrow>
        (\<exists>e. map_of (sh_states sh) hash = Some e \<and> \<not> bh_healthy e))"

definition health_wf :: "health_store \<Rightarrow> bool" where
  "health_wf st \<longleftrightarrow> (\<forall>key sh. map_of st key = Some sh \<longrightarrow> service_health_wf sh)"

lemma health_wfD: "health_wf st \<Longrightarrow> map_of st key = Some sh \<Longrightarrow> service_health_wf sh"
  by (simp add: health_wf_def)

lemma health_wf_update [wf_intros]:
  "health_wf st \<Longrightarrow> service_health_wf sh \<Longrightarrow> health_wf (AList.update key sh st)"
  by (simp add: health_wf_def)

lemma service_health_default_wf [wf_intros]: "service_health_wf service_health_default"
  by (simp add: service_health_wf_def service_health_default_def)

lemma get_or_create_service_state_wf [wf_intros]:
  "health_wf st \<Longrightarrow> service_health_wf (get_or_create_service_state key st)"
  by (auto simp: get_or_create_service_state_def split: option.splits intro: wf_intros health_wfD)

lemma record_check_wf [wf_intros]:
  assumes "health_wf st"
  shows "health_wf (record_check key hash r ht ut now st)"
proof (cases "map_of st key")
  case (Some sh)
  then have sh: "service_health_wf sh" using assms by (rule health_wfD [rotated])
  show ?thesis
  proof (cases "hash \<in> sh_tracked sh")
    case True
    then have "hash \<in> set (map fst (sh_states sh))" using sh by (simp add: service_health_wf_def)
    then obtain e where e: "map_of (sh_states sh) hash = Some e"
      by (metis list.set_map map_of_eq_None_iff not_Some_eq)
    define e' where "e' = health_entry_step r (max ht 1) (max ut 1) now e"
    have "insert hash (fst ` set (sh_states sh)) = fst ` set (sh_states sh)"
      using True sh by (auto simp: service_health_wf_def)
    then have "service_health_wf (sh\<lparr>sh_states := AList.update hash e' (sh_states sh),
        sh_unhealthy := (if bh_healthy e' then sh_unhealthy sh - {hash} else insert hash (sh_unhealthy sh))\<rparr>)"
      using sh by (auto simp: service_health_wf_def distinct_update dom_update)
    moreover have "sh_unhealthy sh =
        (if bh_healthy e' then sh_unhealthy sh - {hash} else insert hash (sh_unhealthy sh))"
      if "bh_healthy e = bh_healthy e'"
      using that sh e by (auto simp: service_health_wf_def)
    ultimately show ?thesis
      using assms Some True e
      by (auto simp: record_check_def Let_def e'_def [symmetric] intro!: health_wf_update)
  qed (use Some assms in \<open>simp add: record_check_def\<close>)
qed (use assms in \<open>simp add: record_check_def\<close>)

lemma map_of_register_fold:
  "map_of (fold (\<lambda>hash states. if map_of states hash = None
       then AList.update hash (d :: 'b) states else states) hs m) h =
   (case map_of m h of Some e \<Rightarrow> Some e | None \<Rightarrow> if h \<in> set hs then Some d else None)"
  by (induction hs arbitrary: m) (auto split: option.splits)

lemma distinct_register_fold:
  "distinct (map fst m) \<Longrightarrow> distinct (map fst (fold (\<lambda>hash states. if map_of states hash = None
       then AList.update hash (d :: 'b) states else states) hs m))"
  by (induction hs arbitrary: m) (auto simp: distinct_update)

lemma map_of_filter_key: "map_of (filter (\<lambda>(k, _). P k) m) k = (if P k then map_of m k else None)"
  by (induction m) auto

lemma register_service_wf [wf_intros]:
  assumes "health_wf st"
  shows "health_wf (register_service key hs now st)"
proof -
  define sh where "sh = get_or_create_service_state key st"
  have sh: "service_health_wf sh" unfolding sh_def by (rule get_or_create_service_state_wf [OF assms])
  let ?step = "\<lambda>hash states. if map_of states hash = None
                  then AList.update hash (backend_health_default now) states else states"
  define states where "states = fold ?step (remdups hs) (filter (\<lambda>(hash, _). hash \<in> set hs) (sh_states sh))"
  have dist: "distinct (map fst states)"
    unfolding states_def using sh
    by (intro distinct_register_fold) (auto simp: service_health_wf_def intro: distinct_map_filter)
  have mo: "map_of states h = (if h \<in> set hs
      then Some (case_option (backend_health_default now) id (map_of (sh_states sh) h)) else None)" for h
    unfolding states_def map_of_register_fold map_of_filter_key by (auto split: option.splits)
  have "fst ` set states = set hs"
    using mo by (auto simp flip: dom_map_of_conv_image_fst simp: dom_def split: if_splits)
  moreover have "h \<in> set (map fst (filter (\<lambda>(_, e). \<not> bh_healthy e) states)) \<longleftrightarrow>
      (\<exists>e. map_of states h = Some e \<and> \<not> bh_healthy e)" for h
    using dist by (auto simp: image_iff)
  ultimately have "service_health_wf \<lparr>sh_tracked = set hs,
      sh_unhealthy = set (map fst (filter (\<lambda>(_, e). \<not> bh_healthy e) states)), sh_states = states\<rparr>"
    using dist by (simp only: service_health_wf_def service_health.simps list.set_map simp_thms)
  then show ?thesis
    using assms sh
    by (auto simp: register_service_def Let_def sh_def [symmetric] states_def [symmetric] intro!: wf_intros)
qed

section \<open>The entry of one backend\<close>

definition health_entry :: "string \<Rightarrow> u64 \<Rightarrow> health_store \<Rightarrow> backend_health option" where
  "health_entry key hash st = Option.bind (map_of st key) (\<lambda>sh. map_of (sh_states sh) hash)"

lemma is_healthy_entry:
  assumes "health_wf st"
  shows "is_healthy key hash st \<longleftrightarrow> (case health_entry key hash st of None \<Rightarrow> True | Some e \<Rightarrow> bh_healthy e)"
  using health_wfD [OF assms, of key]
  by (auto simp: is_healthy_def health_entry_def service_health_wf_def split: option.splits)

lemma health_entry_tracked:
  assumes "health_wf st" "map_of st key = Some sh"
  shows "hash \<in> sh_tracked sh \<longleftrightarrow> health_entry key hash st \<noteq> None"
  using health_wfD [OF assms] assms(2)
  by (auto simp: health_entry_def service_health_wf_def map_of_eq_None_iff dom_map_of_conv_image_fst
      simp flip: not_None_eq)

lemma health_entry_record_check:
  assumes "health_wf st"
  shows "health_entry key hash (record_check key' hash' r ht ut now st) =
    (if key = key' \<and> hash = hash'
     then map_option (health_entry_step r (max ht 1) (max ut 1) now) (health_entry key hash st)
     else health_entry key hash st)"
proof (cases "map_of st key'")
  case (Some sh)
  show ?thesis
    using Some health_entry_tracked [OF assms Some, of hash']
    by (auto simp: record_check_def health_entry_def Let_def split: option.splits)
qed (auto simp: record_check_def health_entry_def)

lemma health_entry_register:
  "health_entry key hash (register_service key' hs now st) =
    (if key = key' \<and> sh_tracked (get_or_create_service_state key st) \<noteq> set hs
     then if hash \<in> set hs
       then Some (case_option (backend_health_default now) id (health_entry key hash st)) else None
     else health_entry key hash st)"
  by (auto simp: register_service_def Let_def health_entry_def map_of_register_fold map_of_filter_key
      get_or_create_service_state_def service_health_default_def split: option.splits)

section \<open>Hysteresis\<close>

text \<open>
  The reference semantics of the probe results of one backend, the most recent result first: a
  healthy backend becomes unhealthy when the last \<open>ut\<close> results all failed, an unhealthy one becomes
  healthy when the last \<open>ht\<close> results all succeeded.
\<close>

fun health_ref :: "nat \<Rightarrow> nat \<Rightarrow> bool list \<Rightarrow> bool" where
  "health_ref ht ut [] = True"
| "health_ref ht ut (r # rs) =
     (if health_ref ht ut rs then \<not> ut \<le> length (takeWhile Not (r # rs))
      else ht \<le> length (takeWhile id (r # rs)))"

definition entry_agrees :: "nat \<Rightarrow> nat \<Rightarrow> bool list \<Rightarrow> backend_health \<Rightarrow> bool" where
  "entry_agrees ht ut rs e \<longleftrightarrow>
     bh_healthy e = health_ref ht ut rs \<and>
     unat (bh_failures e) = min (length (takeWhile Not rs)) (2 ^ 32 - 1) \<and>
     unat (bh_successes e) = min (length (takeWhile id rs)) (2 ^ 32 - 1)"

lemma unat_saturating_add1: "unat (saturating_add1 n) = min (unat n + 1) (2 ^ 32 - 1)"
proof (cases "n = 0xFFFFFFFF")
  case False
  have "unat n \<noteq> unat (0xFFFFFFFF :: u32)" using False by (simp only: word_unat_eq_iff simp_thms)
  moreover have "unat n < 2 ^ 32" using unat_bound [of n] by simp
  ultimately have "unat n + 1 < 2 ^ 32" by simp
  then show ?thesis using False by (simp add: saturating_add1_def unat_word_ariths)
qed (simp add: saturating_add1_def)

lemma entry_agrees_step:
  assumes "entry_agrees (unat ht) (unat ut) rs e" "0 < unat ht" "0 < unat ut"
  shows "entry_agrees (unat ht) (unat ut) (r # rs) (health_entry_step r ht ut now e)"
proof -
  have ht: "unat ht \<le> 2 ^ 32 - 1" and ut: "unat ut \<le> 2 ^ 32 - 1"
    using unat_bound [of ht] unat_bound [of ut] by simp_all
  show ?thesis
    using assms ht ut
    by (cases r; auto simp: entry_agrees_def health_entry_step_def Let_def unat_saturating_add1
        word_le_nat_alt)
qed

text \<open>A run of probe results of any services and backends; the thresholds are per service.\<close>

type_synonym probe = "string \<times> u64 \<times> bool \<times> nat"

definition probe_apply :: "(string \<Rightarrow> u32 \<times> u32) \<Rightarrow> probe \<Rightarrow> health_store \<Rightarrow> health_store" where
  "probe_apply thresholds p st =
     (case p of (key, hash, success, now) \<Rightarrow>
        record_check key hash success (fst (thresholds key)) (snd (thresholds key)) now st)"

definition results_of :: "string \<Rightarrow> u64 \<Rightarrow> probe list \<Rightarrow> bool list" where
  "results_of key hash ps =
     map (\<lambda>(_, _, success, _). success) (filter (\<lambda>(k, h, _). k = key \<and> h = hash) ps)"

lemma probe_run_wf: "health_wf st \<Longrightarrow> health_wf (fold (probe_apply thresholds) ps st)"
  by (induction ps arbitrary: st) (auto simp: probe_apply_def split: prod.splits intro: wf_intros)

lemma max_1_pos: "0 < unat (max (w :: u32) 1)"
  by (metis max.cobounded2 unat_1 word_le_nat_alt zero_less_one less_le_trans)

lemma probe_run_entry:
  assumes "health_wf st" "health_entry key hash st = Some e"
    and "entry_agrees (unat (max (fst (thresholds key)) 1)) (unat (max (snd (thresholds key)) 1)) rs e"
  shows "\<exists>e'. health_entry key hash (fold (probe_apply thresholds) ps st) = Some e' \<and>
    entry_agrees (unat (max (fst (thresholds key)) 1)) (unat (max (snd (thresholds key)) 1))
      (rev (results_of key hash ps) @ rs) e'"
  using assms
proof (induction ps arbitrary: st e rs)
  case (Cons p ps)
  obtain k h r now where p: "p = (k, h, r, now)" by (cases p)
  let ?st = "probe_apply thresholds p st"
  have wf: "health_wf ?st" using Cons.prems(1) by (auto simp: probe_apply_def p intro: wf_intros)
  show ?case
  proof (cases "k = key \<and> h = hash")
    case True
    let ?e = "health_entry_step r (max (fst (thresholds key)) 1) (max (snd (thresholds key)) 1) now e"
    have "health_entry key hash ?st = Some ?e"
      using True Cons.prems(1,2) by (simp add: probe_apply_def p health_entry_record_check)
    from Cons.IH [OF wf this entry_agrees_step [OF Cons.prems(3) max_1_pos max_1_pos]]
    show ?thesis using True by (simp add: results_of_def p)
  next
    case False
    then have "health_entry key hash ?st = Some e"
      using Cons.prems(1,2) by (auto simp: probe_apply_def p health_entry_record_check)
    from Cons.IH [OF wf this Cons.prems(3)] show ?thesis using False by (auto simp: results_of_def p)
  qed
qed (auto simp: results_of_def)

section \<open>Properties\<close>

text \<open>
  C17: the health verdict of a backend follows the thresholds. After a service is registered,
  whatever probes of any services and backends are recorded, the backend is reported healthy exactly
  when the reference semantics of its own probe results says so, thresholds of zero counting as one
  and the counters saturating.
\<close>

theorem health_hysteresis:
  assumes "hash \<in> set hashes"
  shows "is_healthy key hash (fold (probe_apply thresholds) ps (register_service key hashes now [])) =
    health_ref (unat (max (fst (thresholds key)) 1)) (unat (max (snd (thresholds key)) 1))
      (rev (results_of key hash ps))"
proof -
  let ?st = "register_service key hashes now []"
  have "health_wf []" and empty: "health_entry key hash [] = None"
    by (simp_all add: health_wf_def health_entry_def)
  then have wf: "health_wf ?st" by (intro register_service_wf)
  have "health_entry key hash ?st = Some (backend_health_default now)"
    using assms empty by (auto simp: health_entry_register get_or_create_service_state_def
        service_health_default_def)
  moreover have "entry_agrees ht ut [] (backend_health_default now)" for ht ut
    by (simp add: entry_agrees_def backend_health_default_def)
  ultimately show ?thesis
    using probe_run_entry [OF wf, of key hash _ thresholds "[]" ps] is_healthy_entry [OF probe_run_wf [OF wf]]
    by (fastforce simp: entry_agrees_def)
qed

theorem health_hysteresis_witness:
  "\<not> is_healthy ''a/s'' 7 (fold (probe_apply (\<lambda>_. (2, 2)))
      [(''a/s'', 7, False, 1), (''b/s'', 7, True, 2), (''a/s'', 7, False, 3), (''a/s'', 7, True, 4)]
      (register_service ''a/s'' [7, 8] 0 []))"
  using health_hysteresis [of 7 "[7, 8]" "''a/s''" "\<lambda>_. (2, 2)"
      "[(''a/s'', 7, False, 1), (''b/s'', 7, True, 2), (''a/s'', 7, False, 3), (''a/s'', 7, True, 4)]" 0]
  by (simp add: results_of_def)

text \<open>
  C18: when the backends of a service change, a backend that stays keeps its verdict, and a
  backend that is new or gone counts as healthy; other services are not affected.
\<close>

theorem register_keeps_verdicts:
  assumes "health_wf st"
  shows "is_healthy key hash (register_service key' hashes now st) =
    (if key = key' \<and> hash \<notin> set hashes then True else is_healthy key hash st)"
proof -
  have tr: "health_entry key hash st \<noteq> None \<Longrightarrow> hash \<in> sh_tracked (get_or_create_service_state key st)"
    using health_entry_tracked [OF assms, of key] 
    by (cases "map_of st key") (auto simp: get_or_create_service_state_def health_entry_def)
  show ?thesis
    using tr unfolding is_healthy_entry [OF assms] is_healthy_entry [OF register_service_wf [OF assms]]
      health_entry_register
    by (auto simp: backend_health_default_def split: option.splits)
qed

theorem register_keeps_verdicts_witness:
  "\<not> is_healthy ''a/s'' 7 (register_service ''a/s'' [7, 9] 5
     (record_check ''a/s'' 7 False 1 1 4 (register_service ''a/s'' [7, 8] 0 [])))"
proof -
  have "health_wf []" by (simp add: health_wf_def)
  then have "health_wf (record_check ''a/s'' 7 False 1 1 4 (register_service ''a/s'' [7, 8] 0 []))"
    by (intro register_service_wf record_check_wf)
  moreover have "\<not> is_healthy ''a/s'' 7 (record_check ''a/s'' 7 False 1 1 4 (register_service ''a/s'' [7, 8] 0 []))"
    by code_simp
  ultimately show ?thesis
    using register_keeps_verdicts [of _ "''a/s''" 7 "''a/s''" "[7, 9]" 5] by simp
qed

end
