(* ===== verification/Conf_Client.thy ===== *)
theory Conf_Client
  imports Edgion_Prelude "HOL-Library.AList"
begin

text \<open>
  The configuration client of a gateway (\<open>src/src/core/gateway/conf_sync/cache_client/\<close>): the
  cached resources of one kind with the compressed events of its handler (\<open>cache_data.rs\<close>,
  \<open>cache.rs\<close>), and the loop that lists and then watches the controller
  (\<open>event_dispatch.rs\<close>), a state machine that consumes the outcomes of the calls to the
  controller. The change kinds and the handler interface are those of
  \<open>src/src/core/common/conf_sync/traits.rs\<close>.

  The code is generic in the resource type; what it uses of it is an argument: the key of a
  resource, and the preparation that list and watch apply to a decoded resource
  (\<open>pre_parse\<close> followed by \<open>set_sync_version\<close>). The handler is a state with the two operations
  \<open>full_set\<close> and \<open>partial_update\<close>.
\<close>

section \<open>Changes and the handler interface\<close>

datatype resource_change = InitStart | InitAdd | InitDone | EventAdd | EventUpdate | EventDelete

type_synonym 'v dict = "(string \<times> 'v) list"

record ('v, 'h) conf_ops =
  op_full_set :: "'v dict \<Rightarrow> 'h \<Rightarrow> 'h"
  op_partial_update :: "'v dict \<Rightarrow> 'v dict \<Rightarrow> string list \<Rightarrow> 'h \<Rightarrow> 'h"

section \<open>The cache\<close>

record 'h handler_data =
  hd_processor :: 'h
  hd_events :: "resource_change list dict"

record ('v, 'h) cache_data =
  cd_ready :: bool
  cd_data :: "'v dict"
  cd_sync_version :: u64
  cd_handler :: "'h handler_data option"

definition cache_new :: "('v, 'h) cache_data" where
  "cache_new = \<lparr>cd_ready = False, cd_data = [], cd_sync_version = 0, cd_handler = None\<rparr>"

definition cache_reset ::
  "('v, 'h) conf_ops \<Rightarrow> ('v \<Rightarrow> string) \<Rightarrow> 'v list \<Rightarrow> u64 \<Rightarrow> ('v, 'h) cache_data \<Rightarrow> ('v, 'h) cache_data" where
  "cache_reset ops key_name resources sync_version c =
     (let c = c\<lparr>cd_data := fold (\<lambda>r. AList.update (key_name r) r) resources [],
                cd_sync_version := sync_version\<rparr>
      in case cd_handler c of
           None \<Rightarrow> c
         | Some hnd \<Rightarrow>
             c\<lparr>cd_handler := Some \<lparr>hd_processor = op_full_set ops (cd_data c) (hd_processor hnd),
                                   hd_events = []\<rparr>\<rparr>)"

definition cache_set_ready :: "('v, 'h) cache_data \<Rightarrow> ('v, 'h) cache_data" where
  "cache_set_ready c = c\<lparr>cd_ready := True\<rparr>"

definition cache_insert :: "string \<Rightarrow> 'v \<Rightarrow> ('v, 'h) cache_data \<Rightarrow> ('v, 'h) cache_data" where
  "cache_insert key v c = c\<lparr>cd_data := AList.update key v (cd_data c)\<rparr>"

definition cache_remove :: "string \<Rightarrow> ('v, 'h) cache_data \<Rightarrow> ('v, 'h) cache_data" where
  "cache_remove key c = c\<lparr>cd_data := AList.delete key (cd_data c)\<rparr>"

definition set_conf_processor :: "'h \<Rightarrow> ('v, 'h) cache_data \<Rightarrow> ('v, 'h) cache_data" where
  "set_conf_processor processor c = c\<lparr>cd_handler := Some \<lparr>hd_processor = processor, hd_events = []\<rparr>\<rparr>"

definition add_event :: "string \<Rightarrow> resource_change \<Rightarrow> resource_change list dict \<Rightarrow> resource_change list dict" where
  "add_event key change events =
     AList.update key (case_option [] id (map_of events key) @ [change]) events"

definition add_compress_event ::
  "string \<Rightarrow> resource_change \<Rightarrow> ('v, 'h) cache_data \<Rightarrow> ('v, 'h) cache_data" where
  "add_compress_event key change c =
     (case cd_handler c of
        None \<Rightarrow> c
      | Some hnd \<Rightarrow> c\<lparr>cd_handler := Some (hnd\<lparr>hd_events := add_event key change (hd_events hnd)\<rparr>)\<rparr>)"

definition trigger_update_event_by_key :: "string \<Rightarrow> ('v, 'h) cache_data \<Rightarrow> ('v, 'h) cache_data" where
  "trigger_update_event_by_key key c = add_compress_event key EventUpdate c"

definition is_add_history :: "resource_change list \<Rightarrow> bool" where
  "is_add_history events \<longleftrightarrow> (\<exists>e \<in> set events. e = InitAdd \<or> e = EventAdd)"

text \<open>
  The periodic processing of the pending events. The result says whether the task goes on.
\<close>

definition classify_add :: "'v dict \<Rightarrow> resource_change list dict \<Rightarrow> 'v dict" where
  "classify_add data events =
     List.map_filter (\<lambda>(key, es). case map_of data key of
         Some r \<Rightarrow> if is_add_history es then Some (key, r) else None | None \<Rightarrow> None) events"

definition classify_update :: "'v dict \<Rightarrow> resource_change list dict \<Rightarrow> 'v dict" where
  "classify_update data events =
     List.map_filter (\<lambda>(key, es). case map_of data key of
         Some r \<Rightarrow> if is_add_history es then None else Some (key, r) | None \<Rightarrow> None) events"

definition classify_remove :: "'v dict \<Rightarrow> resource_change list dict \<Rightarrow> string list" where
  "classify_remove data events =
     map fst (filter (\<lambda>(key, _). map_of data key = None) events)"

definition process_compressed_events ::
  "('v, 'h) conf_ops \<Rightarrow> ('v, 'h) cache_data \<Rightarrow> bool \<times> ('v, 'h) cache_data" where
  "process_compressed_events ops c =
     (case cd_handler c of
        None \<Rightarrow> (False, c)
      | Some hnd \<Rightarrow>
          if hd_events hnd = [] then (True, c)
          else
            let add = classify_add (cd_data c) (hd_events hnd);
                update = classify_update (cd_data c) (hd_events hnd);
                remove = classify_remove (cd_data c) (hd_events hnd)
            in if add = [] \<and> update = [] \<and> remove = [] then (True, c)
               else (True, c\<lparr>cd_handler :=
                       Some \<lparr>hd_processor = op_partial_update ops add update remove (hd_processor hnd),
                             hd_events = []\<rparr>\<rparr>))"

text \<open>\<open>apply_change\<close> of the cache event dispatch.\<close>

definition apply_change ::
  "('v \<Rightarrow> string) \<Rightarrow> resource_change \<Rightarrow> 'v \<Rightarrow> ('v, 'h) cache_data \<Rightarrow> ('v, 'h) cache_data" where
  "apply_change key_name change resource c =
     (let key = key_name resource;
          c = add_compress_event key change c
      in case change of
           InitAdd \<Rightarrow> cache_insert key resource c
         | EventAdd \<Rightarrow> cache_insert key resource c
         | EventUpdate \<Rightarrow> cache_insert key resource c
         | EventDelete \<Rightarrow> cache_remove key c
         | InitStart \<Rightarrow> c
         | InitDone \<Rightarrow> c)"

section \<open>List and watch\<close>

text \<open>One event of a watch response: its type, its own version if it carries one, and its
  resource if it decodes.\<close>

record 'v watch_event =
  we_type :: string
  we_sync_version :: "u64 option"
  we_resource :: "'v option"

definition watch_change :: "string \<Rightarrow> resource_change option" where
  "watch_change event_type =
     (if event_type = ''add'' then Some EventAdd
      else if event_type = ''update'' then Some EventUpdate
      else if event_type = ''delete'' then Some EventDelete
      else None)"

definition apply_watch_event ::
  "('v \<Rightarrow> string) \<Rightarrow> (u64 \<Rightarrow> 'v \<Rightarrow> 'v) \<Rightarrow> u64 \<Rightarrow> 'v watch_event \<Rightarrow> ('v, 'h) cache_data \<Rightarrow> ('v, 'h) cache_data" where
  "apply_watch_event key_name prepare response_sv ev c =
     (case we_resource ev of
        None \<Rightarrow> c
      | Some r \<Rightarrow>
          let event_sv = case_option response_sv id (we_sync_version ev);
              resource = prepare event_sv r;
              key = key_name resource
          in (case watch_change (we_type ev) of
               None \<Rightarrow> c
             | Some change \<Rightarrow>
                 if change = EventDelete
                 then add_compress_event key change (cache_remove key c)
                 else add_compress_event key change (cache_insert key resource c)))"

datatype 'v net_input =
    NoClient
  | ListOk "'v list" u64 string
  | ListErr
  | WatchStarted
  | WatchFailed
  | Message string string u64 "'v watch_event list option"
  | StreamEnd
  | StreamErr

datatype watch_phase = Listing | Connecting u64 string | Watching u64 string

record ('v, 'h) watch_state =
  ws_phase :: watch_phase
  ws_backoff_secs :: nat
  ws_is_ready :: bool
  ws_cache :: "('v, 'h) cache_data"

definition backoff_init_secs :: nat where "backoff_init_secs = 2"
definition backoff_max_secs :: nat where "backoff_max_secs = 32"

definition watch_start :: "('v, 'h) cache_data \<Rightarrow> ('v, 'h) watch_state" where
  "watch_start c =
     \<lparr>ws_phase = Listing, ws_backoff_secs = backoff_init_secs, ws_is_ready = False, ws_cache = c\<rparr>"

text \<open>
  One step of \<open>start_watch\<close>. A failed list doubles the backoff up to its maximum; a successful
  one resets the cache and the backoff, marks the cache ready the first time, and goes on to the
  watch. An error, a change of the server, the end of the stream and a failure all go back to
  listing. A response whose events do not decode is skipped. An input that cannot arise in a phase
  leaves the state as it is.
\<close>

fun watch_step ::
  "('v, 'h) conf_ops \<Rightarrow> ('v \<Rightarrow> string) \<Rightarrow> (u64 \<Rightarrow> 'v \<Rightarrow> 'v) \<Rightarrow> 'v net_input \<Rightarrow>
   ('v, 'h) watch_state \<Rightarrow> ('v, 'h) watch_state" where
  "watch_step ops key_name prepare inp w =
     (case ws_phase w of
        Listing \<Rightarrow>
          (case inp of
             ListOk resources sv server_id \<Rightarrow>
               let c = cache_reset ops key_name (map (prepare sv) resources) sv (ws_cache w);
                   c = (if ws_is_ready w then c else cache_set_ready c)
               in w\<lparr>ws_phase := Connecting sv server_id, ws_backoff_secs := backoff_init_secs,
                    ws_is_ready := True, ws_cache := c\<rparr>
           | NoClient \<Rightarrow> w\<lparr>ws_backoff_secs := min (ws_backoff_secs w * 2) backoff_max_secs\<rparr>
           | ListErr \<Rightarrow> w\<lparr>ws_backoff_secs := min (ws_backoff_secs w * 2) backoff_max_secs\<rparr>
           | _ \<Rightarrow> w)
      | Connecting from_version server_id \<Rightarrow>
          (case inp of
             WatchStarted \<Rightarrow> w\<lparr>ws_phase := Watching from_version server_id\<rparr>
           | NoClient \<Rightarrow> w\<lparr>ws_phase := Listing\<rparr>
           | WatchFailed \<Rightarrow> w\<lparr>ws_phase := Listing\<rparr>
           | _ \<Rightarrow> w)
      | Watching from_version server_id \<Rightarrow>
          (case inp of
             Message err msg_server_id response_sv events \<Rightarrow>
               if err \<noteq> [] then w\<lparr>ws_phase := Listing\<rparr>
               else if msg_server_id \<noteq> [] \<and> msg_server_id \<noteq> server_id then w\<lparr>ws_phase := Listing\<rparr>
               else (case events of
                       None \<Rightarrow> w
                     | Some evs \<Rightarrow>
                         w\<lparr>ws_cache := fold (apply_watch_event key_name prepare response_sv) evs (ws_cache w)\<rparr>)
           | StreamEnd \<Rightarrow> w\<lparr>ws_phase := Listing\<rparr>
           | StreamErr \<Rightarrow> w\<lparr>ws_phase := Listing\<rparr>
           | _ \<Rightarrow> w))"

declare watch_step.simps [simp del]

text \<open>The client as a whole: outcomes of network calls, ticks of the processing task, and manually
  triggered updates, in any order.\<close>

datatype 'v client_action = Net "'v net_input" | Tick | Trigger string

fun client_act ::
  "('v, 'h) conf_ops \<Rightarrow> ('v \<Rightarrow> string) \<Rightarrow> (u64 \<Rightarrow> 'v \<Rightarrow> 'v) \<Rightarrow> 'v client_action \<Rightarrow>
   ('v, 'h) watch_state \<Rightarrow> ('v, 'h) watch_state" where
  "client_act ops key_name prepare (Net inp) w = watch_step ops key_name prepare inp w"
| "client_act ops key_name prepare Tick w =
     w\<lparr>ws_cache := snd (process_compressed_events ops (ws_cache w))\<rparr>"
| "client_act ops key_name prepare (Trigger key) w =
     w\<lparr>ws_cache := trigger_update_event_by_key key (ws_cache w)\<rparr>"

text \<open>A run of a client whose handler is installed before the first list.\<close>

definition client_run ::
  "('v, 'h) conf_ops \<Rightarrow> ('v \<Rightarrow> string) \<Rightarrow> (u64 \<Rightarrow> 'v \<Rightarrow> 'v) \<Rightarrow> 'h \<Rightarrow> 'v client_action list \<Rightarrow>
   ('v, 'h) watch_state" where
  "client_run ops key_name prepare h acts =
     fold (client_act ops key_name prepare) acts (watch_start (set_conf_processor h cache_new))"

section \<open>The contract of a handler\<close>

text \<open>
  What the client relies on: the handler keeps a map of the resources it was given. The three
  arguments of a partial update have no key in common; a resource passed as added need not be new,
  since a deletion and an addition between two ticks are passed as one addition.
\<close>

definition partial_args :: "'v dict \<Rightarrow> 'v dict \<Rightarrow> string list \<Rightarrow> bool" where
  "partial_args add update remove \<longleftrightarrow> distinct (map fst add @ map fst update @ remove)"

definition dict_update ::
  "'v dict \<Rightarrow> 'v dict \<Rightarrow> string list \<Rightarrow> (string \<rightharpoonup> 'v) \<Rightarrow> (string \<rightharpoonup> 'v)" where
  "dict_update add update remove m key =
     (case map_of add key of
        Some v \<Rightarrow> Some v
      | None \<Rightarrow>
          (case map_of update key of
             Some v \<Rightarrow> Some v
           | None \<Rightarrow> if key \<in> set remove then None else m key))"

locale conf_handler =
  fixes ops :: "('v, 'h) conf_ops" and view :: "'h \<Rightarrow> string \<rightharpoonup> 'v"
  assumes full_set_view:
    "distinct (map fst data) \<Longrightarrow> view (op_full_set ops data h) = map_of data"
    and partial_update_view:
    "partial_args add update remove \<Longrightarrow>
       view (op_partial_update ops add update remove h) = dict_update add update remove (view h)"
begin

text \<open>A cache agrees with its handler up to the keys with pending events.\<close>

definition coherent :: "('v, 'h) cache_data \<Rightarrow> bool" where
  "coherent c \<longleftrightarrow>
     distinct (map fst (cd_data c)) \<and>
     (case cd_handler c of
        None \<Rightarrow> True
      | Some hnd \<Rightarrow>
          distinct (map fst (hd_events hnd)) \<and>
          (\<forall>key. key \<notin> fst ` set (hd_events hnd) \<longrightarrow> view (hd_processor hnd) key = map_of (cd_data c) key))"

lemma coherent_new: "coherent cache_new"
  by (simp add: coherent_def cache_new_def)

lemma coherent_set_ready: "coherent c \<Longrightarrow> coherent (cache_set_ready c)"
  by (auto simp: coherent_def cache_set_ready_def split: option.splits)

lemma distinct_fold_update: "distinct (map fst al) \<Longrightarrow> distinct (map fst (fold (\<lambda>r. AList.update (f r) r) rs al))"
  by (induction rs arbitrary: al) (auto simp: distinct_update)

lemma coherent_reset: "coherent (cache_reset ops key_name resources sv c)"
  by (auto simp: coherent_def cache_reset_def Let_def full_set_view distinct_fold_update split: option.splits)

lemma add_event_keys:
  "distinct (map fst es) \<Longrightarrow> distinct (map fst (add_event key change es))"
  "fst ` set (add_event key change es) = insert key (fst ` set es)"
  by (simp_all add: add_event_def distinct_update dom_update)

lemma coherent_change:
  assumes "coherent c" "distinct (map fst data)" "\<And>k. k \<noteq> key \<Longrightarrow> map_of data k = map_of (cd_data c) k"
  shows "coherent (add_compress_event key change (c\<lparr>cd_data := data\<rparr>))"
  using assms by (auto simp: coherent_def add_compress_event_def add_event_keys split: option.splits)

lemma coherent_insert:
  "coherent c \<Longrightarrow> coherent (add_compress_event key change (cache_insert key v c))"
  unfolding cache_insert_def
  by (rule coherent_change) (auto simp: coherent_def distinct_update update_conv')

lemma coherent_remove:
  "coherent c \<Longrightarrow> coherent (add_compress_event key change (cache_remove key c))"
  unfolding cache_remove_def
  by (rule coherent_change) (auto simp: coherent_def distinct_delete delete_conv')

lemma coherent_event: "coherent c \<Longrightarrow> coherent (add_compress_event key change c)"
  using coherent_change [of c "cd_data c" key change] by (simp add: coherent_def [of c])

lemma coherent_trigger: "coherent c \<Longrightarrow> coherent (trigger_update_event_by_key key c)"
  by (simp add: trigger_update_event_by_key_def coherent_event)

lemma add_compress_event_commute:
  "cache_insert key v (add_compress_event key change c) = add_compress_event key change (cache_insert key v c)"
  "cache_remove key (add_compress_event key change c) = add_compress_event key change (cache_remove key c)"
  by (auto simp: cache_insert_def cache_remove_def add_compress_event_def split: option.splits)

lemma coherent_apply_change: "coherent c \<Longrightarrow> coherent (apply_change key_name change resource c)"
  by (cases change)
    (simp_all add: apply_change_def Let_def add_compress_event_commute coherent_insert coherent_remove
      coherent_event)

lemma coherent_watch_event:
  "coherent c \<Longrightarrow> coherent (apply_watch_event key_name prepare sv ev c)"
  by (auto simp: apply_watch_event_def Let_def coherent_insert coherent_remove split: option.splits)

lemma coherent_watch_step:
  assumes "coherent (ws_cache w)"
  shows "coherent (ws_cache (watch_step ops key_name prepare inp w))"
proof -
  have "coherent c \<Longrightarrow> coherent (fold (apply_watch_event key_name prepare sv) evs c)" for c sv evs
    by (induction evs arbitrary: c) (auto simp: coherent_watch_event)
  then show ?thesis
    using assms
    by (auto simp: watch_step.simps Let_def coherent_reset coherent_set_ready
        split: watch_phase.splits net_input.splits option.splits)
qed

lemma classify_split:
  assumes "distinct (map fst es)"
  shows "partial_args (classify_add data es) (classify_update data es) (classify_remove data es)"
  using assms
proof (induction es)
  case (Cons ke es)
  have keys: "fst ` set (classify_add data es) \<subseteq> fst ` set es" "fst ` set (classify_update data es) \<subseteq> fst ` set es"
    "set (classify_remove data es) \<subseteq> fst ` set es" for es
    by (auto simp: classify_add_def classify_update_def classify_remove_def set_map_filter
        split: option.splits if_splits intro: rev_image_eqI)
  show ?case
    using Cons keys [of es]
    by (cases ke) (auto simp: partial_args_def classify_add_def classify_update_def classify_remove_def
        split: option.splits)
qed (simp add: partial_args_def classify_add_def classify_update_def classify_remove_def)

lemma classify_dict_update:
  assumes "distinct (map fst es)" "\<And>k. k \<notin> fst ` set es \<Longrightarrow> m k = map_of data k"
  shows "dict_update (classify_add data es) (classify_update data es) (classify_remove data es) m = map_of data"
proof
  fix k
  have "classify_add data es =
      List.map_filter (\<lambda>(k, e). map_option (Pair k) (if is_add_history e then map_of data k else None)) es"
    unfolding classify_add_def by (rule arg_cong [where f = "\<lambda>f. List.map_filter f es"])
      (auto split: option.splits)
  then have add: "map_of (classify_add data es) k =
      Option.bind (map_of es k) (\<lambda>e. if is_add_history e then map_of data k else None)"
    by (simp add: map_of_map_filter [OF assms(1)])
  have "classify_update data es =
      List.map_filter (\<lambda>(k, e). map_option (Pair k) (if is_add_history e then None else map_of data k)) es"
    unfolding classify_update_def by (rule arg_cong [where f = "\<lambda>f. List.map_filter f es"])
      (auto split: option.splits)
  then have upd: "map_of (classify_update data es) k =
      Option.bind (map_of es k) (\<lambda>e. if is_add_history e then None else map_of data k)"
    by (simp add: map_of_map_filter [OF assms(1)])
  have rem: "k \<in> set (classify_remove data es) \<longleftrightarrow> k \<in> fst ` set es \<and> map_of data k = None"
    by (force simp: classify_remove_def)
  show "dict_update (classify_add data es) (classify_update data es) (classify_remove data es) m k = map_of data k"
  proof (cases "k \<in> fst ` set es")
    case True
    then obtain e where "map_of es k = Some e"
      by (metis domD domIff map_of_eq_None_iff)
    then show ?thesis using True by (auto simp: dict_update_def add upd rem split: option.splits)
  next
    case False
    then have "map_of es k = None" by (simp add: map_of_eq_None_iff)
    then show ?thesis using False assms(2) by (auto simp: dict_update_def add upd rem)
  qed
qed

lemma classify_nonempty:
  "es \<noteq> [] \<Longrightarrow> \<not> (classify_add data es = [] \<and> classify_update data es = [] \<and> classify_remove data es = [])"
  by (cases es) (auto simp: classify_add_def classify_update_def classify_remove_def
      split: option.splits if_splits)

text \<open>A tick delivers every pending change: afterwards the handler sees exactly the cached data.\<close>

lemma tick_delivers:
  assumes "coherent c" "cd_handler c = Some hnd" "process_compressed_events ops c = (go, c')"
  shows "go \<and> cd_data c' = cd_data c \<and> coherent c' \<and>
    (\<exists>hnd'. cd_handler c' = Some hnd' \<and> hd_events hnd' = [] \<and> view (hd_processor hnd') = map_of (cd_data c))"
proof (cases "hd_events hnd = []")
  case True
  then show ?thesis using assms by (auto simp: process_compressed_events_def coherent_def)
next
  case False
  let ?es = "hd_events hnd"
  have d: "distinct (map fst ?es)" and agree: "\<And>k. k \<notin> fst ` set ?es \<Longrightarrow> view (hd_processor hnd) k = map_of (cd_data c) k"
    using assms(1,2) by (auto simp: coherent_def)
  have "view (op_partial_update ops (classify_add (cd_data c) ?es) (classify_update (cd_data c) ?es)
      (classify_remove (cd_data c) ?es) (hd_processor hnd)) = map_of (cd_data c)"
    unfolding partial_update_view [OF classify_split [OF d]] by (rule classify_dict_update [OF d agree])
  then show ?thesis
    using assms False classify_nonempty [OF False, of "cd_data c"]
    by (auto simp: process_compressed_events_def Let_def coherent_def)
qed

definition handled :: "('v, 'h) cache_data \<Rightarrow> bool" where
  "handled c \<longleftrightarrow> coherent c \<and> cd_handler c \<noteq> None"

lemma handled_start:
  assumes "view h = Map.empty"
  shows "handled (ws_cache (watch_start (set_conf_processor h cache_new)))"
  using assms by (simp add: handled_def coherent_def watch_start_def set_conf_processor_def cache_new_def)

lemma handler_kept:
  "cd_handler (add_compress_event k ch c) = None \<longleftrightarrow> cd_handler c = None"
  "cd_handler (cache_insert k v c) = cd_handler c"
  "cd_handler (cache_remove k c) = cd_handler c"
  "cd_handler (cache_set_ready c) = cd_handler c"
  "cd_handler (cache_reset ops key_name rs sv c) = None \<longleftrightarrow> cd_handler c = None"
  "cd_handler (snd (process_compressed_events ops c)) = None \<longleftrightarrow> cd_handler c = None"
  by (auto simp: add_compress_event_def cache_insert_def cache_remove_def cache_set_ready_def
      cache_reset_def process_compressed_events_def Let_def split: option.splits)

lemma handler_kept_watch_event:
  fixes c :: "('v, 'h) cache_data"
  shows "cd_handler (apply_watch_event key_name prepare sv ev c) = None \<longleftrightarrow> cd_handler c = None"
  by (simp add: apply_watch_event_def Let_def handler_kept split: option.splits)

lemma handler_kept_fold:
  fixes c :: "('v, 'h) cache_data"
  shows "cd_handler (fold (apply_watch_event key_name prepare sv) evs c) = None \<longleftrightarrow> cd_handler c = None"
  by (induction evs arbitrary: c) (simp_all add: handler_kept_watch_event)

lemma handled_act:
  assumes "handled (ws_cache w)"
  shows "handled (ws_cache (client_act ops key_name prepare act w))"
proof (cases act)
  case (Net inp)
  have "cd_handler (ws_cache (watch_step ops key_name prepare inp w)) = None \<longleftrightarrow> cd_handler (ws_cache w) = None"
    by (auto simp: watch_step.simps Let_def handler_kept handler_kept_fold
        split: watch_phase.splits net_input.splits option.splits)
  then show ?thesis
    using Net assms coherent_watch_step by (simp add: handled_def)
next
  case Tick
  then show ?thesis
    using assms tick_delivers [of "ws_cache w"] by (auto simp: handled_def handler_kept)
      (metis prod.collapse)
next
  case (Trigger key)
  then show ?thesis
    using assms coherent_trigger by (simp add: handled_def trigger_update_event_by_key_def handler_kept)
qed

text \<open>Whatever has happened, the next tick makes the handler see exactly the cached resources.\<close>

lemma client_run_delivers:
  assumes "view h = Map.empty" and w_def: "w = client_run ops key_name prepare h acts"
  shows "\<exists>hnd. cd_handler (ws_cache (client_act ops key_name prepare Tick w)) = Some hnd \<and>
    view (hd_processor hnd) = map_of (cd_data (ws_cache w))"
proof -
  have "handled (ws_cache w')" if "handled (ws_cache w0)" "w' = fold (client_act ops key_name prepare) acts w0"
    for w0 w' using that by (induction acts arbitrary: w0) (auto simp: handled_act)
  then have "handled (ws_cache w)" using handled_start [OF assms(1)] w_def by (simp add: client_run_def)
  then obtain hnd where c: "coherent (ws_cache w)" "cd_handler (ws_cache w) = Some hnd"
    by (auto simp: handled_def)
  obtain go c' where "process_compressed_events ops (ws_cache w) = (go, c')" by fastforce
  with tick_delivers [OF c this] show ?thesis by auto
qed

end

end
