(* ===== verification/Endpoint_Discovery.thy ===== *)
theory Endpoint_Discovery
  imports Lb_Selection Conf_Client
begin

text \<open>
  Backend discovery of \<open>src/src/core/gateway/backends/discovery/\<close>: the stores of Endpoints and of
  EndpointSlices with their data layer and their load balancer layer
  (\<open>endpoint/endpoint_store.rs\<close>, \<open>endpoint_slice/ep_slice_store.rs\<close>) and the construction of the
  backends of a resource (\<open>endpoint/discovery_impl.rs\<close>, \<open>endpoint_slice/discovery_impl.rs\<close>).

  A hash map is an association list, its order the iteration order, and a hash set a list without
  repetitions. A load balancer of the upstream library is represented by the discovery data it was
  last refreshed with. Parsing a socket address is the library's: the parameter \<open>parse_addr\<close>.
\<close>

section \<open>Kubernetes resources\<close>

record k8s_meta =
  km_name :: "string option"
  km_namespace :: "string option"
  km_service_name :: "string option"
  km_health_check :: "string option"

record endpoint_subset =
  sub_addresses :: "string list option"
  sub_ports :: "int list option"

record endpoints =
  ep_meta :: k8s_meta
  ep_subsets :: "endpoint_subset list option"

record slice_endpoint =
  se_addresses :: "string list"
  se_conditions :: "bool option option"

record endpoint_slice =
  sl_meta :: k8s_meta
  sl_address_type :: string
  sl_endpoints :: "slice_endpoint list"
  sl_ports :: "int option list option"

section \<open>Addresses\<close>

definition format_addr :: "bool \<Rightarrow> string \<Rightarrow> u16 \<Rightarrow> string" where
  "format_addr is_ipv6 ip port =
     (if is_ipv6 then ''['' @ ip @ '']:'' @ show_nat (unat port) else ip @ '':'' @ show_nat (unat port))"

definition first_opt :: "'a list \<Rightarrow> 'a option" where
  "first_opt xs = (case xs of [] \<Rightarrow> None | x # _ \<Rightarrow> Some x)"

text \<open>Inserting the backends of addresses into an ordered set, skipping what does not parse.\<close>

definition insert_parsed :: "(string \<Rightarrow> 'a::linorder option) \<Rightarrow> string \<Rightarrow> 'a backend list \<Rightarrow> 'a backend list" where
  "insert_parsed parse_addr text backends =
     (case parse_addr text of None \<Rightarrow> backends | Some addr \<Rightarrow> insort_insert (Backend addr 1) backends)"

section \<open>Endpoints\<close>

definition endpoint_target_port :: "u16 \<Rightarrow> endpoint_subset \<Rightarrow> u16" where
  "endpoint_target_port port sub =
     (if port \<noteq> 80 then port
      else case sub_ports sub of
             Some ports \<Rightarrow> case_option port of_int (first_opt ports)
           | None \<Rightarrow> port)"

definition endpoints_build_backends ::
  "(string \<Rightarrow> 'a::linorder option) \<Rightarrow> u16 \<Rightarrow> endpoints \<Rightarrow> 'a backend list" where
  "endpoints_build_backends parse_addr port ep =
     fold (\<lambda>sub backends.
             case sub_addresses sub of
               None \<Rightarrow> backends
             | Some addresses \<Rightarrow>
                 fold (\<lambda>ip. insert_parsed parse_addr
                              (format_addr (CHR '':'' \<in> set ip) ip (endpoint_target_port port sub)))
                   addresses backends)
       (case_option [] id (ep_subsets ep)) []"

definition endpoints_port :: "endpoints \<Rightarrow> u16" where
  "endpoints_port ep =
     case_option 80 of_int
       (Option.bind (Option.bind (Option.bind (ep_subsets ep) first_opt) sub_ports) first_opt)"

record ep_store =
  es_endpoints :: "(string \<times> endpoints) list"
  es_ep_data :: "(string \<times> endpoints) list"

definition ep_store_new :: ep_store where
  "ep_store_new = \<lparr>es_endpoints = [], es_ep_data = []\<rparr>"

definition get_endpoint_for_service :: "string \<Rightarrow> ep_store \<Rightarrow> endpoints option" where
  "get_endpoint_for_service key st = map_of (es_ep_data st) key"

definition ep_get_or_create :: "string \<Rightarrow> ep_store \<Rightarrow> endpoints option \<times> ep_store" where
  "ep_get_or_create key st =
     (case map_of (es_endpoints st) key of
        Some lb \<Rightarrow> (Some lb, st)
      | None \<Rightarrow>
          (case map_of (es_ep_data st) key of
             None \<Rightarrow> (None, st)
           | Some ep \<Rightarrow> (Some ep, st\<lparr>es_endpoints := AList.update key ep (es_endpoints st)\<rparr>)))"

definition ep_replace_data_only :: "(string \<times> endpoints) list \<Rightarrow> ep_store \<Rightarrow> string list \<times> ep_store" where
  "ep_replace_data_only data st = (remdups (map fst data), st\<lparr>es_ep_data := data\<rparr>)"

definition ep_update_data_only ::
  "(string \<times> endpoints) list \<Rightarrow> (string \<times> endpoints) list \<Rightarrow> string list \<Rightarrow> ep_store \<Rightarrow> string list \<times> ep_store" where
  "ep_update_data_only add update remove st =
     (let (affected, ep_data) =
            fold (\<lambda>key (affected, ep_data).
                    if map_of ep_data key \<noteq> None then (List.insert key affected, AList.delete key ep_data)
                    else (affected, ep_data))
              remove ([], es_ep_data st);
          (affected, ep_data) =
            fold (\<lambda>(key, endpoint) (affected, ep_data).
                    (List.insert key affected, AList.update key endpoint ep_data))
              (add @ update) (affected, ep_data)
      in (affected, st\<lparr>es_ep_data := ep_data\<rparr>))"

definition ep_update_lb_if_exists :: "string \<Rightarrow> ep_store \<Rightarrow> ep_store" where
  "ep_update_lb_if_exists key st =
     (case map_of (es_endpoints st) key of
        None \<Rightarrow> st
      | Some _ \<Rightarrow>
          (case map_of (es_ep_data st) key of
             None \<Rightarrow> st\<lparr>es_endpoints := AList.delete key (es_endpoints st)\<rparr>
           | Some ep \<Rightarrow> st\<lparr>es_endpoints := AList.update key ep (es_endpoints st)\<rparr>))"

definition ep_get_existing_service_keys :: "ep_store \<Rightarrow> string list" where
  "ep_get_existing_service_keys st = map fst (es_endpoints st)"

definition ep_get_backends_for_service ::
  "(string \<Rightarrow> 'a::linorder option) \<Rightarrow> string \<Rightarrow> ep_store \<Rightarrow> 'a backend list" where
  "ep_get_backends_for_service parse_addr key st =
     (case get_endpoint_for_service key st of
        None \<Rightarrow> []
      | Some ep \<Rightarrow> endpoints_build_backends parse_addr (endpoints_port ep) ep)"

section \<open>EndpointSlices\<close>

definition slice_build_backends ::
  "(string \<Rightarrow> 'a::linorder option) \<Rightarrow> u16 \<Rightarrow> endpoint_slice \<Rightarrow> 'a backend list" where
  "slice_build_backends parse_addr port sl =
     fold (\<lambda>endpoint backends.
             if \<not> case_option False id (Option.bind (se_conditions endpoint) id) then backends
             else fold (\<lambda>address. insert_parsed parse_addr
                                    (format_addr (sl_address_type sl = ''IPv6'') address port))
                    (se_addresses endpoint) backends)
       (sl_endpoints sl) []"

definition extract_service_key :: "endpoint_slice \<Rightarrow> string" where
  "extract_service_key sl =
     (let service_name = (case km_service_name (sl_meta sl) of
                            Some name \<Rightarrow> name
                          | None \<Rightarrow> case_option '''' id (km_name (sl_meta sl)))
      in case km_namespace (sl_meta sl) of
           Some namespace \<Rightarrow> namespace @ ''/'' @ service_name
         | None \<Rightarrow> service_name)"

record slice_store =
  ss_service_lbs :: "(string \<times> endpoint_slice list) list"
  ss_service_to_slices :: "(string \<times> string list) list"
  ss_ep_slices :: "(string \<times> endpoint_slice \<times> string) list"

definition slice_store_new :: slice_store where
  "slice_store_new = \<lparr>ss_service_lbs = [], ss_service_to_slices = [], ss_ep_slices = []\<rparr>"

definition get_slices_for_service :: "string \<Rightarrow> slice_store \<Rightarrow> endpoint_slice list option" where
  "get_slices_for_service key st =
     (case map_of (ss_service_to_slices st) key of
        None \<Rightarrow> None
      | Some slice_keys \<Rightarrow>
          let slices = List.map_filter (\<lambda>k. map_option fst (map_of (ss_ep_slices st) k)) slice_keys
          in if slices = [] then None else Some slices)"

definition slice_get_or_create :: "string \<Rightarrow> slice_store \<Rightarrow> endpoint_slice list option \<times> slice_store" where
  "slice_get_or_create key st =
     (case map_of (ss_service_lbs st) key of
        Some lb \<Rightarrow> (Some lb, st)
      | None \<Rightarrow>
          (case get_slices_for_service key st of
             None \<Rightarrow> (None, st)
           | Some slices \<Rightarrow>
               if slices = [] then (None, st)
               else (Some slices, st\<lparr>ss_service_lbs := AList.update key slices (ss_service_lbs st)\<rparr>)))"

text \<open>The two hash map updates of the index: \<open>entry().or_default().insert()\<close> and the removal
  that also drops an empty set.\<close>

definition index_insert :: "string \<Rightarrow> string \<Rightarrow> (string \<times> string list) list \<Rightarrow> (string \<times> string list) list" where
  "index_insert service_key ep_key index =
     AList.update service_key (List.insert ep_key (case_option [] id (map_of index service_key))) index"

definition index_remove :: "string \<Rightarrow> string \<Rightarrow> (string \<times> string list) list \<Rightarrow> (string \<times> string list) list" where
  "index_remove service_key ep_key index =
     (case map_of index service_key of
        None \<Rightarrow> index
      | Some slice_set \<Rightarrow>
          let slice_set = removeAll ep_key slice_set
          in if slice_set = [] then AList.delete service_key index
             else AList.update service_key slice_set index)"

type_synonym slice_data = "(string \<times> endpoint_slice \<times> string) list \<times> (string \<times> string list) list"

definition slice_put :: "string \<times> endpoint_slice \<Rightarrow> string list \<times> slice_data \<Rightarrow> string list \<times> slice_data" where
  "slice_put kv d =
     (case (kv, d) of ((ep_key, ep_slice), (affected, ep_slices, index)) \<Rightarrow>
        let service_key = extract_service_key ep_slice
        in (List.insert service_key affected,
            AList.update ep_key (ep_slice, service_key) ep_slices,
            index_insert service_key ep_key index))"

definition slice_remove :: "string \<Rightarrow> string list \<times> slice_data \<Rightarrow> string list \<times> slice_data" where
  "slice_remove ep_key d =
     (case d of (affected, ep_slices, index) \<Rightarrow>
        (case map_of ep_slices ep_key of
          None \<Rightarrow> d
        | Some (_, service_key) \<Rightarrow>
            (List.insert service_key affected, AList.delete ep_key ep_slices,
             index_remove service_key ep_key index)))"

text \<open>An update first drops the old index entry when the service of the slice has changed.\<close>

definition slice_update :: "string \<times> endpoint_slice \<Rightarrow> string list \<times> slice_data \<Rightarrow> string list \<times> slice_data" where
  "slice_update kv d =
     (case (kv, d) of ((ep_key, ep_slice), (affected, ep_slices, index)) \<Rightarrow>
        slice_put (ep_key, ep_slice)
          (case map_of ep_slices ep_key of
             Some (_, old_service_key) \<Rightarrow>
               if old_service_key \<noteq> extract_service_key ep_slice
               then (List.insert old_service_key affected, ep_slices, index_remove old_service_key ep_key index)
               else d
           | None \<Rightarrow> d))"

definition slice_replace_data_only ::
  "(string \<times> endpoint_slice) list \<Rightarrow> slice_store \<Rightarrow> string list \<times> slice_store" where
  "slice_replace_data_only data st =
     (case fold slice_put data ([], [], []) of
        (all_services, ep_slices, index) \<Rightarrow>
          (all_services, st\<lparr>ss_service_to_slices := index, ss_ep_slices := ep_slices\<rparr>))"

definition slice_update_data_only ::
  "(string \<times> endpoint_slice) list \<Rightarrow> (string \<times> endpoint_slice) list \<Rightarrow> string list \<Rightarrow> slice_store \<Rightarrow>
   string list \<times> slice_store" where
  "slice_update_data_only add update remove st =
     (case fold slice_put add (fold slice_update update
             (fold slice_remove remove ([], ss_ep_slices st, ss_service_to_slices st))) of
        (affected, ep_slices, index) \<Rightarrow>
          (affected, st\<lparr>ss_service_to_slices := index, ss_ep_slices := ep_slices\<rparr>))"

definition slice_update_lb_if_exists :: "string \<Rightarrow> slice_store \<Rightarrow> slice_store" where
  "slice_update_lb_if_exists key st =
     (case map_of (ss_service_lbs st) key of
        None \<Rightarrow> st
      | Some _ \<Rightarrow>
          (case get_slices_for_service key st of
             None \<Rightarrow> st\<lparr>ss_service_lbs := AList.delete key (ss_service_lbs st)\<rparr>
           | Some slices \<Rightarrow>
               if slices = [] then st\<lparr>ss_service_lbs := AList.delete key (ss_service_lbs st)\<rparr>
               else st\<lparr>ss_service_lbs := AList.update key slices (ss_service_lbs st)\<rparr>))"

definition slice_get_existing_service_keys :: "slice_store \<Rightarrow> string list" where
  "slice_get_existing_service_keys st = map fst (ss_service_lbs st)"

definition slices_port :: "endpoint_slice list \<Rightarrow> u16" where
  "slices_port slices =
     (case List.map_filter (\<lambda>s. Option.bind (Option.bind (sl_ports s) first_opt) id) slices of
        [] \<Rightarrow> 8080 | p # _ \<Rightarrow> of_int p)"

definition slice_get_backends_for_service ::
  "(string \<Rightarrow> 'a::linorder option) \<Rightarrow> string \<Rightarrow> slice_store \<Rightarrow> 'a backend list" where
  "slice_get_backends_for_service parse_addr key st =
     (case get_slices_for_service key st of
        None \<Rightarrow> []
      | Some slices \<Rightarrow>
          fold (\<lambda>slice backends.
                  fold insort_insert (slice_build_backends parse_addr (slices_port slices) slice) backends)
            slices [])"

section \<open>The data layers as maps\<close>

lemma map_of_alist_simps [simp]:
  "map_of (AList.update k v al) k' = (if k' = k then Some v else map_of al k')"
  "map_of (AList.delete k al) k' = (if k' = k then None else map_of al k')"
  by (simp_all add: update_conv' delete_conv')

lemma map_of_fold_update:
  "distinct (map fst kvs) \<Longrightarrow> map_of (fold (\<lambda>(k, v). AList.update k v) kvs al) k =
    (case map_of kvs k of Some v \<Rightarrow> Some v | None \<Rightarrow> map_of al k)"
proof (induction kvs arbitrary: al)
  case (Cons kv kvs)
  obtain k' v where kv: "kv = (k', v)" by (cases kv)
  then have "map_of kvs k' = None" using Cons.prems by (simp add: map_of_eq_None_iff)
  then show ?case
    using Cons kv by (auto split: option.splits simp del: map_of_eq_Some_iff Some_eq_map_of_iff)
qed simp

lemma map_of_fold_delete:
  "map_of (fold AList.delete ks al) k = (if k \<in> set ks then None else map_of al k)"
  by (induction ks arbitrary: al) auto

lemma ep_replace_data [simp]: "es_ep_data (snd (ep_replace_data_only data st)) = data"
  by (simp add: ep_replace_data_only_def)

lemma ep_update_data:
  assumes "partial_args add update remove"
  shows "map_of (es_ep_data (snd (ep_update_data_only add update remove st))) =
    dict_update add update remove (map_of (es_ep_data st))"
proof -
  let ?f = "\<lambda>key (affected, ep_data :: (string \<times> endpoints) list).
        if map_of ep_data key \<noteq> None then (List.insert key affected, AList.delete key ep_data)
        else (affected, ep_data)"
  let ?g = "\<lambda>(key, endpoint :: endpoints) (affected, ep_data).
        (List.insert key affected, AList.update key endpoint ep_data)"
  have rem: "map_of (snd (fold ?f ks (a, al))) k = (if k \<in> set ks then None else map_of al k)" for ks a al k
    by (induction ks arbitrary: a al) auto
  have add: "snd (fold ?g kvs (a, al)) = fold (\<lambda>(k, v). AList.update k v) kvs al" for kvs a al
    by (induction kvs arbitrary: a al) auto
  obtain a1 d1 where 1: "fold ?f remove ([], es_ep_data st) = (a1, d1)" by fastforce
  obtain a2 d2 where 2: "fold ?g (add @ update) (a1, d1) = (a2, d2)" by fastforce
  have "map_of d1 k = (if k \<in> set remove then None else map_of (es_ep_data st) k)" for k
    using rem [of remove "[]" "es_ep_data st" k] 1 by simp
  moreover have "map_of d2 k = (case map_of (add @ update) k of Some v \<Rightarrow> Some v | None \<Rightarrow> map_of d1 k)" for k
    using add [of "add @ update" a1 d1] 2 assms map_of_fold_update [of "add @ update" d1 k]
    by (auto simp: partial_args_def simp del: fold_append)
  moreover have "es_ep_data (snd (ep_update_data_only add update remove st)) = d2"
    unfolding ep_update_data_only_def Let_def 1 split_conv 2 by simp
  ultimately show ?thesis by (auto simp: dict_update_def map_add_def split: option.splits)
qed

section \<open>The index of slices by service\<close>

definition index_set :: "string \<Rightarrow> (string \<times> string list) list \<Rightarrow> string set" where
  "index_set service_key index = set (case_option [] id (map_of index service_key))"

definition slice_index_ok :: "slice_data \<Rightarrow> bool" where
  "slice_index_ok d \<longleftrightarrow>
     (\<forall>service_key. index_set service_key (snd d) = {k. \<exists>sl. map_of (fst d) k = Some (sl, service_key)}) \<and>
     (\<forall>k sl service_key. map_of (fst d) k = Some (sl, service_key) \<longrightarrow> service_key = extract_service_key sl)"

lemma index_set_insert:
  "index_set s' (index_insert s k index) = (if s' = s then insert k (index_set s index) else index_set s' index)"
  by (auto simp: index_set_def index_insert_def)

lemma index_set_remove:
  "index_set s' (index_remove s k index) = (if s' = s then index_set s index - {k} else index_set s' index)"
proof (cases "map_of index s")
  case (Some xs)
  have "set (removeAll k xs) = set xs - {k}" by simp
  then show ?thesis
    using Some by (cases "removeAll k xs = []") (auto simp: index_set_def index_remove_def Let_def)
qed (simp add: index_set_def index_remove_def)

lemma slice_index_ok_empty: "slice_index_ok ([], [])"
  by (simp add: slice_index_ok_def index_set_def)

lemma slice_remove_ok:
  assumes "slice_index_ok (snd d)"
  shows "slice_index_ok (snd (slice_remove k d))"
  using assms
  by (cases d) (auto simp: slice_remove_def slice_index_ok_def index_set_remove split: option.splits)

lemma slice_put_ok:
  assumes "slice_index_ok (snd d)"
    and "\<forall>sl s. map_of (fst (snd d)) (fst kv) = Some (sl, s) \<longrightarrow> s = extract_service_key (snd kv)"
  shows "slice_index_ok (snd (slice_put kv d))"
  using assms
  by (cases d; cases kv) (auto simp: slice_put_def slice_index_ok_def index_set_insert Let_def)

lemma slice_index_ok_cong: "map_of x = map_of y \<Longrightarrow> slice_index_ok (x, ix) = slice_index_ok (y, ix)"
  by (simp add: slice_index_ok_def)

text \<open>An update of a stored slice is, up to the order of the entries, its removal and insertion.\<close>

lemma slice_update_ok:
  assumes "slice_index_ok (snd d)"
  shows "slice_index_ok (snd (slice_update kv d))"
proof -
  obtain a sl ix k v where d: "d = (a, sl, ix)" "kv = (k, v)" by (cases d; cases kv)
  show ?thesis
  proof (cases "\<exists>old s. map_of sl k = Some (old, s) \<and> s \<noteq> extract_service_key v")
    case False
    then have same: "\<forall>old s. map_of (fst (snd d)) (fst kv) = Some (old, s) \<longrightarrow> s = extract_service_key (snd kv)"
      by (simp add: d)
    have "slice_update kv d = slice_put kv d"
    proof (cases "map_of sl k")
      case (Some so)
      then show ?thesis using same by (cases so) (simp add: slice_update_def d)
    qed (simp add: slice_update_def d)
    then show ?thesis using slice_put_ok [OF assms same] by simp
  next
    case True
    then obtain old s where old: "map_of sl k = Some (old, s)" "s \<noteq> extract_service_key v" by auto
    let ?ix = "index_insert (extract_service_key v) k (index_remove s k ix)"
    have "slice_index_ok (snd (slice_put kv (slice_remove k d)))"
      using slice_put_ok [of "slice_remove k d" kv] slice_remove_ok [OF assms, of k] old
      by (simp add: d slice_remove_def)
    then have "slice_index_ok (AList.update k (v, extract_service_key v) (AList.delete k sl), ?ix)"
      using old by (simp add: d slice_remove_def slice_put_def Let_def)
    then have "slice_index_ok (AList.update k (v, extract_service_key v) sl, ?ix)"
      by (rule slice_index_ok_cong [THEN iffD1, rotated]) auto
    then show ?thesis using old by (simp add: d slice_update_def slice_put_def Let_def)
  qed
qed

section \<open>The slice store as a map\<close>

definition slice_view :: "slice_store \<Rightarrow> string \<Rightarrow> endpoint_slice option" where
  "slice_view st key = map_option fst (map_of (ss_ep_slices st) key)"

lemma slice_step_data:
  "map_of (fst (snd (slice_put (k, v) d))) k' =
     (if k' = k then Some (v, extract_service_key v) else map_of (fst (snd d)) k')"
  "map_of (fst (snd (slice_update (k, v) d))) k' =
     (if k' = k then Some (v, extract_service_key v) else map_of (fst (snd d)) k')"
  "map_of (fst (snd (slice_remove k d))) k' = (if k' = k then None else map_of (fst (snd d)) k')"
  by (auto simp: slice_put_def slice_update_def slice_remove_def Let_def split: prod.splits option.splits)

lemma slice_fold_put:
  assumes "f = slice_put \<or> f = slice_update" "distinct (map fst kvs)"
  shows "map_of (fst (snd (fold f kvs d))) k =
    (case map_of kvs k of Some v \<Rightarrow> Some (v, extract_service_key v) | None \<Rightarrow> map_of (fst (snd d)) k)"
  using assms(2)
proof (induction kvs arbitrary: d)
  case (Cons kv kvs)
  obtain k' v where kv: "kv = (k', v)" by (cases kv)
  then have "map_of kvs k' = None" using Cons.prems by (simp add: map_of_eq_None_iff)
  then show ?case
    using Cons kv assms(1)
    by (auto simp: slice_step_data split: option.splits simp del: map_of_eq_Some_iff Some_eq_map_of_iff)
qed simp

lemma slice_fold_remove:
  "map_of (fst (snd (fold slice_remove ks d))) k = (if k \<in> set ks then None else map_of (fst (snd d)) k)"
  by (induction ks arbitrary: d) (auto simp: slice_step_data)

lemma slice_update_view:
  assumes "partial_args add update remove"
  shows "slice_view (snd (slice_update_data_only add update remove st)) =
    dict_update add update remove (slice_view st)"
proof
  fix k
  let ?d = "fold slice_put add (fold slice_update update
    (fold slice_remove remove ([], ss_ep_slices st, ss_service_to_slices st)))"
  have "ss_ep_slices (snd (slice_update_data_only add update remove st)) = fst (snd ?d)"
    by (simp add: slice_update_data_only_def case_prod_beta')
  moreover have "distinct (map fst add)" "distinct (map fst update)"
    using assms by (simp_all add: partial_args_def)
  ultimately show "slice_view (snd (slice_update_data_only add update remove st)) k =
      dict_update add update remove (slice_view st) k"
    by (auto simp: slice_view_def dict_update_def slice_fold_put slice_fold_remove split: option.splits)
qed

lemma slice_replace_view:
  assumes "distinct (map fst data)"
  shows "slice_view (snd (slice_replace_data_only data st)) = map_of data"
  using slice_fold_put [OF disjI1 [OF refl] assms, of "([], [], [])"]
  by (auto simp: slice_view_def slice_replace_data_only_def case_prod_beta' split: option.splits)

definition slice_store_ok :: "slice_store \<Rightarrow> bool" where
  "slice_store_ok st \<longleftrightarrow> slice_index_ok (ss_ep_slices st, ss_service_to_slices st)"

lemma fold_slice_remove_ok:
  "slice_index_ok (snd d) \<Longrightarrow> slice_index_ok (snd (fold slice_remove ks d))"
  by (induction ks arbitrary: d) (simp_all add: slice_remove_ok)

lemma fold_slice_update_ok:
  "slice_index_ok (snd d) \<Longrightarrow> slice_index_ok (snd (fold slice_update kvs d))"
  by (induction kvs arbitrary: d) (simp_all add: slice_update_ok)

lemma fold_slice_put_ok:
  assumes "slice_index_ok (snd d)" "distinct (map fst kvs)" "\<forall>k \<in> fst ` set kvs. map_of (fst (snd d)) k = None"
  shows "slice_index_ok (snd (fold slice_put kvs d))"
  using assms
proof (induction kvs arbitrary: d)
  case (Cons kv kvs)
  obtain k v where kv: "kv = (k, v)" by (cases kv)
  have "slice_index_ok (snd (slice_put kv d))"
    using Cons.prems kv by (intro slice_put_ok) auto
  moreover have "\<forall>k \<in> fst ` set kvs. map_of (fst (snd (slice_put kv d))) k = None"
    using Cons.prems kv by (auto simp: slice_step_data)
  ultimately show ?case using Cons by simp
qed simp

lemma slice_replace_ok:
  assumes "distinct (map fst data)"
  shows "slice_store_ok (snd (slice_replace_data_only data st))"
  using fold_slice_put_ok [of "([], [], [])" data] assms
  by (simp add: slice_store_ok_def slice_replace_data_only_def case_prod_beta' slice_index_ok_empty)

lemma slice_update_data_ok:
  assumes "slice_store_ok st" "partial_args add update remove" "\<forall>k \<in> fst ` set add. slice_view st k = None"
  shows "slice_store_ok (snd (slice_update_data_only add update remove st))"
proof -
  let ?d = "fold slice_update update (fold slice_remove remove ([], ss_ep_slices st, ss_service_to_slices st))"
  have ok: "slice_index_ok (snd ?d)"
    using assms(1) by (intro fold_slice_update_ok fold_slice_remove_ok) (simp add: slice_store_ok_def)
  have "\<forall>k \<in> fst ` set add. map_of (fst (snd ?d)) k = None"
  proof
    fix k assume "k \<in> fst ` set add"
    then have "map_of update k = None" "map_of (ss_ep_slices st) k = None"
      using assms(2,3) by (auto simp: partial_args_def slice_view_def map_of_eq_None_iff)
    then show "map_of (fst (snd ?d)) k = None"
      using assms(2) by (simp add: slice_fold_put slice_fold_remove partial_args_def)
  qed
  with fold_slice_put_ok [OF ok] assms(2) show ?thesis
    by (simp add: slice_store_ok_def slice_update_data_only_def case_prod_beta' partial_args_def)
qed

lemma get_slices_set:
  assumes "slice_store_ok st"
  shows "set (case_option [] id (get_slices_for_service key st)) =
    {sl. \<exists>k. slice_view st k = Some sl \<and> extract_service_key sl = key}"
proof -
  let ?keys = "case_option [] id (map_of (ss_service_to_slices st) key)"
  have "set (case_option [] id (get_slices_for_service key st)) =
      {sl. \<exists>k \<in> set ?keys. slice_view st k = Some sl}"
  proof -
    have "case_option [] id (get_slices_for_service key st) =
        List.map_filter (\<lambda>k. map_option fst (map_of (ss_ep_slices st) k)) ?keys"
      by (auto simp: get_slices_for_service_def Let_def split: option.splits)
    then show ?thesis by (simp add: set_map_filter slice_view_def)
  qed
  moreover have "set ?keys = {k. \<exists>sl. map_of (ss_ep_slices st) k = Some (sl, key)}"
    using assms by (simp add: slice_store_ok_def slice_index_ok_def index_set_def)
  moreover have "map_of (ss_ep_slices st) k = Some (sl, key') \<Longrightarrow> key' = extract_service_key sl" for k sl key'
    using assms by (auto simp: slice_store_ok_def slice_index_ok_def)
  ultimately show ?thesis by (fastforce simp: slice_view_def)
qed

section \<open>Properties\<close>

text \<open>A sequence of incremental updates, and the map it stands for.\<close>

type_synonym slice_delta = "(string \<times> endpoint_slice) list \<times> (string \<times> endpoint_slice) list \<times> string list"

fun slice_run :: "slice_delta list \<Rightarrow> slice_store \<Rightarrow> slice_store" where
  "slice_run [] st = st"
| "slice_run ((add, update, remove) # ds) st = slice_run ds (snd (slice_update_data_only add update remove st))"

fun delta_run :: "slice_delta list \<Rightarrow> (string \<rightharpoonup> endpoint_slice) \<Rightarrow> string \<rightharpoonup> endpoint_slice" where
  "delta_run [] m = m"
| "delta_run ((add, update, remove) # ds) m = delta_run ds (dict_update add update remove m)"

text \<open>The documented contract of the handler: added resources did not exist before.\<close>

fun fresh_deltas :: "slice_delta list \<Rightarrow> (string \<rightharpoonup> endpoint_slice) \<Rightarrow> bool" where
  "fresh_deltas [] m = True"
| "fresh_deltas ((add, update, remove) # ds) m \<longleftrightarrow>
     partial_args add update remove \<and> (\<forall>k \<in> set (map fst add). m k = None) \<and>
     fresh_deltas ds (dict_update add update remove m)"

lemma slice_run_ok:
  assumes "slice_store_ok st" "fresh_deltas ds (slice_view st)"
  shows "slice_store_ok (slice_run ds st) \<and> slice_view (slice_run ds st) = delta_run ds (slice_view st)"
  using assms
proof (induction ds arbitrary: st)
  case (Cons d ds)
  obtain add update remove where d: "d = (add, update, remove)" by (cases d)
  let ?st = "snd (slice_update_data_only add update remove st)"
  have args: "partial_args add update remove" "\<forall>k \<in> fst ` set add. slice_view st k = None"
    "fresh_deltas ds (dict_update add update remove (slice_view st))"
    using Cons.prems(2) by (auto simp: d)
  note view = slice_update_view [OF args(1), of st]
  have "slice_store_ok ?st" by (rule slice_update_data_ok [OF Cons.prems(1) args(1,2)])
  from Cons.IH [OF this] show ?case using args(3) by (simp add: d view)
qed simp

text \<open>
  C19: the slice store serves, for every service, exactly the slices whose label names that service.
  This holds after a full set and any sequence of incremental updates in which an added slice did not
  exist before: slices may change their service or disappear.
\<close>

theorem slices_of_service_exact:
  assumes "distinct (map fst data)" "fresh_deltas ds (map_of data)"
  shows "set (case_option [] id (get_slices_for_service key
            (slice_run ds (snd (slice_replace_data_only data st))))) =
    {sl. \<exists>k. delta_run ds (map_of data) k = Some sl \<and> extract_service_key sl = key}"
proof -
  let ?st = "snd (slice_replace_data_only data st)"
  have "slice_store_ok (slice_run ds ?st)" "slice_view (slice_run ds ?st) = delta_run ds (map_of data)"
    using slice_run_ok [OF slice_replace_ok [OF assms(1)], of ds st] assms(2)
    by (simp_all add: slice_replace_view [OF assms(1)])
  then show ?thesis by (simp only: get_slices_set)
qed

definition example_slice :: "string \<Rightarrow> string \<Rightarrow> string \<Rightarrow> endpoint_slice" where
  "example_slice name service ip =
     \<lparr>sl_meta = \<lparr>km_name = Some name, km_namespace = Some ''d'', km_service_name = Some service,
                 km_health_check = None\<rparr>,
      sl_address_type = ''IPv4'',
      sl_endpoints = [\<lparr>se_addresses = [ip], se_conditions = Some (Some True)\<rparr>],
      sl_ports = Some [Some 80]\<rparr>"

theorem slices_of_service_exact_witness:
  "set (case_option [] id (get_slices_for_service ''d/b'' (slice_run
       [([], [(''d/x'', example_slice ''x'' ''b'' ''2'')], [])]
       (snd (slice_replace_data_only [(''d/x'', example_slice ''x'' ''a'' ''1'')] slice_store_new))))) =
     {example_slice ''x'' ''b'' ''2''}"
proof -
  let ?ds = "[([], [(''d/x'', example_slice ''x'' ''b'' ''2'')], [])] :: slice_delta list"
  let ?data = "[(''d/x'', example_slice ''x'' ''a'' ''1'')]"
  have "distinct (map fst ?data)" "fresh_deltas ?ds (map_of ?data)" by (simp_all add: partial_args_def)
  moreover have "{sl. \<exists>k. delta_run ?ds (map_of ?data) k = Some sl \<and> extract_service_key sl = ''d/b''} =
      {example_slice ''x'' ''b'' ''2''}"
    by (auto simp: dict_update_def extract_service_key_def example_slice_def split: if_splits)
  ultimately show ?thesis
    using slices_of_service_exact [of ?data ?ds "''d/b''" slice_store_new] by simp
qed


end
