(* ===== verification/Backend_Handlers.thy ===== *)
theory Backend_Handlers
  imports Health_Status Endpoint_Discovery
begin

text \<open>
  The configuration handlers that feed backend discovery, and the choice of a backend:
  the handlers of Endpoints, EndpointSlices and Services
  (\<open>src/src/core/gateway/backends/discovery/*/conf_handler_impl.rs\<close>, \<open>services/service_store.rs\<close>)
  and the selection of \<open>src/src/core/gateway/backends/mod.rs\<close>.

  The handlers write global stores in the code; here these are the fields of one state record. The
  health check annotation is YAML whose durations are parsed with floating point numbers; decoding
  it is the parameter \<open>annotation\<close>. The hash of a backend and the consistent hash ring are the
  library's.
\<close>

section \<open>State and environment\<close>

record k8s_service =
  svc_meta :: k8s_meta

record ('a, 's, 'r, 'c) backends =
  bk_services :: "k8s_service dict"
  bk_endpoints :: ep_store
  bk_slices :: slice_store
  bk_runtime :: "('a, 's, 'r) lb_runtime"
  bk_hc :: "'c hc_manager"

record ('a, 's, 'r, 'c) backends_env =
  env_parse_addr :: "string \<Rightarrow> 'a option"
  env_annotation :: "k8s_meta \<Rightarrow> 'c option"
  env_has_runtime :: bool
  env_backend_hash :: "'a backend \<Rightarrow> u64"
  env_inet :: "'a \<Rightarrow> 's option"
  env_continuum_new :: "('s \<times> nat) list \<Rightarrow> 'r"
  env_node_idx :: "'r \<Rightarrow> u8 list \<Rightarrow> nat"
  env_get_addr :: "'r \<Rightarrow> nat \<Rightarrow> ('s \<times> nat) option"

text \<open>Setting a configuration and reconciling the service, as the three handlers do.\<close>

definition hc_apply ::
  "('c hc_config_store \<Rightarrow> 'c hc_config_store) \<Rightarrow> bool \<Rightarrow> string \<Rightarrow>
   ('a, 's, 'r, 'c) backends \<Rightarrow> ('a, 's, 'r, 'c) backends" where
  "hc_apply f has_runtime key bk =
     bk\<lparr>bk_hc := reconcile_service has_runtime key ((bk_hc bk)\<lparr>hm_configs := f (hm_configs (bk_hc bk))\<rparr>)\<rparr>"

section \<open>Stale runtime state\<close>

definition cleanup_removed_backends ::
  "string \<Rightarrow> 'a list \<Rightarrow> 'a list \<Rightarrow> ('a, 's, 'r) lb_runtime \<Rightarrow> ('a, 's, 'r) lb_runtime" where
  "cleanup_removed_backends key old new rt =
     (let removed = filter (\<lambda>a. a \<notin> set new) old;
          added = filter (\<lambda>a. a \<notin> set old) new;
          rt = (if removed \<noteq> [] \<or> added \<noteq> [] then invalidate_selector_cache key rt else rt)
      in fold (\<lambda>addr rt. if get_count key addr rt > 0 then mark_backend_draining key addr rt
                         else remove_backend key addr rt) removed rt)"

section \<open>Endpoints\<close>

definition ep_update_all_existing_lbs :: "ep_store \<Rightarrow> ep_store" where
  "ep_update_all_existing_lbs st = fold ep_update_lb_if_exists (ep_get_existing_service_keys st) st"

definition ep_update_affected_lb ::
  "('a::linorder, 's, 'r, 'c) backends_env \<Rightarrow> string \<Rightarrow> ('a, 's, 'r, 'c) backends \<Rightarrow> ('a, 's, 'r, 'c) backends" where
  "ep_update_affected_lb env key bk =
     (let old_addrs = map b_addr (ep_get_backends_for_service (env_parse_addr env) key (bk_endpoints bk));
          st = ep_update_lb_if_exists key (bk_endpoints bk);
          new_addrs = map b_addr (ep_get_backends_for_service (env_parse_addr env) key st)
      in bk\<lparr>bk_endpoints := st,
            bk_runtime := cleanup_removed_backends key old_addrs new_addrs (bk_runtime bk)\<rparr>)"

definition resolve_endpoint_config ::
  "('a, 's, 'r, 'c) backends_env \<Rightarrow> string \<Rightarrow> ep_store \<Rightarrow> 'c option" where
  "resolve_endpoint_config env key st =
     Option.bind (get_endpoint_for_service key st) (\<lambda>ep. env_annotation env (ep_meta ep))"

definition ep_sync_health_check ::
  "('a, 's, 'r, 'c) backends_env \<Rightarrow> string list \<Rightarrow> ('a, 's, 'r, 'c) backends \<Rightarrow> ('a, 's, 'r, 'c) backends" where
  "ep_sync_health_check env keys bk =
     fold (\<lambda>key bk. hc_apply (set_endpoint_config key (resolve_endpoint_config env key (bk_endpoints bk)))
                      (env_has_runtime env) key bk) keys bk"

definition ep_full_set ::
  "('a, 's, 'r, 'c) backends_env \<Rightarrow> endpoints dict \<Rightarrow> ('a, 's, 'r, 'c) backends \<Rightarrow> ('a, 's, 'r, 'c) backends" where
  "ep_full_set env data bk =
     (let old_keys = map fst (hc_endpoint (hm_configs (bk_hc bk)));
          (all_services, st) = ep_replace_data_only data (bk_endpoints bk);
          bk = bk\<lparr>bk_endpoints := ep_update_all_existing_lbs st\<rparr>;
          bk = ep_sync_health_check env all_services bk;
          bk = bk\<lparr>bk_runtime := fold invalidate_selector_cache all_services (bk_runtime bk)\<rparr>;
          stale_services = filter (\<lambda>k. k \<notin> set all_services) old_keys
      in fold (\<lambda>key bk.
                 let bk = hc_apply (set_endpoint_config key None) (env_has_runtime env) key bk
                 in bk\<lparr>bk_runtime := remove_service key (bk_runtime bk)\<rparr>) stale_services bk)"

definition ep_partial_update ::
  "('a::linorder, 's, 'r, 'c) backends_env \<Rightarrow> endpoints dict \<Rightarrow> endpoints dict \<Rightarrow> string list \<Rightarrow>
   ('a, 's, 'r, 'c) backends \<Rightarrow> ('a, 's, 'r, 'c) backends" where
  "ep_partial_update env add update remove bk =
     (let (affected, st) = ep_update_data_only add update remove (bk_endpoints bk);
          bk = bk\<lparr>bk_endpoints := st\<rparr>;
          bk = fold (ep_update_affected_lb env) affected bk
      in ep_sync_health_check env affected bk)"

section \<open>EndpointSlices\<close>

definition slice_update_all_existing_lbs :: "slice_store \<Rightarrow> slice_store" where
  "slice_update_all_existing_lbs st = fold slice_update_lb_if_exists (slice_get_existing_service_keys st) st"

definition slice_update_affected_lb ::
  "('a::linorder, 's, 'r, 'c) backends_env \<Rightarrow> string \<Rightarrow> ('a, 's, 'r, 'c) backends \<Rightarrow> ('a, 's, 'r, 'c) backends" where
  "slice_update_affected_lb env key bk =
     (let old_addrs = map b_addr (slice_get_backends_for_service (env_parse_addr env) key (bk_slices bk));
          st = slice_update_lb_if_exists key (bk_slices bk);
          new_addrs = map b_addr (slice_get_backends_for_service (env_parse_addr env) key st)
      in bk\<lparr>bk_slices := st,
            bk_runtime := cleanup_removed_backends key old_addrs new_addrs (bk_runtime bk)\<rparr>)"

text \<open>The annotation of the slices of a service, unless two slices disagree.\<close>

fun agree_configs :: "'c option \<Rightarrow> 'c list \<Rightarrow> 'c option" where
  "agree_configs selected [] = selected"
| "agree_configs None (cfg # cfgs) = agree_configs (Some cfg) cfgs"
| "agree_configs (Some existing) (cfg # cfgs) =
     (if existing \<noteq> cfg then None else agree_configs (Some existing) cfgs)"

definition resolve_endpoint_slice_config ::
  "('a, 's, 'r, 'c) backends_env \<Rightarrow> string \<Rightarrow> slice_store \<Rightarrow> 'c option" where
  "resolve_endpoint_slice_config env key st =
     (case get_slices_for_service key st of
        None \<Rightarrow> None
      | Some slices \<Rightarrow> agree_configs None (List.map_filter (\<lambda>sl. env_annotation env (sl_meta sl)) slices))"

definition slice_sync_health_check ::
  "('a, 's, 'r, 'c) backends_env \<Rightarrow> string list \<Rightarrow> ('a, 's, 'r, 'c) backends \<Rightarrow> ('a, 's, 'r, 'c) backends" where
  "slice_sync_health_check env keys bk =
     fold (\<lambda>key bk. hc_apply (set_endpoint_slice_config key (resolve_endpoint_slice_config env key (bk_slices bk)))
                      (env_has_runtime env) key bk) keys bk"

definition slice_full_set ::
  "('a, 's, 'r, 'c) backends_env \<Rightarrow> endpoint_slice dict \<Rightarrow> ('a, 's, 'r, 'c) backends \<Rightarrow> ('a, 's, 'r, 'c) backends" where
  "slice_full_set env data bk =
     (let old_keys = map fst (hc_endpoint_slice (hm_configs (bk_hc bk)));
          (all_services, st) = slice_replace_data_only data (bk_slices bk);
          bk = bk\<lparr>bk_slices := slice_update_all_existing_lbs st\<rparr>;
          bk = slice_sync_health_check env all_services bk;
          bk = bk\<lparr>bk_runtime := fold invalidate_selector_cache all_services (bk_runtime bk)\<rparr>;
          stale_services = filter (\<lambda>k. k \<notin> set all_services) old_keys
      in fold (\<lambda>key bk.
                 let bk = hc_apply (set_endpoint_slice_config key None) (env_has_runtime env) key bk
                 in bk\<lparr>bk_runtime := remove_service key (bk_runtime bk)\<rparr>) stale_services bk)"

definition slice_partial_update ::
  "('a::linorder, 's, 'r, 'c) backends_env \<Rightarrow> endpoint_slice dict \<Rightarrow> endpoint_slice dict \<Rightarrow> string list \<Rightarrow>
   ('a, 's, 'r, 'c) backends \<Rightarrow> ('a, 's, 'r, 'c) backends" where
  "slice_partial_update env add update remove bk =
     (let (affected, st) = slice_update_data_only add update remove (bk_slices bk);
          bk = bk\<lparr>bk_slices := st\<rparr>;
          bk = fold (slice_update_affected_lb env) affected bk
      in slice_sync_health_check env affected bk)"

section \<open>Services\<close>

definition svc_update :: "k8s_service dict \<Rightarrow> string list \<Rightarrow> k8s_service dict \<Rightarrow> k8s_service dict" where
  "svc_update add_or_update remove services =
     fold (\<lambda>(k, v). AList.update k v) add_or_update (fold AList.delete remove services)"

definition svc_full_set ::
  "('a, 's, 'r, 'c) backends_env \<Rightarrow> k8s_service dict \<Rightarrow> ('a, 's, 'r, 'c) backends \<Rightarrow> ('a, 's, 'r, 'c) backends" where
  "svc_full_set env data bk =
     (let bk = bk\<lparr>bk_services := data\<rparr>;
          bk = fold (\<lambda>old_key bk.
                       if old_key \<in> set (map fst data) then bk
                       else let bk = hc_apply (set_service_config old_key None) (env_has_runtime env) old_key bk
                            in bk\<lparr>bk_runtime := remove_service old_key (bk_runtime bk)\<rparr>)
                 (map fst (hc_service (hm_configs (bk_hc bk)))) bk
      in fold (\<lambda>(key, service) bk.
                 hc_apply (set_service_config key (env_annotation env (svc_meta service))) (env_has_runtime env) key bk)
           data bk)"

definition svc_partial_update ::
  "('a, 's, 'r, 'c) backends_env \<Rightarrow> k8s_service dict \<Rightarrow> k8s_service dict \<Rightarrow> string list \<Rightarrow>
   ('a, 's, 'r, 'c) backends \<Rightarrow> ('a, 's, 'r, 'c) backends" where
  "svc_partial_update env add update remove bk =
     (let bk = fold (\<lambda>(key, service) bk.
                 hc_apply (set_service_config key (env_annotation env (svc_meta service))) (env_has_runtime env) key bk)
                 (add @ update) bk;
          bk = fold (\<lambda>key bk.
                 let bk = hc_apply (set_service_config key None) (env_has_runtime env) key bk
                 in bk\<lparr>bk_runtime := remove_service key (bk_runtime bk)\<rparr>) remove bk;
          add_or_update = fold (\<lambda>(k, v). AList.update k v) update add
      in bk\<lparr>bk_services := svc_update add_or_update remove (bk_services bk)\<rparr>)"

section \<open>Choosing a backend\<close>

datatype edgion_status =
    BackendEndpointSliceNotFoundByRoundRobinDefault
  | BackendEndpointSliceNotFoundByRoundRobin
  | BackendEndpointSliceNotFoundByConsistent
  | BackendEndpointSliceNotFoundByLeastConn
  | BackendEndpointSliceNotFoundByEwma
  | BackendEndpointNotFoundByRoundRobinDefault
  | BackendEndpointNotFoundByRoundRobin
  | BackendEndpointNotFoundByConsistent
  | BackendEndpointNotFoundByLeastConn
  | BackendEndpointNotFoundByEwma

datatype lb_policy = ConsistentHash "u8 list" | LeastConn | Ewma

definition is_backend_healthy ::
  "('a, 's, 'r, 'c) backends_env \<Rightarrow> string \<Rightarrow> health_store \<Rightarrow> 'a backend \<Rightarrow> bool" where
  "is_backend_healthy env key health b \<longleftrightarrow>
     (if \<not> has_service key health then True else is_healthy key (env_backend_hash env b) health)"

definition put_rr_selector ::
  "string \<Rightarrow> 'a rr_selector \<Rightarrow> ('a, 's, 'r) lb_runtime \<Rightarrow> ('a, 's, 'r) lb_runtime" where
  "put_rr_selector key sel rt = rt\<lparr>rt_rr_cache := AList.update key sel (rt_rr_cache rt)\<rparr>"

definition max_sample :: nat where "max_sample = 256"

text \<open>
  A round robin selection advances the counter of the cached selector. The hash key of a consistent
  hash policy is the one extracted from the request; \<open>None\<close> is the panic of the selector's
  assertion.
\<close>

definition rr_pick ::
  "string \<Rightarrow> 'a::linorder backend list \<Rightarrow> ('a backend \<Rightarrow> bool) \<Rightarrow> edgion_status \<Rightarrow> ('a, 's, 'r) lb_runtime \<Rightarrow>
   ((edgion_status + 'a backend) \<times> ('a, 's, 'r) lb_runtime) option" where
  "rr_pick key backends healthy not_found rt =
     (case get_rr_selector key backends rt of
        None \<Rightarrow> None
      | Some (sel, rt) \<Rightarrow>
          map_option (\<lambda>(r, sel'). (case r of None \<Rightarrow> Inl not_found | Some b \<Rightarrow> Inr b, put_rr_selector key sel' rt))
            (rr_select sel max_sample healthy))"

definition select_from_backends ::
  "('a::linorder, 's, 'r, 'c) backends_env \<Rightarrow> string \<Rightarrow> lb_policy option \<Rightarrow> 'a backend list \<Rightarrow>
   edgion_status \<Rightarrow> edgion_status \<Rightarrow> edgion_status \<Rightarrow> edgion_status \<Rightarrow> edgion_status \<Rightarrow> health_store \<Rightarrow>
   ('a, 's, 'r) lb_runtime \<Rightarrow> ((edgion_status + 'a backend) \<times> ('a, 's, 'r) lb_runtime) option" where
  "select_from_backends env key lb_policy backends not_found_rr_default not_found_rr not_found_ch not_found_lc
     not_found_ewma health rt =
     (if backends = [] then Some (Inl not_found_rr_default, rt)
      else
        let healthy = is_backend_healthy env key health
        in case lb_policy of
             None \<Rightarrow> rr_pick key backends healthy not_found_rr_default rt
           | Some (ConsistentHash hash_key) \<Rightarrow>
               if hash_key = [] then rr_pick key backends healthy not_found_rr rt
               else
                 let (ring, rt) = get_ch_ring (env_inet env) (env_continuum_new env) key backends rt
                 in Some (case ch_select (env_node_idx env) (env_get_addr env) ring hash_key max_sample healthy of
                            None \<Rightarrow> Inl not_found_ch | Some b \<Rightarrow> Inr b, rt)
           | Some LeastConn \<Rightarrow>
               Some (case least_conn_select backends key max_sample healthy rt of
                       None \<Rightarrow> Inl not_found_lc | Some b \<Rightarrow> Inr b, rt)
           | Some Ewma \<Rightarrow>
               Some (case ewma_select backends key max_sample healthy rt of
                       None \<Rightarrow> Inl not_found_ewma | Some b \<Rightarrow> Inr b, rt))"

definition select_from_endpoint_slice ::
  "('a::linorder, 's, 'r, 'c) backends_env \<Rightarrow> string \<Rightarrow> lb_policy option \<Rightarrow> ('a, 's, 'r, 'c) backends \<Rightarrow>
   ((edgion_status + 'a backend) \<times> ('a, 's, 'r, 'c) backends) option" where
  "select_from_endpoint_slice env key lb_policy bk =
     map_option (\<lambda>(r, rt). (r, bk\<lparr>bk_runtime := rt\<rparr>))
       (select_from_backends env key lb_policy
          (slice_get_backends_for_service (env_parse_addr env) key (bk_slices bk))
          BackendEndpointSliceNotFoundByRoundRobinDefault BackendEndpointSliceNotFoundByRoundRobin
          BackendEndpointSliceNotFoundByConsistent BackendEndpointSliceNotFoundByLeastConn
          BackendEndpointSliceNotFoundByEwma (hm_health (bk_hc bk)) (bk_runtime bk))"

definition select_from_endpoints ::
  "('a::linorder, 's, 'r, 'c) backends_env \<Rightarrow> string \<Rightarrow> lb_policy option \<Rightarrow> ('a, 's, 'r, 'c) backends \<Rightarrow>
   ((edgion_status + 'a backend) \<times> ('a, 's, 'r, 'c) backends) option" where
  "select_from_endpoints env key lb_policy bk =
     map_option (\<lambda>(r, rt). (r, bk\<lparr>bk_runtime := rt\<rparr>))
       (select_from_backends env key lb_policy
          (ep_get_backends_for_service (env_parse_addr env) key (bk_endpoints bk))
          BackendEndpointNotFoundByRoundRobinDefault BackendEndpointNotFoundByRoundRobin
          BackendEndpointNotFoundByConsistent BackendEndpointNotFoundByLeastConn
          BackendEndpointNotFoundByEwma (hm_health (bk_hc bk)) (bk_runtime bk))"

section \<open>The handlers keep the resources they are given\<close>

lemma hc_apply_frame [simp]:
  "bk_services (hc_apply f b key bk) = bk_services bk"
  "bk_endpoints (hc_apply f b key bk) = bk_endpoints bk"
  "bk_slices (hc_apply f b key bk) = bk_slices bk"
  "bk_runtime (hc_apply f b key bk) = bk_runtime bk"
  by (simp_all add: hc_apply_def)

lemma fold_frame:
  assumes "\<And>x s. x \<in> set xs \<Longrightarrow> f (g x s) = f s"
  shows "f (fold g xs s) = f s"
  using assms by (induction xs arbitrary: s) auto

lemma ep_sync_frame [simp]:
  "bk_services (ep_sync_health_check env keys bk) = bk_services bk"
  "bk_endpoints (ep_sync_health_check env keys bk) = bk_endpoints bk"
  "bk_slices (ep_sync_health_check env keys bk) = bk_slices bk"
  "bk_runtime (ep_sync_health_check env keys bk) = bk_runtime bk"
  unfolding ep_sync_health_check_def by (rule fold_frame, simp)+

lemma slice_sync_frame [simp]:
  "bk_services (slice_sync_health_check env keys bk) = bk_services bk"
  "bk_endpoints (slice_sync_health_check env keys bk) = bk_endpoints bk"
  "bk_slices (slice_sync_health_check env keys bk) = bk_slices bk"
  "bk_runtime (slice_sync_health_check env keys bk) = bk_runtime bk"
  unfolding slice_sync_health_check_def by (rule fold_frame, simp)+

lemma ep_update_lb_data [simp]: "es_ep_data (ep_update_lb_if_exists key st) = es_ep_data st"
  by (auto simp: ep_update_lb_if_exists_def split: option.splits)

lemma slice_update_lb_data [simp]:
  "ss_ep_slices (slice_update_lb_if_exists key st) = ss_ep_slices st"
  "ss_service_to_slices (slice_update_lb_if_exists key st) = ss_service_to_slices st"
  by (auto simp: slice_update_lb_if_exists_def split: option.splits)

text \<open>Refreshing a load balancer does not change the backends of the data layer.\<close>

lemma ep_backends_update_lb [simp]:
  "ep_get_backends_for_service parse key (ep_update_lb_if_exists key' st) = ep_get_backends_for_service parse key st"
  by (simp add: ep_get_backends_for_service_def get_endpoint_for_service_def)

lemma slice_backends_update_lb [simp]:
  "get_slices_for_service key (slice_update_lb_if_exists key' st) = get_slices_for_service key st"
  "slice_get_backends_for_service parse key (slice_update_lb_if_exists key' st) =
     slice_get_backends_for_service parse key st"
proof -
  show get: "get_slices_for_service key (slice_update_lb_if_exists key' st) = get_slices_for_service key st"
    by (simp add: get_slices_for_service_def cong: option.case_cong)
  show "slice_get_backends_for_service parse key (slice_update_lb_if_exists key' st) =
      slice_get_backends_for_service parse key st"
    by (simp add: slice_get_backends_for_service_def get)
qed

lemma cleanup_same [simp]: "cleanup_removed_backends key addrs addrs rt = rt"
proof -
  have "filter (\<lambda>a. a \<notin> set addrs) addrs = []" by (simp add: filter_empty_conv)
  then show ?thesis by (simp add: cleanup_removed_backends_def)
qed

lemma ep_update_affected_lb_frame [simp]:
  "bk_runtime (ep_update_affected_lb env key bk) = bk_runtime bk"
  "es_ep_data (bk_endpoints (ep_update_affected_lb env key bk)) = es_ep_data (bk_endpoints bk)"
  by (simp_all add: ep_update_affected_lb_def Let_def)

lemma slice_update_affected_lb_frame [simp]:
  "bk_runtime (slice_update_affected_lb env key bk) = bk_runtime bk"
  "ss_ep_slices (bk_slices (slice_update_affected_lb env key bk)) = ss_ep_slices (bk_slices bk)"
  "ss_service_to_slices (bk_slices (slice_update_affected_lb env key bk)) = ss_service_to_slices (bk_slices bk)"
  by (simp_all add: slice_update_affected_lb_def Let_def)

lemma ep_partial_update_data:
  "es_ep_data (bk_endpoints (ep_partial_update env add update remove bk)) =
     es_ep_data (snd (ep_update_data_only add update remove (bk_endpoints bk)))"
  "bk_runtime (ep_partial_update env add update remove bk) = bk_runtime bk"
proof -
  obtain affected st where r: "ep_update_data_only add update remove (bk_endpoints bk) = (affected, st)"
    by fastforce
  have "es_ep_data (bk_endpoints (fold (ep_update_affected_lb env) affected bk')) = es_ep_data (bk_endpoints bk')" for bk'
    by (rule fold_frame [where f = "\<lambda>bk. es_ep_data (bk_endpoints bk)"]) simp
  moreover have "bk_runtime (fold (ep_update_affected_lb env) affected bk') = bk_runtime bk'" for bk'
    by (rule fold_frame) simp
  ultimately show "es_ep_data (bk_endpoints (ep_partial_update env add update remove bk)) =
      es_ep_data (snd (ep_update_data_only add update remove (bk_endpoints bk)))"
    "bk_runtime (ep_partial_update env add update remove bk) = bk_runtime bk"
    by (simp_all add: ep_partial_update_def r Let_def)
qed

lemma slice_partial_update_data:
  "slice_view (bk_slices (slice_partial_update env add update remove bk)) =
     slice_view (snd (slice_update_data_only add update remove (bk_slices bk)))"
  "bk_runtime (slice_partial_update env add update remove bk) = bk_runtime bk"
proof -
  obtain affected st where r: "slice_update_data_only add update remove (bk_slices bk) = (affected, st)"
    by fastforce
  have "ss_ep_slices (bk_slices (fold (slice_update_affected_lb env) affected bk')) = ss_ep_slices (bk_slices bk')" for bk'
    by (rule fold_frame [where f = "\<lambda>bk. ss_ep_slices (bk_slices bk)"]) simp
  moreover have "bk_runtime (fold (slice_update_affected_lb env) affected bk') = bk_runtime bk'" for bk'
    by (rule fold_frame) simp
  ultimately show "slice_view (bk_slices (slice_partial_update env add update remove bk)) =
      slice_view (snd (slice_update_data_only add update remove (bk_slices bk)))"
    "bk_runtime (slice_partial_update env add update remove bk) = bk_runtime bk"
    by (auto simp: slice_partial_update_def r Let_def slice_view_def)
qed

lemma fold_cleanup_frame:
  assumes "\<And>key bk. f (hc_apply (g key) b key bk) = f bk"
    and "\<And>bk rt. f (bk\<lparr>bk_runtime := rt\<rparr>) = f bk"
  shows "f (fold (\<lambda>key bk. hc_apply (g key) b key bk\<lparr>bk_runtime := remove_service key (bk_runtime bk)\<rparr>) keys bk) = f bk"
  by (rule fold_frame) (simp add: assms)

lemma ep_update_all_data [simp]: "es_ep_data (ep_update_all_existing_lbs st) = es_ep_data st"
  unfolding ep_update_all_existing_lbs_def by (rule fold_frame) simp

lemma slice_update_all_data [simp]:
  "ss_ep_slices (slice_update_all_existing_lbs st) = ss_ep_slices st"
  "ss_service_to_slices (slice_update_all_existing_lbs st) = ss_service_to_slices st"
  unfolding slice_update_all_existing_lbs_def by (rule fold_frame, simp)+

lemma ep_full_set_data: "es_ep_data (bk_endpoints (ep_full_set env data bk)) = data"
  by (simp add: ep_full_set_def ep_replace_data_only_def Let_def
      fold_cleanup_frame [where f = "\<lambda>bk. bk_endpoints bk"])

lemma slice_full_set_data:
  "ss_ep_slices (bk_slices (slice_full_set env data bk)) = ss_ep_slices (snd (slice_replace_data_only data (bk_slices bk)))"
  "ss_service_to_slices (bk_slices (slice_full_set env data bk)) =
     ss_service_to_slices (snd (slice_replace_data_only data (bk_slices bk)))"
  by (simp_all add: slice_full_set_def Let_def case_prod_beta'
      fold_cleanup_frame [where f = "\<lambda>bk. bk_slices bk"])

lemma map_of_dict_extend:
  assumes "partial_args add update remove"
  shows "map_of (svc_update (fold (\<lambda>(k, v). AList.update k v) update add) remove services) =
    dict_update add update remove (map_of services)"
proof
  fix k
  let ?au = "fold (\<lambda>(k, v). AList.update k v) update add"
  have d: "distinct (map fst add)" "distinct (map fst update)"
    using assms by (auto simp: partial_args_def)
  have "fst ` set add \<inter> fst ` set update = {}" using assms by (auto simp: partial_args_def)
  then have disj: "map_of add k = Some v \<Longrightarrow> map_of update k \<noteq> Some w" for v w
    by (force dest!: map_of_SomeD)
  have "distinct (map fst al) \<Longrightarrow> distinct (map fst (fold (\<lambda>(k, v). AList.update k v) kvs al))"
    for kvs al :: "k8s_service dict"
    by (induction kvs arbitrary: al) (auto simp: distinct_update)
  then have "distinct (map fst ?au)" using d by blast
  then show "map_of (svc_update ?au remove services) k = dict_update add update remove (map_of services) k"
    using d disj
    by (auto simp: svc_update_def map_of_fold_update map_of_fold_delete dict_update_def split: option.splits
        simp del: map_of_eq_Some_iff Some_eq_map_of_iff)
qed

lemma svc_full_set_data: "bk_services (svc_full_set env data bk) = data"
proof -
  have 1: "bk_services (fold (\<lambda>old_key bk.
      if old_key \<in> set (map fst data) then bk
      else let bk = hc_apply (set_service_config old_key None) (env_has_runtime env) old_key bk
           in bk\<lparr>bk_runtime := remove_service old_key (bk_runtime bk)\<rparr>) keys bk) = bk_services bk" for keys bk
    by (rule fold_frame) (simp add: Let_def)
  have 2: "bk_services (fold (\<lambda>(key, service) bk. hc_apply (set_service_config key
      (env_annotation env (svc_meta service))) (env_has_runtime env) key bk) kvs bk) = bk_services bk" for kvs bk
    by (rule fold_frame) (simp split: prod.splits)
  show ?thesis unfolding svc_full_set_def Let_def 2 1 [unfolded Let_def] by simp
qed

lemma svc_partial_update_data:
  "bk_services (svc_partial_update env add update remove bk) =
     svc_update (fold (\<lambda>(k, v). AList.update k v) update add) remove (bk_services bk)"
proof -
  have 1: "bk_services (fold (\<lambda>key bk.
      let bk = hc_apply (set_service_config key None) (env_has_runtime env) key bk
      in bk\<lparr>bk_runtime := remove_service key (bk_runtime bk)\<rparr>) keys bk) = bk_services bk" for keys bk
    by (rule fold_frame) (simp add: Let_def)
  have 2: "bk_services (fold (\<lambda>(key, service) bk. hc_apply (set_service_config key
      (env_annotation env (svc_meta service))) (env_has_runtime env) key bk) kvs bk) = bk_services bk" for kvs bk
    by (rule fold_frame) (simp split: prod.splits)
  show ?thesis unfolding svc_partial_update_def Let_def 1 [unfolded Let_def] 2 by simp
qed

abbreviation ep_ops :: "('a::linorder, 's, 'r, 'c) backends_env \<Rightarrow> (endpoints, ('a, 's, 'r, 'c) backends) conf_ops" where
  "ep_ops env \<equiv> \<lparr>op_full_set = ep_full_set env, op_partial_update = ep_partial_update env\<rparr>"

abbreviation slice_ops :: "('a::linorder, 's, 'r, 'c) backends_env \<Rightarrow> (endpoint_slice, ('a, 's, 'r, 'c) backends) conf_ops" where
  "slice_ops env \<equiv> \<lparr>op_full_set = slice_full_set env, op_partial_update = slice_partial_update env\<rparr>"

abbreviation svc_ops :: "('a, 's, 'r, 'c) backends_env \<Rightarrow> (k8s_service, ('a, 's, 'r, 'c) backends) conf_ops" where
  "svc_ops env \<equiv> \<lparr>op_full_set = svc_full_set env, op_partial_update = svc_partial_update env\<rparr>"

interpretation ep_handler: conf_handler "ep_ops env" "\<lambda>bk. map_of (es_ep_data (bk_endpoints bk))" for env
  by unfold_locales (simp_all add: ep_full_set_data ep_partial_update_data ep_update_data)

interpretation slice_handler: conf_handler "slice_ops env" "\<lambda>bk. slice_view (bk_slices bk)" for env
proof (unfold_locales, goal_cases)
  case (1 data h)
  then show ?case
    using slice_replace_view [OF 1, of "bk_slices h"] by (simp add: slice_view_def fun_eq_iff slice_full_set_data)
next
  case (2 add update remove h)
  then show ?case by (simp add: slice_partial_update_data slice_update_view)
qed

interpretation svc_handler: conf_handler "svc_ops env" "\<lambda>bk. map_of (bk_services bk)" for env
  by unfold_locales (simp_all add: svc_full_set_data svc_partial_update_data map_of_dict_extend)

section \<open>Selection over fresh caches\<close>

definition caches_fresh ::
  "('a, 's, 'r, 'c) backends_env \<Rightarrow> string \<Rightarrow> 'a::linorder backend list \<Rightarrow> ('a, 's, 'r) lb_runtime \<Rightarrow> bool" where
  "caches_fresh env key backends rt \<longleftrightarrow>
     (\<forall>sel. map_of (rt_rr_cache rt) key = Some sel \<longrightarrow> rr_wf sel \<and> rr_backends sel = sort_key b_addr backends) \<and>
     (\<forall>ring. map_of (rt_ch_cache rt) key = Some ring \<longrightarrow>
        ring = ch_build (env_inet env) (env_continuum_new env) backends)"

lemma get_rr_selector_fresh:
  assumes "caches_fresh env key backends rt" "length backends \<le> 65535"
  shows "\<exists>sel rt'. get_rr_selector key backends rt = Some (sel, rt') \<and> rr_wf sel \<and>
    rr_backends sel = sort_key b_addr backends \<and> caches_fresh env key backends rt'"
proof (cases "map_of (rt_rr_cache rt) key")
  case None
  obtain sel where sel: "rr_build backends = Some sel"
    using assms(2) by (auto simp: rr_build_def Let_def)
  then show ?thesis
    using None assms(1) rr_build_wf [OF sel] by (auto simp: get_rr_selector_def caches_fresh_def)
next
  case (Some sel)
  then show ?thesis using assms(1) by (auto simp: get_rr_selector_def caches_fresh_def)
qed

lemma rr_pick_sound:
  assumes "caches_fresh env key backends rt" "length backends \<le> 65535"
  shows "\<exists>r rt'. rr_pick key backends h nf rt = Some (r, rt') \<and> caches_fresh env key backends rt' \<and>
    (case r of Inr b \<Rightarrow> b \<in> set backends \<and> h b
     | Inl e \<Rightarrow> e = nf \<and> (length backends \<le> max_sample \<and> (\<forall>b \<in> set backends. b_weight b \<le> 1) \<longrightarrow>
                (\<forall>b \<in> set backends. \<not> h b)))"
proof -
  obtain sel rt1 where sel: "get_rr_selector key backends rt = Some (sel, rt1)" "rr_wf sel"
    "rr_backends sel = sort_key b_addr backends" "caches_fresh env key backends rt1"
    using get_rr_selector_fresh [OF assms] by blast
  obtain r sel' where r: "rr_select sel max_sample h = Some (r, sel')"
    using rr_select_total [OF sel(2)] by blast
  have fresh: "caches_fresh env key backends (put_rr_selector key sel' rt1)"
    using rr_select_wf [OF sel(2) r] sel(3,4) by (auto simp: caches_fresh_def put_rr_selector_def)
  have sound: "b \<in> set backends \<and> h b" if "r = Some b" for b
    using rr_select_sound [OF sel(2), of max_sample h b sel'] r that sel(3) by auto
  have none: "\<forall>b \<in> set backends. \<not> h b"
    if "r = None" "length backends \<le> max_sample" "\<forall>b \<in> set backends. b_weight b \<le> 1"
    using rr.select_None_iff [of "(sel, max_sample)" h] that sel(2,3) r by (simp add: rr_uniform_def)
  show ?thesis
    using sel(1) r fresh sound none by (cases r) (auto simp: rr_pick_def)
qed

lemma get_ch_ring_fresh:
  assumes "caches_fresh env key backends rt"
    and "get_ch_ring (env_inet env) (env_continuum_new env) key backends rt = (ring, rt')"
  shows "ring = ch_build (env_inet env) (env_continuum_new env) backends" "caches_fresh env key backends rt'"
  using assms by (auto simp: get_ch_ring_def caches_fresh_def Let_def split: option.splits)

lemma caches_fresh_empty:
  "map_of (rt_rr_cache rt) key = None \<Longrightarrow> map_of (rt_ch_cache rt) key = None \<Longrightarrow> caches_fresh env key backends rt"
  by (simp add: caches_fresh_def)

section \<open>Properties\<close>

text \<open>
  C1: while the cached selectors of a service were built from its current backends, every load
  balancing policy returns without a panic, and a backend it returns is one of the current backends
  and healthy; the cached selectors stay current.
\<close>

theorem selection_returns_current_healthy_backend:
  assumes "caches_fresh env key backends rt" "length backends \<le> 65535"
  shows "\<exists>r rt'. select_from_backends env key policy backends e1 e2 e3 e4 e5 health rt = Some (r, rt') \<and>
    caches_fresh env key backends rt' \<and>
    (\<forall>b. r = Inr b \<longrightarrow> b \<in> set backends \<and> is_backend_healthy env key health b)"
proof (cases "backends = []")
  case False
  let ?h = "is_backend_healthy env key health"
  have rr: "\<exists>r rt'. rr_pick key backends ?h nf rt = Some (r, rt') \<and> caches_fresh env key backends rt' \<and>
      (\<forall>b. r = Inr b \<longrightarrow> b \<in> set backends \<and> ?h b)" for nf
    using rr_pick_sound [OF assms, of ?h nf] by (fastforce split: sum.splits)
  show ?thesis
  proof (cases policy)
    case None
    then show ?thesis using rr False by (simp add: select_from_backends_def)
  next
    case (Some p)
    then show ?thesis
    proof (cases p)
      case (ConsistentHash hash_key)
      obtain ring rt' where "get_ch_ring (env_inet env) (env_continuum_new env) key backends rt = (ring, rt')"
        by fastforce
      then show ?thesis
        using Some ConsistentHash rr False get_ch_ring_fresh [OF assms(1)]
        by (cases "hash_key = []")
          (auto simp: select_from_backends_def Let_def dest: ch_select_sound split: option.splits)
    qed (use Some False assms(1) in \<open>auto simp: select_from_backends_def least_conn_select_def ewma_select_def
        select_by_min_metric_def Let_def enumerate_nth_mem dest!: find_SomeD in_set_takeD split: option.splits\<close>)
  qed
qed (use assms in \<open>simp add: select_from_backends_def\<close>)

text \<open>
  C3: an incremental update of Endpoints or EndpointSlices never touches the runtime state of the
  load balancer: the comparison of the old with the new backends reads the data layer after it was
  updated both times. So a cached selector is never invalidated, and a removed backend is neither
  drained nor forgotten.
\<close>

theorem partial_update_never_invalidates_selectors:
  "bk_runtime (slice_partial_update env add update remove bk) = bk_runtime bk \<and>
   bk_runtime (ep_partial_update env add' update' remove' bk) = bk_runtime bk"
  by (simp add: slice_partial_update_data ep_partial_update_data)

text \<open>A concrete environment: an address is the length of its text, a hash its value.\<close>

definition example_env :: "(nat, nat, nat list, nat) backends_env" where
  "example_env =
     \<lparr>env_parse_addr = (\<lambda>s. Some (length s)), env_annotation = (\<lambda>_. None), env_has_runtime = True,
      env_backend_hash = (\<lambda>b. of_nat (b_addr b)), env_inet = Some, env_continuum_new = map fst,
      env_node_idx = (\<lambda>r k. length k mod length r),
      env_get_addr = (\<lambda>r i. if i < length r then Some (r ! i, (i + 1) mod length r) else None)\<rparr>"

definition backends_new :: "('a, 's, 'r, 'c) backends" where
  "backends_new =
     \<lparr>bk_services = [], bk_endpoints = ep_store_new, bk_slices = slice_store_new, bk_runtime = runtime_new,
      bk_hc = \<lparr>hm_tasks = [], hm_health = [], hm_configs = hc_config_new\<rparr>\<rparr>"

theorem selection_returns_current_healthy_backend_witness:
  "\<exists>r rt'. select_from_backends example_env ''d/a'' (Some (ConsistentHash [1])) [Backend 4 1, Backend 5 1]
      BackendEndpointNotFoundByRoundRobinDefault BackendEndpointNotFoundByRoundRobin
      BackendEndpointNotFoundByConsistent BackendEndpointNotFoundByLeastConn BackendEndpointNotFoundByEwma
      [] runtime_new = Some (r, rt') \<and> (\<forall>b. r = Inr b \<longrightarrow> b \<in> {Backend 4 1, Backend 5 1})"
proof -
  have "caches_fresh example_env ''d/a'' [Backend 4 1, Backend 5 1] runtime_new"
    by (simp add: caches_fresh_def runtime_new_def)
  from selection_returns_current_healthy_backend [OF this, of "Some (ConsistentHash [1])"]
  show ?thesis by fastforce
qed

text \<open>
  C4: after an incremental update, a round robin selection of a service with a cached selector
  still picks from the backends the selector was built from, whatever the current backends are.
\<close>

theorem selection_after_partial_update_is_stale:
  assumes "map_of (rt_rr_cache (bk_runtime bk)) key = Some sel" "rr_uniform sel" "rr_backends sel \<noteq> []"
    and "length (rr_backends sel) \<le> max_sample"
    and bk': "bk' = slice_partial_update env add update remove bk"
    and "\<forall>b \<in> set (rr_backends sel). is_backend_healthy env key (hm_health (bk_hc bk')) b"
    and "slice_get_backends_for_service (env_parse_addr env) key (bk_slices bk') \<noteq> []"
  shows "\<exists>b bk''. select_from_endpoint_slice env key None bk' = Some (Inr b, bk'') \<and> b \<in> set (rr_backends sel)"
proof -
  let ?h = "is_backend_healthy env key (hm_health (bk_hc bk'))"
  have rt: "bk_runtime bk' = bk_runtime bk" by (simp add: bk' slice_partial_update_data)
  obtain b0 where b0: "b0 \<in> set (rr_backends sel)" "?h b0" using assms(3,6) by (cases "rr_backends sel") auto
  obtain b sel' where b: "rr_select sel max_sample ?h = Some (Some b, sel')"
    using rr_select_uniform_complete [OF assms(2,4) b0(1), of ?h] b0(2) by blast
  then have "b \<in> set (rr_backends sel)"
    using rr_select_sound assms(2) by (auto simp: rr_uniform_def)
  then show ?thesis
    using assms(1,7) b
    by (simp add: select_from_endpoint_slice_def select_from_backends_def rr_pick_def get_rr_selector_def rt)
qed

definition cached_selector :: "nat rr_selector" where
  "cached_selector = \<lparr>rr_backends = [Backend 4 1], rr_weighted = [0], rr_counter = 1\<rparr>"

theorem selection_after_partial_update_is_stale_witness:
  "let bk = backends_new\<lparr>bk_slices := snd (slice_replace_data_only [(''d/x'', example_slice ''x'' ''a'' ''1'')] slice_store_new),
              bk_runtime := runtime_new\<lparr>rt_rr_cache := [(''d/a'', cached_selector)]\<rparr>\<rparr>;
       bk' = slice_partial_update example_env [] [(''d/x'', example_slice ''x'' ''a'' ''11'')] [] bk
   in slice_get_backends_for_service (env_parse_addr example_env) ''d/a'' (bk_slices bk') = [Backend 5 1] \<and>
      (\<exists>bk''. select_from_endpoint_slice example_env ''d/a'' None bk' = Some (Inr (Backend 4 1), bk''))"
proof -
  define bk :: "(nat, nat, nat list, nat) backends" where "bk = backends_new\<lparr>bk_slices :=
      snd (slice_replace_data_only [(''d/x'', example_slice ''x'' ''a'' ''1'')] slice_store_new),
      bk_runtime := runtime_new\<lparr>rt_rr_cache := [(''d/a'', cached_selector)]\<rparr>\<rparr>"
  define bk' where "bk' = slice_partial_update example_env [] [(''d/x'', example_slice ''x'' ''a'' ''11'')] [] bk"
  have "let bk = bk' in slice_get_backends_for_service (env_parse_addr example_env) ''d/a'' (bk_slices bk) = [Backend 5 1]
      \<and> hm_health (bk_hc bk) = []"
    unfolding bk'_def bk_def by code_simp
  then have new: "slice_get_backends_for_service (env_parse_addr example_env) ''d/a'' (bk_slices bk') = [Backend 5 1]"
    and "hm_health (bk_hc bk') = []" by (simp_all add: Let_def)
  then have h: "is_backend_healthy example_env ''d/a'' (hm_health (bk_hc bk')) b" for b
    by (simp add: is_backend_healthy_def has_service_def)
  have "rr_uniform cached_selector"
    by (simp add: rr_uniform_def rr_wf_def cached_selector_def rr_expand_def)
  moreover have "map_of (rt_rr_cache (bk_runtime bk)) ''d/a'' = Some cached_selector" by (simp add: bk_def)
  ultimately obtain b bk'' where "select_from_endpoint_slice example_env ''d/a'' None bk' = Some (Inr b, bk'')"
    "b \<in> set (rr_backends cached_selector)"
    using selection_after_partial_update_is_stale [OF _ _ _ _ bk'_def, of "''d/a''" cached_selector]
      h new by (auto simp: cached_selector_def max_sample_def)
  then show ?thesis
    using new unfolding Let_def bk_def [symmetric] bk'_def [symmetric] by (auto simp: cached_selector_def)
qed

lemma fold_invariant_all:
  assumes "\<And>x s. P s \<Longrightarrow> P (f x s)" "P s"
  shows "P (fold f xs s)"
  using assms(2) by (induction xs arbitrary: s) (auto intro: assms(1))

definition unit_weights :: "'a backend list \<Rightarrow> bool" where
  "unit_weights bs \<longleftrightarrow> (\<forall>b \<in> set bs. b_weight b = 1)"

lemma unit_weights_insert:
  "unit_weights acc \<Longrightarrow> b_weight b = 1 \<Longrightarrow> unit_weights (insort_insert b acc)"
  by (simp add: unit_weights_def set_insort_insert)

lemma unit_weights_parsed: "unit_weights acc \<Longrightarrow> unit_weights (insert_parsed parse t acc)"
  by (cases "parse t") (simp_all add: insert_parsed_def unit_weights_insert)

lemma unit_weights_build: "unit_weights (slice_build_backends parse port sl)"
  unfolding slice_build_backends_def
proof (rule fold_invariant_all)
  show "unit_weights ([] :: 'a backend list)" by (simp add: unit_weights_def)
  fix x :: slice_endpoint and acc :: "'a backend list"
  assume "unit_weights acc"
  then show "unit_weights (if \<not> case_option False id (Option.bind (se_conditions x) id) then acc
      else fold (\<lambda>address. insert_parsed parse (format_addr (sl_address_type sl = ''IPv6'') address port))
             (se_addresses x) acc)"
    by (auto intro!: fold_invariant_all [where P = unit_weights] unit_weights_parsed simp del: bind_eq_Some_conv)
qed

lemma unit_weights_merge:
  "unit_weights xs \<Longrightarrow> unit_weights acc \<Longrightarrow> unit_weights (fold insort_insert xs acc)"
proof (induction xs arbitrary: acc)
  case (Cons x xs)
  then have "unit_weights xs" "b_weight x = 1" by (simp_all add: unit_weights_def)
  then show ?case using Cons.IH [of "insort_insert x acc"] Cons.prems(2) by (simp add: unit_weights_insert)
qed simp

lemma backends_unit_weights: "unit_weights (slice_get_backends_for_service parse key st)"
proof (cases "get_slices_for_service key st")
  case (Some slices)
  have "unit_weights (fold (\<lambda>slice. fold insort_insert (slice_build_backends parse (slices_port slices) slice)) slices [])"
    by (rule fold_invariant_all) (simp_all add: unit_weights_merge unit_weights_build, simp add: unit_weights_def)
  then show ?thesis by (simp add: slice_get_backends_for_service_def Some)
qed (simp add: slice_get_backends_for_service_def unit_weights_def)

definition indexed_affected :: "string list \<times> slice_data \<Rightarrow> bool" where
  "indexed_affected d \<longleftrightarrow> fst ` set (snd (snd d)) \<subseteq> set (fst d)"

lemma slice_put_indexed: "indexed_affected d \<Longrightarrow> indexed_affected (slice_put kv d)"
  by (cases kv; cases d)
    (auto simp: indexed_affected_def slice_put_def Let_def index_insert_def dom_update)

lemma slice_replace_services:
  assumes "get_slices_for_service key (snd (slice_replace_data_only data st)) \<noteq> None"
  shows "key \<in> set (fst (slice_replace_data_only data st))"
proof -
  let ?d = "fold slice_put data ([], [], [])"
  have "indexed_affected ?d"
    by (rule fold_invariant_all) (simp_all add: slice_put_indexed, simp add: indexed_affected_def)
  moreover have "map_of (snd (snd ?d)) key \<noteq> None"
    using assms by (auto simp: get_slices_for_service_def slice_replace_data_only_def case_prod_beta'
        split: option.splits)
  then have "key \<in> fst ` set (snd (snd ?d))" by (simp add: map_of_eq_None_iff)
  ultimately show ?thesis
    by (auto simp: slice_replace_data_only_def case_prod_beta' indexed_affected_def)
qed

lemma map_of_invalidated:
  "map_of (rt_rr_cache (fold invalidate_selector_cache keys rt)) key =
     (if key \<in> set keys then None else map_of (rt_rr_cache rt) key)"
  "map_of (rt_ch_cache (fold invalidate_selector_cache keys rt)) key =
     (if key \<in> set keys then None else map_of (rt_ch_cache rt) key)"
  by (induction keys arbitrary: rt) (auto simp: invalidate_selector_cache_def)

definition uncached :: "string \<Rightarrow> ('a, 's, 'r) lb_runtime \<Rightarrow> bool" where
  "uncached key rt \<longleftrightarrow> map_of (rt_rr_cache rt) key = None \<and> map_of (rt_ch_cache rt) key = None"

lemma uncached_remove: "uncached key rt \<Longrightarrow> uncached key (remove_service key' rt)"
  by (simp add: uncached_def remove_service_def invalidate_selector_cache_def)

lemma slice_full_set_uncached:
  fixes env :: "('a, 's, 'r, 'c) backends_env"
  assumes "get_slices_for_service key (bk_slices (slice_full_set env data bk)) \<noteq> None"
  shows "uncached key (bk_runtime (slice_full_set env data bk))"
proof -
  obtain services st where r: "slice_replace_data_only data (bk_slices bk) = (services, st)" by fastforce
  have "get_slices_for_service key (bk_slices (slice_full_set env data bk)) = get_slices_for_service key st"
    using slice_full_set_data [of env data bk] r
    by (simp add: get_slices_for_service_def cong: option.case_cong)
  then have key: "key \<in> set services"
    using slice_replace_services [of key data "bk_slices bk"] assms r by simp
  let ?clean = "\<lambda>key (bk :: ('a, 's, 'r, 'c) backends).
    hc_apply (set_endpoint_slice_config key None) (env_has_runtime env) key bk
      \<lparr>bk_runtime := remove_service key (bk_runtime bk)\<rparr>"
  have "uncached key (bk_runtime (fold ?clean stale bk'))" if "uncached key (bk_runtime bk')" for stale bk'
    using that by (intro fold_invariant_all [where P = "\<lambda>bk. uncached key (bk_runtime bk)"])
      (simp_all add: uncached_remove)
  moreover have "uncached key (fold invalidate_selector_cache services rt)" for rt :: "('a, 's, 'r) lb_runtime"
    using key by (simp add: uncached_def map_of_invalidated)
  ultimately show ?thesis by (simp add: slice_full_set_def r Let_def)
qed



text \<open>
  C5: the configuration client delivers. Whatever the network calls answer and however events,
  ticks and triggered updates interleave, after the next tick the EndpointSlice handler holds exactly
  the resources that the client has cached.
\<close>

theorem client_delivers_cached_resources:
  fixes env :: "('a::linorder, 's, 'r, 'c) backends_env"
  shows "\<exists>hnd. cd_handler (ws_cache (client_act (slice_ops env) key_name prepare Tick
             (client_run (slice_ops env) key_name prepare backends_new acts))) = Some hnd \<and>
    slice_view (bk_slices (hd_processor hnd)) =
      map_of (cd_data (ws_cache (client_run (slice_ops env) key_name prepare backends_new acts)))"
proof (rule slice_handler.client_run_delivers)
  show "slice_view (bk_slices (backends_new :: ('a, 's, 'r, 'c) backends)) = Map.empty"
    by (simp add: fun_eq_iff slice_view_def backends_new_def slice_store_new_def)
qed simp

end
