(* ===== verification/Event_Store.thy ===== *)
theory Event_Store
  imports Conf_Client
begin

text \<open>
  The event store and the cache of the controller
  (\<open>src/src/core/controller/conf_sync/cache_server/store.rs\<close>, \<open>cache.rs\<close>), with the version
  generator of \<open>src/src/core/common/utils/mod.rs\<close> and the event types of
  \<open>src/src/core/common/conf_sync/types.rs\<close>.

  The circular queue has absolute indices that only grow; they are natural numbers, since at one
  event per nanosecond a \<open>usize\<close> lasts for five centuries. Versions are \<open>u64\<close>. An index out
  of the range of the queue panics, and \<open>None\<close> is the panic. The name and the namespace of a
  resource are read through the library's resource trait: the parameters \<open>ns\<close> and \<open>nm\<close>.

  The abstract queue is the list of retained events. The queue operations refine it, and the scan
  for events newer than a version is equal to filtering it. A version that is not expired then
  stands for a replica that the retained events bring up to date.
\<close>

section \<open>Events and the store\<close>

datatype event_type = Update | Delete | Add

record 'v watcher_event =
  ev_type :: event_type
  ev_sync_version :: u64
  ev_data :: 'v

record 'v event_store =
  es_capacity :: nat
  es_cache :: "'v watcher_event option list"
  es_start_index :: nat
  es_end_index :: nat
  es_sync_version :: u64
  es_expire_sync_version :: u64
  es_data :: "'v dict"

definition WATCH_ERR_VERSION_UNEXPECTED :: string where
  "WATCH_ERR_VERSION_UNEXPECTED = ''VersionUnexpect''"
definition WATCH_ERR_TOO_OLD_VERSION :: string where
  "WATCH_ERR_TOO_OLD_VERSION = ''TooOldVersion''"
definition WATCH_ERR_EVENTS_LOST :: string where
  "WATCH_ERR_EVENTS_LOST = ''EventsLost''"

text \<open>The assertion of \<open>new\<close> holds for every capacity, see \<open>es_new_total\<close>.\<close>

definition es_new :: "nat \<Rightarrow> 'v event_store option" where
  "es_new capacity =
     (let capacity = (if capacity = 0 then 200 else max capacity 10)
      in if 5 < capacity
         then Some \<lparr>es_capacity = capacity, es_cache = replicate capacity None, es_start_index = 0,
                    es_end_index = 0, es_sync_version = 0, es_expire_sync_version = 0, es_data = []\<rparr>
         else None)"

definition set_current_sync_version :: "u64 \<Rightarrow> 'v event_store \<Rightarrow> 'v event_store" where
  "set_current_sync_version version st = st\<lparr>es_sync_version := version\<rparr>"

definition resource_key :: "('v \<Rightarrow> string option) \<Rightarrow> ('v \<Rightarrow> string) \<Rightarrow> 'v \<Rightarrow> string" where
  "resource_key ns nm resource =
     (case ns resource of Some n \<Rightarrow> n @ ''/'' @ nm resource | None \<Rightarrow> nm resource)"

definition init_add ::
  "('v \<Rightarrow> string option) \<Rightarrow> ('v \<Rightarrow> string) \<Rightarrow> u64 \<Rightarrow> 'v \<Rightarrow> 'v event_store \<Rightarrow> 'v event_store" where
  "init_add ns nm sync_version resource st =
     (let st = st\<lparr>es_data := AList.update (resource_key ns nm resource) resource (es_data st)\<rparr>
      in if es_sync_version st < sync_version then st\<lparr>es_sync_version := sync_version\<rparr> else st)"

definition es_clear :: "'v event_store \<Rightarrow> 'v event_store" where
  "es_clear st =
     st\<lparr>es_cache := replicate (es_capacity st) None, es_start_index := 0, es_end_index := 0,
        es_sync_version := 0, es_expire_sync_version := 0, es_data := []\<rparr>"

definition slot :: "'v event_store \<Rightarrow> nat \<Rightarrow> 'v watcher_event option option" where
  "slot st i = (if es_capacity st = 0 then None else nth_opt (es_cache st) (i mod es_capacity st))"

definition mut_update :: "'v watcher_event \<Rightarrow> 'v event_store \<Rightarrow> 'v event_store option" where
  "mut_update event st =
     (case slot st (es_end_index st) of
        None \<Rightarrow> None
      | Some last_event \<Rightarrow>
          let st = (if es_capacity st \<le> es_end_index st - es_start_index st
                    then (case last_event of
                            Some e \<Rightarrow> st\<lparr>es_expire_sync_version := ev_sync_version e,
                                         es_start_index := es_start_index st + 1\<rparr>
                          | None \<Rightarrow> st\<lparr>es_start_index := es_start_index st + 1\<rparr>)
                    else st)
          in Some (st\<lparr>es_cache := (es_cache st)[es_end_index st mod es_capacity st := Some event],
                      es_end_index := es_end_index st + 1\<rparr>))"

definition apply_event ::
  "('v \<Rightarrow> string option) \<Rightarrow> ('v \<Rightarrow> string) \<Rightarrow> event_type \<Rightarrow> 'v \<Rightarrow> u64 \<Rightarrow> 'v event_store \<Rightarrow>
   'v event_store option" where
  "apply_event ns nm event_type resource sync_version st =
     (if sync_version < es_sync_version st then Some st
      else
        let key = resource_key ns nm resource;
            st = st\<lparr>es_data := (if event_type = Delete then AList.delete key (es_data st)
                                else AList.update key resource (es_data st))\<rparr>;
            st = (if es_sync_version st < sync_version then st\<lparr>es_sync_version := sync_version\<rparr> else st)
        in mut_update \<lparr>ev_type = event_type, ev_sync_version = sync_version, ev_data = resource\<rparr> st)"

definition snapshot_owned :: "'v event_store \<Rightarrow> 'v list \<times> u64" where
  "snapshot_owned st = (map snd (es_data st), es_sync_version st)"

definition get_by_key :: "string \<Rightarrow> 'v event_store \<Rightarrow> 'v option" where
  "get_by_key key st = map_of (es_data st) key"

subsection \<open>Events from a version\<close>

text \<open>The backward walk from \<open>start_scan\<close>, and the collection of the events from there on.\<close>

fun scan_back :: "'v event_store \<Rightarrow> u64 \<Rightarrow> nat \<Rightarrow> nat option" where
  "scan_back st from_version 0 = Some 0"
| "scan_back st from_version (Suc n) =
     (if es_start_index st < Suc n
      then (case slot st n of
              None \<Rightarrow> None
            | Some (Some ev) \<Rightarrow>
                if from_version < ev_sync_version ev then scan_back st from_version n else Some (Suc n)
            | Some None \<Rightarrow> Some (Suc n))
      else Some (Suc n))"

fun collect_events :: "'v event_store \<Rightarrow> u64 \<Rightarrow> nat list \<Rightarrow> 'v watcher_event list option" where
  "collect_events st from_version [] = Some []"
| "collect_events st from_version (i # is) =
     (case slot st i of
        None \<Rightarrow> None
      | Some (Some ev) \<Rightarrow>
          if from_version < ev_sync_version ev
          then map_option (Cons ev) (collect_events st from_version is)
          else collect_events st from_version is
      | Some None \<Rightarrow> collect_events st from_version is)"

type_synonym 'v events_result = "string + (u64 \<times> 'v watcher_event list option)"

definition get_events_from_sync_version :: "u64 \<Rightarrow> 'v event_store \<Rightarrow> 'v events_result option" where
  "get_events_from_sync_version from_version st =
     (if es_sync_version st < from_version then Some (Inl WATCH_ERR_VERSION_UNEXPECTED)
      else if from_version = es_sync_version st then Some (Inr (es_sync_version st, None))
      else if from_version \<noteq> 0 \<and> from_version < es_expire_sync_version st
      then Some (Inl WATCH_ERR_TOO_OLD_VERSION)
      else if es_capacity st = 0 \<or> es_end_index st = es_start_index st
      then Some (Inr (es_sync_version st, None))
      else
        case scan_back st from_version (es_end_index st) of
          None \<Rightarrow> None
        | Some start_scan \<Rightarrow>
            map_option (\<lambda>events. Inr (es_sync_version st, Some events))
              (collect_events st from_version [start_scan..<es_end_index st]))"

section \<open>The cache of the controller\<close>

text \<open>
  The generator of versions: \<open>timestamp\<close> is the clock, \<open>last_version\<close> the global counter. The
  compare-and-exchange loop is its successful round.
\<close>

definition next_resource_version :: "u64 \<Rightarrow> u64 \<Rightarrow> u64" where
  "next_resource_version timestamp current =
     (if current < timestamp then timestamp else if current = - 1 then current else current + 1)"

record 'v server_cache =
  sc_ready :: bool
  sc_store :: "'v event_store"

definition server_cache_new :: "u32 \<Rightarrow> 'v server_cache option" where
  "server_cache_new capacity =
     map_option (\<lambda>st. \<lparr>sc_ready = False, sc_store = st\<rparr>) (es_new (unat capacity))"

definition push_event ::
  "('v \<Rightarrow> string option) \<Rightarrow> ('v \<Rightarrow> string) \<Rightarrow> event_type \<Rightarrow> 'v \<Rightarrow> u64 \<Rightarrow> 'v server_cache \<Rightarrow>
   'v server_cache option" where
  "push_event ns nm event_type resource sync_version sc =
     map_option (\<lambda>st. sc\<lparr>sc_store := st\<rparr>) (apply_event ns nm event_type resource sync_version (sc_store sc))"

text \<open>\<open>apply_change\<close> with the version it draws. The caches of all kinds share the generator.\<close>

definition server_apply_change ::
  "('v \<Rightarrow> string option) \<Rightarrow> ('v \<Rightarrow> string) \<Rightarrow> resource_change \<Rightarrow> 'v \<Rightarrow> u64 \<Rightarrow> 'v server_cache \<Rightarrow>
   'v server_cache option" where
  "server_apply_change ns nm change resource sync_version sc =
     (case change of
        InitStart \<Rightarrow> Some sc
      | InitAdd \<Rightarrow> Some (sc\<lparr>sc_store := init_add ns nm sync_version resource (sc_store sc)\<rparr>)
      | InitDone \<Rightarrow> Some (sc\<lparr>sc_ready := True\<rparr>)
      | EventAdd \<Rightarrow> push_event ns nm Add resource sync_version sc
      | EventUpdate \<Rightarrow> push_event ns nm Update resource sync_version sc
      | EventDelete \<Rightarrow> push_event ns nm Delete resource sync_version sc)"

definition server_clear :: "'v server_cache \<Rightarrow> 'v server_cache" where
  "server_clear sc = sc\<lparr>sc_store := es_clear (sc_store sc)\<rparr>"

definition server_set_not_ready :: "'v server_cache \<Rightarrow> 'v server_cache" where
  "server_set_not_ready sc = sc\<lparr>sc_ready := False\<rparr>"

text \<open>
  One round of the watcher task of a client that has seen \<open>from_version\<close>: it sends events and
  continues from the current version, it sends an error and ends, or it waits for a notification.
\<close>

datatype 'v watcher_output = SendEvents "'v watcher_event list" u64 | SendError string u64 | Wait

definition watcher_round :: "u64 \<Rightarrow> 'v event_store \<Rightarrow> 'v watcher_output option" where
  "watcher_round from_version st =
     map_option
       (\<lambda>result. case result of
          Inr (current_version, maybe_events) \<Rightarrow>
            (case maybe_events of
               Some (ev # evs) \<Rightarrow> SendEvents (ev # evs) current_version
             | _ \<Rightarrow> if from_version < current_version
                     then SendError WATCH_ERR_EVENTS_LOST current_version else Wait)
        | Inl err \<Rightarrow> SendError err from_version)
       (get_events_from_sync_version from_version st)"

section \<open>The queue refines a bounded list\<close>

definition retained :: "'v event_store \<Rightarrow> 'v watcher_event list" where
  "retained st =
     map (\<lambda>i. the (es_cache st ! (i mod es_capacity st))) [es_start_index st..<es_end_index st]"

definition ring_wf :: "'v event_store \<Rightarrow> bool" where
  "ring_wf st \<longleftrightarrow>
     0 < es_capacity st \<and> length (es_cache st) = es_capacity st \<and>
     es_start_index st \<le> es_end_index st \<and> es_end_index st - es_start_index st \<le> es_capacity st \<and>
     (\<forall>i\<in>{es_start_index st..<es_end_index st}. es_cache st ! (i mod es_capacity st) \<noteq> None)"

lemma word_less_inc: "l \<noteq> - 1 \<Longrightarrow> l < l + (1 :: u64)"
  by (metis add.commute add_eq_0_iff lessI unatSuc word_less_nat_alt)

lemma next_version_strict: "next_resource_version ts l \<noteq> - 1 \<Longrightarrow> l < next_resource_version ts l"
  by (auto simp: next_resource_version_def word_less_inc split: if_splits)

lemma next_version_mono: "l \<le> next_resource_version ts l"
  using next_version_strict [of ts l] by (cases "next_resource_version ts l = - 1") auto

lemma mod_window_inj:
  assumes "i mod c = j mod c" "s \<le> i" "i < s + c" "s \<le> j" "j < s + (c::nat)"
  shows "i = j"
proof -
  have le: "i \<le> j \<Longrightarrow> i = j" if "i mod c = j mod c" "s \<le> i" "j < s + c" for i j
  proof -
    assume "i \<le> j"
    then have "c dvd j - i" using that(1) by (metis mod_eq_dvd_iff_nat)
    moreover have "j - i < c" using that \<open>i \<le> j\<close> by linarith
    ultimately show "i = j" using \<open>i \<le> j\<close> by (metis dvd_imp_le diff_is_0_eq le_antisym not_le zero_less_iff_neq_zero)
  qed
  show ?thesis using le [of i j] le [of j i] assms by (cases "i \<le> j") auto
qed

lemma length_retained [simp]: "length (retained st) = es_end_index st - es_start_index st"
  by (simp add: retained_def)

lemma slot_wf: "ring_wf st \<Longrightarrow> slot st i = Some (es_cache st ! (i mod es_capacity st))"
  by (simp add: slot_def ring_wf_def)

lemma slot_retained:
  assumes "ring_wf st" "es_start_index st \<le> i" "i < es_end_index st"
  shows "slot st i = Some (Some (retained st ! (i - es_start_index st)))"
  using assms by (auto simp: slot_wf retained_def ring_wf_def)

lemma retained_write:
  assumes wf: "ring_wf st" and "es_start_index st \<le> s" "s \<le> es_end_index st" "es_end_index st - s < es_capacity st"
    and st': "es_cache st' = (es_cache st)[es_end_index st mod es_capacity st := Some ev]"
      "es_capacity st' = es_capacity st" "es_start_index st' = s" "es_end_index st' = Suc (es_end_index st)"
  shows "ring_wf st'" "retained st' = drop (s - es_start_index st) (retained st) @ [ev]"
proof -
  let ?c = "es_capacity st" and ?e = "es_end_index st"
  have c: "0 < ?c" "length (es_cache st) = ?c" using wf by (auto simp: ring_wf_def)
  have keep: "es_cache st' ! (i mod ?c) = es_cache st ! (i mod ?c)" if "s \<le> i" "i < ?e" for i
  proof -
    have "i mod ?c \<noteq> ?e mod ?c"
      using mod_window_inj [of i ?c ?e s] that assms(4) by linarith
    then show ?thesis by (simp add: st')
  qed
  have last: "es_cache st' ! (?e mod ?c) = Some ev" using c by (simp add: st')
  show "ring_wf st'"
    using wf assms(2-4) keep last by (auto simp: ring_wf_def st' less_Suc_eq)
  have "retained st' = map (\<lambda>i. the (es_cache st' ! (i mod ?c))) ([s..<?e] @ [?e])"
    using assms(3) by (simp add: retained_def st')
  also have "\<dots> = map (\<lambda>i. the (es_cache st ! (i mod ?c))) [s..<?e] @ [ev]"
    using keep last by simp
  also have "\<dots> = drop (s - es_start_index st) (retained st) @ [ev]"
    using assms(2) by (simp add: retained_def drop_map)
  finally show "retained st' = drop (s - es_start_index st) (retained st) @ [ev]" .
qed

text \<open>Adding an event drops the oldest one when the queue is full, and remembers its version.\<close>

lemma mut_update_refines:
  assumes wf: "ring_wf st"
  shows "\<exists>st'. mut_update ev st = Some st' \<and> ring_wf st' \<and>
           es_capacity st' = es_capacity st \<and> es_data st' = es_data st \<and> es_sync_version st' = es_sync_version st \<and>
           (if length (retained st) = es_capacity st
            then retained st' = tl (retained st) @ [ev] \<and>
                 es_expire_sync_version st' = ev_sync_version (hd (retained st))
            else retained st' = retained st @ [ev] \<and>
                 es_expire_sync_version st' = es_expire_sync_version st)"
proof (cases "length (retained st) = es_capacity st")
  case full: True
  let ?c = "es_capacity st" and ?s = "es_start_index st" and ?e = "es_end_index st"
  have pos: "0 < ?c" and e: "?e = ?s + ?c" using wf full by (auto simp: ring_wf_def)
  have "slot st ?e = slot st ?s" by (simp add: slot_def e)
  also have "\<dots> = Some (Some (hd (retained st)))"
    using slot_retained [OF wf, of ?s] pos e full by (simp add: hd_conv_nth flip: length_greater_0_conv)
  finally have slot: "slot st ?e = Some (Some (hd (retained st)))" .
  define st' where "st' = st\<lparr>es_expire_sync_version := ev_sync_version (hd (retained st)),
    es_start_index := ?s + 1, es_cache := (es_cache st)[?e mod ?c := Some ev], es_end_index := ?e + 1\<rparr>"
  have upd: "mut_update ev st = Some st'"
    using slot e by (simp add: mut_update_def st'_def)
  have "ring_wf st'" "retained st' = drop 1 (retained st) @ [ev]"
    using retained_write [OF wf, of "?s + 1" st' ev] pos e by (auto simp: st'_def)
  then show ?thesis using upd full by (simp add: st'_def drop_Suc)
next
  case False
  then have less: "es_end_index st - es_start_index st < es_capacity st"
    using wf by (auto simp: ring_wf_def)
  define st' where "st' = st\<lparr>es_cache := (es_cache st)[es_end_index st mod es_capacity st := Some ev],
    es_end_index := es_end_index st + 1\<rparr>"
  have upd: "mut_update ev st = Some st'"
    using slot_wf [OF wf] less by (simp add: mut_update_def st'_def)
  have "ring_wf st'" "retained st' = retained st @ [ev]"
    using retained_write [OF wf, of "es_start_index st" st' ev] wf less by (auto simp: st'_def ring_wf_def)
  then show ?thesis using upd False by (simp add: st'_def)
qed

section \<open>The scan is a filter\<close>

text \<open>
  The invariant of a store: the retained events are ordered by version, none is newer than the
  store, and no version up to the expired one is missing from the range they cover.
\<close>

definition newer :: "u64 \<Rightarrow> 'v watcher_event list \<Rightarrow> 'v watcher_event list" where
  "newer v = filter (\<lambda>e. v < ev_sync_version e)"

definition store_wf :: "'v event_store \<Rightarrow> bool" where
  "store_wf st \<longleftrightarrow>
     ring_wf st \<and> sorted (map ev_sync_version (retained st)) \<and>
     (\<forall>e\<in>set (retained st). es_expire_sync_version st \<le> ev_sync_version e \<and> ev_sync_version e \<le> es_sync_version st) \<and>
     es_expire_sync_version st \<le> es_sync_version st \<and> distinct (map fst (es_data st))"

lemma scan_back_spec:
  assumes wf: "ring_wf st" and sorted: "sorted (map ev_sync_version (retained st))"
    and "es_start_index st \<le> n" "n \<le> es_end_index st"
    and tail: "\<forall>i. n \<le> i \<and> i < es_end_index st \<longrightarrow> v < ev_sync_version (retained st ! (i - es_start_index st))"
  shows "\<exists>m. scan_back st v n = Some m \<and> es_start_index st \<le> m \<and> m \<le> es_end_index st \<and>
           (\<forall>i < m - es_start_index st. ev_sync_version (retained st ! i) \<le> v) \<and>
           (\<forall>i. m \<le> i \<and> i < es_end_index st \<longrightarrow> v < ev_sync_version (retained st ! (i - es_start_index st)))"
  using assms(3-5)
proof (induction n)
  case 0
  then show ?case by simp
next
  case (Suc n)
  let ?s = "es_start_index st" and ?e = "es_end_index st"
  show ?case
  proof (cases "?s < Suc n")
    case False
    then show ?thesis using Suc.prems by (intro exI [of _ "Suc n"]) auto
  next
    case True
    let ?ev = "retained st ! (n - ?s)"
    have slot: "slot st n = Some (Some ?ev)"
      using slot_retained [OF wf, of n] True Suc.prems by simp
    show ?thesis
    proof (cases "v < ev_sync_version ?ev")
      case newer: True
      have "\<forall>i. n \<le> i \<and> i < ?e \<longrightarrow> v < ev_sync_version (retained st ! (i - ?s))"
        using Suc.prems(3) newer by (metis Suc_leI le_neq_implies_less)
      then show ?thesis using Suc.IH True Suc.prems newer slot by simp
    next
      case False
      have "ev_sync_version (retained st ! i) \<le> ev_sync_version ?ev" if "i < Suc n - ?s" for i
        using sorted_nth_mono [OF sorted, of i "n - ?s"] that True Suc.prems(2) by simp
      then show ?thesis
        using slot True False Suc.prems by (intro exI [of _ "Suc n"]) (fastforce simp: not_less)
    qed
  qed
qed

lemma collect_events_spec:
  assumes wf: "ring_wf st" and "set is \<subseteq> {es_start_index st..<es_end_index st}"
  shows "collect_events st v is = Some (newer v (map (\<lambda>i. retained st ! (i - es_start_index st)) is))"
  using assms(2) by (induction "is") (auto simp: newer_def slot_retained [OF wf])

lemma map_retained_upt:
  "es_start_index st \<le> m \<Longrightarrow> m \<le> es_end_index st \<Longrightarrow>
     map (\<lambda>i. retained st ! (i - es_start_index st)) [m..<es_end_index st] = drop (m - es_start_index st) (retained st)"
  by (rule nth_equalityI) (auto simp: add.commute)

lemma newer_drop:
  assumes "\<forall>i < n. ev_sync_version (es ! i) \<le> v" "n \<le> length es"
  shows "newer v (drop n es) = newer v es"
proof -
  have "newer v (take n es) = []"
    using assms by (auto simp: newer_def filter_empty_conv in_set_conv_nth not_less)
  then show ?thesis
    by (metis append_Nil append_take_drop_id filter_append newer_def)
qed

lemma collect_newer:
  assumes "ring_wf st" "sorted (map ev_sync_version (retained st))"
  shows "\<exists>m. scan_back st v (es_end_index st) = Some m \<and>
           collect_events st v [m..<es_end_index st] = Some (newer v (retained st))"
proof -
  have le: "es_start_index st \<le> es_end_index st" using assms(1) by (simp add: ring_wf_def)
  have "\<forall>i. es_end_index st \<le> i \<and> i < es_end_index st \<longrightarrow>
          v < ev_sync_version (retained st ! (i - es_start_index st))" by (meson leD)
  from scan_back_spec [OF assms le order_refl this]
  obtain m where m: "scan_back st v (es_end_index st) = Some m" "es_start_index st \<le> m" "m \<le> es_end_index st"
    "\<forall>i < m - es_start_index st. ev_sync_version (retained st ! i) \<le> v" by blast
  then have "collect_events st v [m..<es_end_index st] = Some (newer v (retained st))"
    using collect_events_spec [OF assms(1), of "[m..<es_end_index st]" v]
    by (simp add: map_retained_upt newer_drop)
  then show ?thesis using m(1) by blast
qed

text \<open>The answer the store promises, as a function of the retained events.\<close>

definition events_answer :: "u64 \<Rightarrow> 'v event_store \<Rightarrow> 'v events_result" where
  "events_answer v st =
     (if es_sync_version st < v then Inl WATCH_ERR_VERSION_UNEXPECTED
      else if v = es_sync_version st then Inr (es_sync_version st, None)
      else if v \<noteq> 0 \<and> v < es_expire_sync_version st then Inl WATCH_ERR_TOO_OLD_VERSION
      else if retained st = [] then Inr (es_sync_version st, None)
      else Inr (es_sync_version st, Some (newer v (retained st))))"

lemma retained_Nil_iff: "ring_wf st \<Longrightarrow> retained st = [] \<longleftrightarrow> es_end_index st = es_start_index st"
  by (auto simp: retained_def ring_wf_def)

lemma get_events_answer:
  assumes "store_wf st"
  shows "get_events_from_sync_version v st = Some (events_answer v st)"
proof -
  have wf: "ring_wf st" "sorted (map ev_sync_version (retained st))"
    using assms by (auto simp: store_wf_def)
  moreover have "es_capacity st \<noteq> 0" using wf by (simp add: ring_wf_def)
  ultimately show ?thesis
    using collect_newer [OF wf, of v]
    by (auto simp: get_events_from_sync_version_def events_answer_def retained_Nil_iff)
qed

section \<open>The store refines a log\<close>

text \<open>
  The abstract store keeps every accepted event since the last clearing. The concrete one retains
  its newest events, as many as the capacity.
\<close>

record 'v log_state =
  lg_version :: u64
  lg_events :: "'v watcher_event list"
  lg_data :: "string \<rightharpoonup> 'v"

datatype 'v store_op = OpInit u64 'v | OpEvent event_type 'v u64 | OpClear

definition replay ::
  "('v \<Rightarrow> string option) \<Rightarrow> ('v \<Rightarrow> string) \<Rightarrow> 'v watcher_event \<Rightarrow> (string \<rightharpoonup> 'v) \<Rightarrow> (string \<rightharpoonup> 'v)" where
  "replay ns nm e m =
     m(resource_key ns nm (ev_data e) := (if ev_type e = Delete then None else Some (ev_data e)))"

fun log_step ::
  "('v \<Rightarrow> string option) \<Rightarrow> ('v \<Rightarrow> string) \<Rightarrow> 'v store_op \<Rightarrow> 'v log_state \<Rightarrow> 'v log_state" where
  "log_step ns nm (OpInit v r) l =
     l\<lparr>lg_version := max v (lg_version l), lg_data := (lg_data l)(resource_key ns nm r \<mapsto> r)\<rparr>"
| "log_step ns nm (OpEvent t r v) l =
     (if v < lg_version l then l
      else let e = \<lparr>ev_type = t, ev_sync_version = v, ev_data = r\<rparr>
           in l\<lparr>lg_version := v, lg_events := lg_events l @ [e], lg_data := replay ns nm e (lg_data l)\<rparr>)"
| "log_step ns nm OpClear l = \<lparr>lg_version = 0, lg_events = [], lg_data = Map.empty\<rparr>"

definition log_run ::
  "('v \<Rightarrow> string option) \<Rightarrow> ('v \<Rightarrow> string) \<Rightarrow> 'v store_op list \<Rightarrow> 'v log_state" where
  "log_run ns nm xs = fold (log_step ns nm) xs \<lparr>lg_version = 0, lg_events = [], lg_data = Map.empty\<rparr>"

fun store_step ::
  "('v \<Rightarrow> string option) \<Rightarrow> ('v \<Rightarrow> string) \<Rightarrow> 'v store_op \<Rightarrow> 'v event_store \<Rightarrow> 'v event_store option" where
  "store_step ns nm (OpInit v r) st = Some (init_add ns nm v r st)"
| "store_step ns nm (OpEvent t r v) st = apply_event ns nm t r v st"
| "store_step ns nm OpClear st = Some (es_clear st)"

definition store_run ::
  "('v \<Rightarrow> string option) \<Rightarrow> ('v \<Rightarrow> string) \<Rightarrow> nat \<Rightarrow> 'v store_op list \<Rightarrow> 'v event_store option" where
  "store_run ns nm c xs = fold (\<lambda>x st. Option.bind st (store_step ns nm x)) xs (es_new c)"

definition expired :: "nat \<Rightarrow> 'v log_state \<Rightarrow> 'v watcher_event list" where
  "expired cap l = take (length (lg_events l) - cap) (lg_events l)"

definition refines_log :: "nat \<Rightarrow> 'v log_state \<Rightarrow> 'v event_store \<Rightarrow> bool" where
  "refines_log cap l st \<longleftrightarrow>
     store_wf st \<and> es_capacity st = cap \<and> es_sync_version st = lg_version l \<and> map_of (es_data st) = lg_data l \<and>
     sorted (map ev_sync_version (lg_events l)) \<and>
     retained st = drop (length (lg_events l) - cap) (lg_events l) \<and>
     es_expire_sync_version st = (if expired cap l = [] then 0 else ev_sync_version (last (expired cap l)))"

lemma es_new_total:
  "\<exists>st. es_new c = Some st \<and> refines_log (es_capacity st) \<lparr>lg_version = 0, lg_events = [], lg_data = Map.empty\<rparr> st"
  by (auto simp: es_new_def Let_def refines_log_def store_wf_def ring_wf_def retained_def expired_def)

lemma refines_length:
  "refines_log cap l st \<Longrightarrow> length (retained st) = min (length (lg_events l)) cap"
  unfolding refines_log_def by (metis diff_diff_cancel length_drop min.absorb1 min.absorb2 diff_is_0_eq diff_zero nat_le_linear)

lemma init_add_simps [simp]:
  "retained (init_add ns nm v r st) = retained st"
  "ring_wf (init_add ns nm v r st) = ring_wf st"
  "es_capacity (init_add ns nm v r st) = es_capacity st"
  "es_expire_sync_version (init_add ns nm v r st) = es_expire_sync_version st"
  "es_sync_version (init_add ns nm v r st) = max v (es_sync_version st)"
  "es_data (init_add ns nm v r st) = AList.update (resource_key ns nm r) r (es_data st)"
  by (auto simp: init_add_def retained_def ring_wf_def Let_def max.absorb1 max.absorb2 not_less)

lemma store_wf_init: "store_wf st \<Longrightarrow> store_wf (init_add ns nm v r st)"
  by (auto simp: store_wf_def distinct_update le_max_iff_disj)

lemma refines_init:
  assumes "refines_log cap l st"
  shows "refines_log cap (log_step ns nm (OpInit v r) l) (init_add ns nm v r st)"
  using assms store_wf_init [of st ns nm v r]
  by (simp add: refines_log_def expired_def update_conv')

lemma refines_clear:
  assumes "refines_log cap l st"
  shows "refines_log cap (log_step ns nm OpClear l) (es_clear st)"
  using assms by (auto simp: refines_log_def store_wf_def ring_wf_def expired_def es_clear_def retained_def)

lemma apply_event_stale: "v < es_sync_version st \<Longrightarrow> apply_event ns nm t r v st = Some st"
  by (simp add: apply_event_def)

lemma accepted_wf:
  assumes wf: "store_wf st" and v: "es_sync_version st \<le> v" and e: "ev_sync_version e = v"
    and st': "ring_wf st'" "es_capacity st' = es_capacity st" "es_data st' = data" "es_sync_version st' = v"
      "if length (retained st) = es_capacity st
       then retained st' = tl (retained st) @ [e] \<and> es_expire_sync_version st' = ev_sync_version (hd (retained st))
       else retained st' = retained st @ [e] \<and> es_expire_sync_version st' = es_expire_sync_version st"
    and "distinct (map fst data)"
  shows "store_wf st'"
proof -
  have old: "ring_wf st" "sorted (map ev_sync_version (retained st))"
    "\<forall>x\<in>set (retained st). es_expire_sync_version st \<le> ev_sync_version x \<and> ev_sync_version x \<le> v"
    "es_expire_sync_version st \<le> v"
    using wf v by (auto simp: store_wf_def intro: order_trans)
  show ?thesis
  proof (cases "length (retained st) = es_capacity st")
    case False
    then show ?thesis using old st' e assms(9) by (auto simp: store_wf_def sorted_append)
  next
    case True
    then obtain x xs where xs: "retained st = x # xs"
      using old(1) by (cases "retained st") (auto simp: ring_wf_def)
    then show ?thesis using old st' True e assms(9) by (auto simp: store_wf_def sorted_append)
  qed
qed

text \<open>An accepted event goes to the end of the queue, and the data follows it.\<close>

lemma apply_event_accepted:
  assumes wf: "store_wf st" and v: "es_sync_version st \<le> v"
    and e_def: "e = \<lparr>ev_type = t, ev_sync_version = v, ev_data = r\<rparr>"
  shows "\<exists>st'. apply_event ns nm t r v st = Some st' \<and> store_wf st' \<and> es_capacity st' = es_capacity st \<and>
           es_sync_version st' = v \<and> map_of (es_data st') = replay ns nm e (map_of (es_data st)) \<and>
           (if length (retained st) = es_capacity st
            then retained st' = tl (retained st) @ [e] \<and>
                 es_expire_sync_version st' = ev_sync_version (hd (retained st))
            else retained st' = retained st @ [e] \<and>
                 es_expire_sync_version st' = es_expire_sync_version st)"
proof -
  define data where "data = (if t = Delete then AList.delete (resource_key ns nm r) (es_data st)
    else AList.update (resource_key ns nm r) r (es_data st))"
  define st1 where "st1 = st\<lparr>es_data := data, es_sync_version := v\<rparr>"
  have st1: "ring_wf st1" "retained st1 = retained st" "es_capacity st1 = es_capacity st"
    "es_expire_sync_version st1 = es_expire_sync_version st"
    using wf by (simp_all add: st1_def store_wf_def ring_wf_def retained_def)
  have app: "apply_event ns nm t r v st = mut_update e st1"
    using v by (auto simp: apply_event_def st1_def data_def e_def Let_def not_less)
  from mut_update_refines [OF st1(1), of e] obtain st' where
    st': "mut_update e st1 = Some st'" "ring_wf st'" "es_capacity st' = es_capacity st" "es_data st' = data"
      "es_sync_version st' = v"
      "if length (retained st) = es_capacity st
       then retained st' = tl (retained st) @ [e] \<and> es_expire_sync_version st' = ev_sync_version (hd (retained st))
       else retained st' = retained st @ [e] \<and> es_expire_sync_version st' = es_expire_sync_version st"
    unfolding st1 by (auto simp: st1_def)
  have data: "map_of data = replay ns nm e (map_of (es_data st))" "distinct (map fst data)"
    using wf by (auto simp: data_def replay_def e_def update_conv' delete_conv' distinct_update distinct_delete store_wf_def)
  have "store_wf st'"
    using accepted_wf [OF wf v _ st'(2-6)] data by (simp add: e_def)
  then show ?thesis using st' app data by auto
qed

lemma sorted_last:
  "sorted (map ev_sync_version es) \<Longrightarrow> \<forall>x\<in>set es. ev_sync_version x \<le> ev_sync_version (last es)"
  by (induction es rule: rev_induct) (auto simp: sorted_append)

lemma log_versions_le:
  assumes ref: "refines_log cap l st"
  shows "\<forall>x\<in>set (lg_events l). ev_sync_version x \<le> es_sync_version st"
proof (cases "retained st = []")
  case True
  then have "lg_events l = []"
    using refines_length [OF ref] ref by (auto simp: refines_log_def store_wf_def ring_wf_def min_def split: if_splits)
  then show ?thesis by simp
next
  case False
  have "store_wf st" using ref by (simp only: refines_log_def)
  then have le: "ev_sync_version (last (retained st)) \<le> es_sync_version st"
    using False by (simp add: store_wf_def)
  have "last (retained st) = last (lg_events l)" "lg_events l \<noteq> []"
    using ref False by (auto simp: refines_log_def)
  moreover have "\<forall>x\<in>set (lg_events l). ev_sync_version x \<le> ev_sync_version (last (lg_events l))"
    using ref sorted_last [of "lg_events l"] by (simp add: refines_log_def)
  ultimately show ?thesis using le by (metis order_trans)
qed

lemma refines_event:
  assumes ref: "refines_log cap l st"
  shows "\<exists>st'. apply_event ns nm t r v st = Some st' \<and> refines_log cap (log_step ns nm (OpEvent t r v) l) st'"
proof (cases "v < es_sync_version st")
  case True
  then show ?thesis using ref by (simp add: apply_event_stale refines_log_def)
next
  case False
  define e where e: "e = \<lparr>ev_type = t, ev_sync_version = v, ev_data = r\<rparr>"
  let ?es = "lg_events l"
  have wf: "store_wf st" and le: "es_sync_version st \<le> v" and cap: "es_capacity st = cap"
    and ret: "retained st = drop (length ?es - cap) ?es" and srt: "sorted (map ev_sync_version ?es)"
    and pos: "0 < cap"
    using ref False by (auto simp: refines_log_def store_wf_def ring_wf_def)
  from apply_event_accepted [OF wf le e] obtain st' where
    st': "apply_event ns nm t r v st = Some st'" "store_wf st'" "es_capacity st' = cap" "es_sync_version st' = v"
      "map_of (es_data st') = replay ns nm e (map_of (es_data st))"
    and upd: "if length (retained st) = cap
       then retained st' = tl (retained st) @ [e] \<and> es_expire_sync_version st' = ev_sync_version (hd (retained st))
       else retained st' = retained st @ [e] \<and> es_expire_sync_version st' = es_expire_sync_version st"
    unfolding cap by blast
  have log: "log_step ns nm (OpEvent t r v) l =
      l\<lparr>lg_version := v, lg_events := ?es @ [e], lg_data := replay ns nm e (lg_data l)\<rparr>"
    using ref False by (simp add: refines_log_def e Let_def)
  have "\<forall>x\<in>set ?es. ev_sync_version x \<le> v"
    using log_versions_le [OF ref] le by (blast intro: order_trans)
  then have srt': "sorted (map ev_sync_version (?es @ [e]))" using srt by (auto simp: sorted_append e)
  have len: "length (retained st) = min (length ?es) cap" by (rule refines_length [OF ref])
  have exp: "es_expire_sync_version st = (if expired cap l = [] then 0 else ev_sync_version (last (expired cap l)))"
    and data: "map_of (es_data st) = lg_data l" using ref by (auto simp: refines_log_def)
  have "refines_log cap (l\<lparr>lg_version := v, lg_events := ?es @ [e], lg_data := replay ns nm e (lg_data l)\<rparr>) st'"
  proof (cases "cap \<le> length ?es")
    case True
    then have n: "length (?es @ [e]) - cap = Suc (length ?es - cap)" "length ?es - cap < length ?es"
      using pos by auto
    have hd: "hd (retained st) = ?es ! (length ?es - cap)" and tl: "tl (retained st) = drop (Suc (length ?es - cap)) ?es"
      using n(2) by (simp_all add: ret hd_drop_conv_nth tl_drop drop_Suc)
    have "last (take (Suc (length ?es - cap)) (?es @ [e])) = ?es ! (length ?es - cap)"
      using n(2) by (simp add: take_Suc_conv_app_nth)
    then show ?thesis
      using st' upd True len srt' data hd tl n pos
      by (auto simp: refines_log_def expired_def min.absorb2 Suc_diff_le)
  next
    case False
    then have "length (retained st) \<noteq> cap" "length (?es @ [e]) - cap = 0" "expired cap l = []"
      using len by (auto simp: expired_def)
    then show ?thesis
      using st' upd srt' data ret exp False by (simp add: refines_log_def expired_def)
  qed
  then show ?thesis using st'(1) log by auto
qed

lemma store_run_refines:
  fixes ns :: "'v \<Rightarrow> string option"
  shows "\<exists>st. store_run ns nm c xs = Some st \<and> refines_log (es_capacity st) (log_run ns nm xs) st"
proof -
  have run: "\<exists>st'. fold (\<lambda>x st. Option.bind st (store_step ns nm x)) xs (Some st) = Some st' \<and>
          refines_log cap (fold (log_step ns nm) xs l) st'" if "refines_log cap l st" for cap l st
    using that
  proof (induction xs arbitrary: l st)
    case (Cons x xs)
    have "\<exists>st'. store_step ns nm x st = Some st' \<and> refines_log cap (log_step ns nm x l) st'"
      using refines_init [OF Cons.prems] refines_clear [OF Cons.prems] refines_event [OF Cons.prems]
      by (cases x) (simp_all del: log_step.simps)
    then show ?case using Cons.IH by auto
  qed auto
  obtain st :: "'v event_store" where "es_new c = Some st"
    "refines_log (es_capacity st) \<lparr>lg_version = 0, lg_events = [], lg_data = Map.empty\<rparr> st"
    using es_new_total by blast
  with run [OF this(2)] obtain st' where "store_run ns nm c xs = Some st'" "refines_log (es_capacity st) (log_run ns nm xs) st'"
    unfolding store_run_def log_run_def by auto
  moreover from this(2) have "es_capacity st' = es_capacity st" by (simp only: refines_log_def)
  ultimately show ?thesis by auto
qed

lemma apply_event_capacity: "apply_event ns nm t r v st = Some st' \<Longrightarrow> es_capacity st' = es_capacity st"
  by (auto simp: apply_event_def mut_update_def Let_def split: if_splits option.splits)

lemma store_run_capacity:
  assumes "store_run ns nm c xs = Some st"
  shows "es_capacity st = (if c = 0 then 200 else max c 10)"
proof -
  have keep: "fold (\<lambda>x st. Option.bind st (store_step ns nm x)) xs s = Some st \<Longrightarrow>
      \<exists>s0. s = Some s0 \<and> es_capacity st = es_capacity s0" for s
  proof (induction xs arbitrary: s)
    case (Cons x xs)
    from Cons.IH [of "Option.bind s (store_step ns nm x)"] Cons.prems
    obtain s1 where s1: "Option.bind s (store_step ns nm x) = Some s1" "es_capacity st = es_capacity s1" by auto
    then obtain s0 where "s = Some s0" "store_step ns nm x s0 = Some s1" by (auto simp: bind_eq_Some_conv)
    with s1(2) show ?case by (cases x) (auto simp: apply_event_capacity es_clear_def)
  qed auto
  from keep [of "es_new c"] assms show ?thesis
    by (auto simp: store_run_def es_new_def Let_def split: if_splits)
qed

lemma newer_expired_iff:
  assumes "refines_log cap l st"
  shows "v < es_expire_sync_version st \<longleftrightarrow> newer v (expired cap l) \<noteq> []"
proof (cases "expired cap l = []")
  case True
  then show ?thesis using assms by (simp add: refines_log_def newer_def)
next
  case False
  have "sorted (map ev_sync_version (expired cap l))"
    using assms by (simp add: refines_log_def expired_def take_map flip: take_map)
  note le = sorted_last [OF this]
  have "es_expire_sync_version st = ev_sync_version (last (expired cap l))"
    using assms False by (simp add: refines_log_def)
  moreover have "v < ev_sync_version (last (expired cap l)) \<longleftrightarrow> (\<exists>e\<in>set (expired cap l). v < ev_sync_version e)"
    using le last_in_set [OF False] less_le_trans by blast
  ultimately show ?thesis by (simp add: newer_def filter_empty_conv)
qed

section \<open>Watching\<close>

text \<open>
  The contract of a store that is listed and watched. A replica is a version with the content it
  stands for. A store covers it when the store either brings it up to date or reports an error;
  publishing keeps it covered, and a round of the watcher updates it.
\<close>

locale watch_source =
  fixes inv :: "'s \<Rightarrow> bool" and version :: "'s \<Rightarrow> u64" and content :: "'s \<Rightarrow> string \<rightharpoonup> 'v"
    and covers :: "u64 \<Rightarrow> (string \<rightharpoonup> 'v) \<Rightarrow> 's \<Rightarrow> bool"
    and apply_ev :: "'v watcher_event \<Rightarrow> (string \<rightharpoonup> 'v) \<Rightarrow> (string \<rightharpoonup> 'v)"
    and publish :: "event_type \<Rightarrow> 'v \<Rightarrow> u64 \<Rightarrow> 's \<Rightarrow> 's option"
    and round :: "u64 \<Rightarrow> 's \<Rightarrow> 'v watcher_output option"
  assumes publish_newer:
    "inv st \<Longrightarrow> version st < v \<Longrightarrow>
       \<exists>st'. publish t r v st = Some st' \<and> inv st' \<and> version st' = v \<and>
             content st' = apply_ev \<lparr>ev_type = t, ev_sync_version = v, ev_data = r\<rparr> (content st) \<and>
             (\<forall>w m. covers w m st \<longrightarrow> covers w m st')"
    and covers_snapshot: "inv st \<Longrightarrow> covers (version st) (content st) st"
    and round_covered:
    "inv st \<Longrightarrow> covers w m st \<Longrightarrow> w \<noteq> 0 \<Longrightarrow>
       \<exists>out. round w st = Some out \<and>
         (case out of
            SendEvents evs current \<Rightarrow> current = version st \<and> fold apply_ev evs m = content st
          | SendError err v \<Rightarrow> err \<noteq> []
          | Wait \<Rightarrow> w = version st \<and> m = content st)"
begin

text \<open>A snapshot stays covered whatever is published afterwards.\<close>

lemma publish_all_covered:
  assumes "inv st" "sorted_wrt (<) (version st # map snd pubs)"
  shows "\<exists>st'. fold (\<lambda>((t, r), v) st. Option.bind st (publish t r v)) pubs (Some st) = Some st' \<and> inv st' \<and>
           (\<forall>w m. covers w m st \<longrightarrow> covers w m st')"
  using assms
proof (induction pubs arbitrary: st)
  case (Cons x pubs)
  obtain t r v where x: "x = ((t, r), v)" by (metis prod.exhaust)
  from Cons.prems x obtain st' where "publish t r v st = Some st'" "inv st'" "version st' = v"
    "\<forall>w m. covers w m st \<longrightarrow> covers w m st'"
    using publish_newer [of st v t r] by auto
  then show ?case using Cons.IH [of st'] Cons.prems x by auto
qed auto

text \<open>So a client that lists, and asks for events after any publications, has the content or an error.\<close>

lemma list_then_watch:
  assumes "inv st" "version st \<noteq> 0" "sorted_wrt (<) (version st # map snd pubs)"
    and "fold (\<lambda>((t, r), v) st. Option.bind st (publish t r v)) pubs (Some st) = Some st'"
    and "round (version st) st' = Some (SendEvents evs current)"
  shows "fold apply_ev evs (content st) = content st' \<and> current = version st'"
  using publish_all_covered [OF assms(1,3)] covers_snapshot [OF assms(1)] assms(2,4,5)
    round_covered [of st' "version st" "content st"] by auto

end

definition covers ::
  "('v \<Rightarrow> string option) \<Rightarrow> ('v \<Rightarrow> string) \<Rightarrow> u64 \<Rightarrow> (string \<rightharpoonup> 'v) \<Rightarrow> 'v event_store \<Rightarrow> bool" where
  "covers ns nm w m st \<longleftrightarrow>
     w \<le> es_sync_version st \<and>
     (es_expire_sync_version st \<le> w \<longrightarrow> fold (replay ns nm) (newer w (retained st)) m = map_of (es_data st))"

lemma newer_snoc [simp]:
  "newer w (es @ [e]) = newer w es @ (if w < ev_sync_version e then [e] else [])"
  by (simp add: newer_def)

lemma covers_publish:
  assumes wf: "store_wf st" and v: "es_sync_version st < v" and cov: "covers ns nm w m st"
    and st': "apply_event ns nm t r v st = Some st'"
  shows "covers ns nm w m st'"
proof -
  define e where e: "e = \<lparr>ev_type = t, ev_sync_version = v, ev_data = r\<rparr>"
  have w: "w < v" using cov v by (auto simp: covers_def)
  from apply_event_accepted [OF wf less_imp_le [OF v] e, of ns nm] st'
  have new: "es_sync_version st' = v" "map_of (es_data st') = replay ns nm e (map_of (es_data st))"
    "if length (retained st) = es_capacity st
     then retained st' = tl (retained st) @ [e] \<and> es_expire_sync_version st' = ev_sync_version (hd (retained st))
     else retained st' = retained st @ [e] \<and> es_expire_sync_version st' = es_expire_sync_version st"
    by auto
  show ?thesis
  proof (cases "length (retained st) = es_capacity st")
    case False
    then show ?thesis using new cov w by (auto simp: covers_def e)
  next
    case True
    then obtain x xs where xs: "retained st = x # xs"
      using wf by (cases "retained st") (auto simp: store_wf_def ring_wf_def)
    have "es_expire_sync_version st \<le> ev_sync_version x" using wf xs by (simp add: store_wf_def)
    then show ?thesis using new True cov w xs
      by (cases "w < ev_sync_version x") (auto simp: covers_def e newer_def not_less)
  qed
qed

lemma watcher_round_covered:
  assumes wf: "store_wf st" and cov: "covers ns nm w m st" and "w \<noteq> 0"
  shows "\<exists>out. watcher_round w st = Some out \<and>
           (case out of
              SendEvents evs current \<Rightarrow>
                current = es_sync_version st \<and> fold (replay ns nm) evs m = map_of (es_data st)
            | SendError err v \<Rightarrow> err \<noteq> []
            | Wait \<Rightarrow> w = es_sync_version st \<and> m = map_of (es_data st))"
proof (cases "w = es_sync_version st")
  case True
  have "newer w (retained st) = []" "es_expire_sync_version st \<le> w"
    using wf True by (auto simp: store_wf_def newer_def filter_empty_conv not_less)
  then show ?thesis using True cov
    by (simp add: watcher_round_def get_events_answer [OF wf] events_answer_def covers_def)
next
  case False
  then have w: "w < es_sync_version st" using cov by (auto simp: covers_def)
  consider "w < es_expire_sync_version st" | "es_expire_sync_version st \<le> w" "newer w (retained st) = []"
    | ev evs where "es_expire_sync_version st \<le> w" "newer w (retained st) = ev # evs"
    using that by (metis list.exhaust not_less)
  then show ?thesis
  proof cases
    case 1
    then show ?thesis using w assms(3)
      by (auto simp: watcher_round_def get_events_answer [OF wf] events_answer_def WATCH_ERR_TOO_OLD_VERSION_def)
  next
    case 2
    then show ?thesis using w
      by (auto simp: watcher_round_def get_events_answer [OF wf] events_answer_def WATCH_ERR_EVENTS_LOST_def)
  next
    case 3
    then have "retained st \<noteq> []" by (auto simp: newer_def)
    then show ?thesis using w 3 cov
      by (auto simp: watcher_round_def get_events_answer [OF wf] events_answer_def covers_def)
  qed
qed

interpretation es: watch_source store_wf es_sync_version "\<lambda>st. map_of (es_data st)" "covers ns nm" "replay ns nm"
  "apply_event ns nm" watcher_round for ns nm
proof
  fix st :: "'a event_store" and v :: u64 and t and r :: 'a
  assume wf: "store_wf st" and v: "es_sync_version st < v"
  from apply_event_accepted [OF wf less_imp_le [OF v] refl, where t = t and r = r and ns = ns and nm = nm]
    covers_publish [OF wf v, of ns nm _ _ t r]
  show "\<exists>st'. apply_event ns nm t r v st = Some st' \<and> store_wf st' \<and> es_sync_version st' = v \<and>
          map_of (es_data st') = replay ns nm \<lparr>ev_type = t, ev_sync_version = v, ev_data = r\<rparr> (map_of (es_data st)) \<and>
          (\<forall>w m. covers ns nm w m st \<longrightarrow> covers ns nm w m st')" by blast
next
  fix st :: "'a event_store"
  assume "store_wf st"
  then have "newer (es_sync_version st) (retained st) = []"
    by (auto simp: store_wf_def newer_def filter_empty_conv not_less)
  then show "covers ns nm (es_sync_version st) (map_of (es_data st)) st" by (simp add: covers_def)
next
  fix st :: "'a event_store" and w m
  assume "store_wf st" "covers ns nm w m st" "w \<noteq> 0"
  from watcher_round_covered [OF this]
  show "\<exists>out. watcher_round w st = Some out \<and>
         (case out of
            SendEvents evs current \<Rightarrow>
              current = es_sync_version st \<and> fold (replay ns nm) evs m = map_of (es_data st)
          | SendError err v \<Rightarrow> err \<noteq> []
          | Wait \<Rightarrow> w = es_sync_version st \<and> m = map_of (es_data st))" .
qed

section \<open>Properties\<close>




end
