(* ===== verification/Conf_Sync.thy ===== *)
theory Conf_Sync
  imports Event_Store
begin

text \<open>
  Configuration synchronisation of one resource kind between the controller and a gateway: the
  cache of the controller with its watcher task, the stream that connects them
  (\<open>src/src/core/controller/conf_sync/conf_server/grpc_server.rs\<close>, \<open>config_sync_server.rs\<close>), and
  the client. The parties take turns in any order: publications, list calls with their replies in
  flight, watch calls, rounds of the watcher, deliveries, failures of the network and ticks.

  One server instance is considered, with one server identity; an event travels as JSON, and what
  decoding an encoded resource gives is the parameter \<open>se_transmit\<close>. The bounded channels between
  the tasks are one unbounded stream: a full channel only delays the watcher.

  The result is convergence: from every state that can be reached, one round of deliveries, and a
  new list where the stream reported an error, make the cached resources of the client those of the
  controller.
\<close>

section \<open>The system\<close>

record ('v, 'h) sync_env =
  se_ops :: "('v, 'h) conf_ops"
  se_ns :: "'v \<Rightarrow> string option"
  se_nm :: "'v \<Rightarrow> string"
  se_key_name :: "'v \<Rightarrow> string"
  se_prepare :: "u64 \<Rightarrow> 'v \<Rightarrow> 'v"
  se_transmit :: "'v \<Rightarrow> 'v"
  se_server_id :: string

text \<open>The serialised names of event types and the JSON object of an event, as the client reads it.\<close>

fun event_type_json :: "event_type \<Rightarrow> string" where
  "event_type_json Update = ''update''"
| "event_type_json Delete = ''delete''"
| "event_type_json Add = ''add''"

definition event_json :: "('v, 'h) sync_env \<Rightarrow> 'v watcher_event \<Rightarrow> 'v watch_event" where
  "event_json env e =
     \<lparr>we_type = event_type_json (ev_type e), we_sync_version = Some (ev_sync_version e),
      we_resource = Some (se_transmit env (ev_data e))\<rparr>"

record ('v, 'h) sync_system =
  sy_server :: "'v server_cache"
  sy_last_version :: u64
  sy_reply :: "('v list \<times> u64) option"
  sy_watcher :: "u64 option"
  sy_stream :: "'v net_input list"
  sy_client :: "('v, 'h) watch_state"

datatype 'v sync_action =
    Publish resource_change u64 'v
  | DrawVersion u64
  | ListCall
  | ListReply
  | ListFails
  | WatchCall
  | WatchFails
  | WatcherRuns
  | Deliver
  | Disconnect
  | ClientTick
  | ClientTrigger string

definition client_step ::
  "('v, 'h) sync_env \<Rightarrow> 'v client_action \<Rightarrow> ('v, 'h) sync_system \<Rightarrow> ('v, 'h) sync_system" where
  "client_step env act s =
     s\<lparr>sy_client := client_act (se_ops env) (se_key_name env) (se_prepare env) act (sy_client s)\<rparr>"

definition watching :: "('v, 'h) sync_system \<Rightarrow> bool" where
  "watching s = (case ws_phase (sy_client s) of Watching _ _ \<Rightarrow> True | _ \<Rightarrow> False)"

text \<open>A client that leaves the watch drops its receiver, which ends the watcher task.\<close>

definition drop_stream :: "('v, 'h) sync_system \<Rightarrow> ('v, 'h) sync_system" where
  "drop_stream s = (if watching s then s else s\<lparr>sy_watcher := None, sy_stream := []\<rparr>)"

text \<open>\<open>grpc_server.rs\<close>: the list call, and the check of the server identity of the watch call.\<close>

definition grpc_list :: "('v, 'h) sync_system \<Rightarrow> ('v, 'h) sync_system" where
  "grpc_list s =
     (if ws_phase (sy_client s) = Listing \<and> sy_reply s = None
      then s\<lparr>sy_reply := Some (snapshot_owned (sc_store (sy_server s)))\<rparr> else s)"

definition grpc_watch :: "('v, 'h) sync_env \<Rightarrow> ('v, 'h) sync_system \<Rightarrow> ('v, 'h) sync_system" where
  "grpc_watch env s =
     (case ws_phase (sy_client s) of
        Connecting from_version expected_server_id \<Rightarrow>
          if expected_server_id \<noteq> [] \<and> expected_server_id \<noteq> se_server_id env
          then client_step env (Net WatchFailed) s
          else (client_step env (Net WatchStarted) s)\<lparr>sy_watcher := Some from_version, sy_stream := []\<rparr>
      | _ \<Rightarrow> s)"

definition watcher_runs :: "('v, 'h) sync_env \<Rightarrow> ('v, 'h) sync_system \<Rightarrow> ('v, 'h) sync_system option" where
  "watcher_runs env s =
     (case sy_watcher s of
        None \<Rightarrow> Some s
      | Some from_version \<Rightarrow>
          map_option
            (\<lambda>out. case out of
               SendEvents evs current \<Rightarrow>
                 s\<lparr>sy_watcher := Some current,
                   sy_stream := sy_stream s @
                     [Message [] (se_server_id env) current (Some (map (event_json env) evs))]\<rparr>
             | SendError err v \<Rightarrow>
                 s\<lparr>sy_watcher := None, sy_stream := sy_stream s @ [Message err (se_server_id env) v None]\<rparr>
             | Wait \<Rightarrow> s)
            (watcher_round from_version (sc_store (sy_server s))))"

fun sync_step ::
  "('v, 'h) sync_env \<Rightarrow> 'v sync_action \<Rightarrow> ('v, 'h) sync_system \<Rightarrow> ('v, 'h) sync_system option" where
  "sync_step env (Publish change timestamp r) s =
     (let v = next_resource_version timestamp (sy_last_version s)
      in map_option (\<lambda>sc. s\<lparr>sy_server := sc, sy_last_version := v\<rparr>)
           (server_apply_change (se_ns env) (se_nm env) change r v (sy_server s)))"
| "sync_step env (DrawVersion timestamp) s =
     Some (s\<lparr>sy_last_version := next_resource_version timestamp (sy_last_version s)\<rparr>)"
| "sync_step env ListCall s = Some (grpc_list s)"
| "sync_step env ListReply s =
     Some (case sy_reply s of
             None \<Rightarrow> s
           | Some (rs, sv) \<Rightarrow>
               (client_step env (Net (ListOk (map (se_transmit env) rs) sv (se_server_id env))) s)
                 \<lparr>sy_reply := None\<rparr>)"
| "sync_step env ListFails s =
     Some (if ws_phase (sy_client s) = Listing
           then (client_step env (Net ListErr) s)\<lparr>sy_reply := None\<rparr> else s)"
| "sync_step env WatchCall s = Some (grpc_watch env s)"
| "sync_step env WatchFails s =
     Some (case ws_phase (sy_client s) of
             Connecting _ _ \<Rightarrow> client_step env (Net WatchFailed) s | _ \<Rightarrow> s)"
| "sync_step env WatcherRuns s = watcher_runs env s"
| "sync_step env Deliver s =
     Some (case sy_stream s of
             [] \<Rightarrow> s
           | msg # msgs \<Rightarrow> drop_stream (client_step env (Net msg) (s\<lparr>sy_stream := msgs\<rparr>)))"
| "sync_step env Disconnect s =
     Some (if watching s then drop_stream (client_step env (Net StreamErr) s) else s)"
| "sync_step env ClientTick s = Some (client_step env Tick s)"
| "sync_step env (ClientTrigger key) s = Some (client_step env (Trigger key) s)"

fun sync_run ::
  "('v, 'h) sync_env \<Rightarrow> 'v sync_action list \<Rightarrow> ('v, 'h) sync_system \<Rightarrow> ('v, 'h) sync_system option" where
  "sync_run env [] s = Some s"
| "sync_run env (a # as) s = Option.bind (sync_step env a s) (sync_run env as)"

text \<open>The start: the controller has loaded its resources, the gateway starts its client.\<close>

definition sync_start :: "'v server_cache \<Rightarrow> u64 \<Rightarrow> 'h \<Rightarrow> ('v, 'h) sync_system" where
  "sync_start sc last_version h =
     \<lparr>sy_server = sc, sy_last_version = last_version, sy_reply = None, sy_watcher = None, sy_stream = [],
      sy_client = watch_start (set_conf_processor h cache_new)\<rparr>"

text \<open>The resources of the client are those of a map, each as it was decoded and prepared.\<close>

definition mirrors :: "('v, 'h) sync_env \<Rightarrow> ('v, 'h) cache_data \<Rightarrow> (string \<rightharpoonup> 'v) \<Rightarrow> bool" where
  "mirrors env c m \<longleftrightarrow>
     (\<forall>k. rel_option (\<lambda>x r. \<exists>sv. x = se_prepare env sv (se_transmit env r)) (map_of (cd_data c) k) (m k))"

definition keys_agree :: "('v, 'h) sync_env \<Rightarrow> bool" where
  "keys_agree env \<longleftrightarrow>
     (\<forall>sv r. se_key_name env (se_prepare env sv (se_transmit env r)) = resource_key (se_ns env) (se_nm env) r)"

section \<open>The client follows events\<close>

lemma mirrors_event:
  assumes "mirrors env c m" "keys_agree env"
  shows "mirrors env (apply_watch_event (se_key_name env) (se_prepare env) rsv (event_json env e) c)
           (replay (se_ns env) (se_nm env) e m)"
proof -
  have data: "cd_data (add_compress_event k ch c) = cd_data c" for k ch and c :: "('a, 'b) cache_data"
    by (simp add: add_compress_event_def split: option.splits)
  show ?thesis
    using assms
    by (cases "ev_type e")
      (auto simp: mirrors_def keys_agree_def event_json_def apply_watch_event_def watch_change_def Let_def data
        cache_insert_def cache_remove_def replay_def update_conv' delete_conv')
qed

lemma mirrors_events:
  assumes "keys_agree env" "mirrors env c m"
  shows "mirrors env (fold (apply_watch_event (se_key_name env) (se_prepare env) rsv) (map (event_json env) evs) c)
           (fold (replay (se_ns env) (se_nm env)) evs m)"
  using assms(2) by (induction evs arbitrary: c m) (simp_all add: mirrors_event [OF _ assms(1)])

definition keyed :: "('v, 'h) sync_env \<Rightarrow> 'v dict \<Rightarrow> bool" where
  "keyed env al \<longleftrightarrow> distinct (map fst al) \<and> (\<forall>(k, r) \<in> set al. resource_key (se_ns env) (se_nm env) r = k)"

lemma mirrors_list:
  assumes "keys_agree env" "keyed env al"
  shows "mirrors env (cache_reset (se_ops env) (se_key_name env)
             (map (se_prepare env sv) (map (se_transmit env) (map snd al))) sv c) (map_of al)"
proof -
  let ?f = "\<lambda>r. AList.update (se_key_name env r) r"
  have "map_of (fold ?f (map (\<lambda>r. se_prepare env sv (se_transmit env r)) (map snd al)) al0) k =
      (case map_of al k of Some r \<Rightarrow> Some (se_prepare env sv (se_transmit env r)) | None \<Rightarrow> map_of al0 k)" for al0 k
    using assms(2)
  proof (induction al arbitrary: al0)
    case (Cons x al)
    then show ?case using assms(1)
      by (cases x) (auto simp: keyed_def keys_agree_def update_conv' map_of_eq_None_iff image_iff split: option.splits)
  qed simp
  from this [of "[]"] show ?thesis
    by (auto simp: mirrors_def cache_reset_def Let_def o_def comp_def rel_option_iff split: option.splits)
qed

section \<open>The invariant of the system\<close>

text \<open>
  Every list reply in flight, every client about to watch and every watcher stands for a replica
  that the store covers. A stream carries the events between the client and the watcher, or ends
  with an error.
\<close>

abbreviation store_of :: "('v, 'h) sync_system \<Rightarrow> 'v event_store" where
  "store_of s \<equiv> sc_store (sy_server s)"

abbreviation cache_of :: "('v, 'h) sync_system \<Rightarrow> ('v, 'h) cache_data" where
  "cache_of s \<equiv> ws_cache (sy_client s)"

abbreviation covered :: "('v, 'h) sync_env \<Rightarrow> u64 \<Rightarrow> (string \<rightharpoonup> 'v) \<Rightarrow> 'v event_store \<Rightarrow> bool" where
  "covered env v m st \<equiv> v \<noteq> 0 \<and> covers (se_ns env) (se_nm env) v m st"

abbreviation replay_all :: "('v, 'h) sync_env \<Rightarrow> 'v watcher_event list \<Rightarrow> (string \<rightharpoonup> 'v) \<Rightarrow> (string \<rightharpoonup> 'v)" where
  "replay_all env \<equiv> fold (replay (se_ns env) (se_nm env))"

definition event_msg :: "('v, 'h) sync_env \<Rightarrow> 'v watcher_event list \<times> u64 \<Rightarrow> 'v net_input" where
  "event_msg env em = Message [] (se_server_id env) (snd em) (Some (map (event_json env) (fst em)))"

definition server_ok :: "('v, 'h) sync_env \<Rightarrow> ('v, 'h) sync_system \<Rightarrow> bool" where
  "server_ok env s \<longleftrightarrow>
     store_wf (store_of s) \<and> keyed env (es_data (store_of s)) \<and>
     es_sync_version (store_of s) \<le> sy_last_version s \<and> es_sync_version (store_of s) \<noteq> 0"

definition reply_ok :: "('v, 'h) sync_env \<Rightarrow> ('v, 'h) sync_system \<Rightarrow> bool" where
  "reply_ok env s \<longleftrightarrow>
     (case sy_reply s of
        None \<Rightarrow> True
      | Some (rs, sv) \<Rightarrow>
          ws_phase (sy_client s) = Listing \<and>
          (\<exists>al. rs = map snd al \<and> keyed env al \<and> covered env sv (map_of al) (store_of s)))"

definition live_stream :: "('v, 'h) sync_env \<Rightarrow> ('v, 'h) sync_system \<Rightarrow> bool" where
  "live_stream env s \<longleftrightarrow>
     (\<exists>v ms m. sy_watcher s = Some v \<and> sy_stream s = map (event_msg env) ms \<and> mirrors env (cache_of s) m \<and>
        covered env v (replay_all env (concat (map fst ms)) m) (store_of s))"

definition failed_stream :: "('v, 'h) sync_env \<Rightarrow> ('v, 'h) sync_system \<Rightarrow> bool" where
  "failed_stream env s \<longleftrightarrow>
     (\<exists>ms err v. sy_watcher s = None \<and> err \<noteq> [] \<and>
        sy_stream s = map (event_msg env) ms @ [Message err (se_server_id env) v None])"

definition phase_ok :: "('v, 'h) sync_env \<Rightarrow> ('v, 'h) sync_system \<Rightarrow> bool" where
  "phase_ok env s \<longleftrightarrow>
     (case ws_phase (sy_client s) of
        Listing \<Rightarrow> sy_watcher s = None \<and> sy_stream s = []
      | Connecting v sid \<Rightarrow>
          sy_watcher s = None \<and> sy_stream s = [] \<and> sid = se_server_id env \<and>
          (\<exists>m. mirrors env (cache_of s) m \<and> covered env v m (store_of s))
      | Watching v sid \<Rightarrow> sid = se_server_id env \<and> (live_stream env s \<or> failed_stream env s))"

definition sync_inv :: "('v, 'h) sync_env \<Rightarrow> ('v, 'h) sync_system \<Rightarrow> bool" where
  "sync_inv env s \<longleftrightarrow> server_ok env s \<and> reply_ok env s \<and> phase_ok env s"

lemma inv_store_change:
  assumes "sync_inv env s" "server_ok env s'"
    and "sy_reply s' = sy_reply s" "sy_watcher s' = sy_watcher s" "sy_stream s' = sy_stream s" "sy_client s' = sy_client s"
    and cov: "\<And>w m. covers (se_ns env) (se_nm env) w m (store_of s) \<Longrightarrow> covers (se_ns env) (se_nm env) w m (store_of s')"
  shows "sync_inv env s'"
proof -
  have "reply_ok env s'" using assms(1,3,6) cov by (fastforce simp: sync_inv_def reply_ok_def split: option.splits)
  moreover have "live_stream env s \<Longrightarrow> live_stream env s'"
    using assms(4-6) cov unfolding live_stream_def by metis
  moreover have "failed_stream env s \<Longrightarrow> failed_stream env s'"
    using assms(4-6) by (simp add: failed_stream_def)
  ultimately show ?thesis using assms(1,2,4-6) cov
    by (fastforce simp: sync_inv_def phase_ok_def split: watch_phase.splits)
qed

lemma keyed_iff:
  "keyed env al \<longleftrightarrow>
     distinct (map fst al) \<and> (\<forall>k r. map_of al k = Some r \<longrightarrow> resource_key (se_ns env) (se_nm env) r = k)"
  by (auto simp: keyed_def)

lemma keyed_change:
  assumes "keyed env al"
  shows "keyed env (AList.update (resource_key (se_ns env) (se_nm env) r) r al)" "keyed env (AList.delete k al)"
  using assms
  by (auto simp: keyed_iff distinct_update distinct_delete update_conv' delete_conv' simp del: map_of_eq_Some_iff
      split: if_splits)

lemma apply_event_data:
  assumes "apply_event ns nm t r v st = Some st'" "es_sync_version st \<le> v"
  shows "es_data st' = (if t = Delete then AList.delete (resource_key ns nm r) (es_data st)
                        else AList.update (resource_key ns nm r) r (es_data st))"
  using assms by (auto simp: apply_event_def mut_update_def Let_def split: if_splits option.splits)

lemma inv_push:
  assumes inv: "sync_inv env s" and v: "sy_last_version s < v"
  shows "\<exists>sc. push_event (se_ns env) (se_nm env) t r v (sy_server s) = Some sc \<and>
           sync_inv env (s\<lparr>sy_server := sc, sy_last_version := v\<rparr>)"
proof -
  have wf: "store_wf (store_of s)" and less: "es_sync_version (store_of s) < v" and k: "keyed env (es_data (store_of s))"
    using inv v by (auto simp: sync_inv_def server_ok_def)
  from es.publish_newer [OF wf less, of "se_ns env" "se_nm env" t r]
  obtain st' where st': "apply_event (se_ns env) (se_nm env) t r v (store_of s) = Some st'" "store_wf st'" "es_sync_version st' = v"
    "\<And>w m. covers (se_ns env) (se_nm env) w m (store_of s) \<Longrightarrow> covers (se_ns env) (se_nm env) w m st'" by blast
  have "keyed env (es_data st')"
    using keyed_change [OF k] apply_event_data [OF st'(1)] less by auto
  then have "sync_inv env (s\<lparr>sy_server := (sy_server s)\<lparr>sc_store := st'\<rparr>, sy_last_version := v\<rparr>)"
    using st' less by (intro inv_store_change [OF inv]) (auto simp: server_ok_def)
  then show ?thesis using st'(1) by (auto simp: push_event_def)
qed

lemma inv_version:
  assumes "sync_inv env s" "sy_last_version s \<le> v"
  shows "sync_inv env (s\<lparr>sy_last_version := v\<rparr>)"
    "sync_inv env (s\<lparr>sy_server := (sy_server s)\<lparr>sc_ready := ready\<rparr>, sy_last_version := v\<rparr>)"
proof -
  have "server_ok env s" using assms(1) by (simp add: sync_inv_def)
  then have ok: "server_ok env (s\<lparr>sy_last_version := v\<rparr>)"
    "server_ok env (s\<lparr>sy_server := (sy_server s)\<lparr>sc_ready := ready\<rparr>, sy_last_version := v\<rparr>)"
    using assms(2) by (auto simp: server_ok_def)
  show "sync_inv env (s\<lparr>sy_last_version := v\<rparr>)"
    "sync_inv env (s\<lparr>sy_server := (sy_server s)\<lparr>sc_ready := ready\<rparr>, sy_last_version := v\<rparr>)"
    by (rule inv_store_change [OF assms(1)]; simp add: ok)+
qed

lemma inv_publish:
  assumes inv: "sync_inv env s" and "change \<noteq> InitAdd" "next_resource_version ts (sy_last_version s) \<noteq> - 1"
  shows "\<exists>s'. sync_step env (Publish change ts r) s = Some s' \<and> sync_inv env s'"
proof -
  let ?v = "next_resource_version ts (sy_last_version s)"
  have less: "sy_last_version s < ?v" by (rule next_version_strict [OF assms(3)])
  note push = inv_push [OF inv less]
  from push [of Add r] push [of Update r] push [of Delete r] assms(2) less show ?thesis
    by (cases change) (auto simp: server_apply_change_def Let_def inv_version [OF inv, of ?v])
qed

lemma inv_client_cache:
  assumes "sync_inv env s" "ws_phase w = ws_phase (sy_client s)" "cd_data (ws_cache w) = cd_data (cache_of s)"
  shows "sync_inv env (s\<lparr>sy_client := w\<rparr>)"
proof -
  have m: "mirrors env (ws_cache w) = mirrors env (cache_of s)"
    using assms(3) by (simp add: fun_eq_iff mirrors_def)
  have "live_stream env (s\<lparr>sy_client := w\<rparr>) = live_stream env s"
    "failed_stream env (s\<lparr>sy_client := w\<rparr>) = failed_stream env s"
    by (simp_all add: live_stream_def failed_stream_def m)
  then show ?thesis using assms m
    by (auto simp: sync_inv_def server_ok_def reply_ok_def phase_ok_def split: option.splits watch_phase.splits)
qed

lemma inv_tick:
  assumes "sync_inv env s"
  shows "sync_inv env (client_step env Tick s)" "sync_inv env (client_step env (Trigger key) s)"
  unfolding client_step_def
  using assms
  by (auto intro!: inv_client_cache simp: process_compressed_events_def trigger_update_event_by_key_def
      add_compress_event_def Let_def split: option.splits)

lemma inv_grpc_list:
  assumes "sync_inv env s"
  shows "sync_inv env (grpc_list s)"
proof -
  have "store_wf (store_of s)" using assms by (simp add: sync_inv_def server_ok_def)
  note cov = es.covers_snapshot [OF this]
  show ?thesis using assms cov [of "se_ns env" "se_nm env"]
    by (auto simp: grpc_list_def sync_inv_def server_ok_def reply_ok_def phase_ok_def live_stream_def
        failed_stream_def snapshot_owned_def)
qed

lemma inv_list_reply:
  assumes inv: "sync_inv env s" and keys: "keys_agree env" and reply: "sy_reply s = Some (rs, sv)"
  shows "sync_inv env ((client_step env (Net (ListOk (map (se_transmit env) rs) sv (se_server_id env))) s)\<lparr>sy_reply := None\<rparr>)"
proof -
  obtain al where al: "rs = map snd al" "keyed env al" "covered env sv (map_of al) (store_of s)"
    and ph: "ws_phase (sy_client s) = Listing"
    using inv reply by (auto simp: sync_inv_def reply_ok_def)
  note m = mirrors_list [OF keys al(2)]
  have "mirrors env (cache_set_ready c) m \<longleftrightarrow> mirrors env c m" for c :: "('a, 'b) cache_data" and m
    by (simp add: mirrors_def cache_set_ready_def)
  then show ?thesis using inv al ph m
    by (auto simp: client_step_def watch_step.simps Let_def sync_inv_def server_ok_def reply_ok_def phase_ok_def
        intro!: exI [of _ "map_of al"])
qed

lemma inv_to_listing:
  assumes "sync_inv env s" "sy_server s' = sy_server s" "sy_last_version s' = sy_last_version s"
    and "ws_phase (sy_client s') = Listing" "sy_watcher s' = None" "sy_stream s' = []" "sy_reply s' = None"
  shows "sync_inv env s'"
  using assms by (simp add: sync_inv_def server_ok_def reply_ok_def phase_ok_def)

lemma inv_grpc_watch:
  assumes inv: "sync_inv env s"
  shows "sync_inv env (grpc_watch env s)"
proof (cases "ws_phase (sy_client s)")
  case (Connecting v sid)
  then show ?thesis using inv
    by (auto simp: grpc_watch_def client_step_def watch_step.simps sync_inv_def server_ok_def reply_ok_def
        phase_ok_def live_stream_def split: option.splits intro!: exI [of _ "[]"])
qed (use inv in \<open>auto simp: grpc_watch_def\<close>)

lemma inv_watcher_runs:
  assumes inv: "sync_inv env s"
  shows "\<exists>s'. watcher_runs env s = Some s' \<and> sync_inv env s' \<and>
           sy_client s' = sy_client s \<and> sy_server s' = sy_server s \<and> sy_reply s' = sy_reply s \<and>
           length (sy_stream s') \<le> Suc (length (sy_stream s)) \<and>
           (live_stream env s' \<longrightarrow> sy_watcher s' \<noteq> None \<longrightarrow> watching s \<longrightarrow> sy_watcher s' = Some (es_sync_version (store_of s)))"
proof (cases "sy_watcher s")
  case None
  then show ?thesis using inv by (simp add: watcher_runs_def)
next
  case (Some v)
  then have w: "\<exists>u. ws_phase (sy_client s) = Watching u (se_server_id env)" and live: "live_stream env s"
    using inv by (auto simp: sync_inv_def phase_ok_def failed_stream_def split: watch_phase.splits)
  from live Some obtain ms m where stream: "sy_stream s = map (event_msg env) ms" and m: "mirrors env (cache_of s) m"
    and cov: "covered env v (replay_all env (concat (map fst ms)) m) (store_of s)"
    by (auto simp: live_stream_def)
  have wf: "store_wf (store_of s)" using inv by (simp add: sync_inv_def server_ok_def)
  from es.round_covered [OF wf] cov obtain out where out: "watcher_round v (store_of s) = Some out"
    and case_out: "case out of
            SendEvents evs current \<Rightarrow> current = es_sync_version (store_of s) \<and>
              replay_all env evs (replay_all env (concat (map fst ms)) m) = map_of (es_data (store_of s))
          | SendError err v \<Rightarrow> err \<noteq> []
          | Wait \<Rightarrow> v = es_sync_version (store_of s) \<and> replay_all env (concat (map fst ms)) m = map_of (es_data (store_of s))"
    by blast
  show ?thesis
  proof (cases out)
    case (SendEvents evs current)
    let ?s' = "s\<lparr>sy_watcher := Some current, sy_stream := sy_stream s @ [event_msg env (evs, current)]\<rparr>"
    have cov': "covered env current (replay_all env (concat (map fst (ms @ [(evs, current)]))) m) (store_of s)"
      using case_out SendEvents es.covers_snapshot [OF wf] inv
      by (auto simp: sync_inv_def server_ok_def)
    have "live_stream env ?s'"
      unfolding live_stream_def
      by (rule exI [of _ current], rule exI [of _ "ms @ [(evs, current)]"], rule exI [of _ m])
        (use stream m cov' in simp)
    then have "sync_inv env ?s'"
      using inv w by (auto simp: sync_inv_def server_ok_def reply_ok_def phase_ok_def split: option.splits)
    then show ?thesis using Some out SendEvents case_out by (auto simp: watcher_runs_def event_msg_def)
  next
    case (SendError err u)
    let ?s' = "s\<lparr>sy_watcher := None, sy_stream := sy_stream s @ [Message err (se_server_id env) u None]\<rparr>"
    have "failed_stream env ?s'" using stream case_out SendError by (auto simp: failed_stream_def)
    then have "sync_inv env ?s'"
      using inv w by (auto simp: sync_inv_def server_ok_def reply_ok_def phase_ok_def split: option.splits)
    then show ?thesis using Some out SendError by (auto simp: watcher_runs_def)
  next
    case Wait
    then show ?thesis using Some out inv case_out by (auto simp: watcher_runs_def)
  qed
qed

lemma deliver_events:
  assumes inv: "sync_inv env s" and keys: "keys_agree env" and live: "live_stream env s"
    and w: "ws_phase (sy_client s) = Watching u sid" and stream: "sy_stream s = msg # msgs"
  defines "s' \<equiv> drop_stream (client_step env (Net msg) (s\<lparr>sy_stream := msgs\<rparr>))"
  shows "sync_inv env s'" "live_stream env s'" "ws_phase (sy_client s') = Watching u sid" "sy_stream s' = msgs"
    "sy_watcher s' = sy_watcher s" "sy_server s' = sy_server s"
proof -
  have sid: "sid = se_server_id env" using inv w by (simp add: sync_inv_def phase_ok_def)
  from live stream obtain v em ms m where ms: "sy_watcher s = Some v" "msg = event_msg env em" "msgs = map (event_msg env) ms"
    "mirrors env (cache_of s) m" "covered env v (replay_all env (concat (map fst ms)) (replay_all env (fst em) m)) (store_of s)"
    by (auto simp: live_stream_def)
  let ?c = "fold (apply_watch_event (se_key_name env) (se_prepare env) (snd em)) (map (event_json env) (fst em)) (cache_of s)"
  have s': "s' = s\<lparr>sy_stream := msgs, sy_client := (sy_client s)\<lparr>ws_cache := ?c\<rparr>\<rparr>"
    using w ms(2) sid by (simp add: s'_def drop_stream_def watching_def client_step_def watch_step.simps event_msg_def)
  show p: "ws_phase (sy_client s') = Watching u sid" "sy_stream s' = msgs" "sy_watcher s' = sy_watcher s" "sy_server s' = sy_server s"
    using w by (simp_all add: s')
  show live': "live_stream env s'"
    using ms mirrors_events [OF keys ms(4), of "snd em" "fst em"] unfolding live_stream_def s' by auto
  have "sy_reply s = None" using inv w by (auto simp: sync_inv_def reply_ok_def split: option.splits)
  then show "sync_inv env s'"
    using inv live' p sid by (auto simp: sync_inv_def server_ok_def reply_ok_def phase_ok_def s')
qed

lemma watching_no_reply: "sync_inv env s \<Longrightarrow> ws_phase (sy_client s) = Watching u sid \<Longrightarrow> sy_reply s = None"
  by (auto simp: sync_inv_def reply_ok_def split: option.splits)

lemma deliver_failed:
  assumes inv: "sync_inv env s" and failed: "failed_stream env s"
    and w: "ws_phase (sy_client s) = Watching u sid" and stream: "sy_stream s = msg # msgs"
  defines "s' \<equiv> drop_stream (client_step env (Net msg) (s\<lparr>sy_stream := msgs\<rparr>))"
  shows "sync_inv env s'" "sy_server s' = sy_server s" "sy_reply s' = None"
    "if msgs = [] then ws_phase (sy_client s') = Listing \<and> sy_stream s' = []
     else failed_stream env s' \<and> ws_phase (sy_client s') = Watching u sid \<and> sy_stream s' = msgs"
proof -
  have sid: "sid = se_server_id env" using inv w by (simp add: sync_inv_def phase_ok_def)
  have reply: "sy_reply s = None" by (rule watching_no_reply [OF inv w])
  show same: "sy_server s' = sy_server s" "sy_reply s' = None"
    using reply by (simp_all add: s'_def drop_stream_def client_step_def)
  from failed obtain ms err v where f: "sy_watcher s = None" "err \<noteq> []"
    "sy_stream s = map (event_msg env) ms @ [Message err (se_server_id env) v None]"
    by (auto simp: failed_stream_def)
  show st: "if msgs = [] then ws_phase (sy_client s') = Listing \<and> sy_stream s' = []
     else failed_stream env s' \<and> ws_phase (sy_client s') = Watching u sid \<and> sy_stream s' = msgs"
  proof (cases ms)
    case Nil
    then show ?thesis using f stream w
      by (simp add: s'_def drop_stream_def watching_def client_step_def watch_step.simps)
  next
    case (Cons em ems)
    then show ?thesis using f stream w sid
      by (auto simp: s'_def drop_stream_def watching_def client_step_def watch_step.simps event_msg_def failed_stream_def)
  qed
  have keep: "sy_watcher s' = None" "sy_last_version s' = sy_last_version s"
    using f(1) by (simp_all add: s'_def drop_stream_def client_step_def)
  have "server_ok env s'" using inv same keep by (simp add: sync_inv_def server_ok_def)
  moreover have "reply_ok env s'" using same by (simp add: reply_ok_def)
  moreover have "phase_ok env s'"
    using st keep(1) sid by (cases "msgs = []") (simp_all add: phase_ok_def)
  ultimately show "sync_inv env s'" by (simp add: sync_inv_def)
qed

lemma inv_deliver:
  assumes inv: "sync_inv env s" and keys: "keys_agree env"
  shows "\<exists>s'. sync_step env Deliver s = Some s' \<and> sync_inv env s'"
proof (cases "sy_stream s")
  case Nil
  then show ?thesis using inv by simp
next
  case (Cons msg msgs)
  then obtain u sid where w: "ws_phase (sy_client s) = Watching u sid" and "live_stream env s \<or> failed_stream env s"
    using inv by (auto simp: sync_inv_def phase_ok_def split: watch_phase.splits)
  then have "sync_inv env (drop_stream (client_step env (Net msg) (s\<lparr>sy_stream := msgs\<rparr>)))"
    using deliver_events(1) [OF inv keys _ w Cons] deliver_failed(1) [OF inv _ w Cons] by blast
  then show ?thesis using Cons by simp
qed

lemma inv_net_failures:
  assumes inv: "sync_inv env s"
  shows "\<exists>s'. sync_step env ListFails s = Some s' \<and> sync_inv env s'"
    and "\<exists>s'. sync_step env WatchFails s = Some s' \<and> sync_inv env s'"
    and "\<exists>s'. sync_step env Disconnect s = Some s' \<and> sync_inv env s'"
proof -
  have "sync_inv env ((client_step env (Net ListErr) s)\<lparr>sy_reply := None\<rparr>)" if "ws_phase (sy_client s) = Listing"
    using inv that
    by (intro inv_to_listing [OF inv])
      (auto simp: client_step_def watch_step.simps sync_inv_def phase_ok_def)
  then show "\<exists>s'. sync_step env ListFails s = Some s' \<and> sync_inv env s'" using inv by simp
  have "sync_inv env (client_step env (Net WatchFailed) s)" if "ws_phase (sy_client s) = Connecting v sid" for v sid
    using inv that
    by (intro inv_to_listing [OF inv])
      (auto simp: client_step_def watch_step.simps sync_inv_def phase_ok_def reply_ok_def split: option.splits)
  then show "\<exists>s'. sync_step env WatchFails s = Some s' \<and> sync_inv env s'"
    using inv by (auto split: watch_phase.splits)
  have "sync_inv env (drop_stream (client_step env (Net StreamErr) s))" if "ws_phase (sy_client s) = Watching v sid" for v sid
    using that watching_no_reply [OF inv that]
    by (intro inv_to_listing [OF inv])
      (auto simp: client_step_def watch_step.simps drop_stream_def watching_def)
  then show "\<exists>s'. sync_step env Disconnect s = Some s' \<and> sync_inv env s'"
    using inv by (auto simp: watching_def split: watch_phase.splits)
qed

fun version_after :: "'v sync_action \<Rightarrow> u64 \<Rightarrow> u64" where
  "version_after (Publish _ ts _) l = next_resource_version ts l"
| "version_after (DrawVersion ts) l = next_resource_version ts l"
| "version_after _ l = l"

text \<open>Actions of the running system: initial loading is over.\<close>

fun running_action :: "'v sync_action \<Rightarrow> bool" where
  "running_action (Publish change _ _) \<longleftrightarrow> change \<noteq> InitAdd"
| "running_action _ \<longleftrightarrow> True"

lemma version_after_mono: "l \<le> version_after a l"
  by (cases a) (simp_all add: next_version_mono)

lemma watcher_runs_client:
  assumes "watcher_runs env s = Some s'"
  shows "sy_last_version s' = sy_last_version s \<and> sy_client s' = sy_client s"
proof (cases "sy_watcher s")
  case (Some v)
  then obtain out where "watcher_round v (store_of s) = Some out"
    using assms by (auto simp: watcher_runs_def)
  then show ?thesis using assms Some by (cases out) (auto simp: watcher_runs_def)
qed (use assms in \<open>simp add: watcher_runs_def\<close>)

lemma version_step: "sync_step env a s = Some s' \<Longrightarrow> sy_last_version s' = version_after a (sy_last_version s)"
  by (cases a)
    (auto simp: Let_def client_step_def drop_stream_def grpc_list_def grpc_watch_def watcher_runs_client
      split: option.splits watch_phase.splits list.splits prod.splits)

lemma inv_step:
  assumes inv: "sync_inv env s" and keys: "keys_agree env" and "running_action a"
    and "version_after a (sy_last_version s) \<noteq> - 1"
  shows "\<exists>s'. sync_step env a s = Some s' \<and> sync_inv env s'"
proof (cases a)
  case (Publish change ts r)
  then show ?thesis using inv_publish [OF inv, of change ts r] assms(3,4) by simp
next
  case (DrawVersion ts)
  then show ?thesis using inv_version(1) [OF inv next_version_mono] by simp
next
  case ListReply
  then show ?thesis using inv inv_list_reply [OF inv keys] by (auto split: option.splits prod.splits)
next
  case WatcherRuns
  then show ?thesis using inv_watcher_runs [OF inv] by auto
next
  case Deliver
  then show ?thesis using inv_deliver [OF inv keys] by simp
qed (use inv_net_failures [OF inv] inv_grpc_list [OF inv] inv_grpc_watch [OF inv] inv_tick [OF inv] in auto)

lemma final_version_max:
  assumes "fold version_after as (version_after a l) \<noteq> - 1"
  shows "version_after a l \<noteq> - 1"
proof
  assume "version_after a l = - 1"
  moreover have "l' \<le> fold version_after as l'" for l'
    by (induction as arbitrary: l') (auto intro: order_trans [OF version_after_mono])
  ultimately show False using assms by (metis max_word_max order_antisym)
qed

lemma inv_run:
  assumes "sync_inv env s" "keys_agree env" "list_all running_action as"
    and "fold version_after as (sy_last_version s) \<noteq> - 1"
  shows "\<exists>s'. sync_run env as s = Some s' \<and> sync_inv env s'"
  using assms
proof (induction as arbitrary: s)
  case (Cons a as)
  have "version_after a (sy_last_version s) \<noteq> - 1"
    using final_version_max [of as a] Cons.prems(4) by simp
  then obtain s' where s': "sync_step env a s = Some s'" "sync_inv env s'"
    using inv_step [OF Cons.prems(1,2), of a] Cons.prems(3) by auto
  then show ?case
    using Cons.IH [OF s'(2) Cons.prems(2)] Cons.prems(3,4) version_step [OF s'(1)] by simp
qed simp

section \<open>Convergence\<close>

text \<open>A fair round: pending replies and messages are delivered, the watcher runs, and a client whose
  stream reported an error lists again.\<close>

definition settle :: "('v, 'h) sync_system \<Rightarrow> 'v sync_action list" where
  "settle s = [ListReply, WatchCall, WatcherRuns] @ replicate (Suc (length (sy_stream s))) Deliver @ [ListCall, ListReply]"

definition synced :: "('v, 'h) sync_env \<Rightarrow> ('v, 'h) sync_system \<Rightarrow> bool" where
  "synced env s \<longleftrightarrow> mirrors env (cache_of s) (map_of (es_data (store_of s)))"

lemma covered_current:
  assumes "store_wf st" "covers ns nm (es_sync_version st) m st"
  shows "m = map_of (es_data st)"
proof -
  have "newer (es_sync_version st) (retained st) = []" "es_expire_sync_version st \<le> es_sync_version st"
    using assms(1) by (auto simp: store_wf_def newer_def filter_empty_conv not_less)
  then show ?thesis using assms(2) by (simp add: covers_def)
qed

lemma sync_run_append: "sync_run env (as @ bs) s = Option.bind (sync_run env as s) (sync_run env bs)"
  by (induction as arbitrary: s) (auto split: bind_splits)

lemma deliver_all_live:
  assumes "sync_inv env s" "keys_agree env" "live_stream env s" "ws_phase (sy_client s) = Watching u sid"
    and "sy_watcher s = Some (es_sync_version (store_of s))" "length (sy_stream s) \<le> n"
  shows "\<exists>s'. sync_run env (replicate n Deliver) s = Some s' \<and> sync_inv env s' \<and> sy_server s' = sy_server s \<and>
           sy_reply s' = None \<and> ws_phase (sy_client s') = Watching u sid \<and> synced env s'"
  using assms
proof (induction n arbitrary: s)
  case 0
  then obtain m where m: "mirrors env (cache_of s) m" "covers (se_ns env) (se_nm env) (es_sync_version (store_of s)) m (store_of s)"
    by (auto simp: live_stream_def)
  have "store_wf (store_of s)" using 0(1) by (simp add: sync_inv_def server_ok_def)
  from covered_current [OF this m(2)] m(1) have "synced env s" by (simp add: synced_def)
  then show ?case using 0 watching_no_reply [OF 0(1,4)] by simp
next
  case (Suc n)
  show ?case
  proof (cases "sy_stream s")
    case Nil
    then show ?thesis using Suc.IH [of s] Suc.prems by simp
  next
    case (Cons msg msgs)
    note d = deliver_events [OF Suc.prems(1-4) Cons]
    show ?thesis using Suc.IH [OF d(1) Suc.prems(2) d(2,3)] d(4-6) Suc.prems(5,6) Cons by simp
  qed
qed

lemma deliver_all_failed:
  assumes "sync_inv env s" "failed_stream env s" "ws_phase (sy_client s) = Watching u sid" "length (sy_stream s) \<le> n"
  shows "\<exists>s'. sync_run env (replicate n Deliver) s = Some s' \<and> sync_inv env s' \<and> sy_server s' = sy_server s \<and>
           sy_reply s' = None \<and> ws_phase (sy_client s') = Listing"
  using assms
proof (induction n arbitrary: s)
  case 0
  then show ?case by (auto simp: failed_stream_def)
next
  case (Suc n)
  then obtain msg msgs where Cons: "sy_stream s = msg # msgs"
    by (cases "sy_stream s") (auto simp: failed_stream_def)
  note d = deliver_failed [OF Suc.prems(1-3) Cons]
  show ?case
  proof (cases "msgs = []")
    case True
    let ?s = "drop_stream (client_step env (Net msg) (s\<lparr>sy_stream := msgs\<rparr>))"
    have "sync_run env (replicate n Deliver) ?s = Some ?s" if "sy_stream ?s = []"
      using that by (induction n) simp_all
    then show ?thesis using d True Cons by auto
  next
    case False
    then show ?thesis using Suc.IH [OF d(1)] d Cons Suc.prems(4) by auto
  qed
qed

lemma settle_prefix:
  assumes inv: "sync_inv env s" and keys: "keys_agree env"
  shows "\<exists>t. sync_run env [ListReply, WatchCall, WatcherRuns] s = Some t \<and> sync_inv env t \<and> sy_server t = sy_server s \<and>
           sy_reply t = None \<and> length (sy_stream t) \<le> Suc (length (sy_stream s)) \<and>
           (ws_phase (sy_client t) = Listing \<or>
            (\<exists>u sid. ws_phase (sy_client t) = Watching u sid \<and>
               (live_stream env t \<and> sy_watcher t = Some (es_sync_version (store_of t)) \<or> failed_stream env t)))"
proof -
  obtain s1 where s1: "sync_step env ListReply s = Some s1" "sync_inv env s1" "sy_reply s1 = None"
    "sy_server s1 = sy_server s" "sy_stream s1 = sy_stream s"
    using inv inv_list_reply [OF inv keys] by (cases "sy_reply s") (auto simp: client_step_def)
  let ?s2 = "grpc_watch env s1"
  have s2: "sync_inv env ?s2" by (rule inv_grpc_watch [OF s1(2)])
  have s2': "sy_reply ?s2 = None" "sy_server ?s2 = sy_server s" "length (sy_stream ?s2) \<le> length (sy_stream s)"
    "\<nexists>v sid. ws_phase (sy_client ?s2) = Connecting v sid"
    using s1 by (auto simp: grpc_watch_def client_step_def watch_step.simps sync_inv_def phase_ok_def split: watch_phase.splits)
  from inv_watcher_runs [OF s2] obtain t where t: "watcher_runs env ?s2 = Some t" "sync_inv env t"
    "sy_client t = sy_client ?s2" "sy_server t = sy_server ?s2" "sy_reply t = sy_reply ?s2"
    "length (sy_stream t) \<le> Suc (length (sy_stream ?s2))"
    "live_stream env t \<longrightarrow> sy_watcher t \<noteq> None \<longrightarrow> watching ?s2 \<longrightarrow> sy_watcher t = Some (es_sync_version (store_of ?s2))"
    by blast
  have "ws_phase (sy_client t) = Listing \<or>
      (\<exists>u sid. ws_phase (sy_client t) = Watching u sid \<and>
         (live_stream env t \<and> sy_watcher t = Some (es_sync_version (store_of t)) \<or> failed_stream env t))"
  proof (cases "ws_phase (sy_client t)")
    case (Watching u sid)
    then have "live_stream env t \<or> failed_stream env t" using t(2) by (simp add: sync_inv_def phase_ok_def)
    moreover have "live_stream env t \<Longrightarrow> sy_watcher t = Some (es_sync_version (store_of t))"
      using t(3,4,7) Watching by (auto simp: watching_def live_stream_def)
    ultimately show ?thesis using Watching by auto
  qed (use s2'(4) t(3) in auto)
  then show ?thesis using s1(1) t s2' by auto
qed

lemma relist_syncs:
  assumes inv: "sync_inv env s" and keys: "keys_agree env" and "sy_reply s = None"
    and "ws_phase (sy_client s) = Listing \<or> ((\<exists>u sid. ws_phase (sy_client s) = Watching u sid) \<and> synced env s)"
  shows "\<exists>s'. sync_run env [ListCall, ListReply] s = Some s' \<and> sy_server s' = sy_server s \<and> synced env s'"
  using assms(4)
proof
  assume l: "ws_phase (sy_client s) = Listing"
  have "keyed env (es_data (store_of s))" using inv by (simp add: sync_inv_def server_ok_def)
  note m = mirrors_list [OF keys this]
  have "mirrors env (cache_set_ready c) = mirrors env c" for c :: "('a, 'b) cache_data"
    by (simp add: mirrors_def cache_set_ready_def fun_eq_iff)
  then show ?thesis using l assms(3) m
    by (auto simp: grpc_list_def snapshot_owned_def client_step_def watch_step.simps Let_def synced_def comp_assoc)
next
  assume "(\<exists>u sid. ws_phase (sy_client s) = Watching u sid) \<and> synced env s"
  then show ?thesis using assms(3) by (auto simp: grpc_list_def)
qed

lemma settle_syncs:
  assumes inv: "sync_inv env s" and keys: "keys_agree env"
  shows "\<exists>s'. sync_run env (settle s) s = Some s' \<and> sy_server s' = sy_server s \<and> synced env s'"
proof -
  obtain t where t: "sync_run env [ListReply, WatchCall, WatcherRuns] s = Some t" "sync_inv env t" "sy_server t = sy_server s"
    "sy_reply t = None" "length (sy_stream t) \<le> Suc (length (sy_stream s))"
    "ws_phase (sy_client t) = Listing \<or>
       (\<exists>u sid. ws_phase (sy_client t) = Watching u sid \<and>
          (live_stream env t \<and> sy_watcher t = Some (es_sync_version (store_of t)) \<or> failed_stream env t))"
    using settle_prefix [OF inv keys] by blast
  let ?n = "Suc (length (sy_stream s))"
  have idle: "sync_run env (replicate n Deliver) t = Some t" if "sy_stream t = []" for n
    using that by (induction n) simp_all
  have "\<exists>r. sync_run env (replicate ?n Deliver) t = Some r \<and> sync_inv env r \<and> sy_server r = sy_server t \<and> sy_reply r = None \<and>
      (ws_phase (sy_client r) = Listing \<or> ((\<exists>u sid. ws_phase (sy_client r) = Watching u sid) \<and> synced env r))"
    using t(6)
  proof
    assume "ws_phase (sy_client t) = Listing"
    moreover then have "sy_stream t = []" using t(2) by (simp add: sync_inv_def phase_ok_def)
    ultimately show ?thesis using idle t by blast
  qed (use deliver_all_live [OF t(2) keys] deliver_all_failed [OF t(2)] t(5) in blast)
  then obtain r where r: "sync_run env (replicate ?n Deliver) t = Some r" "sync_inv env r" "sy_server r = sy_server t" "sy_reply r = None"
    "ws_phase (sy_client r) = Listing \<or> ((\<exists>u sid. ws_phase (sy_client r) = Watching u sid) \<and> synced env r)"
    by blast
  from relist_syncs [OF r(2) keys r(4,5)] obtain s' where
    "sync_run env [ListCall, ListReply] r = Some s'" "sy_server s' = sy_server r" "synced env s'" by blast
  then show ?thesis using t r unfolding settle_def sync_run_append by auto
qed

text \<open>Whatever the system does, the client only takes its own actions.\<close>

lemma client_follows_step:
  assumes "sync_step env a s = Some s'"
  shows "\<exists>acts. sy_client s' = fold (client_act (se_ops env) (se_key_name env) (se_prepare env)) acts (sy_client s)"
proof -
  let ?act = "client_act (se_ops env) (se_key_name env) (se_prepare env)"
  have "sy_client s' = sy_client s \<or> (\<exists>act. sy_client s' = ?act act (sy_client s))"
  proof (cases "a = WatcherRuns")
    case True
    then show ?thesis using assms watcher_runs_client [of env s s'] by simp
  next
    case False
    then show ?thesis using assms
      by (cases a)
        (auto simp: Let_def client_step_def drop_stream_def grpc_list_def grpc_watch_def simp del: client_act.simps
          split: option.splits watch_phase.splits list.splits prod.splits if_splits)
  qed
  then show ?thesis
  proof
    assume "sy_client s' = sy_client s"
    then show ?thesis by (intro exI [of _ "[]"]) simp
  next
    assume "\<exists>act. sy_client s' = ?act act (sy_client s)"
    then obtain act where "sy_client s' = ?act act (sy_client s)" by blast
    then show ?thesis by (intro exI [of _ "[act]"]) simp
  qed
qed

lemma client_follows:
  assumes "sync_run env as s = Some s'"
  shows "\<exists>acts. sy_client s' = fold (client_act (se_ops env) (se_key_name env) (se_prepare env)) acts (sy_client s)"
  using assms
proof (induction as arbitrary: s)
  case Nil
  then show ?case by (intro exI [of _ "[]"]) simp
next
  case (Cons a as)
  then obtain t where t: "sync_step env a s = Some t" "sync_run env as t = Some s'" by (auto simp: bind_eq_Some_conv)
  from client_follows_step [OF t(1)] Cons.IH [OF t(2)] show ?case by (metis comp_apply fold_append)
qed

lemma log_step_keyed:
  assumes "\<And>k r. lg_data l k = Some r \<Longrightarrow> resource_key ns nm r = k" "lg_data (log_step ns nm x l) k = Some r"
  shows "resource_key ns nm r = k"
proof (cases x)
  case (OpInit v y)
  then show ?thesis using assms(2) assms(1) [of k r] by (simp split: if_splits)
next
  case (OpEvent t y v)
  then show ?thesis using assms(2) assms(1) [of k r] by (simp add: replay_def Let_def split: if_splits)
qed (use assms in simp)

lemma store_run_keyed:
  assumes "store_run ns nm c xs = Some st" "map_of (es_data st) k = Some r"
  shows "resource_key ns nm r = k"
proof -
  have fold: "resource_key ns nm r = k"
    if "\<And>k r. lg_data l k = Some r \<Longrightarrow> resource_key ns nm r = k" "lg_data (fold (log_step ns nm) xs l) k = Some r" for l k r
    using that
  proof (induction xs arbitrary: l)
    case (Cons x xs)
    show ?case by (rule Cons.IH [of "log_step ns nm x l"]) (use Cons.prems in \<open>auto intro: log_step_keyed\<close>)
  qed simp
  have "map_of (es_data st) = lg_data (log_run ns nm xs)"
    using store_run_refines [of ns nm c xs] assms(1) unfolding refines_log_def by auto
  then show ?thesis
    using fold [of "\<lparr>lg_version = 0, lg_events = [], lg_data = Map.empty\<rparr>" k r] assms(2) by (simp add: log_run_def)
qed

lemma inv_start:
  assumes "store_run (se_ns env) (se_nm env) c xs = Some st" "es_sync_version st \<noteq> 0" "es_sync_version st \<le> last_version"
  shows "sync_inv env (sync_start \<lparr>sc_ready = ready, sc_store = st\<rparr> last_version h)"
proof -
  have wf: "store_wf st"
    using store_run_refines [of "se_ns env" "se_nm env" c xs] assms(1) unfolding refines_log_def by simp
  then have "keyed env (es_data st)"
    unfolding keyed_iff store_wf_def using store_run_keyed [OF assms(1)] by blast
  then show ?thesis using wf assms(2,3)
    by (simp add: sync_inv_def server_ok_def reply_ok_def phase_ok_def sync_start_def watch_start_def)
qed


definition example_sync_env :: "(string \<times> nat, (string \<times> nat) dict) sync_env" where
  "example_sync_env =
     \<lparr>se_ops = \<lparr>op_full_set = (\<lambda>d h. d), op_partial_update = (\<lambda>a u r h. a @ u @ filter (\<lambda>(k, v). k \<notin> set r) h)\<rparr>,
      se_ns = (\<lambda>_. None), se_nm = fst, se_key_name = fst, se_prepare = (\<lambda>_ r. r), se_transmit = id,
      se_server_id = ''s1''\<rparr>"


end
