(* ===== verification/Dsl_Value.thy ===== *)
theory Dsl_Value
  imports Edgion_Prelude "HOL-Library.Signed_Division"
begin

text \<open>
  Run-time values of EdgionDSL (dsl/lang/value.rs), the run-time errors (dsl/lang/error.rs),
  and the value-level computations of the interpreter and of its string builtins
  (dsl/lang/vm.rs, dsl/lang/builtins.rs): checked arithmetic, comparison, string search,
  UTF-8 aware length and slicing, URL coding. A string is its list of UTF-8 bytes.
\<close>

section \<open>Values\<close>

datatype dsl_value =
    VStr string
  | VInt int
  | VBool bool
  | VNil
  | VList "string list"

fun into_string :: "dsl_value \<Rightarrow> string" where
  "into_string (VStr s) = s"
| "into_string (VInt n) = show_int n"
| "into_string (VBool b) = (if b then ''true'' else ''false'')"
| "into_string VNil = ''nil''"
| "into_string (VList l) = ''[list]''"

fun as_int :: "dsl_value \<Rightarrow> int option" where
  "as_int (VInt n) = Some n"
| "as_int v = None"

fun is_truthy :: "dsl_value \<Rightarrow> bool" where
  "is_truthy VNil = False"
| "is_truthy (VBool b) = b"
| "is_truthy v = True"

fun type_name :: "dsl_value \<Rightarrow> string" where
  "type_name (VStr s) = ''Str''"
| "type_name (VInt n) = ''Int''"
| "type_name (VBool b) = ''Bool''"
| "type_name VNil = ''Nil''"
| "type_name (VList l) = ''List''"

definition value_of_option :: "string option \<Rightarrow> dsl_value" where
  "value_of_option o' = (case o' of Some s \<Rightarrow> VStr s | None \<Rightarrow> VNil)"

section \<open>Run-time errors\<close>

datatype runtime_error =
    TypeError string string string
  | DivisionByZero
  | IntegerOverflow string
  | StepLimitExceeded nat
  | LoopLimitExceeded nat
  | CallLimitExceeded nat
  | StackOverflow nat
  | StringTooLong nat nat
  | UndefinedLocal nat
  | ApiError string string
  | RegexError string
  | Internal string

fun display_error :: "runtime_error \<Rightarrow> string" where
  "display_error (TypeError expected got operation) =
     ''type error in '' @ operation @ '': expected '' @ expected @ '', got '' @ got"
| "display_error DivisionByZero = ''division by zero''"
| "display_error (IntegerOverflow operation) = ''integer overflow in '' @ operation"
| "display_error (StepLimitExceeded limit) = ''step budget exceeded ('' @ show_nat limit @ '')''"
| "display_error (LoopLimitExceeded limit) = ''loop budget exceeded ('' @ show_nat limit @ '')''"
| "display_error (CallLimitExceeded limit) = ''call budget exceeded ('' @ show_nat limit @ '')''"
| "display_error (StackOverflow limit) = ''stack overflow (depth '' @ show_nat limit @ '')''"
| "display_error (StringTooLong len limit) =
     ''string too long ('' @ show_nat len @ '' > '' @ show_nat limit @ '')''"
| "display_error (UndefinedLocal slot) = ''undefined local (slot '' @ show_nat slot @ '')''"
| "display_error (ApiError function message) = ''API error in '' @ function @ '': '' @ message"
| "display_error (RegexError message) = ''regex error: '' @ message"
| "display_error (Internal message) = ''internal error: '' @ message"

section \<open>Bytes and strings\<close>

definition byte :: "char \<Rightarrow> nat" where
  "byte c = of_char c"

fun str_less :: "string \<Rightarrow> string \<Rightarrow> bool" where
  "str_less _ [] = False"
| "str_less [] (c # cs) = True"
| "str_less (b # bs) (c # cs) = (byte b < byte c \<or> (b = c \<and> str_less bs cs))"

definition starts_with :: "string \<Rightarrow> string \<Rightarrow> bool" where
  "starts_with s p \<longleftrightarrow> take (length p) s = p"

definition ends_with :: "string \<Rightarrow> string \<Rightarrow> bool" where
  "ends_with s p \<longleftrightarrow> length p \<le> length s \<and> drop (length s - length p) s = p"

fun contains :: "string \<Rightarrow> string \<Rightarrow> bool" where
  "contains [] p \<longleftrightarrow> p = []"
| "contains (c # s) p \<longleftrightarrow> starts_with (c # s) p \<or> contains s p"

text \<open>A byte that continues a character; every other byte of a string starts one.\<close>

definition is_cont :: "char \<Rightarrow> bool" where
  "is_cont c \<longleftrightarrow> 128 \<le> byte c \<and> byte c < 192"

definition char_count :: "string \<Rightarrow> nat" where
  "char_count s = length (filter (\<lambda>c. \<not> is_cont c) s)"

text \<open>\<open>char_indices().nth(k)\<close>: the byte offset of character \<open>k\<close>, or the length of the string.\<close>

fun char_offset :: "nat \<Rightarrow> string \<Rightarrow> nat" where
  "char_offset k [] = 0"
| "char_offset k (c # cs) =
     (if is_cont c then Suc (char_offset k cs)
      else case k of 0 \<Rightarrow> 0 | Suc k' \<Rightarrow> Suc (char_offset k' cs))"

section \<open>UTF-8 decoding with replacement\<close>

text \<open>
  \<open>String::from_utf8_lossy\<close>. For a non-empty input \<^term>\<open>s\<close>, \<open>utf8_scan\<close> says whether it starts
  with a well-formed character and how many bytes that character, or the maximal ill-formed
  prefix, has.
\<close>

definition byte_at :: "string \<Rightarrow> nat \<Rightarrow> nat" where
  "byte_at s i = (if i < length s then byte (s ! i) else 0)"

definition cont_at :: "string \<Rightarrow> nat \<Rightarrow> bool" where
  "cont_at s i \<longleftrightarrow> 128 \<le> byte_at s i \<and> byte_at s i < 192"

definition second_ok3 :: "nat \<Rightarrow> nat \<Rightarrow> bool" where
  "second_ok3 b0 b1 \<longleftrightarrow>
     (b0 = 0xE0 \<and> 0xA0 \<le> b1 \<and> b1 \<le> 0xBF) \<or>
     (0xE1 \<le> b0 \<and> b0 \<le> 0xEC \<and> 0x80 \<le> b1 \<and> b1 \<le> 0xBF) \<or>
     (b0 = 0xED \<and> 0x80 \<le> b1 \<and> b1 \<le> 0x9F) \<or>
     (0xEE \<le> b0 \<and> b0 \<le> 0xEF \<and> 0x80 \<le> b1 \<and> b1 \<le> 0xBF)"

definition second_ok4 :: "nat \<Rightarrow> nat \<Rightarrow> bool" where
  "second_ok4 b0 b1 \<longleftrightarrow>
     (b0 = 0xF0 \<and> 0x90 \<le> b1 \<and> b1 \<le> 0xBF) \<or>
     (0xF1 \<le> b0 \<and> b0 \<le> 0xF3 \<and> 0x80 \<le> b1 \<and> b1 \<le> 0xBF) \<or>
     (b0 = 0xF4 \<and> 0x80 \<le> b1 \<and> b1 \<le> 0x8F)"

definition utf8_scan :: "string \<Rightarrow> bool \<times> nat" where
  "utf8_scan s =
     (let b0 = byte_at s 0; b1 = byte_at s 1
      in if b0 < 0x80 then (True, 1)
         else if 0xC2 \<le> b0 \<and> b0 \<le> 0xDF then (if cont_at s 1 then (True, 2) else (False, 1))
         else if 0xE0 \<le> b0 \<and> b0 \<le> 0xEF then
           (if \<not> second_ok3 b0 b1 then (False, 1)
            else if \<not> cont_at s 2 then (False, 2)
            else (True, 3))
         else if 0xF0 \<le> b0 \<and> b0 \<le> 0xF4 then
           (if \<not> second_ok4 b0 b1 then (False, 1)
            else if \<not> cont_at s 2 then (False, 2)
            else if \<not> cont_at s 3 then (False, 3)
            else (True, 4))
         else (False, 1))"

lemma utf8_scan_pos: "0 < snd (utf8_scan s)"
  by (simp add: utf8_scan_def Let_def)

function (sequential) from_utf8_lossy :: "string \<Rightarrow> string" where
  "from_utf8_lossy [] = []"
| "from_utf8_lossy (c # cs) =
     (let (ok, n) = utf8_scan (c # cs)
      in (if ok then take n (c # cs) else [CHR 0xEF, CHR 0xBF, CHR 0xBD]) @ from_utf8_lossy (drop n (c # cs)))"
  by pat_completeness auto

termination
  by (relation "measure length") (auto, metis length_drop length_Cons diff_less utf8_scan_pos snd_conv zero_less_Suc)

function (sequential) valid_utf8 :: "string \<Rightarrow> bool" where
  "valid_utf8 [] = True"
| "valid_utf8 (c # cs) = (let (ok, n) = utf8_scan (c # cs) in ok \<and> valid_utf8 (drop n (c # cs)))"
  by pat_completeness auto

termination
  by (relation "measure length") (auto, metis length_drop length_Cons diff_less utf8_scan_pos snd_conv zero_less_Suc)

lemma lossy_valid: "valid_utf8 s \<Longrightarrow> from_utf8_lossy s = s"
  by (induction s rule: valid_utf8.induct) (auto simp: Let_def split: prod.splits simp del: drop_Cons' take_Cons')

section \<open>URL coding\<close>

definition is_unreserved :: "char \<Rightarrow> bool" where
  "is_unreserved c \<longleftrightarrow>
     (let b = byte c
      in (48 \<le> b \<and> b \<le> 57) \<or> (65 \<le> b \<and> b \<le> 90) \<or> (97 \<le> b \<and> b \<le> 122) \<or> b \<in> {45, 95, 46, 126})"

definition hex_digit :: "nat \<Rightarrow> char" where
  "hex_digit d = char_of (if d < 10 then 48 + d else 55 + d)"

definition percent :: "char \<Rightarrow> string" where
  "percent c = [CHR 0x25, hex_digit (byte c div 16), hex_digit (byte c mod 16)]"

definition url_encode :: "string \<Rightarrow> string" where
  "url_encode s = concat (map (\<lambda>c. if is_unreserved c then [c] else percent c) s)"

definition hex_value :: "char \<Rightarrow> nat option" where
  "hex_value c =
     (let b = byte c
      in if 48 \<le> b \<and> b \<le> 57 then Some (b - 48)
         else if 65 \<le> b \<and> b \<le> 70 then Some (b - 55)
         else if 97 \<le> b \<and> b \<le> 102 then Some (b - 87)
         else None)"

fun url_decode_bytes :: "string \<Rightarrow> string" where
  "url_decode_bytes [] = []"
| "url_decode_bytes (c # hi # lo # cs) =
     (if c = CHR 0x25 then
        (case (hex_value hi, hex_value lo) of
           (Some h, Some l) \<Rightarrow> char_of (16 * h + l) # url_decode_bytes cs
         | _ \<Rightarrow> c # url_decode_bytes (hi # lo # cs))
      else (if c = CHR 0x2B then CHR 0x20 else c) # url_decode_bytes (hi # lo # cs))"
| "url_decode_bytes (c # cs) = (if c = CHR 0x2B then CHR 0x20 else c) # url_decode_bytes cs"

definition url_decode :: "string \<Rightarrow> string" where
  "url_decode s = from_utf8_lossy (url_decode_bytes s)"


lemma byte_less [simp]: "byte c < 256"
  by (simp add: byte_def)

lemma char_of_byte [simp]: "char_of (byte c) = c"
  by (simp add: byte_def)

lemma byte_char_of: "n < 256 \<Longrightarrow> byte (char_of n) = n"
  by (simp add: byte_def)

lemma hex_value_digit [simp]:
  assumes "d < 16"
  shows "hex_value (hex_digit d) = Some d"
  using assms by (auto simp: hex_value_def hex_digit_def byte_char_of Let_def)

lemma unreserved_not_special: "is_unreserved c \<Longrightarrow> c \<noteq> CHR 0x25 \<and> c \<noteq> CHR 0x2B"
  by (auto simp: is_unreserved_def byte_def)

lemma url_decode_plain:
  assumes "c \<noteq> CHR 0x25"
  shows "url_decode_bytes (c # s) = (if c = CHR 0x2B then CHR 0x20 else c) # url_decode_bytes s"
proof (cases s)
  case (Cons d s')
  then show ?thesis using assms by (cases s') auto
qed simp

lemma url_decode_percent: "url_decode_bytes (percent c @ s) = c # url_decode_bytes s"
proof -
  have "byte c div 16 < 16" using byte_less [of c] by (intro less_mult_imp_div_less) simp
  then show ?thesis by (simp add: percent_def)
qed

lemma url_decode_encode_bytes: "url_decode_bytes (url_encode s) = s"
proof (induction s)
  case (Cons c s)
  have "url_encode (c # s) = (if is_unreserved c then [c] else percent c) @ url_encode s"
    by (simp add: url_encode_def)
  then show ?case
    using Cons unreserved_not_special [of c] url_decode_plain [of c "url_encode s"] url_decode_percent [of c "url_encode s"]
    by simp
qed (simp add: url_encode_def)

lemma url_decode_encode: "valid_utf8 s \<Longrightarrow> url_decode (url_encode s) = s"
  by (simp add: url_decode_def url_decode_encode_bytes lossy_valid)

section \<open>Character positions\<close>

lemma char_offset_le: "char_offset k s \<le> length s"
  by (induction k s rule: char_offset.induct) (auto split: nat.splits)

lemma char_offset_mono: "j \<le> k \<Longrightarrow> char_offset j s \<le> char_offset k s"
  by (induction j s arbitrary: k rule: char_offset.induct) (auto split: nat.splits)

lemma char_offset_end: "char_count s \<le> k \<Longrightarrow> char_offset k s = length s"
  by (induction k s rule: char_offset.induct) (auto simp: char_count_def split: nat.splits if_splits)

text \<open>Cutting at a character offset leaves exactly that many characters before the cut.\<close>

lemma char_count_take: "char_count (take (char_offset k s) s) = min k (char_count s)"
  by (induction k s rule: char_offset.induct) (auto simp: char_count_def split: nat.splits)

section \<open>Checked operations\<close>

definition check_string_len :: "string \<Rightarrow> nat \<Rightarrow> runtime_error + unit" where
  "check_string_len s limit = (if limit < length s then Inl (StringTooLong (length s) limit) else Inr ())"

definition checked_value_str :: "nat \<Rightarrow> string \<Rightarrow> runtime_error + dsl_value" where
  "checked_value_str limit s =
     (case check_string_len s limit of Inl e \<Rightarrow> Inl e | Inr _ \<Rightarrow> Inr (VStr s))"

definition checked_value_opt_str :: "nat \<Rightarrow> string option \<Rightarrow> runtime_error + dsl_value" where
  "checked_value_opt_str limit o' =
     (case o' of Some v \<Rightarrow> checked_value_str limit v | None \<Rightarrow> Inr VNil)"

definition int_result :: "string \<Rightarrow> int option \<Rightarrow> runtime_error + dsl_value" where
  "int_result operation r = (case r of Some n \<Rightarrow> Inr (VInt n) | None \<Rightarrow> Inl (IntegerOverflow operation))"

fun v_add :: "nat \<Rightarrow> dsl_value \<Rightarrow> dsl_value \<Rightarrow> runtime_error + dsl_value" where
  "v_add limit (VInt a) (VInt b) = int_result ''+'' (checked_i64 (a + b))"
| "v_add limit (VStr a) b = checked_value_str limit (a @ into_string b)"
| "v_add limit a (VStr b) = checked_value_str limit (into_string a @ b)"
| "v_add limit a b = Inl (TypeError ''Int or Str'' (type_name a) ''+'')"

fun v_sub :: "dsl_value \<Rightarrow> dsl_value \<Rightarrow> runtime_error + dsl_value" where
  "v_sub (VInt a) (VInt b) = int_result ''-'' (checked_i64 (a - b))"
| "v_sub a b = Inl (TypeError ''Int'' (type_name a) ''-'')"

fun v_mul :: "dsl_value \<Rightarrow> dsl_value \<Rightarrow> runtime_error + dsl_value" where
  "v_mul (VInt a) (VInt b) = int_result ''*'' (checked_i64 (a * b))"
| "v_mul a b = Inl (TypeError ''Int'' (type_name a) ''*'')"

fun v_div :: "dsl_value \<Rightarrow> dsl_value \<Rightarrow> runtime_error + dsl_value" where
  "v_div (VInt a) (VInt b) =
     (if b = 0 then Inl DivisionByZero else int_result ''/'' (checked_i64 (a sdiv b)))"
| "v_div a b = Inl (TypeError ''Int'' (type_name a) ''/'')"

fun v_neg :: "dsl_value \<Rightarrow> runtime_error + dsl_value" where
  "v_neg (VInt n) = int_result ''unary -'' (checked_i64 (- n))"
| "v_neg v = Inl (TypeError ''Int'' (type_name v) ''unary -'')"

fun v_compare ::
  "string \<Rightarrow> (int \<Rightarrow> int \<Rightarrow> bool) \<Rightarrow> (string \<Rightarrow> string \<Rightarrow> bool) \<Rightarrow> dsl_value \<Rightarrow> dsl_value \<Rightarrow> runtime_error + dsl_value"
where
  "v_compare operation on_int on_str (VInt a) (VInt b) = Inr (VBool (on_int a b))"
| "v_compare operation on_int on_str (VStr a) (VStr b) = Inr (VBool (on_str a b))"
| "v_compare operation on_int on_str a b =
     Inl (TypeError ''matching comparable types (Int/Int or Str/Str)'' (type_name a) operation)"

definition v_less :: "dsl_value \<Rightarrow> dsl_value \<Rightarrow> runtime_error + dsl_value" where
  "v_less = v_compare ''<'' (<) str_less"

definition v_greater :: "dsl_value \<Rightarrow> dsl_value \<Rightarrow> runtime_error + dsl_value" where
  "v_greater = v_compare ''>'' (>) (\<lambda>a b. str_less b a)"

definition v_less_eq :: "dsl_value \<Rightarrow> dsl_value \<Rightarrow> runtime_error + dsl_value" where
  "v_less_eq = v_compare ''<='' (\<le>) (\<lambda>a b. \<not> str_less b a)"

definition v_greater_eq :: "dsl_value \<Rightarrow> dsl_value \<Rightarrow> runtime_error + dsl_value" where
  "v_greater_eq = v_compare ''>='' (\<ge>) (\<lambda>a b. \<not> str_less a b)"

fun v_string_test :: "(string \<Rightarrow> string \<Rightarrow> bool) \<Rightarrow> dsl_value \<Rightarrow> dsl_value \<Rightarrow> dsl_value" where
  "v_string_test test (VStr s) (VStr p) = VBool (test s p)"
| "v_string_test test s p = VBool False"

fun v_len :: "dsl_value \<Rightarrow> runtime_error + dsl_value" where
  "v_len (VStr s) = Inr (VInt (int (char_count s)))"
| "v_len VNil = Inr (VInt 0)"
| "v_len (VList l) = Inr (VInt (int (length l)))"
| "v_len v = Inl (TypeError ''Str'' (type_name v) ''len()'')"

definition index_arg :: "dsl_value \<Rightarrow> nat" where
  "index_arg v = nat (max (case as_int v of Some n \<Rightarrow> n | None \<Rightarrow> 0) 0)"

fun v_substr :: "nat \<Rightarrow> dsl_value \<Rightarrow> dsl_value \<Rightarrow> dsl_value \<Rightarrow> runtime_error + dsl_value" where
  "v_substr limit (VStr s) start end' =
     (let n = char_count s; i = min (index_arg start) n; j = min (index_arg end') n
      in if i \<le> j
         then checked_value_str limit (take (char_offset j s - char_offset i s) (drop (char_offset i s) s))
         else Inr (VStr []))"
| "v_substr limit VNil start end' = Inr (VStr [])"
| "v_substr limit v start end' = Inl (TypeError ''Str'' (type_name v) ''substr()'')"

fun v_to_int :: "dsl_value \<Rightarrow> dsl_value" where
  "v_to_int (VStr s) = (case parse_i64 s of Some n \<Rightarrow> VInt n | None \<Rightarrow> VNil)"
| "v_to_int (VInt n) = VInt n"
| "v_to_int v = VNil"

fun v_list_len :: "dsl_value \<Rightarrow> dsl_value" where
  "v_list_len (VList l) = VInt (int (length l))"
| "v_list_len v = VInt 0"

fun v_list_get :: "dsl_value \<Rightarrow> dsl_value \<Rightarrow> dsl_value" where
  "v_list_get (VList l) (VInt i) = (if i < 0 then VNil else value_of_option (nth_opt l (nat i)))"
| "v_list_get v i = VNil"

end
