(* ===== verification/Dsl_Bytecode.thy ===== *)
theory Dsl_Bytecode
  imports Dsl_Value
begin

text \<open>
  The abstract syntax (dsl/lang/ast.rs) and the instruction set (dsl/lang/bytecode.rs) of
  EdgionDSL. Source spans, which only label diagnostics, are left out of the syntax trees.
  An instruction operand of type \<open>u16\<close> or \<open>u8\<close> is a natural number, a jump offset an integer.
\<close>

section \<open>Syntax trees\<close>

datatype bin_op =
    BinAdd | BinSub | BinMul | BinDiv
  | BinEq | BinNe | BinLt | BinGt | BinLe | BinGe
  | BinAnd | BinOr

datatype unary_op = UnNot | UnNeg

datatype expr =
    StringLit string
  | IntLit int
  | BoolLit bool
  | NilLit
  | Ident string
  | BinaryOp bin_op expr expr
  | UnaryOp unary_op expr
  | MethodCall expr string "expr list"
  | FnCall string "expr list"
  | FieldAccess expr string

datatype stmt =
    LetStmt string bool expr
  | Assign string expr
  | IfStmt "(expr \<times> stmt list) list" "stmt list option"
  | ForIn string expr "stmt list"
  | ForRange string expr expr "stmt list"
  | While expr "stmt list"
  | ReturnDeny expr expr
  | ReturnNext
  | ExprStmt expr

type_synonym program = "stmt list"

fun precedence :: "bin_op \<Rightarrow> nat" where
  "precedence BinOr = 1"
| "precedence BinAnd = 2"
| "precedence BinEq = 3"
| "precedence BinNe = 3"
| "precedence BinLt = 4"
| "precedence BinGt = 4"
| "precedence BinLe = 4"
| "precedence BinGe = 4"
| "precedence BinAdd = 5"
| "precedence BinSub = 5"
| "precedence BinMul = 6"
| "precedence BinDiv = 6"

section \<open>Instructions\<close>

datatype builtin_id =
    ReqHeader | ReqMethod | ReqPath | ReqQuery | ReqQueryString
  | ReqCookie | ReqClientIp | ReqRemoteIp | ReqPathParam | ReqHeaderNames
  | ReqScheme | ReqHost | ReqUri | ReqContentType | ReqHasHeader
  | ReqSetHeader | ReqAppendHeader | ReqRemoveHeader | ReqSetUri | ReqSetHost
  | ReqSetMethod
  | RespSetHeader | RespAppendHeader | RespRemoveHeader
  | CtxGet | CtxSet | CtxRemove
  | Log | Len | Substr | ToInt | ToStr
  | ToUpper | ToLower | Base64Encode | Base64Decode | UrlEncode
  | UrlDecode | Sha256 | Md5 | TimeNow | RegexFind
  | RegexReplace | Range

datatype opcode =
    LoadConst nat
  | LoadNil
  | LoadTrue
  | LoadFalse
  | OpPop
  | GetLocal nat
  | SetLocal nat
  | OpAdd | OpSub | OpMul | OpDiv | OpNeg
  | Equal | NotEqual | Less | Greater | LessEqual | GreaterEqual
  | OpNot
  | StartsWith | EndsWith | Contains | Matches nat
  | Jump int
  | JumpIfFalse int
  | LoopBack int
  | LoopInit
  | LoopEnd
  | ListGet
  | ListLen
  | CallBuiltin builtin_id nat
  | OpReturnNext
  | OpReturnDeny

datatype dsl_constant =
    CStr string
  | CInt int
  | CRegex string

record compiled_script =
  cs_version :: nat
  cs_code :: "opcode list"
  cs_constants :: "dsl_constant list"
  cs_local_count :: nat
  cs_max_loop_depth :: nat
  cs_source :: "string option"

fun builtin_expected_argc :: "builtin_id \<Rightarrow> nat" where
  "builtin_expected_argc ReqHeader = 1"
| "builtin_expected_argc ReqMethod = 0"
| "builtin_expected_argc ReqPath = 0"
| "builtin_expected_argc ReqQuery = 1"
| "builtin_expected_argc ReqQueryString = 0"
| "builtin_expected_argc ReqCookie = 1"
| "builtin_expected_argc ReqClientIp = 0"
| "builtin_expected_argc ReqRemoteIp = 0"
| "builtin_expected_argc ReqPathParam = 1"
| "builtin_expected_argc ReqHeaderNames = 0"
| "builtin_expected_argc ReqScheme = 0"
| "builtin_expected_argc ReqHost = 0"
| "builtin_expected_argc ReqUri = 0"
| "builtin_expected_argc ReqContentType = 0"
| "builtin_expected_argc ReqHasHeader = 1"
| "builtin_expected_argc ReqSetHeader = 2"
| "builtin_expected_argc ReqAppendHeader = 2"
| "builtin_expected_argc ReqRemoveHeader = 1"
| "builtin_expected_argc ReqSetUri = 1"
| "builtin_expected_argc ReqSetHost = 1"
| "builtin_expected_argc ReqSetMethod = 1"
| "builtin_expected_argc RespSetHeader = 2"
| "builtin_expected_argc RespAppendHeader = 2"
| "builtin_expected_argc RespRemoveHeader = 1"
| "builtin_expected_argc CtxGet = 1"
| "builtin_expected_argc CtxSet = 2"
| "builtin_expected_argc CtxRemove = 1"
| "builtin_expected_argc Log = 1"
| "builtin_expected_argc Len = 1"
| "builtin_expected_argc Substr = 3"
| "builtin_expected_argc ToInt = 1"
| "builtin_expected_argc ToStr = 1"
| "builtin_expected_argc ToUpper = 1"
| "builtin_expected_argc ToLower = 1"
| "builtin_expected_argc Base64Encode = 1"
| "builtin_expected_argc Base64Decode = 1"
| "builtin_expected_argc UrlEncode = 1"
| "builtin_expected_argc UrlDecode = 1"
| "builtin_expected_argc Sha256 = 1"
| "builtin_expected_argc Md5 = 1"
| "builtin_expected_argc TimeNow = 0"
| "builtin_expected_argc RegexFind = 2"
| "builtin_expected_argc RegexReplace = 3"
| "builtin_expected_argc Range = 2"

end
