(* ===== verification/Plugin_Log.thy ===== *)
theory Plugin_Log
  imports Edgion_Prelude
begin

text \<open>
  The execution log of a plugin (src/core/gateway/plugins/runtime/log.rs) and its two
  buffers (src/core/gateway/observe/logs/buffer.rs). A buffer stores the bytes of all
  entries back to back and the end position of each; it is refined to the list of the
  entries it accepted. The result of running a plugin (src/types/filters.rs) is declared here too.
\<close>

datatype plugin_result =
    Nothing
  | GoodNext
  | ErrTerminateRequest
  | ErrResponse nat "string option"

section \<open>Buffers\<close>

record log_buffer =
  lb_buffer :: string
  lb_positions :: "nat list"

definition log_buffer_new :: log_buffer where
  "log_buffer_new = \<lparr>lb_buffer = [], lb_positions = []\<rparr>"

definition log_buffer_push :: "string \<Rightarrow> log_buffer \<Rightarrow> bool \<times> log_buffer" where
  "log_buffer_push s b =
     (if 20 \<le> length (lb_positions b) then (False, b)
      else if 100 < length (lb_buffer b) + length s then (False, b)
      else (True, \<lparr>lb_buffer = lb_buffer b @ s,
                   lb_positions = lb_positions b @ [length (lb_buffer b) + length s]\<rparr>))"

definition ulog_buffer_push :: "string \<Rightarrow> log_buffer \<Rightarrow> bool \<times> log_buffer" where
  "ulog_buffer_push s b =
     (if 512 < length (lb_buffer b) + length s then (False, b)
      else (True, \<lparr>lb_buffer = lb_buffer b @ s,
                   lb_positions = lb_positions b @ [length (lb_buffer b) + length s]\<rparr>))"

fun serialize_from :: "string \<Rightarrow> nat \<Rightarrow> nat list \<Rightarrow> string list" where
  "serialize_from buf start [] = []"
| "serialize_from buf start (e # es) = take (e - start) (drop start buf) # serialize_from buf e es"

definition serialize_buffer :: "log_buffer \<Rightarrow> string list" where
  "serialize_buffer b = serialize_from (lb_buffer b) 0 (lb_positions b)"

section \<open>The log entry of a plugin\<close>

record plugin_log =
  pl_name :: string
  pl_time_cost :: "u64 option"
  pl_cond_skip :: "string option"
  pl_log :: "log_buffer option"
  pl_ulog :: "log_buffer option"
  pl_log_full :: "bool option"
  pl_refer_to :: "string option"

definition plugin_log_new :: "string \<Rightarrow> plugin_log" where
  "plugin_log_new name =
     \<lparr>pl_name = name, pl_time_cost = None, pl_cond_skip = None, pl_log = None, pl_ulog = None,
      pl_log_full = None, pl_refer_to = None\<rparr>"

definition log_push :: "string \<Rightarrow> plugin_log \<Rightarrow> bool \<times> plugin_log" where
  "log_push s l =
     (let (ok, b) = log_buffer_push s (case pl_log l of Some b \<Rightarrow> b | None \<Rightarrow> log_buffer_new);
          l = l\<lparr>pl_log := Some b\<rparr>
      in if ok then (True, l) else (False, l\<lparr>pl_log_full := Some True\<rparr>))"

definition log_u_push :: "string \<Rightarrow> plugin_log \<Rightarrow> bool \<times> plugin_log" where
  "log_u_push s l =
     (let (ok, b) = ulog_buffer_push s (case pl_ulog l of Some b \<Rightarrow> b | None \<Rightarrow> log_buffer_new)
      in (ok, l\<lparr>pl_ulog := Some b\<rparr>))"

definition set_cond_skip :: "string \<Rightarrow> plugin_log \<Rightarrow> plugin_log" where
  "set_cond_skip reason l = l\<lparr>pl_cond_skip := Some reason\<rparr>"

definition is_cond_skipped :: "plugin_log \<Rightarrow> bool" where
  "is_cond_skipped l \<longleftrightarrow> pl_cond_skip l \<noteq> None"

definition set_refer_to :: "string \<Rightarrow> plugin_log \<Rightarrow> plugin_log" where
  "set_refer_to name l = l\<lparr>pl_refer_to := Some name\<rparr>"

section \<open>Refinement to the accepted entries\<close>

text \<open>The end positions that the entries \<open>es\<close> have when they are stored back to back from \<open>n\<close>.\<close>

fun ends_from :: "nat \<Rightarrow> string list \<Rightarrow> nat list" where
  "ends_from n [] = []"
| "ends_from n (e # es) = (n + length e) # ends_from (n + length e) es"

definition holds_entries :: "log_buffer \<Rightarrow> string list \<Rightarrow> bool" where
  "holds_entries b es \<longleftrightarrow> lb_buffer b = concat es \<and> lb_positions b = ends_from 0 es"

definition accepts :: "string list \<Rightarrow> string \<Rightarrow> bool" where
  "accepts es s \<longleftrightarrow> length es < 20 \<and> length (concat es) + length s \<le> 100"

definition accept_entry :: "string \<Rightarrow> string list \<Rightarrow> string list" where
  "accept_entry s es = (if accepts es s then es @ [s] else es)"

lemma ends_from_snoc: "ends_from n (es @ [e]) = ends_from n es @ [n + length (concat es) + length e]"
  by (induction es arbitrary: n) (auto simp: add.assoc)

lemma length_ends_from [simp]: "length (ends_from n es) = length es"
  by (induction es arbitrary: n) auto

lemma serialize_ends_from:
  "serialize_from (pre @ concat es) (length pre) (ends_from (length pre) es) = es"
proof (induction es arbitrary: pre)
  case (Cons e es)
  then show ?case using Cons.IH [of "pre @ e"] by simp
qed simp

lemma serialize_entries: "holds_entries b es \<Longrightarrow> serialize_buffer b = es"
  using serialize_ends_from [of "[]" es] by (simp add: holds_entries_def serialize_buffer_def)

lemma holds_entries_new [simp]: "holds_entries log_buffer_new es \<longleftrightarrow> es = []"
  by (cases es) (auto simp: holds_entries_def log_buffer_new_def)

lemma buffer_push_entries:
  assumes "holds_entries b es"
  shows "fst (log_buffer_push s b) = accepts es s \<and> holds_entries (snd (log_buffer_push s b)) (accept_entry s es)"
  using assms
  by (auto simp: log_buffer_push_def accept_entry_def accepts_def holds_entries_def ends_from_snoc)

definition log_entries :: "plugin_log \<Rightarrow> string list" where
  "log_entries l = (case pl_log l of None \<Rightarrow> [] | Some b \<Rightarrow> serialize_buffer b)"

definition log_ok :: "plugin_log \<Rightarrow> string list \<Rightarrow> bool" where
  "log_ok l es \<longleftrightarrow> (case pl_log l of None \<Rightarrow> es = [] | Some b \<Rightarrow> holds_entries b es)"

lemma log_push_entries:
  assumes "log_ok l es"
  shows "fst (log_push s l) = accepts es s \<and> log_ok (snd (log_push s l)) (accept_entry s es)
         \<and> pl_log_full (snd (log_push s l)) = (if accepts es s then pl_log_full l else Some True)"
proof -
  let ?b = "case pl_log l of Some b \<Rightarrow> b | None \<Rightarrow> log_buffer_new"
  have "holds_entries ?b es" using assms by (auto simp: log_ok_def split: option.splits)
  from buffer_push_entries [OF this, of s] show ?thesis
    by (auto simp: log_push_def log_ok_def Let_def split: prod.splits)
qed

lemma accept_entry_bounds:
  "length es \<le> 20 \<and> length (concat es) \<le> 100 \<Longrightarrow>
   length (accept_entry s es) \<le> 20 \<and> length (concat (accept_entry s es)) \<le> 100"
  by (auto simp: accept_entry_def accepts_def)

text \<open>A whole run of pushes from a fresh log.\<close>

lemma log_run:
  assumes "log_ok l es" "length es \<le> 20 \<and> length (concat es) \<le> 100"
  shows "log_ok (fold (\<lambda>s l. snd (log_push s l)) ss l) (fold accept_entry ss es)
         \<and> length (fold accept_entry ss es) \<le> 20 \<and> length (concat (fold accept_entry ss es)) \<le> 100"
  using assms
proof (induction ss arbitrary: l es)
  case (Cons s ss)
  have "log_ok (snd (log_push s l)) (accept_entry s es)" using log_push_entries [OF Cons.prems(1)] by blast
  from Cons.IH [OF this accept_entry_bounds [OF Cons.prems(2)]] show ?case by simp
qed simp

lemma length_accepted: "length (fold accept_entry ss es) \<le> length es + length ss"
proof (induction ss arbitrary: es)
  case (Cons s ss)
  show ?case using Cons.IH [of "accept_entry s es"] by (auto simp: accept_entry_def split: if_splits)
qed simp

lemma log_full_run:
  assumes "log_ok l es"
  shows "pl_log_full (fold (\<lambda>s l. snd (log_push s l)) ss l) =
    (if length (fold accept_entry ss es) = length es + length ss then pl_log_full l else Some True)"
  using assms
proof (induction ss arbitrary: l es)
  case (Cons s ss)
  have acc: "accept_entry s es = (if accepts es s then es @ [s] else es)" by (rule accept_entry_def)
  show ?case
    using log_push_entries [OF Cons.prems, of s] Cons.IH length_accepted [of ss es]
    by (cases "accepts es s") (auto simp: acc)
qed simp

text \<open>
  C30: A fresh plugin log that receives any sequence of messages serializes to exactly the
  messages its buffer accepted, in order and unchanged, never more than 20 of them and never
  more than 100 bytes in all, and it is marked full exactly when some message was dropped.
\<close>

theorem log_keeps_accepted_entries:
  "let l = fold (\<lambda>s l. snd (log_push s l)) ss (plugin_log_new name);
       kept = fold accept_entry ss []
   in log_entries l = kept \<and> length kept \<le> 20 \<and> length (concat kept) \<le> 100
      \<and> (pl_log_full l = Some True \<longleftrightarrow> length kept < length ss)"
proof -
  let ?l0 = "plugin_log_new name"
  have ok: "log_ok ?l0 []" by (simp add: log_ok_def plugin_log_new_def)
  show ?thesis
    using log_run [OF ok, of ss] log_full_run [OF ok, of ss] length_accepted [of ss "[]"]
    by (auto simp: Let_def log_entries_def log_ok_def serialize_entries plugin_log_new_def split: option.splits)
qed

end
