(* ===== verification/Dsl_Vm.thy ===== *)
theory Dsl_Vm
  imports Dsl_Bytecode Plugin_Log
begin

text \<open>
  The stack machine that runs compiled EdgionDSL scripts (dsl/lang/vm.rs) with its builtins
  (dsl/lang/builtins.rs). The machine keeps the top of the value stack and the innermost loop
  counter at the head of their lists. What the machine calls outside the DSL is a parameter:
  the request session (the trait \<open>PluginSession\<close>), the regex and base64 crates, the clock, and
  the Unicode case tables. The step budget is the recursion argument of the interpreter loop.
\<close>

section \<open>Limits\<close>

record vm_limits =
  max_steps :: nat
  max_loop_iterations :: nat
  max_call_count :: nat
  max_stack_depth :: nat
  max_string_len :: nat

definition default_vm_limits :: vm_limits where
  "default_vm_limits =
     \<lparr>max_steps = 10000, max_loop_iterations = 100, max_call_count = 500, max_stack_depth = 128,
      max_string_len = 8192\<rparr>"

datatype dsl_error_policy =
    Ignore
  | Deny
  | DenyWith nat "string option"

section \<open>The environment of a script\<close>

text \<open>
  A mutating session operation returns whether it succeeded and the session it leaves.
\<close>

record ('s, 'r) vm_env =
  header_value :: "'s \<Rightarrow> string \<Rightarrow> string option"
  request_headers :: "'s \<Rightarrow> (string \<times> string) list"
  get_method :: "'s \<Rightarrow> string"
  get_path :: "'s \<Rightarrow> string"
  get_query :: "'s \<Rightarrow> string option"
  get_query_param :: "'s \<Rightarrow> string \<Rightarrow> string option"
  get_cookie :: "'s \<Rightarrow> string \<Rightarrow> string option"
  client_addr :: "'s \<Rightarrow> string"
  remote_addr :: "'s \<Rightarrow> string"
  get_path_param :: "'s \<Rightarrow> string \<Rightarrow> string option \<times> 's"
  get_ctx_var :: "'s \<Rightarrow> string \<Rightarrow> string option"
  set_request_header :: "'s \<Rightarrow> string \<Rightarrow> string \<Rightarrow> bool \<times> 's"
  append_request_header :: "'s \<Rightarrow> string \<Rightarrow> string \<Rightarrow> bool \<times> 's"
  remove_request_header :: "'s \<Rightarrow> string \<Rightarrow> bool \<times> 's"
  set_upstream_uri :: "'s \<Rightarrow> string \<Rightarrow> bool \<times> 's"
  set_upstream_host :: "'s \<Rightarrow> string \<Rightarrow> bool \<times> 's"
  set_upstream_method :: "'s \<Rightarrow> string \<Rightarrow> bool \<times> 's"
  set_response_header :: "'s \<Rightarrow> string \<Rightarrow> string \<Rightarrow> bool \<times> 's"
  append_response_header :: "'s \<Rightarrow> string \<Rightarrow> string \<Rightarrow> bool \<times> 's"
  remove_response_header :: "'s \<Rightarrow> string \<Rightarrow> bool \<times> 's"
  set_ctx_var :: "'s \<Rightarrow> string \<Rightarrow> string \<Rightarrow> bool \<times> 's"
  remove_ctx_var :: "'s \<Rightarrow> string \<Rightarrow> bool \<times> 's"
  unix_now :: "'s \<Rightarrow> int"
  to_uppercase :: "string \<Rightarrow> string"
  to_lowercase :: "string \<Rightarrow> string"
  base64_encode :: "string \<Rightarrow> string"
  base64_decode :: "string \<Rightarrow> string option"
  regex_new :: "string \<Rightarrow> string + 'r"
  is_match :: "'r \<Rightarrow> string \<Rightarrow> bool"

text \<open>What a script can change outside its own stack and variables.\<close>

record 's world =
  w_session :: 's
  w_log :: plugin_log
  w_calls :: nat

section \<open>Builtins\<close>

definition arg :: "dsl_value list \<Rightarrow> nat \<Rightarrow> dsl_value" where
  "arg args i = (if i < length args then args ! i else VNil)"

definition str_arg :: "dsl_value list \<Rightarrow> nat \<Rightarrow> string" where
  "str_arg args i = into_string (arg args i)"

definition api_error :: "string \<Rightarrow> runtime_error" where
  "api_error function = ApiError function ''plugin session operation failed''"

definition api_call :: "string \<Rightarrow> bool \<times> 's \<Rightarrow> 's world \<Rightarrow> (runtime_error + dsl_value) \<times> 's world" where
  "api_call function r w =
     (if fst r then Inr VNil else Inl (api_error function), w\<lparr>w_session := snd r\<rparr>)"

definition header_names :: "nat \<Rightarrow> (string \<times> string) list \<Rightarrow> runtime_error + dsl_value" where
  "header_names limit headers =
     (let names = map fst (take 256 headers)
      in case find (\<lambda>k. limit < length k) names of
           Some k \<Rightarrow> Inl (StringTooLong (length k) limit)
         | None \<Rightarrow> Inr (VList names))"

definition request_uri :: "string \<Rightarrow> string option \<Rightarrow> string" where
  "request_uri path query =
     (case query of
        Some q \<Rightarrow> if q \<noteq> [] then path @ ''?'' @ q else path
      | None \<Rightarrow> path)"

definition request_scheme :: "('s, 'r) vm_env \<Rightarrow> 's \<Rightarrow> string" where
  "request_scheme env s =
     (case header_value env s ''X-Forwarded-Proto'' of
        Some p \<Rightarrow> p
      | None \<Rightarrow> (case header_value env s ''X-Scheme'' of Some p \<Rightarrow> p | None \<Rightarrow> ''http''))"

definition not_implemented :: "string \<Rightarrow> runtime_error" where
  "not_implemented function = ApiError function (function @ ''() is not yet implemented'')"

text \<open>A builtin on its arguments in the order of the call.\<close>

fun builtin_op ::
  "('s, 'r) vm_env \<Rightarrow> nat \<Rightarrow> builtin_id \<Rightarrow> dsl_value list \<Rightarrow> 's world \<Rightarrow> (runtime_error + dsl_value) \<times> 's world"
where
  "builtin_op env lim ReqHeader a w = (checked_value_opt_str lim (header_value env (w_session w) (str_arg a 0)), w)"
| "builtin_op env lim ReqMethod a w = (checked_value_str lim (get_method env (w_session w)), w)"
| "builtin_op env lim ReqPath a w = (checked_value_str lim (get_path env (w_session w)), w)"
| "builtin_op env lim ReqQuery a w = (checked_value_opt_str lim (get_query_param env (w_session w) (str_arg a 0)), w)"
| "builtin_op env lim ReqQueryString a w = (checked_value_opt_str lim (get_query env (w_session w)), w)"
| "builtin_op env lim ReqCookie a w = (checked_value_opt_str lim (get_cookie env (w_session w) (str_arg a 0)), w)"
| "builtin_op env lim ReqClientIp a w = (checked_value_str lim (client_addr env (w_session w)), w)"
| "builtin_op env lim ReqRemoteIp a w = (checked_value_str lim (remote_addr env (w_session w)), w)"
| "builtin_op env lim ReqPathParam a w =
     (let (v, s) = get_path_param env (w_session w) (str_arg a 0)
      in (checked_value_opt_str lim v, w\<lparr>w_session := s\<rparr>))"
| "builtin_op env lim ReqHeaderNames a w = (header_names lim (request_headers env (w_session w)), w)"
| "builtin_op env lim ReqScheme a w = (checked_value_str lim (request_scheme env (w_session w)), w)"
| "builtin_op env lim ReqHost a w = (checked_value_opt_str lim (header_value env (w_session w) ''Host''), w)"
| "builtin_op env lim ReqUri a w =
     (checked_value_str lim (request_uri (get_path env (w_session w)) (get_query env (w_session w))), w)"
| "builtin_op env lim ReqContentType a w =
     (checked_value_opt_str lim (header_value env (w_session w) ''Content-Type''), w)"
| "builtin_op env lim ReqHasHeader a w =
     (Inr (VBool (header_value env (w_session w) (str_arg a 0) \<noteq> None)), w)"
| "builtin_op env lim ReqSetHeader a w =
     api_call ''req.set_header'' (set_request_header env (w_session w) (str_arg a 0) (str_arg a 1)) w"
| "builtin_op env lim ReqAppendHeader a w =
     api_call ''req.append_header'' (append_request_header env (w_session w) (str_arg a 0) (str_arg a 1)) w"
| "builtin_op env lim ReqRemoveHeader a w =
     api_call ''req.remove_header'' (remove_request_header env (w_session w) (str_arg a 0)) w"
| "builtin_op env lim ReqSetUri a w =
     api_call ''req.set_uri'' (set_upstream_uri env (w_session w) (str_arg a 0)) w"
| "builtin_op env lim ReqSetHost a w =
     api_call ''req.set_host'' (set_upstream_host env (w_session w) (str_arg a 0)) w"
| "builtin_op env lim ReqSetMethod a w =
     api_call ''req.set_method'' (set_upstream_method env (w_session w) (str_arg a 0)) w"
| "builtin_op env lim RespSetHeader a w =
     api_call ''resp.set_header'' (set_response_header env (w_session w) (str_arg a 0) (str_arg a 1)) w"
| "builtin_op env lim RespAppendHeader a w =
     api_call ''resp.append_header'' (append_response_header env (w_session w) (str_arg a 0) (str_arg a 1)) w"
| "builtin_op env lim RespRemoveHeader a w =
     api_call ''resp.remove_header'' (remove_response_header env (w_session w) (str_arg a 0)) w"
| "builtin_op env lim CtxGet a w = (checked_value_opt_str lim (get_ctx_var env (w_session w) (str_arg a 0)), w)"
| "builtin_op env lim CtxSet a w =
     api_call ''ctx.set'' (set_ctx_var env (w_session w) (str_arg a 0) (str_arg a 1)) w"
| "builtin_op env lim CtxRemove a w =
     api_call ''ctx.remove'' (remove_ctx_var env (w_session w) (str_arg a 0)) w"
| "builtin_op env lim Log a w = (Inr VNil, w\<lparr>w_log := snd (log_push (str_arg a 0) (w_log w))\<rparr>)"
| "builtin_op env lim Len a w = (v_len (arg a 0), w)"
| "builtin_op env lim Substr a w = (v_substr lim (arg a 0) (arg a 1) (arg a 2), w)"
| "builtin_op env lim ToInt a w = (Inr (v_to_int (arg a 0)), w)"
| "builtin_op env lim ToStr a w = (checked_value_str lim (str_arg a 0), w)"
| "builtin_op env lim ToUpper a w = (checked_value_str lim (to_uppercase env (str_arg a 0)), w)"
| "builtin_op env lim ToLower a w = (checked_value_str lim (to_lowercase env (str_arg a 0)), w)"
| "builtin_op env lim Base64Encode a w = (checked_value_str lim (base64_encode env (str_arg a 0)), w)"
| "builtin_op env lim Base64Decode a w =
     (checked_value_opt_str lim (map_option from_utf8_lossy (base64_decode env (str_arg a 0))), w)"
| "builtin_op env lim UrlEncode a w = (checked_value_str lim (url_encode (str_arg a 0)), w)"
| "builtin_op env lim UrlDecode a w = (checked_value_str lim (url_decode (str_arg a 0)), w)"
| "builtin_op env lim Sha256 a w = (Inl (not_implemented ''sha256''), w)"
| "builtin_op env lim Md5 a w = (Inl (not_implemented ''md5''), w)"
| "builtin_op env lim TimeNow a w = (Inr (VInt (unix_now env (w_session w))), w)"
| "builtin_op env lim RegexFind a w = (Inl (not_implemented ''regex_find''), w)"
| "builtin_op env lim RegexReplace a w = (Inl (not_implemented ''regex_replace''), w)"
| "builtin_op env lim Range a w = (Inl (not_implemented ''range''), w)"

text \<open>How many values a builtin takes off the stack: its arguments, but none where it only fails.\<close>

definition builtin_pops :: "builtin_id \<Rightarrow> nat" where
  "builtin_pops b =
     (if b = Sha256 \<or> b = Md5 \<or> b = RegexFind \<or> b = RegexReplace \<or> b = Range then 0
      else builtin_expected_argc b)"

section \<open>Machine state\<close>

record 's vm_state =
  vs_pc :: nat
  vs_stack :: "dsl_value list"
  vs_locals :: "dsl_value list"
  vs_loops :: "nat list"
  vs_world :: "'s world"

record 'r vm =
  vm_script :: compiled_script
  vm_regex_cache :: "'r option list"
  vm_lim :: vm_limits

definition vm_state_new :: "nat \<Rightarrow> vm_limits \<Rightarrow> 's \<Rightarrow> plugin_log \<Rightarrow> 's vm_state" where
  "vm_state_new local_count limits session log =
     \<lparr>vs_pc = 0, vs_stack = [], vs_locals = replicate local_count VNil, vs_loops = [],
      vs_world = \<lparr>w_session = session, w_log = log, w_calls = max_call_count limits\<rparr>\<rparr>"

text \<open>
  One instruction gives an error, or None to go on with the new state, or the result that ends
  the script.
\<close>

type_synonym 's step_result = "(runtime_error + plugin_result option) \<times> 's vm_state"

definition push :: "nat \<Rightarrow> dsl_value \<Rightarrow> 's vm_state \<Rightarrow> 's step_result" where
  "push max_depth v st =
     (if max_depth \<le> length (vs_stack st) then (Inl (StackOverflow max_depth), st)
      else (Inr None, st\<lparr>vs_stack := v # vs_stack st\<rparr>))"

definition pop ::
  "'s vm_state \<Rightarrow> (dsl_value \<Rightarrow> 's vm_state \<Rightarrow> (runtime_error + 'a) \<times> 's vm_state) \<Rightarrow> (runtime_error + 'a) \<times> 's vm_state"
where
  "pop st k =
     (case vs_stack st of
        [] \<Rightarrow> (Inl (Internal ''stack underflow''), st)
      | v # vs \<Rightarrow> k v (st\<lparr>vs_stack := vs\<rparr>))"

fun pop_args ::
  "nat \<Rightarrow> dsl_value list \<Rightarrow> 's vm_state \<Rightarrow> (dsl_value list \<Rightarrow> 's vm_state \<Rightarrow> (runtime_error + 'a) \<times> 's vm_state)
     \<Rightarrow> (runtime_error + 'a) \<times> 's vm_state"
where
  "pop_args 0 acc st k = k acc st"
| "pop_args (Suc n) acc st k = pop st (\<lambda>v st. pop_args n (v # acc) st k)"

definition push_result :: "nat \<Rightarrow> (runtime_error + dsl_value) \<Rightarrow> 's vm_state \<Rightarrow> 's step_result" where
  "push_result max_depth r st = (case r of Inl e \<Rightarrow> (Inl e, st) | Inr v \<Rightarrow> push max_depth v st)"

definition tick_call :: "nat \<Rightarrow> 's vm_state \<Rightarrow> ('s vm_state \<Rightarrow> 's step_result) \<Rightarrow> 's step_result" where
  "tick_call limit st k =
     (if w_calls (vs_world st) = 0 then (Inl (CallLimitExceeded limit), st)
      else k (st\<lparr>vs_world := (vs_world st)\<lparr>w_calls := w_calls (vs_world st) - 1\<rparr>\<rparr>))"

definition call_builtin :: "('s, 'r) vm_env \<Rightarrow> vm_limits \<Rightarrow> builtin_id \<Rightarrow> 's vm_state \<Rightarrow> 's step_result" where
  "call_builtin env lim b st =
     pop_args (builtin_pops b) [] st (\<lambda>args st.
       let (r, w) = builtin_op env (max_string_len lim) b args (vs_world st)
       in push_result (max_stack_depth lim) r (st\<lparr>vs_world := w\<rparr>))"

definition jump_to :: "string \<Rightarrow> nat \<Rightarrow> int \<Rightarrow> 's vm_state \<Rightarrow> 's step_result" where
  "jump_to name code_len offset st =
     (let target = int (vs_pc st) + offset
      in if target < 0 \<or> int code_len < target
         then (Inl (Internal (name @ '' target '' @ show_int target @ '' out of bounds (code length: ''
                              @ show_nat code_len @ '')'')), st)
         else (Inr None, st\<lparr>vs_pc := nat target\<rparr>))"

definition const_value :: "dsl_constant \<Rightarrow> dsl_value" where
  "const_value c = (case c of CStr s \<Rightarrow> VStr s | CInt n \<Rightarrow> VInt n | CRegex _ \<Rightarrow> VNil)"

definition deny_status :: "dsl_value \<Rightarrow> nat" where
  "deny_status v =
     (case v of VInt n \<Rightarrow> if 100 \<le> n \<and> n \<le> 599 then nat n else 500 | _ \<Rightarrow> 500)"

definition deny_body :: "dsl_value \<Rightarrow> string option" where
  "deny_body v = (if v = VNil then None else Some (into_string v))"

definition regex_test :: "('s, 'r) vm_env \<Rightarrow> 'r option list \<Rightarrow> nat \<Rightarrow> dsl_value \<Rightarrow> dsl_value" where
  "regex_test env cache i v =
     VBool (case v of
              VStr s \<Rightarrow> (case nth_opt cache i of Some (Some re) \<Rightarrow> is_match env re s | _ \<Rightarrow> False)
            | _ \<Rightarrow> False)"


section \<open>Execution\<close>

definition vm_new :: "('s, 'r) vm_env \<Rightarrow> compiled_script \<Rightarrow> vm_limits \<Rightarrow> runtime_error + 'r vm" where
  "vm_new env script limits =
     (let compile = \<lambda>c. case c of
                CRegex p \<Rightarrow> (case regex_new env p of
                               Inl e \<Rightarrow> Inl (RegexError (''failed to compile regex '' @ [CHR 0x27] @ p @ [CHR 0x27] @ '': '' @ e))
                             | Inr re \<Rightarrow> Inr (Some re))
              | _ \<Rightarrow> Inr None
      in case find (\<lambda>c. isl (compile c)) (cs_constants script) of
           Some c \<Rightarrow> Inl (projl (compile c))
         | None \<Rightarrow> Inr \<lparr>vm_script = script,
                          vm_regex_cache = map (\<lambda>c. projr (compile c)) (cs_constants script),
                          vm_lim = limits\<rparr>)"

definition binary ::
  "nat \<Rightarrow> (dsl_value \<Rightarrow> dsl_value \<Rightarrow> runtime_error + dsl_value) \<Rightarrow> 's vm_state \<Rightarrow> 's step_result" where
  "binary depth f st = pop st (\<lambda>b st. pop st (\<lambda>a st. push_result depth (f a b) st))"

definition unary ::
  "nat \<Rightarrow> (dsl_value \<Rightarrow> runtime_error + dsl_value) \<Rightarrow> 's vm_state \<Rightarrow> 's step_result" where
  "unary depth f st = pop st (\<lambda>v st. push_result depth (f v) st)"

text \<open>The effect of one instruction; the program counter already points at the next one.\<close>

fun vm_step :: "('s, 'r) vm_env \<Rightarrow> 'r vm \<Rightarrow> opcode \<Rightarrow> 's vm_state \<Rightarrow> 's step_result" where
  "vm_step env vm (LoadConst i) st =
     (let consts = cs_constants (vm_script vm)
      in case nth_opt consts i of
           Some c \<Rightarrow> push (max_stack_depth (vm_lim vm)) (const_value c) st
         | None \<Rightarrow> (Inl (Internal (''constant index '' @ show_nat i @ '' out of bounds (pool size: ''
                                 @ show_nat (length consts) @ '')'')), st))"
| "vm_step env vm LoadNil st = push (max_stack_depth (vm_lim vm)) VNil st"
| "vm_step env vm LoadTrue st = push (max_stack_depth (vm_lim vm)) (VBool True) st"
| "vm_step env vm LoadFalse st = push (max_stack_depth (vm_lim vm)) (VBool False) st"
| "vm_step env vm OpPop st = pop st (\<lambda>v st. (Inr None, st))"
| "vm_step env vm (GetLocal slot) st =
     push (max_stack_depth (vm_lim vm)) (case nth_opt (vs_locals st) slot of Some v \<Rightarrow> v | None \<Rightarrow> VNil) st"
| "vm_step env vm (SetLocal slot) st =
     pop st (\<lambda>v st.
       if slot < length (vs_locals st) then (Inr None, st\<lparr>vs_locals := (vs_locals st)[slot := v]\<rparr>)
       else (Inl (Internal (''SetLocal slot '' @ show_nat slot @ '' out of bounds (locals size: ''
                            @ show_nat (length (vs_locals st)) @ '')'')), st))"
| "vm_step env vm OpAdd st = binary (max_stack_depth (vm_lim vm)) (v_add (max_string_len (vm_lim vm))) st"
| "vm_step env vm OpSub st = binary (max_stack_depth (vm_lim vm)) v_sub st"
| "vm_step env vm OpMul st = binary (max_stack_depth (vm_lim vm)) v_mul st"
| "vm_step env vm OpDiv st = binary (max_stack_depth (vm_lim vm)) v_div st"
| "vm_step env vm OpNeg st = unary (max_stack_depth (vm_lim vm)) v_neg st"
| "vm_step env vm Equal st = binary (max_stack_depth (vm_lim vm)) (\<lambda>a b. Inr (VBool (a = b))) st"
| "vm_step env vm NotEqual st = binary (max_stack_depth (vm_lim vm)) (\<lambda>a b. Inr (VBool (a \<noteq> b))) st"
| "vm_step env vm Less st = binary (max_stack_depth (vm_lim vm)) v_less st"
| "vm_step env vm Greater st = binary (max_stack_depth (vm_lim vm)) v_greater st"
| "vm_step env vm LessEqual st = binary (max_stack_depth (vm_lim vm)) v_less_eq st"
| "vm_step env vm GreaterEqual st = binary (max_stack_depth (vm_lim vm)) v_greater_eq st"
| "vm_step env vm OpNot st = unary (max_stack_depth (vm_lim vm)) (\<lambda>v. Inr (VBool (\<not> is_truthy v))) st"
| "vm_step env vm StartsWith st =
     binary (max_stack_depth (vm_lim vm)) (\<lambda>a b. Inr (v_string_test starts_with a b)) st"
| "vm_step env vm EndsWith st =
     binary (max_stack_depth (vm_lim vm)) (\<lambda>a b. Inr (v_string_test ends_with a b)) st"
| "vm_step env vm Contains st =
     binary (max_stack_depth (vm_lim vm)) (\<lambda>a b. Inr (v_string_test contains a b)) st"
| "vm_step env vm (Matches i) st =
     unary (max_stack_depth (vm_lim vm)) (\<lambda>v. Inr (regex_test env (vm_regex_cache vm) i v)) st"
| "vm_step env vm (Jump offset) st = jump_to ''Jump'' (length (cs_code (vm_script vm))) offset st"
| "vm_step env vm (JumpIfFalse offset) st =
     pop st (\<lambda>v st.
       if is_truthy v then (Inr None, st)
       else jump_to ''JumpIfFalse'' (length (cs_code (vm_script vm))) offset st)"
| "vm_step env vm LoopInit st = (Inr None, st\<lparr>vs_loops := 0 # vs_loops st\<rparr>)"
| "vm_step env vm (LoopBack offset) st =
     (case vs_loops st of
        n # ns \<Rightarrow>
          if max_loop_iterations (vm_lim vm) < n + 1
          then (Inl (LoopLimitExceeded (max_loop_iterations (vm_lim vm))), st\<lparr>vs_loops := (n + 1) # ns\<rparr>)
          else jump_to ''LoopBack'' (length (cs_code (vm_script vm))) offset (st\<lparr>vs_loops := (n + 1) # ns\<rparr>)
      | [] \<Rightarrow> (Inl (Internal ''LoopBack without matching LoopInit''), st))"
| "vm_step env vm LoopEnd st = (Inr None, st\<lparr>vs_loops := tl (vs_loops st)\<rparr>)"
| "vm_step env vm ListLen st = unary (max_stack_depth (vm_lim vm)) (\<lambda>v. Inr (v_list_len v)) st"
| "vm_step env vm ListGet st = binary (max_stack_depth (vm_lim vm)) (\<lambda>l i. Inr (v_list_get l i)) st"
| "vm_step env vm (CallBuiltin b argc) st =
     tick_call (max_call_count (vm_lim vm)) st (call_builtin env (vm_lim vm) b)"
| "vm_step env vm OpReturnNext st = (Inr (Some GoodNext), st)"
| "vm_step env vm OpReturnDeny st =
     pop st (\<lambda>body st. pop st (\<lambda>status st.
       (Inr (Some (ErrResponse (deny_status status) (deny_body body))), st)))"

primrec run :: "('s, 'r) vm_env \<Rightarrow> 'r vm \<Rightarrow> nat \<Rightarrow> 's vm_state \<Rightarrow> (runtime_error + plugin_result) \<times> 's world" where
  "run env vm 0 st = (Inl (StepLimitExceeded (max_steps (vm_lim vm))), vs_world st)"
| "run env vm (Suc n) st =
     (let code = cs_code (vm_script vm)
      in if length code \<le> vs_pc st then (Inr GoodNext, vs_world st)
         else case vm_step env vm (code ! vs_pc st) (st\<lparr>vs_pc := vs_pc st + 1\<rparr>) of
                (Inl e, st') \<Rightarrow> (Inl e, vs_world st')
              | (Inr (Some r), st') \<Rightarrow> (Inr r, vs_world st')
              | (Inr None, st') \<Rightarrow> run env vm n st')"

definition execute ::
  "('s, 'r) vm_env \<Rightarrow> 'r vm \<Rightarrow> 's \<Rightarrow> plugin_log \<Rightarrow> (runtime_error + plugin_result) \<times> 's \<times> plugin_log" where
  "execute env vm session log =
     (let (r, w) = run env vm (max_steps (vm_lim vm))
                     (vm_state_new (cs_local_count (vm_script vm)) (vm_lim vm) session log)
      in (r, w_session w, w_log w))"

definition apply_error_policy :: "dsl_error_policy \<Rightarrow> plugin_result" where
  "apply_error_policy policy =
     (case policy of
        Ignore \<Rightarrow> GoodNext
      | Deny \<Rightarrow> ErrResponse 500 (Some ''DSL execution error'')
      | DenyWith status body \<Rightarrow> ErrResponse status body)"

definition execute_safe ::
  "('s, 'r) vm_env \<Rightarrow> 'r vm \<Rightarrow> dsl_error_policy \<Rightarrow> 's \<Rightarrow> plugin_log \<Rightarrow> plugin_result \<times> 's \<times> plugin_log" where
  "execute_safe env vm policy session log =
     (case execute env vm session log of
        (Inr r, s, l) \<Rightarrow> (r, s, l)
      | (Inl e, s, l) \<Rightarrow> (apply_error_policy policy, s, snd (log_push (''dsl:err:'' @ display_error e) l)))"

end
