(* ===== verification/Dsl_Compiler.thy ===== *)
theory Dsl_Compiler
  imports Dsl_Vm
begin

text \<open>
  The compiler from syntax trees to bytecode (dsl/lang/compiler.rs). The compiler state is
  passed explicitly; the list of locals has the innermost declaration at its head. A jump is
  emitted with offset 0 and patched once its target is known, as in the source. Counters of
  type \<open>u16\<close> that would overflow are the error \<open>CePanic\<close>.
\<close>

section \<open>Compiler state\<close>

datatype compile_error =
    ConstantPoolOverflow
  | RegexTooLong nat
  | InvalidRegex string string
  | TooManyLocals
  | ReservedName string
  | AssignImmutable string
  | UndefinedVariable string
  | WrongArgCount string nat nat
  | PatternNotLiteral
  | UnknownMethod string
  | UnknownFunction string
  | AndOrNotHandled
  | CePanic

record local_var =
  lv_name :: string
  lv_slot :: nat
  lv_mutable :: bool
  lv_depth :: nat

record compiler =
  co_code :: "opcode list"
  co_constants :: "dsl_constant list"
  co_str_map :: "(string \<times> nat) list"
  co_int_map :: "(int \<times> nat) list"
  co_locals :: "local_var list"
  co_next_slot :: nat
  co_scope_depth :: nat
  co_loop_depth :: nat
  co_max_loop_depth :: nat

definition compiler_new :: compiler where
  "compiler_new =
     \<lparr>co_code = [], co_constants = [], co_str_map = [], co_int_map = [], co_locals = [],
      co_next_slot = 0, co_scope_depth = 0, co_loop_depth = 0, co_max_loop_depth = 0\<rparr>"


definition ends_with_return :: "compiler \<Rightarrow> bool" where
  "ends_with_return c \<longleftrightarrow>
     (case rev (co_code c) of
        OpReturnNext # _ \<Rightarrow> True
      | OpReturnDeny # _ \<Rightarrow> True
      | _ \<Rightarrow> False)"

definition emit :: "opcode \<Rightarrow> compiler \<Rightarrow> compiler" where
  "emit op c = c\<lparr>co_code := co_code c @ [op]\<rparr>"

definition current_offset :: "compiler \<Rightarrow> nat" where
  "current_offset c = length (co_code c)"

text \<open>Two's complement truncation to \<open>i32\<close>.\<close>

definition as_i32 :: "int \<Rightarrow> int" where
  "as_i32 n = (n + 2 ^ 31) mod 2 ^ 32 - 2 ^ 31"

definition patch_jump :: "nat \<Rightarrow> compiler \<Rightarrow> compile_error + compiler" where
  "patch_jump idx c =
     (let offset = as_i32 (int (length (co_code c)) - (int idx + 1))
      in case nth_opt (co_code c) idx of
           None \<Rightarrow> Inl CePanic
         | Some (Jump _) \<Rightarrow> Inr (c\<lparr>co_code := (co_code c)[idx := Jump offset]\<rparr>)
         | Some (JumpIfFalse _) \<Rightarrow> Inr (c\<lparr>co_code := (co_code c)[idx := JumpIfFalse offset]\<rparr>)
         | Some _ \<Rightarrow> Inr c)"

fun patch_jumps :: "nat list \<Rightarrow> compiler \<Rightarrow> compile_error + compiler" where
  "patch_jumps [] c = Inr c"
| "patch_jumps (j # js) c = res_bind (patch_jump j c) (patch_jumps js)"

section \<open>Constants\<close>

definition check_const_limit :: "compiler \<Rightarrow> compile_error + nat" where
  "check_const_limit c =
     (let len = length (co_constants c) in if 65535 \<le> len then Inl ConstantPoolOverflow else Inr len)"

definition add_str_const :: "string \<Rightarrow> compiler \<Rightarrow> compile_error + nat \<times> compiler" where
  "add_str_const s c =
     (case map_of (co_str_map c) s of
        Some idx \<Rightarrow> Inr (idx, c)
      | None \<Rightarrow>
          res_bind (check_const_limit c) (\<lambda>idx.
            Inr (idx, c\<lparr>co_constants := co_constants c @ [CStr s], co_str_map := (s, idx) # co_str_map c\<rparr>)))"

definition add_int_const :: "int \<Rightarrow> compiler \<Rightarrow> compile_error + nat \<times> compiler" where
  "add_int_const n c =
     (case map_of (co_int_map c) n of
        Some idx \<Rightarrow> Inr (idx, c)
      | None \<Rightarrow>
          res_bind (check_const_limit c) (\<lambda>idx.
            Inr (idx, c\<lparr>co_constants := co_constants c @ [CInt n], co_int_map := (n, idx) # co_int_map c\<rparr>)))"

fun position_of :: "dsl_constant \<Rightarrow> dsl_constant list \<Rightarrow> nat option" where
  "position_of x [] = None"
| "position_of x (y # ys) = (if y = x then Some 0 else map_option Suc (position_of x ys))"

definition add_regex_const :: "(string \<Rightarrow> string + 'r) \<Rightarrow> string \<Rightarrow> compiler \<Rightarrow> compile_error + nat \<times> compiler" where
  "add_regex_const rx pattern c =
     (if 1024 < length pattern then Inl (RegexTooLong (length pattern))
      else case position_of (CRegex pattern) (co_constants c) of
             Some i \<Rightarrow> Inr (i, c)
           | None \<Rightarrow>
               (case rx pattern of
                  Inl e \<Rightarrow> Inl (InvalidRegex pattern e)
                | Inr _ \<Rightarrow>
                    res_bind (check_const_limit c) (\<lambda>idx.
                      Inr (idx, c\<lparr>co_constants := co_constants c @ [CRegex pattern]\<rparr>))))"

section \<open>Local variables\<close>

definition declare_local :: "string \<Rightarrow> bool \<Rightarrow> compiler \<Rightarrow> compile_error + nat \<times> compiler" where
  "declare_local name mutable c =
     (if co_next_slot c = 65535 then Inl TooManyLocals
      else Inr (co_next_slot c,
                c\<lparr>co_next_slot := co_next_slot c + 1,
                  co_locals := \<lparr>lv_name = name, lv_slot = co_next_slot c, lv_mutable = mutable,
                                lv_depth = co_scope_depth c\<rparr> # co_locals c\<rparr>))"

definition resolve_local :: "string \<Rightarrow> compiler \<Rightarrow> local_var option" where
  "resolve_local name c = find (\<lambda>l. lv_name l = name) (co_locals c)"

definition enter_scope :: "compiler \<Rightarrow> compile_error + compiler" where
  "enter_scope c =
     (if co_scope_depth c = 65535 then Inl CePanic else Inr (c\<lparr>co_scope_depth := co_scope_depth c + 1\<rparr>))"

definition leave_scope :: "compiler \<Rightarrow> compile_error + compiler" where
  "leave_scope c =
     (if co_scope_depth c = 0 then Inl CePanic
      else Inr (c\<lparr>co_locals := dropWhile (\<lambda>l. co_scope_depth c \<le> lv_depth l) (co_locals c),
                  co_scope_depth := co_scope_depth c - 1\<rparr>))"

definition enter_loop :: "compiler \<Rightarrow> compile_error + compiler" where
  "enter_loop c =
     (if co_loop_depth c = 65535 then Inl CePanic
      else Inr (c\<lparr>co_loop_depth := co_loop_depth c + 1,
                  co_max_loop_depth := max (co_max_loop_depth c) (co_loop_depth c + 1)\<rparr>))"

definition leave_loop :: "compiler \<Rightarrow> compiler" where
  "leave_loop c = c\<lparr>co_loop_depth := co_loop_depth c - 1\<rparr>"

section \<open>Names of builtins\<close>

definition namespace_methods :: "((string \<times> string) \<times> builtin_id) list" where
  "namespace_methods =
     [((''req'', ''header''), ReqHeader),
      ((''req'', ''method''), ReqMethod),
      ((''req'', ''path''), ReqPath),
      ((''req'', ''query''), ReqQuery),
      ((''req'', ''query_string''), ReqQueryString),
      ((''req'', ''cookie''), ReqCookie),
      ((''req'', ''client_ip''), ReqClientIp),
      ((''req'', ''remote_ip''), ReqRemoteIp),
      ((''req'', ''path_param''), ReqPathParam),
      ((''req'', ''header_names''), ReqHeaderNames),
      ((''req'', ''scheme''), ReqScheme),
      ((''req'', ''host''), ReqHost),
      ((''req'', ''uri''), ReqUri),
      ((''req'', ''content_type''), ReqContentType),
      ((''req'', ''has_header''), ReqHasHeader),
      ((''req'', ''set_header''), ReqSetHeader),
      ((''req'', ''append_header''), ReqAppendHeader),
      ((''req'', ''remove_header''), ReqRemoveHeader),
      ((''req'', ''set_uri''), ReqSetUri),
      ((''req'', ''set_host''), ReqSetHost),
      ((''req'', ''set_method''), ReqSetMethod),
      ((''resp'', ''set_header''), RespSetHeader),
      ((''resp'', ''append_header''), RespAppendHeader),
      ((''resp'', ''remove_header''), RespRemoveHeader),
      ((''ctx'', ''get''), CtxGet),
      ((''ctx'', ''set''), CtxSet),
      ((''ctx'', ''remove''), CtxRemove)]"

definition resolve_namespace_method :: "string \<Rightarrow> string \<Rightarrow> builtin_id option" where
  "resolve_namespace_method namespace method = map_of namespace_methods (namespace, method)"

definition builtin_functions :: "(string \<times> builtin_id \<times> nat) list" where
  "builtin_functions =
     [(''log'', Log, 1),
      (''len'', Len, 1),
      (''substr'', Substr, 3),
      (''to_int'', ToInt, 1),
      (''to_str'', ToStr, 1),
      (''to_upper'', ToUpper, 1),
      (''to_lower'', ToLower, 1),
      (''base64_encode'', Base64Encode, 1),
      (''base64_decode'', Base64Decode, 1),
      (''url_encode'', UrlEncode, 1),
      (''url_decode'', UrlDecode, 1),
      (''sha256'', Sha256, 1),
      (''md5'', Md5, 1),
      (''time_now'', TimeNow, 0),
      (''regex_find'', RegexFind, 2),
      (''regex_replace'', RegexReplace, 3)]"

definition is_namespace :: "string \<Rightarrow> bool" where
  "is_namespace name \<longleftrightarrow> name = ''req'' \<or> name = ''resp'' \<or> name = ''ctx''"

definition namespace_builtin :: "expr \<Rightarrow> string \<Rightarrow> builtin_id option" where
  "namespace_builtin object method =
     (case object of Ident namespace \<Rightarrow> resolve_namespace_method namespace method | _ \<Rightarrow> None)"

definition string_method :: "string \<Rightarrow> opcode option" where
  "string_method method =
     map_of [(''starts_with'', StartsWith), (''ends_with'', EndsWith), (''contains'', Contains)] method"

fun binary_opcode :: "bin_op \<Rightarrow> opcode option" where
  "binary_opcode BinAdd = Some OpAdd"
| "binary_opcode BinSub = Some OpSub"
| "binary_opcode BinMul = Some OpMul"
| "binary_opcode BinDiv = Some OpDiv"
| "binary_opcode BinEq = Some Equal"
| "binary_opcode BinNe = Some NotEqual"
| "binary_opcode BinLt = Some Less"
| "binary_opcode BinGt = Some Greater"
| "binary_opcode BinLe = Some LessEqual"
| "binary_opcode BinGe = Some GreaterEqual"
| "binary_opcode BinAnd = None"
| "binary_opcode BinOr = None"

section \<open>Expressions\<close>

function (sequential) compile_expr :: "(string \<Rightarrow> string + 'r) \<Rightarrow> expr \<Rightarrow> compiler \<Rightarrow> compile_error + compiler"
  and compile_args :: "(string \<Rightarrow> string + 'r) \<Rightarrow> expr list \<Rightarrow> compiler \<Rightarrow> compile_error + compiler"
  and compile_method_call ::
    "(string \<Rightarrow> string + 'r) \<Rightarrow> expr \<Rightarrow> string \<Rightarrow> expr list \<Rightarrow> compiler \<Rightarrow> compile_error + compiler"
where
  "compile_expr rx (StringLit s) c =
     res_bind (add_str_const s c) (\<lambda>(idx, c). Inr (emit (LoadConst idx) c))"
| "compile_expr rx (IntLit n) c =
     res_bind (add_int_const n c) (\<lambda>(idx, c). Inr (emit (LoadConst idx) c))"
| "compile_expr rx (BoolLit b) c = Inr (emit (if b then LoadTrue else LoadFalse) c)"
| "compile_expr rx NilLit c = Inr (emit LoadNil c)"
| "compile_expr rx (Ident name) c =
     (case resolve_local name c of
        Some l \<Rightarrow> Inr (emit (GetLocal (lv_slot l)) c)
      | None \<Rightarrow> Inl (UndefinedVariable name))"
| "compile_expr rx (BinaryOp bop left right) c =
     (if bop = BinAnd then
        res_bind (compile_expr rx left c) (\<lambda>c.
        let false_jump = length (co_code c) in
        res_bind (compile_expr rx right (emit (JumpIfFalse 0) c)) (\<lambda>c.
        let end_jump = length (co_code c) in
        res_bind (patch_jump false_jump (emit (Jump 0) c)) (\<lambda>c.
        patch_jump end_jump (emit LoadFalse c))))
      else if bop = BinOr then
        res_bind (compile_expr rx left c) (\<lambda>c.
        let false_jump = length (co_code (emit OpNot c)) in
        res_bind (compile_expr rx right (emit (JumpIfFalse 0) (emit OpNot c))) (\<lambda>c.
        let end_jump = length (co_code c) in
        res_bind (patch_jump false_jump (emit (Jump 0) c)) (\<lambda>c.
        patch_jump end_jump (emit LoadTrue c))))
      else
        res_bind (compile_expr rx left c) (\<lambda>c.
        res_bind (compile_expr rx right c) (\<lambda>c.
        case binary_opcode bop of Some op \<Rightarrow> Inr (emit op c) | None \<Rightarrow> Inl AndOrNotHandled)))"
| "compile_expr rx (UnaryOp uop operand) c =
     res_bind (compile_expr rx operand c) (\<lambda>c.
     Inr (emit (case uop of UnNot \<Rightarrow> OpNot | UnNeg \<Rightarrow> OpNeg) c))"
| "compile_expr rx (MethodCall object method args) c = compile_method_call rx object method args c"
| "compile_expr rx (FnCall name args) c =
     (case map_of builtin_functions name of
        None \<Rightarrow> Inl (UnknownFunction name)
      | Some (b, expected) \<Rightarrow>
          if length args \<noteq> expected then Inl (WrongArgCount name expected (length args))
          else res_bind (compile_args rx args c) (\<lambda>c.
               Inr (emit (CallBuiltin b (length args mod 256)) c)))"
| "compile_expr rx (FieldAccess object field) c = compile_method_call rx object field [] c"
| "compile_args rx [] c = Inr c"
| "compile_args rx (a # as) c = res_bind (compile_expr rx a c) (compile_args rx as)"
| "compile_method_call rx object method args c =
     (case namespace_builtin object method of
        Some b \<Rightarrow>
          if length args \<noteq> builtin_expected_argc b
          then Inl (WrongArgCount method (builtin_expected_argc b) (length args))
          else res_bind (compile_args rx args c) (\<lambda>c.
               Inr (emit (CallBuiltin b (length args mod 256)) c))
      | None \<Rightarrow>
          (case string_method method of
             Some op \<Rightarrow>
               (case args of
                  [a] \<Rightarrow> res_bind (compile_expr rx object c) (\<lambda>c.
                         res_bind (compile_expr rx a c) (\<lambda>c.
                         Inr (emit op c)))
                | _ \<Rightarrow> Inl (WrongArgCount method 1 (length args)))
           | None \<Rightarrow>
               if method = ''matches'' then
                 (case args of
                    [StringLit pattern] \<Rightarrow>
                      res_bind (add_regex_const rx pattern c) (\<lambda>(idx, c).
                      res_bind (compile_expr rx object c) (\<lambda>c.
                      Inr (emit (Matches idx) c)))
                  | [_] \<Rightarrow> Inl PatternNotLiteral
                  | _ \<Rightarrow> Inl (WrongArgCount method 1 (length args)))
               else Inl (UnknownMethod method)))"
  by pat_completeness auto

termination
  by (relation "measure (\<lambda>x. case x of
        Inl (_, e, _) \<Rightarrow> 2 * size e
      | Inr (Inl (_, as, _)) \<Rightarrow> 2 * size_list size as
      | Inr (Inr (_, ob, _, as, _)) \<Rightarrow> 2 * (size ob + size_list size as) + 1)")
    auto


section \<open>Statements\<close>

text \<open>The jump of a \<open>LoopBack\<close> emitted at the current position, back to \<open>loop_start\<close>.\<close>

definition back_offset :: "nat \<Rightarrow> compiler \<Rightarrow> int" where
  "back_offset loop_start c = as_i32 (int loop_start - (int (current_offset c) + 1))"

text \<open>The increment of a loop variable and the jump back that end a counted loop.\<close>

definition emit_increment :: "nat \<Rightarrow> compiler \<Rightarrow> compile_error + compiler" where
  "emit_increment slot c =
     res_bind (add_int_const 1 (emit (GetLocal slot) c)) (\<lambda>(one, c).
     Inr (emit (SetLocal slot) (emit OpAdd (emit (LoadConst one) c))))"

definition close_loop :: "nat \<Rightarrow> nat \<Rightarrow> compiler \<Rightarrow> compile_error + compiler" where
  "close_loop loop_start exit_jump c =
     res_bind (patch_jump exit_jump (emit (LoopBack (back_offset loop_start c)) c)) (\<lambda>c.
     leave_scope (leave_loop (emit LoopEnd c)))"

fun compile_stmt :: "(string \<Rightarrow> string + 'r) \<Rightarrow> stmt \<Rightarrow> compiler \<Rightarrow> compile_error + compiler"
  and compile_stmts :: "(string \<Rightarrow> string + 'r) \<Rightarrow> stmt list \<Rightarrow> compiler \<Rightarrow> compile_error + compiler"
  and compile_block :: "(string \<Rightarrow> string + 'r) \<Rightarrow> stmt list \<Rightarrow> compiler \<Rightarrow> compile_error + compiler"
  and compile_branches ::
    "(string \<Rightarrow> string + 'r) \<Rightarrow> bool \<Rightarrow> (expr \<times> stmt list) list \<Rightarrow> nat list \<Rightarrow> compiler
       \<Rightarrow> compile_error + nat list \<times> compiler"
where
  "compile_stmt rx (LetStmt name mutable value) c =
     (if is_namespace name then Inl (ReservedName name)
      else
        res_bind (compile_expr rx value c) (\<lambda>c.
        res_bind (declare_local name mutable c) (\<lambda>(slot, c).
        Inr (emit (SetLocal slot) c))))"
| "compile_stmt rx (Assign name value) c =
     (case resolve_local name c of
        Some l \<Rightarrow>
          if lv_mutable l
          then res_bind (compile_expr rx value c) (\<lambda>c. Inr (emit (SetLocal (lv_slot l)) c))
          else Inl (AssignImmutable name)
      | None \<Rightarrow> Inl (UndefinedVariable name))"
| "compile_stmt rx (IfStmt branches else_body) c =
     res_bind (compile_branches rx (else_body \<noteq> None) branches [] c) (\<lambda>(end_jumps, c).
     res_bind (case else_body of Some body \<Rightarrow> compile_block rx body c | None \<Rightarrow> Inr c) (\<lambda>c.
     patch_jumps end_jumps c))"
| "compile_stmt rx (ForRange var start end' body) c =
     (if is_namespace var then Inl (ReservedName var)
      else
        res_bind (enter_scope c) (\<lambda>c.
        res_bind (enter_loop c) (\<lambda>c.
        res_bind (compile_expr rx end' c) (\<lambda>c.
        res_bind (declare_local ''__range_end__'' False c) (\<lambda>(end_slot, c).
        res_bind (compile_expr rx start (emit (SetLocal end_slot) c)) (\<lambda>c.
        res_bind (declare_local var False c) (\<lambda>(var_slot, c).
        let c = emit LoopInit (emit (SetLocal var_slot) c);
            loop_start = current_offset c;
            c = emit Less (emit (GetLocal end_slot) (emit (GetLocal var_slot) c));
            exit_jump = current_offset c
        in res_bind (compile_block rx body (emit (JumpIfFalse 0) c)) (\<lambda>c.
           res_bind (emit_increment var_slot c) (\<lambda>c.
           close_loop loop_start exit_jump c)))))))))"
| "compile_stmt rx (ForIn var iterable body) c =
     (if is_namespace var then Inl (ReservedName var)
      else
        res_bind (enter_scope c) (\<lambda>c.
        res_bind (enter_loop c) (\<lambda>c.
        res_bind (compile_expr rx iterable c) (\<lambda>c.
        res_bind (declare_local ''__list__'' False c) (\<lambda>(list_slot, c).
        res_bind (add_int_const 0 (emit (SetLocal list_slot) c)) (\<lambda>(zero, c).
        res_bind (declare_local ''__idx__'' True (emit (LoadConst zero) c)) (\<lambda>(idx_slot, c).
        let c = emit LoopInit (emit (SetLocal idx_slot) c);
            loop_start = current_offset c;
            c = emit Less (emit ListLen (emit (GetLocal list_slot) (emit (GetLocal idx_slot) c)));
            exit_jump = current_offset c;
            c = emit ListGet (emit (GetLocal idx_slot) (emit (GetLocal list_slot) (emit (JumpIfFalse 0) c)))
        in res_bind (declare_local var False c) (\<lambda>(var_slot, c).
           res_bind (compile_block rx body (emit (SetLocal var_slot) c)) (\<lambda>c.
           res_bind (emit_increment idx_slot c) (\<lambda>c.
           close_loop loop_start exit_jump c))))))))))"
| "compile_stmt rx (While condition body) c =
     res_bind (enter_scope c) (\<lambda>c.
     res_bind (enter_loop c) (\<lambda>c.
     let c = emit LoopInit c;
         loop_start = current_offset c
     in res_bind (compile_expr rx condition c) (\<lambda>c.
        let exit_jump = current_offset c
        in res_bind (compile_block rx body (emit (JumpIfFalse 0) c)) (\<lambda>c.
           close_loop loop_start exit_jump c))))"
| "compile_stmt rx (ReturnDeny status body) c =
     res_bind (compile_expr rx status c) (\<lambda>c.
     res_bind (compile_expr rx body c) (\<lambda>c.
     Inr (emit OpReturnDeny c)))"
| "compile_stmt rx ReturnNext c = Inr (emit OpReturnNext c)"
| "compile_stmt rx (ExprStmt e) c = res_bind (compile_expr rx e c) (\<lambda>c. Inr (emit OpPop c))"
| "compile_stmts rx [] c = Inr c"
| "compile_stmts rx (s # ss) c = res_bind (compile_stmt rx s c) (compile_stmts rx ss)"
| "compile_block rx ss c =
     res_bind (enter_scope c) (\<lambda>c.
     res_bind (compile_stmts rx ss c) (\<lambda>c.
     leave_scope c))"
| "compile_branches rx has_else [] end_jumps c = Inr (end_jumps, c)"
| "compile_branches rx has_else ((condition, body) # rest) end_jumps c =
     res_bind (compile_expr rx condition c) (\<lambda>c.
     let false_jump = current_offset c
     in res_bind (compile_block rx body (emit (JumpIfFalse 0) c)) (\<lambda>c.
        let end_jump = current_offset c;
            more = rest \<noteq> [] \<or> has_else;
            c = if more then emit (Jump 0) c else c;
            end_jumps = if more then end_jumps @ [end_jump] else end_jumps
        in res_bind (patch_jump false_jump c) (\<lambda>c.
           compile_branches rx has_else rest end_jumps c)))"

section \<open>Programs\<close>

definition compile :: "(string \<Rightarrow> string + 'r) \<Rightarrow> program \<Rightarrow> compile_error + compiled_script" where
  "compile rx p =
     res_bind (compile_stmts rx p compiler_new) (\<lambda>c.
     let c = if ends_with_return c then c else emit OpReturnNext c
     in Inr \<lparr>cs_version = 1, cs_code = co_code c, cs_constants = co_constants c,
             cs_local_count = co_next_slot c, cs_max_loop_depth = co_max_loop_depth c, cs_source = None\<rparr>)"

end
