(* ===== verification/Dsl_Semantics.thy ===== *)
theory Dsl_Semantics
  imports Dsl_Compiler
begin

text \<open>
  A reference semantics of EdgionDSL on syntax trees: expressions evaluate in an environment of
  named values, statements extend or update it, blocks forget what they declared, and a loop
  runs its body until its condition fails or the iteration limit is hit. It has no bytecode, no
  slots, no value stack and no step budget; it is what compiled scripts are compared with.
\<close>

type_synonym venv = "(string \<times> dsl_value) list"

section \<open>Expressions\<close>

definition w_bind ::
  "('e + 'a) \<times> 'w \<Rightarrow> ('a \<Rightarrow> 'w \<Rightarrow> ('e + 'b) \<times> 'w) \<Rightarrow> ('e + 'b) \<times> 'w" where
  "w_bind m f = (case m of (Inl e, w) \<Rightarrow> (Inl e, w) | (Inr v, w) \<Rightarrow> f v w)"

lemma w_bind_simps [simp]: "w_bind (Inl e, w) f = (Inl e, w)" "w_bind (Inr v, w) f = f v w"
  by (simp_all add: w_bind_def)

fun bin_value :: "nat \<Rightarrow> bin_op \<Rightarrow> dsl_value \<Rightarrow> dsl_value \<Rightarrow> runtime_error + dsl_value" where
  "bin_value lim BinAdd a b = v_add lim a b"
| "bin_value lim BinSub a b = v_sub a b"
| "bin_value lim BinMul a b = v_mul a b"
| "bin_value lim BinDiv a b = v_div a b"
| "bin_value lim BinEq a b = Inr (VBool (a = b))"
| "bin_value lim BinNe a b = Inr (VBool (a \<noteq> b))"
| "bin_value lim BinLt a b = v_less a b"
| "bin_value lim BinGt a b = v_greater a b"
| "bin_value lim BinLe a b = v_less_eq a b"
| "bin_value lim BinGe a b = v_greater_eq a b"
| "bin_value lim BinAnd a b = Inr (if is_truthy a then b else VBool False)"
| "bin_value lim BinOr a b = Inr (if is_truthy a then VBool True else b)"

fun un_value :: "unary_op \<Rightarrow> dsl_value \<Rightarrow> runtime_error + dsl_value" where
  "un_value UnNot v = Inr (VBool (\<not> is_truthy v))"
| "un_value UnNeg v = v_neg v"

definition string_predicate :: "string \<Rightarrow> (string \<Rightarrow> string \<Rightarrow> bool) option" where
  "string_predicate method =
     map_of [(''starts_with'', starts_with), (''ends_with'', ends_with), (''contains'', contains)] method"

definition matches :: "('s, 'r) vm_env \<Rightarrow> string \<Rightarrow> dsl_value \<Rightarrow> dsl_value" where
  "matches env pattern v =
     VBool (case (v, regex_new env pattern) of (VStr s, Inr re) \<Rightarrow> is_match env re s | _ \<Rightarrow> False)"

definition call ::
  "('s, 'r) vm_env \<Rightarrow> vm_limits \<Rightarrow> builtin_id \<Rightarrow> dsl_value list \<Rightarrow> 's world \<Rightarrow> (runtime_error + dsl_value) \<times> 's world"
where
  "call env lim b args w =
     (if w_calls w = 0 then (Inl (CallLimitExceeded (max_call_count lim)), w)
      else builtin_op env (max_string_len lim) b args (w\<lparr>w_calls := w_calls w - 1\<rparr>))"

function (sequential) eval ::
    "('s, 'r) vm_env \<Rightarrow> vm_limits \<Rightarrow> venv \<Rightarrow> expr \<Rightarrow> 's world \<Rightarrow> (runtime_error + dsl_value) \<times> 's world"
  and eval_args ::
    "('s, 'r) vm_env \<Rightarrow> vm_limits \<Rightarrow> venv \<Rightarrow> expr list \<Rightarrow> 's world \<Rightarrow> (runtime_error + dsl_value list) \<times> 's world"
  and eval_method ::
    "('s, 'r) vm_env \<Rightarrow> vm_limits \<Rightarrow> venv \<Rightarrow> expr \<Rightarrow> string \<Rightarrow> expr list \<Rightarrow> 's world
       \<Rightarrow> (runtime_error + dsl_value) \<times> 's world"
where
  "eval env lim rho (StringLit s) w = (Inr (VStr s), w)"
| "eval env lim rho (IntLit n) w = (Inr (VInt n), w)"
| "eval env lim rho (BoolLit b) w = (Inr (VBool b), w)"
| "eval env lim rho NilLit w = (Inr VNil, w)"
| "eval env lim rho (Ident x) w = (Inr (case map_of rho x of Some v \<Rightarrow> v | None \<Rightarrow> VNil), w)"
| "eval env lim rho (BinaryOp bop l r) w =
     w_bind (eval env lim rho l w) (\<lambda>a w.
       if bop = BinAnd then (if is_truthy a then eval env lim rho r w else (Inr (VBool False), w))
       else if bop = BinOr then (if is_truthy a then (Inr (VBool True), w) else eval env lim rho r w)
       else w_bind (eval env lim rho r w) (\<lambda>b w. (bin_value (max_string_len lim) bop a b, w)))"
| "eval env lim rho (UnaryOp uop e) w = w_bind (eval env lim rho e w) (\<lambda>v w. (un_value uop v, w))"
| "eval env lim rho (MethodCall ob method args) w = eval_method env lim rho ob method args w"
| "eval env lim rho (FnCall name args) w =
     w_bind (eval_args env lim rho args w) (\<lambda>vs w.
       case map_of builtin_functions name of
         Some (b, _) \<Rightarrow> call env lim b vs w
       | None \<Rightarrow> (Inr VNil, w))"
| "eval env lim rho (FieldAccess ob field) w = eval_method env lim rho ob field [] w"
| "eval_args env lim rho [] w = (Inr [], w)"
| "eval_args env lim rho (a # as) w =
     w_bind (eval env lim rho a w) (\<lambda>v w.
     w_bind (eval_args env lim rho as w) (\<lambda>vs w. (Inr (v # vs), w)))"
| "eval_method env lim rho ob method args w =
     (case namespace_builtin ob method of
        Some b \<Rightarrow> w_bind (eval_args env lim rho args w) (call env lim b)
      | None \<Rightarrow>
          (case (string_predicate method, args) of
             (Some p, [a]) \<Rightarrow>
               w_bind (eval env lim rho ob w) (\<lambda>s w.
               w_bind (eval env lim rho a w) (\<lambda>q w. (Inr (v_string_test p s q), w)))
           | (None, [StringLit pattern]) \<Rightarrow>
               w_bind (eval env lim rho ob w) (\<lambda>s w. (Inr (matches env pattern s), w))
           | _ \<Rightarrow> (Inr VNil, w)))"
  by pat_completeness auto

termination
  by (relation "measure (\<lambda>x. case x of
        Inl (_, _, _, e, _) \<Rightarrow> 2 * size e
      | Inr (Inl (_, _, _, as, _)) \<Rightarrow> 2 * size_list size as
      | Inr (Inr (_, _, _, ob, _, as, _)) \<Rightarrow> 2 * (size ob + size_list size as) + 1)")
    auto

section \<open>Statements\<close>

text \<open>A statement goes on with a new environment, or ends the script.\<close>

datatype 's flow =
    Continue venv "'s world"
  | Done "runtime_error + plugin_result" "'s world"

definition flow_bind :: "'s flow \<Rightarrow> (venv \<Rightarrow> 's world \<Rightarrow> 's flow) \<Rightarrow> 's flow" where
  "flow_bind m f = (case m of Continue rho w \<Rightarrow> f rho w | Done r w \<Rightarrow> Done r w)"

definition value_bind ::
  "(runtime_error + 'a) \<times> 's world \<Rightarrow> ('a \<Rightarrow> 's world \<Rightarrow> 's flow) \<Rightarrow> 's flow" where
  "value_bind m f = (case m of (Inl e, w) \<Rightarrow> Done (Inl e) w | (Inr v, w) \<Rightarrow> f v w)"

lemma flow_bind_simps [simp]:
  "flow_bind (Continue rho w) f = f rho w" "flow_bind (Done r w) f = Done r w"
  by (simp_all add: flow_bind_def)

lemma value_bind_simps [simp]:
  "value_bind (Inl e, w) f = Done (Inl e) w" "value_bind (Inr v, w) f = f v w"
  by (simp_all add: value_bind_def)

text \<open>Assignment reaches the innermost variable of that name; a block forgets its own variables.\<close>

fun assign :: "string \<Rightarrow> dsl_value \<Rightarrow> venv \<Rightarrow> venv" where
  "assign x v [] = []"
| "assign x v ((y, u) # rho) = (if y = x then (y, v) # rho else (y, u) # assign x v rho)"

definition outer :: "venv \<Rightarrow> venv \<Rightarrow> venv" where
  "outer rho rho' = drop (length rho' - length rho) rho'"

text \<open>
  A loop over a loop value \<open>x\<close>: after each run of the body the next value is computed and one of
  the \<open>n\<close> remaining repetitions is used up.
\<close>

fun loop ::
  "nat \<Rightarrow> ('x \<Rightarrow> venv \<Rightarrow> 's world \<Rightarrow> (runtime_error + bool) \<times> 's world) \<Rightarrow> ('x \<Rightarrow> venv \<Rightarrow> 's world \<Rightarrow> 's flow)
     \<Rightarrow> ('x \<Rightarrow> runtime_error + 'x) \<Rightarrow> nat \<Rightarrow> 'x \<Rightarrow> venv \<Rightarrow> 's world \<Rightarrow> 's flow"
where
  "loop limit cond body next n x rho w =
     value_bind (cond x rho w) (\<lambda>go w.
       if \<not> go then Continue rho w
       else flow_bind (body x rho w) (\<lambda>rho w.
            case next x of
              Inl e \<Rightarrow> Done (Inl e) w
            | Inr x' \<Rightarrow> (case n of 0 \<Rightarrow> Done (Inl (LoopLimitExceeded limit)) w
                              | Suc n' \<Rightarrow> loop limit cond body next n' x' rho w)))"

declare loop.simps [simp del]

function (sequential) exec_stmt :: "('s, 'r) vm_env \<Rightarrow> vm_limits \<Rightarrow> stmt \<Rightarrow> venv \<Rightarrow> 's world \<Rightarrow> 's flow"
  and exec_stmts :: "('s, 'r) vm_env \<Rightarrow> vm_limits \<Rightarrow> stmt list \<Rightarrow> venv \<Rightarrow> 's world \<Rightarrow> 's flow"
  and exec_block :: "('s, 'r) vm_env \<Rightarrow> vm_limits \<Rightarrow> stmt list \<Rightarrow> venv \<Rightarrow> 's world \<Rightarrow> 's flow"
  and exec_branches ::
    "('s, 'r) vm_env \<Rightarrow> vm_limits \<Rightarrow> (expr \<times> stmt list) list \<Rightarrow> (venv \<Rightarrow> 's world \<Rightarrow> 's flow) \<Rightarrow> venv \<Rightarrow> 's world \<Rightarrow> 's flow"
where
  "exec_stmt env lim (LetStmt x m e) rho w = value_bind (eval env lim rho e w) (\<lambda>v w. Continue ((x, v) # rho) w)"
| "exec_stmt env lim (Assign x e) rho w = value_bind (eval env lim rho e w) (\<lambda>v w. Continue (assign x v rho) w)"
| "exec_stmt env lim (IfStmt branches else_body) rho w =
     exec_branches env lim branches
       (case else_body of Some body \<Rightarrow> exec_block env lim body | None \<Rightarrow> Continue) rho w"
| "exec_stmt env lim (ForRange x start end' body) rho w =
     value_bind (eval env lim rho end' w) (\<lambda>last w.
     value_bind (eval env lim rho start w) (\<lambda>first w.
     loop (max_loop_iterations lim)
       (\<lambda>i rho w. (case v_less i last of Inl e \<Rightarrow> Inl e | Inr b \<Rightarrow> Inr (is_truthy b), w))
       (\<lambda>i rho w. flow_bind (exec_block env lim body ((x, i) # rho) w) (\<lambda>rho w. Continue (tl rho) w))
       (\<lambda>i. v_add (max_string_len lim) i (VInt 1))
       (max_loop_iterations lim) first rho w))"
| "exec_stmt env lim (ForIn x iterable body) rho w =
     value_bind (eval env lim rho iterable w) (\<lambda>l w.
     loop (max_loop_iterations lim)
       (\<lambda>i rho w. (case v_less i (v_list_len l) of Inl e \<Rightarrow> Inl e | Inr b \<Rightarrow> Inr (is_truthy b), w))
       (\<lambda>i rho w. flow_bind (exec_block env lim body ((x, v_list_get l i) # rho) w) (\<lambda>rho w. Continue (tl rho) w))
       (\<lambda>i. v_add (max_string_len lim) i (VInt 1))
       (max_loop_iterations lim) (VInt 0) rho w)"
| "exec_stmt env lim (While condition body) rho w =
     loop (max_loop_iterations lim)
       (\<lambda>_ rho w. w_bind (eval env lim rho condition w) (\<lambda>v w. (Inr (is_truthy v), w)))
       (\<lambda>_ rho w. exec_block env lim body rho w)
       Inr (max_loop_iterations lim) () rho w"
| "exec_stmt env lim (ReturnDeny status body) rho w =
     value_bind (eval env lim rho status w) (\<lambda>s w.
     value_bind (eval env lim rho body w) (\<lambda>b w.
     Done (Inr (ErrResponse (deny_status s) (deny_body b))) w))"
| "exec_stmt env lim ReturnNext rho w = Done (Inr GoodNext) w"
| "exec_stmt env lim (ExprStmt e) rho w = value_bind (eval env lim rho e w) (\<lambda>_ w. Continue rho w)"
| "exec_stmts env lim [] rho w = Continue rho w"
| "exec_stmts env lim (s # ss) rho w = flow_bind (exec_stmt env lim s rho w) (exec_stmts env lim ss)"
| "exec_block env lim ss rho w =
     flow_bind (exec_stmts env lim ss rho w) (\<lambda>rho' w. Continue (outer rho rho') w)"
| "exec_branches env lim [] otherwise rho w = otherwise rho w"
| "exec_branches env lim ((condition, body) # rest) otherwise rho w =
     value_bind (eval env lim rho condition w) (\<lambda>v w.
       if is_truthy v then exec_block env lim body rho w
       else exec_branches env lim rest otherwise rho w)"
  by pat_completeness auto

termination
  by (relation "measure (\<lambda>x. case x of
        Inl (Inl (_, _, s, _)) \<Rightarrow> 2 * size s
      | Inl (Inr (_, _, ss, _)) \<Rightarrow> 2 * size_list size ss
      | Inr (Inl (_, _, ss, _)) \<Rightarrow> 2 * size_list size ss + 1
      | Inr (Inr (_, _, bs, _)) \<Rightarrow> 2 * size_list (size_prod (\<lambda>x. 0) (size_list size)) bs)")
    auto

text \<open>A whole script; falling off its end continues with the next plugin.\<close>

definition interpret_program ::
  "('s, 'r) vm_env \<Rightarrow> vm_limits \<Rightarrow> program \<Rightarrow> 's \<Rightarrow> plugin_log \<Rightarrow> (runtime_error + plugin_result) \<times> 's \<times> plugin_log"
where
  "interpret_program env lim p session log =
     (let start = \<lparr>w_session = session, w_log = log, w_calls = max_call_count lim\<rparr>
      in case exec_stmts env lim p [] start of
           Done r w \<Rightarrow> (r, w_session w, w_log w)
         | Continue _ w \<Rightarrow> (Inr GoodNext, w_session w, w_log w))"


section \<open>Static measures of a script\<close>

text \<open>An upper bound of the value stack depth that the code of an expression or statement needs.\<close>

fun need_expr :: "expr \<Rightarrow> nat"
  and need_args :: "expr list \<Rightarrow> nat"
where
  "need_expr (StringLit s) = 1"
| "need_expr (IntLit n) = 1"
| "need_expr (BoolLit b) = 1"
| "need_expr NilLit = 1"
| "need_expr (Ident x) = 1"
| "need_expr (BinaryOp bop l r) = max (need_expr l) (1 + need_expr r)"
| "need_expr (UnaryOp uop e) = need_expr e"
| "need_expr (MethodCall ob method args) = max (need_expr ob) (1 + need_args args)"
| "need_expr (FnCall name args) = max 1 (need_args args)"
| "need_expr (FieldAccess ob field) = need_expr ob"
| "need_args [] = 0"
| "need_args (a # as) = max (need_expr a) (1 + need_args as)"

fun need_stmt :: "stmt \<Rightarrow> nat"
  and need_stmts :: "stmt list \<Rightarrow> nat"
  and need_branches :: "(expr \<times> stmt list) list \<Rightarrow> nat"
where
  "need_stmt (LetStmt x m e) = need_expr e"
| "need_stmt (Assign x e) = need_expr e"
| "need_stmt (IfStmt branches None) = need_branches branches"
| "need_stmt (IfStmt branches (Some body)) = max (need_branches branches) (need_stmts body)"
| "need_stmt (ForIn x e body) = max 2 (max (need_expr e) (need_stmts body))"
| "need_stmt (ForRange x e e' body) = max 2 (max (need_expr e) (max (need_expr e') (need_stmts body)))"
| "need_stmt (While e body) = max (need_expr e) (need_stmts body)"
| "need_stmt (ReturnDeny e e') = max (need_expr e) (1 + need_expr e')"
| "need_stmt ReturnNext = 0"
| "need_stmt (ExprStmt e) = need_expr e"
| "need_stmts [] = 0"
| "need_stmts (s # ss) = max (need_stmt s) (need_stmts ss)"
| "need_branches [] = 0"
| "need_branches ((e, body) # rest) = max (need_expr e) (max (need_stmts body) (need_branches rest))"

text \<open>Scripts that do not mention the names of the variables the compiler adds to loops.\<close>

definition hidden_name :: "string \<Rightarrow> bool" where
  "hidden_name x \<longleftrightarrow> x = ''__range_end__'' \<or> x = ''__list__'' \<or> x = ''__idx__''"

fun clean_expr :: "expr \<Rightarrow> bool"
  and clean_args :: "expr list \<Rightarrow> bool"
where
  "clean_expr (StringLit s) = True"
| "clean_expr (IntLit n) = True"
| "clean_expr (BoolLit b) = True"
| "clean_expr NilLit = True"
| "clean_expr (Ident x) = (\<not> hidden_name x)"
| "clean_expr (BinaryOp bop l r) = (clean_expr l \<and> clean_expr r)"
| "clean_expr (UnaryOp uop e) = clean_expr e"
| "clean_expr (MethodCall ob method args) = (clean_expr ob \<and> clean_args args)"
| "clean_expr (FnCall name args) = clean_args args"
| "clean_expr (FieldAccess ob field) = clean_expr ob"
| "clean_args [] = True"
| "clean_args (a # as) = (clean_expr a \<and> clean_args as)"

fun clean_stmt :: "stmt \<Rightarrow> bool"
  and clean_stmts :: "stmt list \<Rightarrow> bool"
  and clean_branches :: "(expr \<times> stmt list) list \<Rightarrow> bool"
where
  "clean_stmt (LetStmt x m e) = (\<not> hidden_name x \<and> clean_expr e)"
| "clean_stmt (Assign x e) = (\<not> hidden_name x \<and> clean_expr e)"
| "clean_stmt (IfStmt branches None) = clean_branches branches"
| "clean_stmt (IfStmt branches (Some body)) = (clean_branches branches \<and> clean_stmts body)"
| "clean_stmt (ForIn x e body) = (\<not> hidden_name x \<and> clean_expr e \<and> clean_stmts body)"
| "clean_stmt (ForRange x e e' body) = (\<not> hidden_name x \<and> clean_expr e \<and> clean_expr e' \<and> clean_stmts body)"
| "clean_stmt (While e body) = (clean_expr e \<and> clean_stmts body)"
| "clean_stmt (ReturnDeny e e') = (clean_expr e \<and> clean_expr e')"
| "clean_stmt ReturnNext = True"
| "clean_stmt (ExprStmt e) = clean_expr e"
| "clean_stmts [] = True"
| "clean_stmts (s # ss) = (clean_stmt s \<and> clean_stmts ss)"
| "clean_branches [] = True"
| "clean_branches ((e, body) # rest) = (clean_expr e \<and> clean_stmts body \<and> clean_branches rest)"

lemma need_expr_pos: "0 < need_expr e"
  by (induction e) auto

end
