(* ===== verification/Dsl_Reach.thy ===== *)
theory Dsl_Reach
  imports Dsl_Vm
begin

text \<open>
  Reasoning about runs of the EdgionDSL machine: how a run continues from a later state,
  independence of the step budget once a run ends, and the effect of each instruction that
  stands at the program counter.
\<close>

section \<open>Runs\<close>

abbreviation vm_code :: "'r vm \<Rightarrow> opcode list" where
  "vm_code vm \<equiv> cs_code (vm_script vm)"

abbreviation vm_consts :: "'r vm \<Rightarrow> dsl_constant list" where
  "vm_consts vm \<equiv> cs_constants (vm_script vm)"

abbreviation vm_depth :: "'r vm \<Rightarrow> nat" where
  "vm_depth vm \<equiv> max_stack_depth (vm_lim vm)"

text \<open>Updates of a machine state in the order of its fields.\<close>

lemma vm_state_update_order [simp]:
  "st\<lparr>vs_stack := vs, vs_pc := p\<rparr> = st\<lparr>vs_pc := p, vs_stack := vs\<rparr>"
  "st\<lparr>vs_locals := ls, vs_pc := p\<rparr> = st\<lparr>vs_pc := p, vs_locals := ls\<rparr>"
  "st\<lparr>vs_loops := ns, vs_pc := p\<rparr> = st\<lparr>vs_pc := p, vs_loops := ns\<rparr>"
  "st\<lparr>vs_world := w, vs_pc := p\<rparr> = st\<lparr>vs_pc := p, vs_world := w\<rparr>"
  "st\<lparr>vs_locals := ls, vs_stack := vs\<rparr> = st\<lparr>vs_stack := vs, vs_locals := ls\<rparr>"
  "st\<lparr>vs_loops := ns, vs_stack := vs\<rparr> = st\<lparr>vs_stack := vs, vs_loops := ns\<rparr>"
  "st\<lparr>vs_world := w, vs_stack := vs\<rparr> = st\<lparr>vs_stack := vs, vs_world := w\<rparr>"
  "st\<lparr>vs_loops := ns, vs_locals := ls\<rparr> = st\<lparr>vs_locals := ls, vs_loops := ns\<rparr>"
  "st\<lparr>vs_world := w, vs_locals := ls\<rparr> = st\<lparr>vs_locals := ls, vs_world := w\<rparr>"
  "st\<lparr>vs_world := w, vs_loops := ns\<rparr> = st\<lparr>vs_loops := ns, vs_world := w\<rparr>"
  by (cases st; simp)+

text \<open>The same machine with another step budget.\<close>

definition with_steps :: "nat \<Rightarrow> 'r vm \<Rightarrow> 'r vm" where
  "with_steps n vm = vm\<lparr>vm_lim := (vm_lim vm)\<lparr>max_steps := n\<rparr>\<rparr>"

lemma with_steps_simps [simp]:
  "vm_script (with_steps n vm) = vm_script vm"
  "vm_regex_cache (with_steps n vm) = vm_regex_cache vm"
  "vm_lim (with_steps n vm) = (vm_lim vm)\<lparr>max_steps := n\<rparr>"
  by (simp_all add: with_steps_def)

lemma call_builtin_steps [simp]: "call_builtin env (lim\<lparr>max_steps := n\<rparr>) b = call_builtin env lim b"
  by (rule ext) (simp add: call_builtin_def)

lemma vm_step_with_steps [simp]: "vm_step env (with_steps n vm) op st = vm_step env vm op st"
  by (cases op) (simp_all cong: if_cong option.case_cong split: list.splits)

text \<open>
  A run from \<^term>\<open>st\<close> goes through \<^term>\<open>st'\<close>, or ends with a result, whatever the configured budget.
\<close>

definition reaches :: "('s, 'r) vm_env \<Rightarrow> 'r vm \<Rightarrow> 's vm_state \<Rightarrow> 's vm_state \<Rightarrow> bool" where
  "reaches env vm st st' \<longleftrightarrow>
     (\<exists>k. \<forall>m a. run env (with_steps a vm) (k + m) st = run env (with_steps a vm) m st')"

definition ends ::
  "('s, 'r) vm_env \<Rightarrow> 'r vm \<Rightarrow> 's vm_state \<Rightarrow> runtime_error + plugin_result \<Rightarrow> 's world \<Rightarrow> bool" where
  "ends env vm st r w \<longleftrightarrow> (\<exists>k. \<forall>m a. run env (with_steps a vm) (k + m) st = (r, w))"

lemma reaches_refl [intro, simp]: "reaches env vm st st"
  unfolding reaches_def by (rule exI [of _ 0]) simp

lemma reaches_trans [trans]:
  assumes "reaches env vm st st'" "reaches env vm st' st''"
  shows "reaches env vm st st''"
proof -
  let ?run = "\<lambda>a. run env (with_steps a vm)"
  obtain k l where "\<forall>m a. ?run a (k + m) st = ?run a m st'" "\<forall>m a. ?run a (l + m) st' = ?run a m st''"
    using assms unfolding reaches_def by blast
  then have "\<forall>m a. ?run a ((k + l) + m) st = ?run a m st''" by (simp add: add.assoc)
  then show ?thesis unfolding reaches_def by blast
qed

lemma reaches_ends [trans]:
  assumes "reaches env vm st st'" "ends env vm st' r w"
  shows "ends env vm st r w"
proof -
  let ?run = "\<lambda>a. run env (with_steps a vm)"
  obtain k l where "\<forall>m a. ?run a (k + m) st = ?run a m st'" "\<forall>m a. ?run a (l + m) st' = (r, w)"
    using assms unfolding reaches_def ends_def by blast
  then have "\<forall>m a. ?run a ((k + l) + m) st = (r, w)" by (simp add: add.assoc)
  then show ?thesis unfolding ends_def by blast
qed

lemma reaches_step:
  assumes "vs_pc st < length (vm_code vm)"
    and "vm_step env vm (vm_code vm ! vs_pc st) (st\<lparr>vs_pc := vs_pc st + 1\<rparr>) = (Inr None, st')"
  shows "reaches env vm st st'"
  unfolding reaches_def using assms by (intro exI [of _ 1]) (simp add: Let_def)

lemma ends_error:
  assumes "vs_pc st < length (vm_code vm)"
    and "vm_step env vm (vm_code vm ! vs_pc st) (st\<lparr>vs_pc := vs_pc st + 1\<rparr>) = (Inl e, st')"
    and "vs_world st' = w"
  shows "ends env vm st (Inl e) w"
  unfolding ends_def using assms by (intro exI [of _ 1]) (simp add: Let_def)

lemma ends_result:
  assumes "vs_pc st < length (vm_code vm)"
    and "vm_step env vm (vm_code vm ! vs_pc st) (st\<lparr>vs_pc := vs_pc st + 1\<rparr>) = (Inr (Some r), st')"
    and "vs_world st' = w"
  shows "ends env vm st (Inr r) w"
  unfolding ends_def using assms by (intro exI [of _ 1]) (simp add: Let_def)

lemma ends_off_end:
  assumes "length (vm_code vm) \<le> vs_pc st"
  shows "ends env vm st (Inr GoodNext) (vs_world st)"
  unfolding ends_def using assms by (intro exI [of _ 1]) (simp add: Let_def)

section \<open>Step budgets\<close>

text \<open>
  With \<open>n\<close> steps a run either runs out of them or ends, and then more steps change nothing.
\<close>

lemma run_stable:
  "(\<exists>w. \<forall>a. run env (with_steps a vm) n st = (Inl (StepLimitExceeded a), w))
   \<or> (\<exists>r w. \<forall>j a. run env (with_steps a vm) (n + j) st = (r, w))"
proof (induction n arbitrary: st)
  case (Suc n)
  show ?case
  proof (cases "vs_pc st < length (vm_code vm)")
    case True
    obtain r st' where step: "vm_step env vm (vm_code vm ! vs_pc st) (st\<lparr>vs_pc := vs_pc st + 1\<rparr>) = (r, st')"
      by fastforce
    show ?thesis
    proof (cases r)
      case (Inr q)
      with True step Suc.IH [of st'] show ?thesis by (cases q) (simp_all add: Let_def)
    qed (use True step in \<open>simp add: Let_def\<close>)
  qed (simp add: Let_def)
qed simp

lemma run_determined:
  assumes "ends env vm st r w"
  shows "\<exists>N. \<forall>n a. if N \<le> n then run env (with_steps a vm) n st = (r, w)
                     else fst (run env (with_steps a vm) n st) = Inl (StepLimitExceeded a)"
proof -
  let ?done = "\<lambda>n. \<forall>m a. run env (with_steps a vm) (n + m) st = (r, w)"
  have ex: "\<exists>n. ?done n" using assms by (simp add: ends_def)
  define N where "N = (LEAST n. ?done n)"
  have N: "?done N" unfolding N_def using ex by (rule LeastI_ex)
  have "fst (run env (with_steps a vm) n st) = Inl (StepLimitExceeded a)" if "n < N" for n a
  proof -
    have "\<not> ?done n" using that unfolding N_def by (rule not_less_Least)
    moreover have "(r', w') = (r, w)" if "\<forall>j a. run env (with_steps a vm) (n + j) st = (r', w')" for r' w'
      using that N by (metis add.commute)
    ultimately show ?thesis using run_stable [of env vm n st] by fastforce
  qed
  moreover have "run env (with_steps a vm) n st = (r, w)" if "N \<le> n" for n a
    using N that by (metis le_add_diff_inverse)
  ultimately show ?thesis by (intro exI [of _ N]) auto
qed


section \<open>Code segments\<close>

definition code_at :: "opcode list \<Rightarrow> nat \<Rightarrow> opcode list \<Rightarrow> bool" where
  "code_at code pc ops \<longleftrightarrow> (\<exists>pre post. code = pre @ ops @ post \<and> length pre = pc)"

lemma code_at_append [simp]:
  "code_at code pc (xs @ ys) \<longleftrightarrow> code_at code pc xs \<and> code_at code (pc + length xs) ys"
proof
  assume "code_at code pc (xs @ ys)"
  then obtain pre post where c: "code = pre @ (xs @ ys) @ post" "length pre = pc" unfolding code_at_def by blast
  then have "code = pre @ xs @ (ys @ post)" "code = (pre @ xs) @ ys @ post" by simp_all
  with c(2) show "code_at code pc xs \<and> code_at code (pc + length xs) ys"
    unfolding code_at_def by (metis length_append)
next
  assume "code_at code pc xs \<and> code_at code (pc + length xs) ys"
  then obtain pre post pre' post' where
    "code = pre @ xs @ post" "length pre = pc" "code = pre' @ ys @ post'" "length pre' = pc + length xs"
    unfolding code_at_def by blast
  then have "pre' = pre @ xs" "post = ys @ post'"
    by (metis append.assoc append_eq_append_conv length_append)+
  then have "code = pre @ (xs @ ys) @ post'" using \<open>code = pre @ xs @ post\<close> by simp
  then show "code_at code pc (xs @ ys)" unfolding code_at_def using \<open>length pre = pc\<close> by blast
qed

lemma code_at_Nil [simp]: "code_at code pc [] \<longleftrightarrow> pc \<le> length code"
proof
  assume "pc \<le> length code"
  then have "code = take pc code @ [] @ drop pc code" "length (take pc code) = pc" by simp_all
  then show "code_at code pc []" unfolding code_at_def by blast
qed (auto simp: code_at_def)

lemma code_at_single: "code_at code pc [op] \<longleftrightarrow> pc < length code \<and> code ! pc = op"
proof
  assume "pc < length code \<and> code ! pc = op"
  then have "code = take pc code @ [op] @ drop (Suc pc) code" "length (take pc code) = pc"
    using id_take_nth_drop [of pc code] by auto
  then show "code_at code pc [op]" unfolding code_at_def by blast
qed (auto simp: code_at_def nth_append)

lemma code_at_Cons:
  "code_at code pc (op # ops) \<longleftrightarrow> pc < length code \<and> code ! pc = op \<and> code_at code (Suc pc) ops"
  using code_at_append [of code pc "[op]" ops] by (simp add: code_at_single)

lemma code_at_le: "code_at code pc ops \<Longrightarrow> pc + length ops \<le> length code"
  by (auto simp: code_at_def)

lemma code_at_whole [simp]: "code_at code 0 code"
  unfolding code_at_def by (intro exI [of _ "[]"]) simp

section \<open>Instructions\<close>

lemma push_room:
  "length (vs_stack st) < d \<Longrightarrow> push d v st = (Inr None, st\<lparr>vs_stack := v # vs_stack st\<rparr>)"
  by (simp add: push_def)

lemma pop_args_stack:
  assumes "vs_stack st = rev args @ rest"
  shows "pop_args (length args) acc st k = k (args @ acc) (st\<lparr>vs_stack := rest\<rparr>)"
  using assms
proof (induction args arbitrary: acc st rule: rev_induct)
  case Nil
  then have "st\<lparr>vs_stack := rest\<rparr> = st" by (cases st) simp
  then show ?case by simp
next
  case (snoc a args)
  then show ?case by (simp add: pop_def)
qed

text \<open>
  A simple instruction leaves one value on the rest \<open>rest\<close> of the stack, or stops with an error.
\<close>

definition has_effect ::
  "('s, 'r) vm_env \<Rightarrow> 'r vm \<Rightarrow> opcode \<Rightarrow> 's vm_state \<Rightarrow> dsl_value list
     \<Rightarrow> (runtime_error + dsl_value) \<times> 's world \<Rightarrow> bool" where
  "has_effect env vm op st rest m \<longleftrightarrow>
     (case m of
        (Inl e, w) \<Rightarrow> (\<exists>st'. vm_step env vm op st = (Inl e, st') \<and> vs_world st' = w)
      | (Inr v, w) \<Rightarrow> vm_step env vm op st = (Inr None, st\<lparr>vs_stack := v # rest, vs_world := w\<rparr>))"

lemma reaches_effect:
  assumes "vs_pc st < length (vm_code vm)"
    and "has_effect env vm (vm_code vm ! vs_pc st) (st\<lparr>vs_pc := vs_pc st + 1\<rparr>) rest m"
  shows "case m of
           (Inl e, w) \<Rightarrow> ends env vm st (Inl e) w
         | (Inr v, w) \<Rightarrow> reaches env vm st (st\<lparr>vs_pc := vs_pc st + 1, vs_stack := v # rest, vs_world := w\<rparr>)"
  using assms reaches_step [OF assms(1)] ends_error [OF assms(1)]
  by (auto simp: has_effect_def split: sum.splits prod.splits)

lemma reaches_jump:
  assumes "int (vs_pc st) + 1 + offset = int target" "target \<le> length (vm_code vm)"
    and "vs_pc st < length (vm_code vm)" "vm_code vm ! vs_pc st = Jump offset"
  shows "reaches env vm st (st\<lparr>vs_pc := target\<rparr>)"
  using assms by (intro reaches_step) (auto simp: jump_to_def Let_def)

lemma reaches_jump_if_false:
  assumes "vs_pc st < length (vm_code vm)" "vm_code vm ! vs_pc st = JumpIfFalse offset"
    and "vs_stack st = v # rest"
    and "int (vs_pc st) + 1 + offset = int target" "target \<le> length (vm_code vm)"
  shows "reaches env vm st (st\<lparr>vs_pc := if is_truthy v then vs_pc st + 1 else target, vs_stack := rest\<rparr>)"
  using assms by (intro reaches_step) (auto simp: jump_to_def pop_def Let_def)

end
