(* ===== verification/Dsl_Expr_Correct.thy ===== *)
theory Dsl_Expr_Correct
  imports Dsl_Semantics Dsl_Reach "HOL-Library.Sublist"
begin

text \<open>
  The code that the EdgionDSL compiler emits for an expression computes the value that the
  reference semantics gives the expression: one lemma per shape of code, and an induction on
  the expression that puts them together.
\<close>

section \<open>Variables in slots\<close>

definition visible :: "local_var list \<Rightarrow> local_var list" where
  "visible ls = filter (\<lambda>l. \<not> hidden_name (lv_name l)) ls"

definition venv_of :: "local_var list \<Rightarrow> dsl_value list \<Rightarrow> venv" where
  "venv_of ls locs = map (\<lambda>l. (lv_name l, locs ! lv_slot l)) (visible ls)"

definition slots_below :: "nat \<Rightarrow> local_var list \<Rightarrow> bool" where
  "slots_below n ls \<longleftrightarrow> (\<forall>l \<in> set ls. lv_slot l < n)"

lemma slots_below_mono: "slots_below n ls \<Longrightarrow> n \<le> m \<Longrightarrow> slots_below m ls"
  by (auto simp: slots_below_def)

lemma map_of_venv:
  assumes "\<not> hidden_name x"
  shows "map_of (venv_of ls locs) x = map_option (\<lambda>l. locs ! lv_slot l) (find (\<lambda>l. lv_name l = x) ls)"
  using assms by (induction ls) (auto simp: venv_of_def visible_def)

section \<open>What compiling adds\<close>

definition emits :: "compiler \<Rightarrow> compiler \<Rightarrow> opcode list \<Rightarrow> bool" where
  "emits c c' ops \<longleftrightarrow>
     co_code c' = co_code c @ ops \<and> co_locals c' = co_locals c \<and> co_next_slot c' = co_next_slot c
     \<and> co_scope_depth c' = co_scope_depth c \<and> co_loop_depth c' = co_loop_depth c
     \<and> co_max_loop_depth c' = co_max_loop_depth c \<and> prefix (co_constants c) (co_constants c')"

definition const_ok :: "compiler \<Rightarrow> bool" where
  "const_ok c \<longleftrightarrow>
     (\<forall>(s, i) \<in> set (co_str_map c). nth_opt (co_constants c) i = Some (CStr s)) \<and>
     (\<forall>(n, i) \<in> set (co_int_map c). nth_opt (co_constants c) i = Some (CInt n))"

text \<open>A machine that runs code of which the compiler has produced a part so far.\<close>

definition vm_ok :: "('s, 'r) vm_env \<Rightarrow> 'r vm \<Rightarrow> bool" where
  "vm_ok env vm \<longleftrightarrow>
     vm_regex_cache vm =
       map (\<lambda>c. case c of
              CRegex p \<Rightarrow> (case regex_new env p of Inl _ \<Rightarrow> None | Inr re \<Rightarrow> Some re)
            | _ \<Rightarrow> None) (vm_consts vm)"

definition runs_code_of :: "('s, 'r) vm_env \<Rightarrow> 'r vm \<Rightarrow> compiler \<Rightarrow> bool" where
  "runs_code_of env vm c \<longleftrightarrow>
     vm_ok env vm \<and> prefix (co_constants c) (vm_consts vm) \<and> length (co_code c) < 2 ^ 31"

lemma runs_code_of_earlier: "runs_code_of env vm c' \<Longrightarrow> emits c c' ops \<Longrightarrow> runs_code_of env vm c"
  by (auto simp: runs_code_of_def emits_def)

lemma emits_refl [simp]: "emits c c []"
  by (simp add: emits_def)

lemma emits_trans: "emits c c1 xs \<Longrightarrow> emits c1 c2 ys \<Longrightarrow> emits c c2 (xs @ ys)"
  by (auto simp: emits_def)

lemma emits_emit [simp]: "emits c (emit op c) [op]"
  by (simp add: emits_def emit_def)

lemma emit_const_ok [simp]: "const_ok (emit op c) = const_ok c"
  by (simp add: const_ok_def emit_def)

lemma emit_fields [simp]:
  "co_code (emit op c) = co_code c @ [op]" "co_locals (emit op c) = co_locals c"
  "co_constants (emit op c) = co_constants c" "co_next_slot (emit op c) = co_next_slot c"
  "co_scope_depth (emit op c) = co_scope_depth c" "co_loop_depth (emit op c) = co_loop_depth c"
  "co_max_loop_depth (emit op c) = co_max_loop_depth c" "co_str_map (emit op c) = co_str_map c"
  "co_int_map (emit op c) = co_int_map c"
  by (simp_all add: emit_def)

section \<open>Expression code\<close>

definition arrives ::
  "('s, 'r) vm_env \<Rightarrow> 'r vm \<Rightarrow> 's vm_state \<Rightarrow> nat \<Rightarrow> (runtime_error + dsl_value list) \<times> 's world \<Rightarrow> bool" where
  "arrives env vm st n m \<longleftrightarrow>
     (case m of
        (Inl e, w) \<Rightarrow> ends env vm st (Inl e) w
      | (Inr vs, w) \<Rightarrow>
          reaches env vm st (st\<lparr>vs_pc := vs_pc st + n, vs_stack := rev vs @ vs_stack st, vs_world := w\<rparr>))"

lemma arrives_simps [simp]:
  "arrives env vm st n (Inl e, w) \<longleftrightarrow> ends env vm st (Inl e) w"
  "arrives env vm st n (Inr vs, w) \<longleftrightarrow>
     reaches env vm st (st\<lparr>vs_pc := vs_pc st + n, vs_stack := rev vs @ vs_stack st, vs_world := w\<rparr>)"
  by (simp_all add: arrives_def)

text \<open>
  \<open>code_for env vm ls need sem ops\<close>: wherever the machine meets \<open>ops\<close>, it pushes the values that
  \<open>sem\<close> gives in the current environment, or ends with the error that \<open>sem\<close> gives.
\<close>

definition code_for ::
  "('s, 'r) vm_env \<Rightarrow> 'r vm \<Rightarrow> local_var list \<Rightarrow> nat
     \<Rightarrow> (venv \<Rightarrow> 's world \<Rightarrow> (runtime_error + dsl_value list) \<times> 's world) \<Rightarrow> opcode list \<Rightarrow> bool"
where
  "code_for env vm ls need sem ops \<longleftrightarrow>
     (\<forall>st. code_at (vm_code vm) (vs_pc st) ops \<longrightarrow> slots_below (length (vs_locals st)) ls \<longrightarrow>
           length (vs_stack st) + need \<le> vm_depth vm \<longrightarrow>
           arrives env vm st (length ops) (sem (venv_of ls (vs_locals st)) (vs_world st)))"

definition single :: "('e + 'a) \<times> 'w \<Rightarrow> ('e + 'a list) \<times> 'w" where
  "single m = w_bind m (\<lambda>v w. (Inr [v], w))"

lemma single_simps [simp]: "single (Inl e, w) = (Inl e, w)" "single (Inr v, w) = (Inr [v], w)"
  by (simp_all add: single_def)

definition compiled ::
  "('s, 'r) vm_env \<Rightarrow> 'r vm \<Rightarrow> compiler \<Rightarrow> compiler \<Rightarrow> nat
     \<Rightarrow> (venv \<Rightarrow> 's world \<Rightarrow> (runtime_error + dsl_value list) \<times> 's world) \<Rightarrow> opcode list \<Rightarrow> bool"
where
  "compiled env vm c c' need sem ops \<longleftrightarrow>
     emits c c' ops \<and> (const_ok c \<longrightarrow> const_ok c' \<and>
       (runs_code_of env vm c' \<longrightarrow> code_for env vm (co_locals c) need sem ops))"

lemma compiled_emits: "compiled env vm c c' need sem ops \<Longrightarrow> emits c c' ops"
  by (simp add: compiled_def)

lemma code_forD:
  "code_for env vm ls need sem ops \<Longrightarrow> code_at (vm_code vm) (vs_pc st) ops \<Longrightarrow>
   slots_below (length (vs_locals st)) ls \<Longrightarrow> length (vs_stack st) + need \<le> vm_depth vm \<Longrightarrow>
   arrives env vm st (length ops) (sem (venv_of ls (vs_locals st)) (vs_world st))"
  by (simp add: code_for_def)

lemma code_for_mono: "code_for env vm ls n sem ops \<Longrightarrow> n \<le> m \<Longrightarrow> code_for env vm ls m sem ops"
  by (auto simp: code_for_def)

lemma compiled_mono: "compiled env vm c c' n sem ops \<Longrightarrow> n \<le> m \<Longrightarrow> compiled env vm c c' m sem ops"
  by (auto simp: compiled_def intro: code_for_mono)

text \<open>One code after another: the second finds the values of the first below its own.\<close>

definition then_args ::
  "(venv \<Rightarrow> 'w \<Rightarrow> ('e + 'a list) \<times> 'w) \<Rightarrow> (venv \<Rightarrow> 'w \<Rightarrow> ('e + 'a list) \<times> 'w) \<Rightarrow> venv \<Rightarrow> 'w \<Rightarrow> ('e + 'a list) \<times> 'w"
where
  "then_args f g rho w = w_bind (f rho w) (\<lambda>vs w. w_bind (g rho w) (\<lambda>us w. (Inr (vs @ us), w)))"

lemma code_for_append:
  fixes env :: "('s, 'r) vm_env"
  assumes f: "code_for env vm ls n f xs" and g: "code_for env vm ls m g ys"
    and len: "\<And>rho w vs w'. f rho w = (Inr vs, w') \<Longrightarrow> length vs \<le> k" and need: "n \<le> d" "m + k \<le> d"
  shows "code_for env vm ls d (then_args f g) (xs @ ys)"
  unfolding code_for_def
proof (intro allI impI)
  fix st :: "'s vm_state"
  assume at: "code_at (vm_code vm) (vs_pc st) (xs @ ys)" and slots: "slots_below (length (vs_locals st)) ls"
    and room: "length (vs_stack st) + d \<le> vm_depth vm"
  let ?rho = "venv_of ls (vs_locals st)"
  have 1: "arrives env vm st (length xs) (f ?rho (vs_world st))"
    using f at slots room need unfolding code_for_def by auto
  show "arrives env vm st (length (xs @ ys)) (then_args f g ?rho (vs_world st))"
  proof (cases "f ?rho (vs_world st)")
    case (Pair r w)
    show ?thesis
    proof (cases r)
      case (Inl e)
      with Pair 1 show ?thesis by (simp add: then_args_def)
    next
      case (Inr vs)
      let ?st = "st\<lparr>vs_pc := vs_pc st + length xs, vs_stack := rev vs @ vs_stack st, vs_world := w\<rparr>"
      have r1: "reaches env vm st ?st" using 1 Pair Inr by simp
      have "length vs \<le> k" using len Pair Inr by blast
      then have 2: "arrives env vm ?st (length ys) (g ?rho w)"
        using g at slots room need unfolding code_for_def by (auto dest: spec [of _ ?st])
      show ?thesis
      proof (cases "g ?rho w")
        case (Pair r' w')
        with \<open>f ?rho (vs_world st) = (r, w)\<close> Inr 2 show ?thesis
          using reaches_trans [OF r1] reaches_ends [OF r1]
          by (cases r') (auto simp: then_args_def add.assoc)
      qed
    qed
  qed
qed


text \<open>A code that leaves \<open>k\<close> values, followed by an instruction that turns them into one.\<close>

lemma code_for_op:
  fixes env :: "('s, 'r) vm_env"
  assumes f: "code_for env vm ls n f xs"
    and len: "\<And>rho w vs w'. f rho w = (Inr vs, w') \<Longrightarrow> length vs = k"
    and op: "\<And>st vs rest. vs_stack st = rev vs @ rest \<Longrightarrow> length vs = k \<Longrightarrow> length rest < vm_depth vm \<Longrightarrow>
               has_effect env vm op st rest (g vs (vs_world st))"
    and need: "n \<le> d" "0 < d"
  shows "code_for env vm ls d (\<lambda>rho w. w_bind (f rho w) (\<lambda>vs w. single (g vs w))) (xs @ [op])"
  unfolding code_for_def
proof (intro allI impI)
  fix st :: "'s vm_state"
  assume at: "code_at (vm_code vm) (vs_pc st) (xs @ [op])" and slots: "slots_below (length (vs_locals st)) ls"
    and room: "length (vs_stack st) + d \<le> vm_depth vm"
  let ?rho = "venv_of ls (vs_locals st)"
  have 1: "arrives env vm st (length xs) (f ?rho (vs_world st))"
    using f at slots room need unfolding code_for_def by auto
  obtain r w where rw: "f ?rho (vs_world st) = (r, w)" by fastforce
  show "arrives env vm st (length (xs @ [op])) (w_bind (f ?rho (vs_world st)) (\<lambda>vs w. single (g vs w)))"
  proof (cases r)
    case (Inl e)
    with rw 1 show ?thesis by simp
  next
    case (Inr vs)
    let ?st = "st\<lparr>vs_pc := vs_pc st + length xs, vs_stack := rev vs @ vs_stack st, vs_world := w\<rparr>"
    have r1: "reaches env vm st ?st" using 1 rw Inr by simp
    have "length vs = k" using len rw Inr by blast
    then have "has_effect env vm op (?st\<lparr>vs_pc := vs_pc ?st + 1\<rparr>) (vs_stack st) (g vs w)"
      using op [of "?st\<lparr>vs_pc := vs_pc ?st + 1\<rparr>" vs "vs_stack st"] room need by simp
    then have 2: "case g vs w of
        (Inl e, w) \<Rightarrow> ends env vm ?st (Inl e) w
      | (Inr v, w) \<Rightarrow> reaches env vm ?st (?st\<lparr>vs_pc := vs_pc ?st + 1, vs_stack := v # vs_stack st, vs_world := w\<rparr>)"
      using at by (intro reaches_effect) (simp_all add: code_at_single)
    obtain r' w' where "g vs w = (r', w')" by fastforce
    with 2 rw Inr show ?thesis
      using reaches_trans [OF r1] reaches_ends [OF r1] by (cases r') auto
  qed
qed

lemma code_for_Nil [simp]: "code_for env vm ls n (\<lambda>rho w. (Inr [], w)) []"
  by (simp add: code_for_def)

text \<open>An instruction that only pushes a value.\<close>

lemma code_for_push:
  fixes env :: "('s, 'r) vm_env"
  assumes op: "\<And>st :: 's vm_state. slots_below (length (vs_locals st)) ls \<Longrightarrow>
      vm_step env vm op st = push (vm_depth vm) (v (venv_of ls (vs_locals st))) st"
    and need: "0 < d"
  shows "code_for env vm ls d (\<lambda>rho w. (Inr [v rho], w)) [op]"
  unfolding code_for_def
proof (intro allI impI)
  fix st :: "'s vm_state"
  assume "code_at (vm_code vm) (vs_pc st) [op]" "slots_below (length (vs_locals st)) ls"
    "length (vs_stack st) + d \<le> vm_depth vm"
  then show "arrives env vm st (length [op]) (Inr [v (venv_of ls (vs_locals st))], vs_world st)"
    using op [of "st\<lparr>vs_pc := vs_pc st + 1\<rparr>"] need
    by (auto simp: code_at_single push_def intro!: reaches_step)
qed

text \<open>Short-circuit code: the second operand, or a fixed value where the first is falsy.\<close>

lemma code_for_branch:
  fixes env :: "('s, 'r) vm_env"
  assumes f: "code_for env vm ls n (\<lambda>rho w. single (f rho w)) xs"
    and g: "code_for env vm ls m (\<lambda>rho w. single (g rho w)) ys"
    and ld: "\<And>st :: 's vm_state. vm_step env vm ld st = push (vm_depth vm) v st"
    and need: "n \<le> d" "m \<le> d" "0 < d"
  shows "code_for env vm ls d
           (\<lambda>rho w. single (w_bind (f rho w) (\<lambda>a w. if is_truthy a then g rho w else (Inr v, w))))
           (xs @ [JumpIfFalse (int (length ys) + 1)] @ ys @ [Jump 1] @ [ld])"
  unfolding code_for_def
proof (intro allI impI)
  fix st :: "'s vm_state"
  let ?ops = "xs @ [JumpIfFalse (int (length ys) + 1)] @ ys @ [Jump 1] @ [ld]"
  assume at: "code_at (vm_code vm) (vs_pc st) ?ops" and slots: "slots_below (length (vs_locals st)) ls"
    and room: "length (vs_stack st) + d \<le> vm_depth vm"
  let ?rho = "venv_of ls (vs_locals st)"
  have le: "vs_pc st + length ?ops \<le> length (vm_code vm)" using at by (rule code_at_le)
  have 1: "arrives env vm st (length xs) (single (f ?rho (vs_world st)))"
    using f at slots room need unfolding code_for_def by auto
  obtain r w where rw: "f ?rho (vs_world st) = (r, w)" by fastforce
  show "arrives env vm st (length ?ops)
          (single (w_bind (f ?rho (vs_world st)) (\<lambda>a w. if is_truthy a then g ?rho w else (Inr v, w))))"
  proof (cases r)
    case (Inl e)
    with rw 1 show ?thesis by simp
  next
    case (Inr a)
    let ?p = "vs_pc st + length xs"
    let ?st1 = "st\<lparr>vs_pc := ?p, vs_stack := a # vs_stack st, vs_world := w\<rparr>"
    let ?st2 = "st\<lparr>vs_pc := if is_truthy a then ?p + 1 else ?p + 2 + length ys,
                  vs_stack := vs_stack st, vs_world := w\<rparr>"
    have "reaches env vm st ?st1" using 1 rw Inr by simp
    also have "reaches env vm ?st1 (?st1\<lparr>vs_pc := if is_truthy a then vs_pc ?st1 + 1 else ?p + 2 + length ys,
        vs_stack := vs_stack st\<rparr>)"
      using at le by (intro reaches_jump_if_false) (auto simp: code_at_Cons code_at_single)
    finally have r2: "reaches env vm st ?st2" by (cases st) (simp split: if_splits)
    show ?thesis
    proof (cases "is_truthy a")
      case True
      have 2: "arrives env vm ?st2 (length ys) (single (g ?rho w))"
        using code_forD [OF g, of ?st2] at slots room need True by (simp add: code_at_Cons)
      obtain r' w' where rw': "g ?rho w = (r', w')" by fastforce
      show ?thesis
      proof (cases r')
        case (Inl e)
        with 2 rw rw' Inr True show ?thesis using reaches_ends [OF r2] by simp
      next
        case (Inr b)
        let ?st3 = "st\<lparr>vs_pc := ?p + 1 + length ys, vs_stack := b # vs_stack st, vs_world := w'\<rparr>"
        have "reaches env vm ?st2 ?st3" using 2 rw' Inr True by simp
        moreover have "reaches env vm ?st3 (?st3\<lparr>vs_pc := vs_pc st + length ?ops\<rparr>)"
          using at le by (intro reaches_jump) (auto simp: code_at_Cons add.assoc)
        ultimately have "reaches env vm st (?st3\<lparr>vs_pc := vs_pc st + length ?ops\<rparr>)"
          using r2 reaches_trans by blast
        then show ?thesis using rw rw' Inr \<open>r = Inr a\<close> True by simp
      qed
    next
      case False
      have "vm_step env vm ld (?st2\<lparr>vs_pc := vs_pc ?st2 + 1\<rparr>) =
          (Inr None, ?st2\<lparr>vs_pc := vs_pc ?st2 + 1, vs_stack := v # vs_stack st\<rparr>)"
        using ld room need by (simp add: push_def)
      then have "reaches env vm ?st2 (?st2\<lparr>vs_pc := vs_pc ?st2 + 1, vs_stack := v # vs_stack st\<rparr>)"
        using at False by (intro reaches_step) (auto simp: code_at_Cons add.assoc)
      with reaches_trans [OF r2] show ?thesis using rw Inr False by (simp add: add.commute add.left_commute)
    qed
  qed
qed

section \<open>Constants and jumps\<close>

lemma as_i32_small: "0 \<le> n \<Longrightarrow> n < 2 ^ 31 \<Longrightarrow> as_i32 n = n"
  by (simp add: as_i32_def)

lemma as_i32_neg: "- (2 ^ 31) \<le> n \<Longrightarrow> n < 0 \<Longrightarrow> as_i32 n = n"
  by (simp add: as_i32_def)

text \<open>A patched jump skips exactly the code that has been emitted after it.\<close>

lemma patch_jump_if_false:
  assumes "co_code c = pre @ [JumpIfFalse z] @ post" "length pre = idx"
  shows "patch_jump idx c = Inr (c\<lparr>co_code := pre @ [JumpIfFalse (as_i32 (int (length post)))] @ post\<rparr>)"
proof -
  have "nth_opt (co_code c) idx = Some (JumpIfFalse z)" using assms by (simp add: nth_append)
  moreover have "(co_code c)[idx := y] = pre @ [y] @ post" for y using assms by (simp add: list_update_append)
  moreover have "int (length (co_code c)) - (int idx + 1) = int (length post)" using assms by simp
  ultimately show ?thesis by (simp add: patch_jump_def Let_def del: nth_opt_Some_iff)
qed

lemma patch_jump_always:
  assumes "co_code c = pre @ [Jump z] @ post" "length pre = idx"
  shows "patch_jump idx c = Inr (c\<lparr>co_code := pre @ [Jump (as_i32 (int (length post)))] @ post\<rparr>)"
proof -
  have "nth_opt (co_code c) idx = Some (Jump z)" using assms by (simp add: nth_append)
  moreover have "(co_code c)[idx := y] = pre @ [y] @ post" for y using assms by (simp add: list_update_append)
  moreover have "int (length (co_code c)) - (int idx + 1) = int (length post)" using assms by simp
  ultimately show ?thesis by (simp add: patch_jump_def Let_def del: nth_opt_Some_iff)
qed

lemma nth_opt_prefix: "prefix xs ys \<Longrightarrow> nth_opt xs i = Some x \<Longrightarrow> nth_opt ys i = Some x"
  by (auto simp: prefix_def nth_append)

lemma const_ok_grow:
  assumes "const_ok c" "co_constants c' = co_constants c @ [x]"
    and "\<forall>(s, i) \<in> set (co_str_map c'). (s, i) \<in> set (co_str_map c) \<or> i = length (co_constants c) \<and> x = CStr s"
    and "\<forall>(n, i) \<in> set (co_int_map c'). (n, i) \<in> set (co_int_map c) \<or> i = length (co_constants c) \<and> x = CInt n"
  shows "const_ok c'"
  using assms unfolding const_ok_def by (fastforce simp: nth_append)

lemma add_str_const_ok:
  assumes "add_str_const s c = Inr (i, c')"
  shows "emits c c' [] \<and> (const_ok c \<longrightarrow> const_ok c' \<and> nth_opt (co_constants c') i = Some (CStr s))"
proof (cases "map_of (co_str_map c) s")
  case None
  then have c': "i = length (co_constants c)"
      "c' = c\<lparr>co_constants := co_constants c @ [CStr s], co_str_map := (s, i) # co_str_map c\<rparr>"
    using assms by (auto simp: add_str_const_def check_const_limit_def Let_def split: if_splits)
  have "const_ok c'" if "const_ok c" by (rule const_ok_grow [OF that, of _ "CStr s"]) (auto simp: c')
  with c' show ?thesis by (simp add: emits_def)
next
  case (Some j)
  then have "i = j" "c' = c" using assms by (simp_all add: add_str_const_def)
  moreover have "nth_opt (co_constants c) j = Some (CStr s)" if "const_ok c"
    using bspec [OF conjunct1 [OF that [unfolded const_ok_def]] map_of_SomeD [OF Some]] by simp
  ultimately show ?thesis by simp
qed

lemma add_int_const_ok:
  assumes "add_int_const n c = Inr (i, c')"
  shows "emits c c' [] \<and> (const_ok c \<longrightarrow> const_ok c' \<and> nth_opt (co_constants c') i = Some (CInt n))"
proof (cases "map_of (co_int_map c) n")
  case None
  then have c': "i = length (co_constants c)"
      "c' = c\<lparr>co_constants := co_constants c @ [CInt n], co_int_map := (n, i) # co_int_map c\<rparr>"
    using assms by (auto simp: add_int_const_def check_const_limit_def Let_def split: if_splits)
  have "const_ok c'" if "const_ok c" by (rule const_ok_grow [OF that, of _ "CInt n"]) (auto simp: c')
  with c' show ?thesis by (simp add: emits_def)
next
  case (Some j)
  then have "i = j" "c' = c" using assms by (simp_all add: add_int_const_def)
  moreover have "nth_opt (co_constants c) j = Some (CInt n)" if "const_ok c"
    using bspec [OF conjunct2 [OF that [unfolded const_ok_def]] map_of_SomeD [OF Some]] by simp
  ultimately show ?thesis by simp
qed

lemma position_of_Some: "position_of x ys = Some i \<Longrightarrow> nth_opt ys i = Some x"
  by (induction ys arbitrary: i) (auto split: if_splits)

lemma add_regex_const_ok:
  assumes "add_regex_const rx p c = Inr (i, c')"
  shows "emits c c' [] \<and> (const_ok c \<longrightarrow> const_ok c') \<and> nth_opt (co_constants c') i = Some (CRegex p)"
proof (cases "position_of (CRegex p) (co_constants c)")
  case None
  then have c': "i = length (co_constants c)" "c' = c\<lparr>co_constants := co_constants c @ [CRegex p]\<rparr>"
    using assms by (auto simp: add_regex_const_def check_const_limit_def Let_def split: if_splits sum.splits)
  have "const_ok c'" if "const_ok c" by (rule const_ok_grow [OF that, of _ "CRegex p"]) (auto simp: c')
  with c' show ?thesis by (simp add: emits_def)
next
  case (Some j)
  then show ?thesis
    using assms position_of_Some [OF Some] by (auto simp: add_regex_const_def emits_def split: if_splits)
qed

section \<open>Compiled expressions\<close>

lemma compiled_seq:
  assumes 1: "compiled env vm c c1 n f xs" and 2: "compiled env vm c1 c2 m g ys"
    and len: "\<And>rho w vs w'. f rho w = (Inr vs, w') \<Longrightarrow> length vs \<le> k" and need: "n \<le> d" "m + k \<le> d"
  shows "compiled env vm c c2 d (then_args f g) (xs @ ys)"
proof -
  have e: "emits c c1 xs" "emits c1 c2 ys" using 1 2 by (simp_all add: compiled_def)
  then have loc: "co_locals c1 = co_locals c" by (simp add: emits_def)
  have "code_for env vm (co_locals c) d (then_args f g) (xs @ ys)" if "const_ok c" "runs_code_of env vm c2"
    using that 1 2 runs_code_of_earlier [OF that(2) e(2)]
    by (intro code_for_append [OF _ _ len need]) (simp_all add: compiled_def loc)
  then show ?thesis using 1 2 emits_trans [OF e] by (simp add: compiled_def)
qed

lemma compiled_op:
  assumes 1: "compiled env vm c c1 n f xs"
    and len: "\<And>rho w vs w'. f rho w = (Inr vs, w') \<Longrightarrow> length vs = k"
    and op: "\<And>st vs rest. const_ok c1 \<Longrightarrow> runs_code_of env vm c1 \<Longrightarrow> vs_stack st = rev vs @ rest \<Longrightarrow>
               length vs = k \<Longrightarrow> length rest < vm_depth vm \<Longrightarrow>
               has_effect env vm op st rest (g vs (vs_world st))"
    and need: "n \<le> d" "0 < d"
  shows "compiled env vm c (emit op c1) d (\<lambda>rho w. w_bind (f rho w) (\<lambda>vs w. single (g vs w))) (xs @ [op])"
proof -
  have e: "emits c c1 xs" using 1 by (simp add: compiled_def)
  have "code_for env vm (co_locals c) d (\<lambda>rho w. w_bind (f rho w) (\<lambda>vs w. single (g vs w))) (xs @ [op])"
    if "const_ok c" "runs_code_of env vm (emit op c1)"
  proof -
    have "runs_code_of env vm c1" "const_ok c1" "code_for env vm (co_locals c) n f xs"
      using that 1 runs_code_of_earlier [OF that(2) emits_emit] by (simp_all add: compiled_def)
    then show ?thesis by (intro code_for_op [OF _ len op need]) simp_all
  qed
  then show ?thesis using 1 emits_trans [OF e emits_emit] by (simp add: compiled_def)
qed

lemma compiled_push:
  fixes env :: "('s, 'r) vm_env"
  assumes c1: "emits c c1 []" "const_ok c \<longrightarrow> const_ok c1"
    and op: "\<And>st :: 's vm_state. const_ok c \<Longrightarrow> runs_code_of env vm c1 \<Longrightarrow>
      slots_below (length (vs_locals st)) (co_locals c) \<Longrightarrow>
      vm_step env vm op st = push (vm_depth vm) (v (venv_of (co_locals c) (vs_locals st))) st"
  shows "compiled env vm c (emit op c1) 1 (\<lambda>rho w. (Inr [v rho], w)) [op]"
proof -
  have "code_for env vm (co_locals c) 1 (\<lambda>rho w. (Inr [v rho], w)) [op]"
    if "const_ok c" "runs_code_of env vm (emit op c1)"
    using that runs_code_of_earlier [OF that(2) emits_emit] by (intro code_for_push op) simp_all
  then show ?thesis using c1 emits_trans [OF c1(1) emits_emit] by (simp add: compiled_def)
qed

lemma compiled_branch:
  fixes env :: "('s, 'r) vm_env"
  assumes 1: "compiled env vm c c1 n (\<lambda>rho w. single (f rho w)) xs"
    and 2: "compiled env vm (emit (JumpIfFalse 0) c1) c2 m (\<lambda>rho w. single (g rho w)) ys"
    and p1: "patch_jump (length (co_code c1)) (emit (Jump 0) c2) = Inr c3"
    and p2: "patch_jump (length (co_code c2)) (emit ld c3) = Inr c4"
    and ld: "\<And>st :: 's vm_state. vm_step env vm ld st = push (vm_depth vm) v st"
    and need: "n \<le> d" "m \<le> d" "0 < d"
  shows "\<exists>ops. compiled env vm c c4 d
           (\<lambda>rho w. single (w_bind (f rho w) (\<lambda>a w. if is_truthy a then g rho w else (Inr v, w)))) ops"
proof -
  let ?off = "as_i32 (int (length ys) + 1)"
  have e1: "emits c c1 xs" and e2: "emits (emit (JumpIfFalse 0) c1) c2 ys"
    using 1 2 by (auto simp: compiled_def)
  have code1: "co_code c1 = co_code c @ xs" and code2: "co_code c2 = co_code c1 @ [JumpIfFalse 0] @ ys"
    using e1 e2 by (simp_all add: emits_def)
  have c3: "c3 = c2\<lparr>co_code := co_code c1 @ [JumpIfFalse ?off] @ ys @ [Jump 0]\<rparr>"
    using p1 patch_jump_if_false [of "emit (Jump 0) c2" "co_code c1" 0 "ys @ [Jump 0]"] code2
    by (simp add: emit_def add.commute)
  have c4: "c4 = c2\<lparr>co_code := co_code c1 @ [JumpIfFalse ?off] @ ys @ [Jump 1] @ [ld]\<rparr>"
    using p2 patch_jump_always [of "emit ld c3" "co_code c1 @ [JumpIfFalse ?off] @ ys" 0 "[ld]"] code2
    by (simp add: c3 emit_def as_i32_def add.commute)
  let ?ops = "xs @ [JumpIfFalse ?off] @ ys @ [Jump 1] @ [ld]"
  have e: "emits c c4 ?ops" using e1 e2 by (auto simp: emits_def c4)
  have ok: "const_ok c \<longrightarrow> const_ok c4" using 1 2 by (auto simp: compiled_def c4 const_ok_def)
  have "code_for env vm (co_locals c) d
         (\<lambda>rho w. single (w_bind (f rho w) (\<lambda>a w. if is_truthy a then g rho w else (Inr v, w)))) ?ops"
    if "const_ok c" and run: "runs_code_of env vm c4"
  proof -
    have "length (co_code c4) < 2 ^ 31" using run by (simp add: runs_code_of_def)
    then have off: "?off = int (length ys) + 1" by (intro as_i32_small) (auto simp: c4)
    have "runs_code_of env vm c2" using run by (simp add: runs_code_of_def c4 code2)
    moreover from this e2 have "runs_code_of env vm (emit (JumpIfFalse 0) c1)" by (rule runs_code_of_earlier)
    moreover from this have "runs_code_of env vm c1" by (rule runs_code_of_earlier [OF _ emits_emit])
    ultimately show ?thesis
      unfolding off using 1 2 \<open>const_ok c\<close> e1 need
      by (intro code_for_branch [where n = n and m = m, OF _ _ ld]) (auto simp: compiled_def emits_def)
  qed
  with e ok show ?thesis unfolding compiled_def by blast
qed

section \<open>Instructions of expressions\<close>

lemma two_on_stack:
  assumes "vs_stack st = rev vs @ rest" "length vs = 2"
  shows "vs_stack st = vs ! 1 # vs ! 0 # rest"
  using assms by (auto simp: numeral_2_eq_2 length_Suc_conv)

lemma one_on_stack:
  assumes "vs_stack st = rev vs @ rest" "length vs = 1"
  shows "vs_stack st = vs ! 0 # rest"
  using assms by (auto simp: length_Suc_conv)

lemmas effect_defs = has_effect_def binary_def unary_def pop_def push_result_def push_def

lemma binary_opcode_effect:
  assumes "binary_opcode bop = Some op" "vs_stack st = rev vs @ rest" "length vs = 2" "length rest < vm_depth vm"
  shows "has_effect env vm op st rest (bin_value (max_string_len (vm_lim vm)) bop (vs ! 0) (vs ! 1), vs_world st)"
  using assms(1,4) two_on_stack [OF assms(2,3)]
  by (cases bop) (auto simp: effect_defs split: sum.splits)

lemma unary_opcode_effect:
  assumes "vs_stack st = rev vs @ rest" "length vs = 1" "length rest < vm_depth vm"
  shows "has_effect env vm (case uop of UnNot \<Rightarrow> OpNot | UnNeg \<Rightarrow> OpNeg) st rest (un_value uop (vs ! 0), vs_world st)"
  using assms(3) one_on_stack [OF assms(1,2)]
  by (cases uop) (auto simp: effect_defs split: sum.splits)

lemma string_method_effect:
  assumes "string_method m = Some op" "vs_stack st = rev vs @ rest" "length vs = 2" "length rest < vm_depth vm"
  shows "\<exists>p. string_predicate m = Some p \<and>
           has_effect env vm op st rest (Inr (v_string_test p (vs ! 0) (vs ! 1)), vs_world st)"
  using assms(1,4) two_on_stack [OF assms(2,3)]
  by (auto simp: string_method_def string_predicate_def effect_defs split: if_splits)

lemma string_method_predicate: "string_predicate m = None \<longleftrightarrow> string_method m = None"
  by (auto simp: string_method_def string_predicate_def)

lemma matches_effect:
  assumes "nth_opt (vm_consts vm) i = Some (CRegex p)" "vm_ok env vm"
    and "vs_stack st = rev vs @ rest" "length vs = 1" "length rest < vm_depth vm"
  shows "has_effect env vm (Matches i) st rest (Inr (matches env p (vs ! 0)), vs_world st)"
proof -
  have "regex_test env (vm_regex_cache vm) i (vs ! 0) = matches env p (vs ! 0)"
    using assms(1,2) by (cases "vs ! 0") (auto simp: regex_test_def matches_def vm_ok_def nth_opt_def split: sum.splits)
  then show ?thesis
    using assms(5) one_on_stack [OF assms(3,4)] by (simp add: effect_defs)
qed

lemma call_effect:
  assumes "vs_stack st = rev vs @ rest" "length vs = builtin_expected_argc b" "length rest < vm_depth vm"
  shows "has_effect env vm (CallBuiltin b k) st rest (call env (vm_lim vm) b vs (vs_world st))"
proof (cases "w_calls (vs_world st) = 0")
  case True
  then show ?thesis by (simp add: has_effect_def tick_call_def call_def)
next
  case False
  let ?st = "st\<lparr>vs_world := (vs_world st)\<lparr>w_calls := w_calls (vs_world st) - 1\<rparr>\<rparr>"
  show ?thesis
  proof (cases "builtin_pops b = builtin_expected_argc b")
    case True
    have "pop_args (builtin_pops b) [] ?st k' = k' vs (?st\<lparr>vs_stack := rest\<rparr>)"
      for k' :: "dsl_value list \<Rightarrow> 'a vm_state \<Rightarrow> 'a step_result"
      using pop_args_stack [of ?st vs rest "[]" k'] assms True by simp
    then show ?thesis
      using \<open>w_calls (vs_world st) \<noteq> 0\<close> assms(3)
      by (auto simp: has_effect_def tick_call_def call_def call_builtin_def push_result_def push_def
          split: prod.splits sum.splits)
  next
    case False
    then have "b = Sha256 \<or> b = Md5 \<or> b = RegexFind \<or> b = RegexReplace \<or> b = Range" "builtin_pops b = 0"
      by (auto simp: builtin_pops_def split: if_splits)
    then show ?thesis
      using \<open>w_calls (vs_world st) \<noteq> 0\<close>
      by (auto simp: has_effect_def tick_call_def call_def call_builtin_def push_result_def)
  qed
qed

lemma builtin_functions_argc: "map_of builtin_functions name = Some (b, n) \<Longrightarrow> n = builtin_expected_argc b"
  by (auto simp: builtin_functions_def split: if_splits)

section \<open>Expressions\<close>

lemma eval_args_length: "eval_args env lim rho as w = (Inr vs, w') \<Longrightarrow> length vs = length as"
proof (induction as arbitrary: w vs w')
  case (Cons a as)
  obtain r w1 where a: "eval env lim rho a w = (r, w1)" by fastforce
  obtain r2 w2 where as: "eval_args env lim rho as w1 = (r2, w2)" by fastforce
  from Cons.prems a as Cons.IH [of w1] show ?case by (cases r; cases r2) auto
qed simp

lemma single_length: "single m = (Inr vs, w') \<Longrightarrow> length vs = 1"
  by (cases m; cases "fst m") auto

lemma single_pair [simp]: "single (r, w) = (case r of Inl e \<Rightarrow> (Inl e, w) | Inr v \<Rightarrow> (Inr [v], w))"
  by (cases r) auto

lemma then_args_length:
  assumes "then_args f g rho w = (Inr vs, w')"
    and "\<And>rho w vs w'. f rho w = (Inr vs, w') \<Longrightarrow> length vs = k"
    and "\<And>rho w vs w'. g rho w = (Inr vs, w') \<Longrightarrow> length vs = l"
  shows "length vs = k + l"
  using assms by (auto simp: then_args_def w_bind_def split: prod.splits sum.splits)

definition expr_compiles :: "('s, 'r) vm_env \<Rightarrow> 'r vm \<Rightarrow> expr \<Rightarrow> bool" where
  "expr_compiles env vm e \<longleftrightarrow>
     (\<forall>c c'. compile_expr (regex_new env) e c = Inr c' \<longrightarrow> clean_expr e \<longrightarrow>
        (\<exists>ops. compiled env vm c c' (need_expr e) (\<lambda>rho w. single (eval env (vm_lim vm) rho e w)) ops))"

lemma expr_compilesD:
  "expr_compiles env vm e \<Longrightarrow> compile_expr (regex_new env) e c = Inr c' \<Longrightarrow> clean_expr e \<Longrightarrow>
   \<exists>ops. compiled env vm c c' (need_expr e) (\<lambda>rho w. single (eval env (vm_lim vm) rho e w)) ops"
  unfolding expr_compiles_def by blast

lemma compile_args_correct:
  assumes "\<forall>a \<in> set as. expr_compiles env vm a" "compile_args (regex_new env) as c = Inr c'" "clean_args as"
  shows "\<exists>ops. compiled env vm c c' (need_args as) (\<lambda>rho w. eval_args env (vm_lim vm) rho as w) ops"
  using assms
proof (induction as arbitrary: c)
  case Nil
  then show ?case by (auto simp: compiled_def intro!: exI [of _ "[]"])
next
  case (Cons a as)
  then obtain c1 where c1: "compile_expr (regex_new env) a c = Inr c1" "compile_args (regex_new env) as c1 = Inr c'"
    by (auto simp: res_bind_Inr_iff)
  obtain xs where xs: "compiled env vm c c1 (need_expr a) (\<lambda>rho w. single (eval env (vm_lim vm) rho a w)) xs"
    using expr_compilesD [of env vm a c c1] Cons.prems c1 by auto
  obtain ys where ys: "compiled env vm c1 c' (need_args as) (\<lambda>rho w. eval_args env (vm_lim vm) rho as w) ys"
    using Cons.IH [of c1] Cons.prems c1 by auto
  have "compiled env vm c c' (need_args (a # as))
      (then_args (\<lambda>rho w. single (eval env (vm_lim vm) rho a w)) (\<lambda>rho w. eval_args env (vm_lim vm) rho as w)) (xs @ ys)"
    by (rule compiled_seq [OF xs ys, of 1]) (auto dest: single_length)
  also have "then_args (\<lambda>rho w. single (eval env (vm_lim vm) rho a w)) (\<lambda>rho w. eval_args env (vm_lim vm) rho as w)
      = (\<lambda>rho w. eval_args env (vm_lim vm) rho (a # as) w)"
    by (intro ext) (simp add: then_args_def w_bind_def single_def split: prod.splits sum.splits)
  finally show ?case by blast
qed

text \<open>A call of a builtin on compiled arguments.\<close>

lemma compiled_call:
  assumes "compiled env vm c c1 n (\<lambda>rho w. eval_args env (vm_lim vm) rho as w) xs"
    and "length as = builtin_expected_argc b" "n \<le> d" "0 < d"
  shows "compiled env vm c (emit (CallBuiltin b k) c1) d
     (\<lambda>rho w. single (w_bind (eval_args env (vm_lim vm) rho as w) (call env (vm_lim vm) b))) (xs @ [CallBuiltin b k])"
proof -
  have "compiled env vm c (emit (CallBuiltin b k) c1) d
      (\<lambda>rho w. w_bind (eval_args env (vm_lim vm) rho as w) (\<lambda>vs w. single (call env (vm_lim vm) b vs w)))
      (xs @ [CallBuiltin b k])"
    using assms
    by (intro compiled_op [where k = "builtin_expected_argc b"]) (auto dest: eval_args_length intro: call_effect)
  moreover have "(\<lambda>rho w. w_bind (eval_args env (vm_lim vm) rho as w) (\<lambda>vs w. single (call env (vm_lim vm) b vs w)))
      = (\<lambda>rho w. single (w_bind (eval_args env (vm_lim vm) rho as w) (call env (vm_lim vm) b)))"
    by (intro ext) (simp add: w_bind_def split: prod.splits sum.splits)
  ultimately show ?thesis by simp
qed

text \<open>Two operands and an instruction that combines them.\<close>

lemma compiled_binary:
  assumes 1: "compiled env vm c c1 n (\<lambda>rho w. single (f rho w)) xs"
    and 2: "compiled env vm c1 c2 m (\<lambda>rho w. single (g rho w)) ys"
    and op: "\<And>st vs rest. vs_stack st = rev vs @ rest \<Longrightarrow> length vs = 2 \<Longrightarrow> length rest < vm_depth vm \<Longrightarrow>
               has_effect env vm op st rest (h (vs ! 0) (vs ! 1), vs_world st)"
    and need: "n \<le> d" "1 + m \<le> d"
  shows "compiled env vm c (emit op c2) d
           (\<lambda>rho w. single (w_bind (f rho w) (\<lambda>a w. w_bind (g rho w) (\<lambda>b w. (h a b, w))))) ((xs @ ys) @ [op])"
proof -
  let ?f = "\<lambda>rho w. single (f rho w)" and ?g = "\<lambda>rho w. single (g rho w)"
  have "compiled env vm c c2 d (then_args ?f ?g) (xs @ ys)"
    using need by (intro compiled_seq [OF 1 2, of 1]) (auto dest: single_length)
  then have "compiled env vm c (emit op c2) d
      (\<lambda>rho w. w_bind (then_args ?f ?g rho w) (\<lambda>vs w. single (h (vs ! 0) (vs ! 1), w))) ((xs @ ys) @ [op])"
  proof (rule compiled_op [where k = 2 and g = "\<lambda>vs w. (h (vs ! 0) (vs ! 1), w)"])
    show "length vs = 2" if "then_args ?f ?g rho w = (Inr vs, w')" for rho w vs w'
    proof -
      have "length vs = 1 + 1" by (rule then_args_length [OF that]) (rule single_length, assumption)+
      then show ?thesis by simp
    qed
  qed (use need op in auto)
  moreover have "(\<lambda>rho w. w_bind (then_args ?f ?g rho w) (\<lambda>vs w. single (h (vs ! 0) (vs ! 1), w)))
      = (\<lambda>rho w. single (w_bind (f rho w) (\<lambda>a w. w_bind (g rho w) (\<lambda>b w. (h a b, w)))))"
    by (intro ext) (simp add: then_args_def w_bind_def single_def split: prod.splits sum.splits)
  ultimately show ?thesis by simp
qed

lemma compiled_unary:
  assumes 1: "compiled env vm c c1 n (\<lambda>rho w. single (f rho w)) xs"
    and op: "\<And>st vs rest. const_ok c1 \<Longrightarrow> runs_code_of env vm c1 \<Longrightarrow> vs_stack st = rev vs @ rest \<Longrightarrow> length vs = 1 \<Longrightarrow>
               length rest < vm_depth vm \<Longrightarrow> has_effect env vm op st rest (h (vs ! 0), vs_world st)"
    and need: "n \<le> d" "0 < d"
  shows "compiled env vm c (emit op c1) d (\<lambda>rho w. single (w_bind (f rho w) (\<lambda>a w. (h a, w)))) (xs @ [op])"
proof -
  have "compiled env vm c (emit op c1) d
      (\<lambda>rho w. w_bind (single (f rho w)) (\<lambda>vs w. single (h (vs ! 0), w))) (xs @ [op])"
    using need op by (intro compiled_op [OF 1, where k = 1 and g = "\<lambda>vs w. (h (vs ! 0), w)"]) (auto dest: single_length)
  moreover have "(\<lambda>rho w. w_bind (single (f rho w)) (\<lambda>vs w. single (h (vs ! 0), w)))
      = (\<lambda>rho w. single (w_bind (f rho w) (\<lambda>a w. (h a, w))))"
    by (intro ext) (simp add: w_bind_def single_def split: prod.splits sum.splits)
  ultimately show ?thesis by simp
qed

lemma compile_method_call_correct:
  fixes env :: "('s, 'r) vm_env"
  assumes ob: "expr_compiles env vm ob" and args: "\<forall>a \<in> set args. expr_compiles env vm a"
    and comp: "compile_method_call (regex_new env) ob m args c = Inr c'"
    and clean: "clean_expr ob" "clean_args args"
    and d: "need_expr ob \<le> d" "args = [] \<or> 1 + need_args args \<le> d"
  shows "\<exists>ops. compiled env vm c c' d (\<lambda>rho w. single (eval_method env (vm_lim vm) rho ob m args w)) ops"
proof -
  have pos: "0 < d" using d(1) need_expr_pos [of ob] by simp
  have dn: "need_args args \<le> d" using d(2) by auto
  consider
      (call) b where "namespace_builtin ob m = Some b"
    | (test) op a where "namespace_builtin ob m = None" "string_method m = Some op" "args = [a]"
    | (match) p where "namespace_builtin ob m = None" "string_method m = None" "args = [StringLit p]"
    using comp by (auto split: option.splits list.splits expr.splits if_splits)
  then show ?thesis
  proof cases
    case call
    then obtain c1 where c1: "compile_args (regex_new env) args c = Inr c1" "length args = builtin_expected_argc b"
        "c' = emit (CallBuiltin b (length args mod 256)) c1"
      using comp by (auto simp: res_bind_Inr_iff split: if_splits)
    obtain xs where "compiled env vm c c1 (need_args args) (\<lambda>rho w. eval_args env (vm_lim vm) rho args w) xs"
      using compile_args_correct [OF args c1(1) clean(2)] by blast
    from compiled_call [OF this c1(2) dn pos] show ?thesis using call c1(3) by auto
  next
    case test
    then obtain c1 c2 where c: "compile_expr (regex_new env) ob c = Inr c1" "compile_expr (regex_new env) a c1 = Inr c2"
        "c' = emit op c2"
      using comp by (auto simp: res_bind_Inr_iff)
    obtain xs ys where xs: "compiled env vm c c1 (need_expr ob) (\<lambda>rho w. single (eval env (vm_lim vm) rho ob w)) xs"
      and ys: "compiled env vm c1 c2 (need_expr a) (\<lambda>rho w. single (eval env (vm_lim vm) rho a w)) ys"
      using expr_compilesD [OF ob c(1) clean(1)] expr_compilesD [of env vm a c1 c2] c args clean test by auto
    obtain p where p: "string_predicate m = Some p" using test string_method_predicate [of m] by auto
    have "compiled env vm c (emit op c2) d
        (\<lambda>rho w. single (w_bind (eval env (vm_lim vm) rho ob w) (\<lambda>s w.
           w_bind (eval env (vm_lim vm) rho a w) (\<lambda>q w. (Inr (v_string_test p s q), w))))) ((xs @ ys) @ [op])"
    proof (rule compiled_binary [OF xs ys])
      fix st :: "'s vm_state" and vs rest
      assume "vs_stack st = rev vs @ rest" "length vs = 2" "length rest < vm_depth vm"
      from string_method_effect [OF test(2) this, of env] p
      show "has_effect env vm op st rest (Inr (v_string_test p (vs ! 0) (vs ! 1)), vs_world st)" by simp
    qed (use d test in auto)
    then show ?thesis using test p c(3) by auto
  next
    case match
    then have m: "m = ''matches''" using comp by (auto split: if_splits)
    obtain i c1 c2 where c: "add_regex_const (regex_new env) p c = Inr (i, c1)"
        "compile_expr (regex_new env) ob c1 = Inr c2" "c' = emit (Matches i) c2"
      using comp match m by (auto simp: res_bind_Inr_iff)
    have c1: "emits c c1 []" "const_ok c \<longrightarrow> const_ok c1" "nth_opt (co_constants c1) i = Some (CRegex p)"
      using add_regex_const_ok [OF c(1)] by blast+
    obtain xs where xs: "compiled env vm c1 c2 (need_expr ob) (\<lambda>rho w. single (eval env (vm_lim vm) rho ob w)) xs"
      using expr_compilesD [OF ob c(2) clean(1)] by blast
    then have e: "emits c1 c2 xs" by (rule compiled_emits)
    have "compiled env vm c1 (emit (Matches i) c2) d
        (\<lambda>rho w. single (w_bind (eval env (vm_lim vm) rho ob w) (\<lambda>s w. (Inr (matches env p s), w)))) (xs @ [Matches i])"
    proof (rule compiled_unary [OF xs])
      fix st :: "'s vm_state" and vs rest
      assume a: "runs_code_of env vm c2" "vs_stack st = rev vs @ rest" "length vs = 1" "length rest < vm_depth vm"
      then have "prefix (co_constants c1) (vm_consts vm)" "vm_ok env vm"
        using runs_code_of_earlier [OF a(1) e] by (simp_all add: runs_code_of_def)
      then show "has_effect env vm (Matches i) st rest (Inr (matches env p (vs ! 0)), vs_world st)"
        using matches_effect [OF nth_opt_prefix [OF _ c1(3)] _ a(2-4)] by blast
    qed (use d pos in auto)
    then have "compiled env vm c (emit (Matches i) c2) d
        (\<lambda>rho w. single (w_bind (eval env (vm_lim vm) rho ob w) (\<lambda>s w. (Inr (matches env p s), w)))) (xs @ [Matches i])"
      using c1 emits_trans [OF c1(1), of "emit (Matches i) c2"] by (auto simp: compiled_def emits_def)
    then show ?thesis using match c(3) string_method_predicate [of m] by auto
  qed
qed

lemma compiled_const:
  assumes "emits c c1 []" "const_ok c \<longrightarrow> const_ok c1 \<and> nth_opt (co_constants c1) i = Some k"
  shows "compiled env vm c (emit (LoadConst i) c1) 1 (\<lambda>rho w. (Inr [const_value k], w)) [LoadConst i]"
proof (rule compiled_push)
  fix st
  assume "const_ok c" "runs_code_of env vm c1"
  then have "nth_opt (vm_consts vm) i = Some k"
    using assms(2) nth_opt_prefix [of "co_constants c1" "vm_consts vm"] by (simp add: runs_code_of_def)
  then show "vm_step env vm (LoadConst i) st = push (vm_depth vm) (const_value k) st"
    by (simp add: Let_def del: nth_opt_Some_iff)
qed (use assms in auto)

lemma compiled_short_circuit:
  fixes env :: "('s, 'r) vm_env"
  assumes l: "expr_compiles env vm l" and r: "expr_compiles env vm r"
    and comp: "compile_expr (regex_new env) (BinaryOp bop l r) c = Inr c'" and clean: "clean_expr l" "clean_expr r"
    and bop: "bop = BinAnd \<or> bop = BinOr"
  shows "\<exists>ops. compiled env vm c c' (need_expr (BinaryOp bop l r))
           (\<lambda>rho w. single (eval env (vm_lim vm) rho (BinaryOp bop l r) w)) ops"
proof -
  let ?d = "need_expr (BinaryOp bop l r)"
  let ?ev = "\<lambda>e rho w. eval env (vm_lim vm) rho e w"
  obtain c1 where c1: "compile_expr (regex_new env) l c = Inr c1" using comp bop by (auto simp: res_bind_Inr_iff)
  obtain xs where xs: "compiled env vm c c1 (need_expr l) (\<lambda>rho w. single (?ev l rho w)) xs"
    using expr_compilesD [OF l c1 clean(1)] by blast
  have need: "need_expr l \<le> ?d" "need_expr r \<le> ?d" "0 < ?d" using need_expr_pos [of l] by auto
  show ?thesis
  proof (cases "bop = BinAnd")
    case True
    then obtain c2 c3 where c: "compile_expr (regex_new env) r (emit (JumpIfFalse 0) c1) = Inr c2"
        "patch_jump (length (co_code c1)) (emit (Jump 0) c2) = Inr c3"
        "patch_jump (length (co_code c2)) (emit LoadFalse c3) = Inr c'"
      using comp c1 by (auto simp: res_bind_Inr_iff Let_def)
    obtain ys where "compiled env vm (emit (JumpIfFalse 0) c1) c2 (need_expr r) (\<lambda>rho w. single (?ev r rho w)) ys"
      using expr_compilesD [OF r c(1) clean(2)] by blast
    from compiled_branch [OF xs this c(2,3) _ need] True show ?thesis by simp
  next
    case False
    with bop have or: "bop = BinOr" by simp
    then obtain c2 c3 where c: "compile_expr (regex_new env) r (emit (JumpIfFalse 0) (emit OpNot c1)) = Inr c2"
        "patch_jump (length (co_code (emit OpNot c1))) (emit (Jump 0) c2) = Inr c3"
        "patch_jump (length (co_code c2)) (emit LoadTrue c3) = Inr c'"
      using comp c1 by (auto simp: res_bind_Inr_iff Let_def)
    have not: "compiled env vm c (emit OpNot c1) (need_expr l)
        (\<lambda>rho w. single (w_bind (?ev l rho w) (\<lambda>a w. (Inr (VBool (\<not> is_truthy a)), w)))) (xs @ [OpNot])"
      using need_expr_pos [of l] by (rule compiled_unary [OF xs _ order.refl, rotated]) (use unary_opcode_effect [where uop = UnNot] in simp)
    obtain ys where "compiled env vm (emit (JumpIfFalse 0) (emit OpNot c1)) c2 (need_expr r) (\<lambda>rho w. single (?ev r rho w)) ys"
      using expr_compilesD [OF r c(1) clean(2)] by blast
    from compiled_branch [OF not this c(2,3), where v = "VBool True", OF _ need]
    obtain ops where "compiled env vm c c' ?d (\<lambda>rho w. single (w_bind (w_bind (?ev l rho w) (\<lambda>a w. (Inr (VBool (\<not> is_truthy a)), w)))
        (\<lambda>a w. if is_truthy a then ?ev r rho w else (Inr (VBool True), w)))) ops" by auto
    moreover have "w_bind (w_bind (?ev l rho w) (\<lambda>a w. (Inr (VBool (\<not> is_truthy a)), w)))
        (\<lambda>a w. if is_truthy a then ?ev r rho w else (Inr (VBool True), w)) = ?ev (BinaryOp bop l r) rho w" for rho w
      using or by (simp add: w_bind_def split: prod.splits sum.splits)
    ultimately show ?thesis by auto
  qed
qed

lemma compile_expr_correct:
  fixes env :: "('s, 'r) vm_env"
  shows "expr_compiles env vm e"
proof (induction e)
  case (StringLit s)
  show ?case unfolding expr_compiles_def
    using compiled_const [of _ _ _ "CStr s"] add_str_const_ok
    by (fastforce simp: res_bind_Inr_iff const_value_def)
next
  case (IntLit n)
  show ?case unfolding expr_compiles_def
    using compiled_const [of _ _ _ "CInt n"] add_int_const_ok
    by (fastforce simp: res_bind_Inr_iff const_value_def)
next
  case (BoolLit b)
  show ?case unfolding expr_compiles_def
    using compiled_push [of c c env vm "if b then LoadTrue else LoadFalse" "\<lambda>_. VBool b" for c] by (auto intro!: exI)
next
  case NilLit
  show ?case unfolding expr_compiles_def
    using compiled_push [of c c env vm LoadNil "\<lambda>_. VNil" for c] by (auto intro!: exI)
next
  case (Ident x)
  show ?case unfolding expr_compiles_def
  proof (intro allI impI)
    fix c c'
    assume "compile_expr (regex_new env) (Ident x) c = Inr c'" "clean_expr (Ident x)"
    then obtain l where l: "find (\<lambda>l. lv_name l = x) (co_locals c) = Some l" "c' = emit (GetLocal (lv_slot l)) c"
        "\<not> hidden_name x"
      by (auto simp: resolve_local_def split: option.splits)
    let ?v = "\<lambda>rho. case map_of rho x of Some v \<Rightarrow> v | None \<Rightarrow> VNil"
    have "compiled env vm c (emit (GetLocal (lv_slot l)) c) 1 (\<lambda>rho w. (Inr [?v rho], w)) [GetLocal (lv_slot l)]"
    proof (rule compiled_push)
      fix st :: "'s vm_state"
      assume "slots_below (length (vs_locals st)) (co_locals c)"
      moreover have "l \<in> set (co_locals c)" using l(1) by (metis find_Some_iff nth_mem)
      ultimately show "vm_step env vm (GetLocal (lv_slot l)) st = push (vm_depth vm) (?v (venv_of (co_locals c) (vs_locals st))) st"
        using l by (simp add: map_of_venv slots_below_def nth_opt_def)
    qed simp_all
    then show "\<exists>ops. compiled env vm c c' (need_expr (Ident x)) (\<lambda>rho w. single (eval env (vm_lim vm) rho (Ident x) w)) ops"
      using l(2) by auto
  qed
next
  case (BinaryOp bop l r)
  show ?case unfolding expr_compiles_def
  proof (intro allI impI)
    fix c c'
    assume a: "compile_expr (regex_new env) (BinaryOp bop l r) c = Inr c'" "clean_expr (BinaryOp bop l r)"
    show "\<exists>ops. compiled env vm c c' (need_expr (BinaryOp bop l r))
        (\<lambda>rho w. single (eval env (vm_lim vm) rho (BinaryOp bop l r) w)) ops"
    proof (cases "bop = BinAnd \<or> bop = BinOr")
      case True
      with compiled_short_circuit [OF BinaryOp.IH a(1)] a(2) show ?thesis by simp
    next
      case False
      then obtain c1 c2 op where c: "compile_expr (regex_new env) l c = Inr c1" "compile_expr (regex_new env) r c1 = Inr c2"
          "binary_opcode bop = Some op" "c' = emit op c2"
        using a(1) by (auto simp: res_bind_Inr_iff split: option.splits)
      obtain xs ys where xs: "compiled env vm c c1 (need_expr l) (\<lambda>rho w. single (eval env (vm_lim vm) rho l w)) xs"
        and ys: "compiled env vm c1 c2 (need_expr r) (\<lambda>rho w. single (eval env (vm_lim vm) rho r w)) ys"
        using expr_compilesD [OF BinaryOp.IH(1) c(1)] expr_compilesD [OF BinaryOp.IH(2) c(2)] a(2) by auto
      have "compiled env vm c (emit op c2) (need_expr (BinaryOp bop l r))
          (\<lambda>rho w. single (w_bind (eval env (vm_lim vm) rho l w) (\<lambda>a w. w_bind (eval env (vm_lim vm) rho r w)
             (\<lambda>b w. (bin_value (max_string_len (vm_lim vm)) bop a b, w))))) ((xs @ ys) @ [op])"
        by (rule compiled_binary [OF xs ys]) (auto intro: binary_opcode_effect [OF c(3), unfolded One_nat_def])
      then show ?thesis using False c(4) by auto
    qed
  qed
next
  case (UnaryOp uop e)
  show ?case unfolding expr_compiles_def
  proof (intro allI impI)
    fix c c'
    assume "compile_expr (regex_new env) (UnaryOp uop e) c = Inr c'" "clean_expr (UnaryOp uop e)"
    then obtain c1 xs where "c' = emit (case uop of UnNot \<Rightarrow> OpNot | UnNeg \<Rightarrow> OpNeg) c1"
        "compiled env vm c c1 (need_expr e) (\<lambda>rho w. single (eval env (vm_lim vm) rho e w)) xs"
      using expr_compilesD [OF UnaryOp.IH] by (fastforce simp: res_bind_Inr_iff)
    with compiled_unary [OF this(2), where h = "un_value uop", OF unary_opcode_effect] need_expr_pos [of e]
    show "\<exists>ops. compiled env vm c c' (need_expr (UnaryOp uop e)) (\<lambda>rho w. single (eval env (vm_lim vm) rho (UnaryOp uop e) w)) ops"
      by fastforce
  qed
next
  case (MethodCall ob m args)
  then show ?case
    using compile_method_call_correct [of env vm ob args m _ _ "need_expr (MethodCall ob m args)"]
    unfolding expr_compiles_def by fastforce
next
  case (FnCall name args)
  show ?case unfolding expr_compiles_def
  proof (intro allI impI)
    fix c c'
    assume a: "compile_expr (regex_new env) (FnCall name args) c = Inr c'" "clean_expr (FnCall name args)"
    then obtain b c1 where b: "map_of builtin_functions name = Some (b, length args)"
        "compile_args (regex_new env) args c = Inr c1" "c' = emit (CallBuiltin b (length args mod 256)) c1"
      by (auto simp: res_bind_Inr_iff split: option.splits if_splits)
    obtain xs where "compiled env vm c c1 (need_args args) (\<lambda>rho w. eval_args env (vm_lim vm) rho args w) xs"
      using compile_args_correct [OF _ b(2)] FnCall.IH a(2) by auto
    then have "compiled env vm c c' (need_expr (FnCall name args))
        (\<lambda>rho w. single (w_bind (eval_args env (vm_lim vm) rho args w) (call env (vm_lim vm) b)))
        (xs @ [CallBuiltin b (length args mod 256)])"
      unfolding b(3) by (rule compiled_call [OF _ builtin_functions_argc [OF b(1)]]) auto
    with b(1)
    show "\<exists>ops. compiled env vm c c' (need_expr (FnCall name args))
        (\<lambda>rho w. single (eval env (vm_lim vm) rho (FnCall name args) w)) ops"
      by auto
  qed
next
  case (FieldAccess ob f)
  then show ?case
    using compile_method_call_correct [of env vm ob "[]" f _ _ "need_expr ob"]
    unfolding expr_compiles_def by fastforce
qed

end
