(* ===== verification/Dsl_Stmt_Correct.thy ===== *)
theory Dsl_Stmt_Correct
  imports Dsl_Expr_Correct
begin

text \<open>
  The code of statements behaves as the reference semantics: variables live in slots, blocks
  give their slots up, branches jump over each other, and loops repeat through \<open>LoopBack\<close>. The
  frame part of the invariant says which slots a statement leaves alone, in particular the
  hidden variables of the loops around it.
\<close>

section \<open>What a statement leaves alone\<close>

definition mut_slots :: "local_var list \<Rightarrow> nat set" where
  "mut_slots ls = lv_slot ` {l \<in> set (visible ls). lv_mutable l}"

definition frame :: "nat \<Rightarrow> local_var list \<Rightarrow> dsl_value list \<Rightarrow> dsl_value list \<Rightarrow> bool" where
  "frame lo ls locs locs' \<longleftrightarrow>
     length locs' = length locs \<and> (\<forall>s < lo. s \<notin> mut_slots ls \<longrightarrow> locs' ! s = locs ! s)"

lemma frame_refl [simp]: "frame lo ls locs locs"
  by (simp add: frame_def)

lemma frame_trans:
  assumes "frame lo ls locs locs1" "frame lo1 ls1 locs1 locs2" "lo \<le> lo1" "mut_slots ls1 \<subseteq> mut_slots ls \<union> {lo..}"
  shows "frame lo ls locs locs2"
proof -
  have "locs2 ! s = locs ! s" if "s < lo" "s \<notin> mut_slots ls" for s
  proof -
    have "s < lo1" "s \<notin> mut_slots ls1" using that assms(3,4) by auto
    then show ?thesis using assms(1,2) that by (simp add: frame_def)
  qed
  then show ?thesis using assms(1,2) by (simp add: frame_def)
qed

lemma frame_update: "lo \<le> s \<Longrightarrow> frame lo ls locs (locs[s := v])"
  by (auto simp: frame_def)

lemma frame_length: "frame lo ls locs locs' \<Longrightarrow> length locs' = length locs"
  by (simp add: frame_def)

lemma venv_of_append: "venv_of (news @ ls) locs = venv_of news locs @ venv_of ls locs"
  by (simp add: venv_of_def visible_def)

lemma venv_of_cong: "(\<And>l. l \<in> set (visible ls) \<Longrightarrow> locs ! lv_slot l = locs' ! lv_slot l) \<Longrightarrow> venv_of ls locs = venv_of ls locs'"
  by (simp add: venv_of_def)

lemma set_visible: "set (visible ls) \<subseteq> set ls"
  by (auto simp: visible_def)

lemma venv_of_update_above: "slots_below lo ls \<Longrightarrow> lo \<le> s \<Longrightarrow> venv_of ls (locs[s := v]) = venv_of ls locs"
  using set_visible [of ls] by (intro venv_of_cong nth_list_update_neq) (fastforce simp: slots_below_def)

lemma mut_slots_append: "mut_slots (news @ ls) = mut_slots news \<union> mut_slots ls"
  by (auto simp: mut_slots_def visible_def)

lemma mut_slots_above: "(\<And>l. l \<in> set news \<Longrightarrow> lo \<le> lv_slot l) \<Longrightarrow> mut_slots news \<subseteq> {lo..}"
  by (auto simp: mut_slots_def visible_def)

section \<open>Flow of one state\<close>

text \<open>
  From \<open>st\<close> the machine ends as \<open>m\<close> says, or gets to \<open>st0\<close> with new locals, world and program
  counter; \<open>st0\<close> fixes the stack and the loop counters on arrival.
\<close>

definition flows ::
  "('s, 'r) vm_env \<Rightarrow> 'r vm \<Rightarrow> 's vm_state \<Rightarrow> 's vm_state \<Rightarrow> nat \<Rightarrow> nat \<Rightarrow> local_var list \<Rightarrow> local_var list \<Rightarrow> 's flow \<Rightarrow> bool"
where
  "flows env vm st0 st pc lo ls ls' m \<longleftrightarrow>
     (case m of
        Done r w \<Rightarrow> ends env vm st r w
      | Continue rho w \<Rightarrow>
          \<exists>locs. reaches env vm st (st0\<lparr>vs_pc := pc, vs_locals := locs, vs_world := w\<rparr>)
                 \<and> frame lo ls (vs_locals st) locs \<and> rho = venv_of ls' locs)"

lemma flows_Done [simp]: "flows env vm st0 st pc lo ls ls' (Done r w) \<longleftrightarrow> ends env vm st r w"
  by (simp add: flows_def)

lemma flows_target [simp]:
  "flows env vm (st0\<lparr>vs_pc := p\<rparr>) st pc lo ls ls' m = flows env vm st0 st pc lo ls ls' m"
  "flows env vm (st0\<lparr>vs_locals := l\<rparr>) st pc lo ls ls' m = flows env vm st0 st pc lo ls ls' m"
  "flows env vm (st0\<lparr>vs_world := w\<rparr>) st pc lo ls ls' m = flows env vm st0 st pc lo ls ls' m"
  by (cases m; simp add: flows_def)+

lemma flowsI:
  "reaches env vm st (st0\<lparr>vs_pc := pc, vs_locals := locs, vs_world := w\<rparr>) \<Longrightarrow>
   frame lo ls (vs_locals st) locs \<Longrightarrow> rho = venv_of ls' locs \<Longrightarrow>
   flows env vm st0 st pc lo ls ls' (Continue rho w)"
  by (auto simp: flows_def)

lemma flows_after:
  assumes r: "reaches env vm st st1" and fr: "frame lo ls (vs_locals st) (vs_locals st1)"
    and fl: "flows env vm st0 st1 pc lo1 ls1 ls' m"
    and lo: "lo \<le> lo1" "mut_slots ls1 \<subseteq> mut_slots ls \<union> {lo..}"
  shows "flows env vm st0 st pc lo ls ls' m"
proof (cases m)
  case (Done q w)
  with fl show ?thesis using reaches_ends [OF r] by simp
next
  case (Continue rho w)
  with fl obtain locs where l: "reaches env vm st1 (st0\<lparr>vs_pc := pc, vs_locals := locs, vs_world := w\<rparr>)"
      "frame lo1 ls1 (vs_locals st1) locs" "rho = venv_of ls' locs"
    by (auto simp: flows_def)
  show ?thesis unfolding Continue using reaches_trans [OF r l(1)] frame_trans [OF fr l(2) lo] l(3) by (rule flowsI)
qed

lemma flows_step:
  assumes "reaches env vm st st1" "vs_locals st1 = vs_locals st" "flows env vm st0 st1 pc lo ls ls' m"
  shows "flows env vm st0 st pc lo ls ls' m"
  using assms by (intro flows_after [OF assms(1) _ assms(3)]) auto

section \<open>Statement code\<close>

definition stmt_code ::
  "('s, 'r) vm_env \<Rightarrow> 'r vm \<Rightarrow> nat \<Rightarrow> nat \<Rightarrow> local_var list \<Rightarrow> local_var list \<Rightarrow> nat
     \<Rightarrow> (venv \<Rightarrow> 's world \<Rightarrow> 's flow) \<Rightarrow> opcode list \<Rightarrow> bool"
where
  "stmt_code env vm lo hi ls ls' need sem ops \<longleftrightarrow>
     (\<forall>st. code_at (vm_code vm) (vs_pc st) ops \<longrightarrow> hi \<le> length (vs_locals st) \<longrightarrow>
           length (vs_stack st) + need \<le> vm_depth vm \<longrightarrow>
           flows env vm st st (vs_pc st + length ops) lo ls ls' (sem (venv_of ls (vs_locals st)) (vs_world st)))"

lemma stmt_codeD:
  "stmt_code env vm lo hi ls ls' need sem ops \<Longrightarrow> code_at (vm_code vm) (vs_pc st) ops \<Longrightarrow>
   hi \<le> length (vs_locals st) \<Longrightarrow> length (vs_stack st) + need \<le> vm_depth vm \<Longrightarrow>
   flows env vm st st (vs_pc st + length ops) lo ls ls' (sem (venv_of ls (vs_locals st)) (vs_world st))"
  by (simp add: stmt_code_def)

text \<open>Running statement code and then going on from the state it leaves.\<close>

lemma flows_stmt:
  assumes f: "stmt_code env vm lo mid ls ls1 n f xs"
    and at: "code_at (vm_code vm) (vs_pc st) xs" "mid \<le> length (vs_locals st)"
      "length (vs_stack st) + n \<le> vm_depth vm"
    and k: "\<And>locs w. frame lo ls (vs_locals st) locs \<Longrightarrow>
      flows env vm st0 (st\<lparr>vs_pc := vs_pc st + length xs, vs_locals := locs, vs_world := w\<rparr>) pc lo1 ls1 ls2
        (g (venv_of ls1 locs) w)"
    and lo: "lo \<le> lo1" "mut_slots ls1 \<subseteq> mut_slots ls \<union> {lo..}"
  shows "flows env vm st0 st pc lo ls ls2 (flow_bind (f (venv_of ls (vs_locals st)) (vs_world st)) g)"
proof -
  have 1: "flows env vm st st (vs_pc st + length xs) lo ls ls1 (f (venv_of ls (vs_locals st)) (vs_world st))"
    using stmt_codeD [OF f at] .
  show ?thesis
  proof (cases "f (venv_of ls (vs_locals st)) (vs_world st)")
    case (Done r w)
    with 1 show ?thesis by simp
  next
    case (Continue rho w)
    with 1 obtain locs where l: "reaches env vm st (st\<lparr>vs_pc := vs_pc st + length xs, vs_locals := locs, vs_world := w\<rparr>)"
        "frame lo ls (vs_locals st) locs" "rho = venv_of ls1 locs"
      by (auto simp: flows_def)
    from flows_after [OF l(1) _ k [OF l(2)] lo] l(2,3) Continue show ?thesis by simp
  qed
qed

text \<open>Running expression code and then going on with its value on the stack.\<close>

lemma flows_expr:
  assumes e: "code_for env vm ls n (\<lambda>rho w. single (f rho w)) xs"
    and at: "code_at (vm_code vm) (vs_pc st) xs" "slots_below (length (vs_locals st)) ls"
      "length (vs_stack st) + n \<le> vm_depth vm"
    and k: "\<And>v w. flows env vm st0 (st\<lparr>vs_pc := vs_pc st + length xs, vs_stack := v # vs_stack st, vs_world := w\<rparr>)
      pc lo ls0 ls' (g v w)"
  shows "flows env vm st0 st pc lo ls0 ls' (value_bind (f (venv_of ls (vs_locals st)) (vs_world st)) g)"
proof -
  obtain r w where rw: "f (venv_of ls (vs_locals st)) (vs_world st) = (r, w)" by fastforce
  have "arrives env vm st (length xs) (single (r, w))" using code_forD [OF e at] rw by simp
  then show ?thesis using flows_step [OF _ _ k [where w = w]] rw by (cases r) simp_all
qed

lemma stmt_code_seq:
  fixes env :: "('s, 'r) vm_env"
  assumes f: "stmt_code env vm lo mid ls ls1 n f xs" and g: "stmt_code env vm mid hi ls1 ls2 m g ys"
    and lo: "lo \<le> mid" "mid \<le> hi" "mut_slots ls1 \<subseteq> mut_slots ls \<union> {lo..}" and need: "n \<le> d" "m \<le> d"
  shows "stmt_code env vm lo hi ls ls2 d (\<lambda>rho w. flow_bind (f rho w) g) (xs @ ys)"
  unfolding stmt_code_def
proof (intro allI impI)
  fix st :: "'s vm_state"
  assume at: "code_at (vm_code vm) (vs_pc st) (xs @ ys)" and hi: "hi \<le> length (vs_locals st)"
    and room: "length (vs_stack st) + d \<le> vm_depth vm"
  show "flows env vm st st (vs_pc st + length (xs @ ys)) lo ls ls2
          (flow_bind (f (venv_of ls (vs_locals st)) (vs_world st)) g)"
  proof (rule flows_stmt [OF f])
    fix locs w
    assume "frame lo ls (vs_locals st) locs"
    then have "length locs = length (vs_locals st)" by (rule frame_length)
    let ?st = "st\<lparr>vs_pc := vs_pc st + length xs, vs_locals := locs, vs_world := w\<rparr>"
    have "flows env vm ?st ?st (vs_pc st + length (xs @ ys)) mid ls1 ls2 (g (venv_of ls1 locs) w)"
      using stmt_codeD [OF g, of ?st] at hi room need \<open>length locs = _\<close> by (simp add: add.assoc)
    then show "flows env vm st ?st (vs_pc st + length (xs @ ys)) mid ls1 ls2 (g (venv_of ls1 locs) w)"
      by simp
  qed (use at hi room need lo in auto)
qed

section \<open>Compiler states\<close>

definition comp_ok :: "compiler \<Rightarrow> bool" where
  "comp_ok c \<longleftrightarrow>
     const_ok c \<and> distinct (map lv_slot (co_locals c)) \<and> slots_below (co_next_slot c) (co_locals c)
     \<and> (\<forall>l \<in> set (co_locals c). lv_depth l \<le> co_scope_depth c)"

definition grows :: "compiler \<Rightarrow> compiler \<Rightarrow> opcode list \<Rightarrow> local_var list \<Rightarrow> bool" where
  "grows c c' ops news \<longleftrightarrow>
     co_code c' = co_code c @ ops \<and> co_locals c' = news @ co_locals c
     \<and> (\<forall>l \<in> set news. lv_depth l = co_scope_depth c \<and> co_next_slot c \<le> lv_slot l)
     \<and> co_next_slot c \<le> co_next_slot c' \<and> co_scope_depth c' = co_scope_depth c
     \<and> co_loop_depth c' = co_loop_depth c \<and> prefix (co_constants c) (co_constants c')"

lemma grows_trans:
  "grows c c1 xs news \<Longrightarrow> grows c1 c2 ys news' \<Longrightarrow> grows c c2 (xs @ ys) (news' @ news)"
  by (auto simp: grows_def)

lemma emits_grows: "emits c c' ops \<Longrightarrow> grows c c' ops []"
  by (simp add: emits_def grows_def)

lemma grows_refl [simp]: "grows c c [] []"
  by (simp add: grows_def)

lemma grows_runs: "runs_code_of env vm c' \<Longrightarrow> grows c c' ops news \<Longrightarrow> runs_code_of env vm c"
  by (auto simp: runs_code_of_def grows_def)

lemma grows_mut_slots: "grows c c' ops news \<Longrightarrow> mut_slots (co_locals c') \<subseteq> mut_slots (co_locals c) \<union> {co_next_slot c..}"
  using mut_slots_above [of news "co_next_slot c"] by (auto simp: grows_def mut_slots_append)

lemma emits_comp_ok: "emits c c' ops \<Longrightarrow> const_ok c' \<Longrightarrow> comp_ok c \<Longrightarrow> comp_ok c'"
  by (simp add: emits_def comp_ok_def)

lemma comp_ok_const_ok: "comp_ok c \<Longrightarrow> const_ok c"
  by (simp add: comp_ok_def)

lemma emit_comp_ok [simp]: "comp_ok (emit op c) = comp_ok c"
  by (simp add: comp_ok_def)

definition stmt_compiles ::
  "('s, 'r) vm_env \<Rightarrow> 'r vm \<Rightarrow> compiler \<Rightarrow> compiler \<Rightarrow> nat \<Rightarrow> (venv \<Rightarrow> 's world \<Rightarrow> 's flow) \<Rightarrow> opcode list \<Rightarrow> local_var list \<Rightarrow> bool"
where
  "stmt_compiles env vm c c' need sem ops news \<longleftrightarrow>
     grows c c' ops news \<and> comp_ok c' \<and>
     (runs_code_of env vm c' \<longrightarrow>
        stmt_code env vm (co_next_slot c) (co_next_slot c') (co_locals c) (co_locals c') need sem ops)"

lemma stmt_compiles_seq:
  assumes f: "stmt_compiles env vm c c1 n f xs news" and g: "stmt_compiles env vm c1 c2 m g ys news'"
    and need: "n \<le> d" "m \<le> d"
  shows "stmt_compiles env vm c c2 d (\<lambda>rho w. flow_bind (f rho w) g) (xs @ ys) (news' @ news)"
proof -
  have gr: "grows c c1 xs news" "grows c1 c2 ys news'" using f g by (simp_all add: stmt_compiles_def)
  have "stmt_code env vm (co_next_slot c) (co_next_slot c2) (co_locals c) (co_locals c2) d
      (\<lambda>rho w. flow_bind (f rho w) g) (xs @ ys)" if "runs_code_of env vm c2"
    using that f g grows_runs [OF that gr(2)] grows_mut_slots [OF gr(1)] gr need
    by (intro stmt_code_seq [where n = n and m = m]) (auto simp: stmt_compiles_def grows_def)
  then show ?thesis using f g grows_trans [OF gr] by (simp add: stmt_compiles_def)
qed

lemma declare_local_fields:
  assumes "declare_local x m c = Inr (slot, c')"
  shows "slot = co_next_slot c"
    "c' = c\<lparr>co_next_slot := co_next_slot c + 1,
            co_locals := \<lparr>lv_name = x, lv_slot = co_next_slot c, lv_mutable = m, lv_depth = co_scope_depth c\<rparr> # co_locals c\<rparr>"
  using assms by (auto simp: declare_local_def split: if_splits)

lemma declare_local_comp_ok:
  assumes "declare_local x m c = Inr (slot, c')" "comp_ok c"
  shows "comp_ok c'"
  using assms(2) unfolding declare_local_fields(2) [OF assms(1)] comp_ok_def
  by (auto simp: slots_below_def const_ok_def)

section \<open>Simple statements\<close>


text \<open>Code that stores the value on top of the stack in a slot.\<close>

lemma reaches_set_local:
  assumes "vs_pc st < length (vm_code vm)" "vm_code vm ! vs_pc st = SetLocal s" "vs_stack st = v # rest"
    "s < length (vs_locals st)"
  shows "reaches env vm st (st\<lparr>vs_pc := vs_pc st + 1, vs_stack := rest, vs_locals := (vs_locals st)[s := v]\<rparr>)"
  using assms by (intro reaches_step) (auto simp: pop_def)

lemma venv_of_Cons:
  "\<not> hidden_name x \<Longrightarrow> venv_of (\<lparr>lv_name = x, lv_slot = s, lv_mutable = m, lv_depth = d\<rparr> # ls) locs = (x, locs ! s) # venv_of ls locs"
  by (simp add: venv_of_def visible_def)

lemma venv_of_Cons_hidden:
  "hidden_name x \<Longrightarrow> venv_of (\<lparr>lv_name = x, lv_slot = s, lv_mutable = m, lv_depth = d\<rparr> # ls) locs = venv_of ls locs"
  by (simp add: venv_of_def visible_def)

lemma let_compiles:
  fixes env :: "('s, 'r) vm_env"
  assumes comp: "compile_stmt (regex_new env) (LetStmt x m e) c = Inr c'" and clean: "clean_stmt (LetStmt x m e)"
    and okc: "comp_ok c"
  shows "\<exists>ops news. stmt_compiles env vm c c' (need_expr e) (exec_stmt env (vm_lim vm) (LetStmt x m e)) ops news"
proof -
  obtain c1 slot c2 where c: "compile_expr (regex_new env) e c = Inr c1" "declare_local x m c1 = Inr (slot, c2)"
      "c' = emit (SetLocal slot) c2"
    using comp by (auto simp: res_bind_Inr_iff split: if_splits)
  obtain xs where xs: "compiled env vm c c1 (need_expr e) (\<lambda>rho w. single (eval env (vm_lim vm) rho e w)) xs"
    using expr_compilesD [OF compile_expr_correct c(1)] clean by auto
  then have e: "emits c c1 xs" by (rule compiled_emits)
  let ?l = "\<lparr>lv_name = x, lv_slot = co_next_slot c, lv_mutable = m, lv_depth = co_scope_depth c\<rparr>"
  have slot: "slot = co_next_slot c" using declare_local_fields [OF c(2)] e by (simp add: emits_def)
  have c': "c' = emit (SetLocal slot) (c1\<lparr>co_next_slot := co_next_slot c + 1, co_locals := ?l # co_locals c\<rparr>)"
    using declare_local_fields [OF c(2)] e c(3) by (simp add: emits_def)
  have gr: "grows c c' (xs @ [SetLocal slot]) [?l]"
    using e by (auto simp: c' grows_def emits_def)
  have ok: "comp_ok c'"
    using declare_local_comp_ok [OF c(2) emits_comp_ok [OF e _ okc]] xs okc c(3)
    by (simp add: compiled_def comp_ok_const_ok)
  have "stmt_code env vm (co_next_slot c) (co_next_slot c') (co_locals c) (co_locals c') (need_expr e)
      (exec_stmt env (vm_lim vm) (LetStmt x m e)) (xs @ [SetLocal slot])"
    if "runs_code_of env vm c'"
    unfolding stmt_code_def
  proof (intro allI impI)
    fix st :: "'s vm_state"
    assume at: "code_at (vm_code vm) (vs_pc st) (xs @ [SetLocal slot])" and hi: "co_next_slot c' \<le> length (vs_locals st)"
      and room: "length (vs_stack st) + need_expr e \<le> vm_depth vm"
    have below: "slots_below (co_next_slot c) (co_locals c)" using okc by (simp add: comp_ok_def)
    have lo: "co_next_slot c < length (vs_locals st)" using hi by (simp add: c')
    have code: "code_for env vm (co_locals c) (need_expr e) (\<lambda>rho w. single (eval env (vm_lim vm) rho e w)) xs"
      using xs okc that c' by (simp add: compiled_def comp_ok_const_ok runs_code_of_def)
    show "flows env vm st st (vs_pc st + length (xs @ [SetLocal slot])) (co_next_slot c) (co_locals c) (co_locals c')
        (exec_stmt env (vm_lim vm) (LetStmt x m e) (venv_of (co_locals c) (vs_locals st)) (vs_world st))"
      unfolding exec_stmt.simps
    proof (rule flows_expr [OF code])
      fix v w
      let ?st = "st\<lparr>vs_pc := vs_pc st + length xs, vs_stack := v # vs_stack st, vs_world := w\<rparr>"
      have "reaches env vm ?st (?st\<lparr>vs_pc := vs_pc ?st + 1, vs_stack := vs_stack st, vs_locals := (vs_locals ?st)[slot := v]\<rparr>)"
        using at lo slot by (intro reaches_set_local) (auto simp: code_at_single)
      then show "flows env vm st ?st (vs_pc st + length (xs @ [SetLocal slot])) (co_next_slot c) (co_locals c) (co_locals c')
          (Continue ((x, v) # venv_of (co_locals c) (vs_locals st)) w)"
        using lo below clean slot
        by (intro flowsI [where locs = "(vs_locals st)[slot := v]"])
          (auto simp: c' venv_of_Cons venv_of_update_above intro: frame_update)
    qed (use at room below lo in \<open>auto intro: slots_below_mono\<close>)
  qed
  then show ?thesis using gr ok unfolding stmt_compiles_def by blast
qed

text \<open>A statement that evaluates an expression and uses its value in one instruction.\<close>

lemma value_stmt_compiles:
  fixes env :: "('s, 'r) vm_env"
  assumes xs: "compiled env vm c c1 n (\<lambda>rho w. single (f rho w)) xs" and ok: "comp_ok c"
    and op: "\<And>(st :: 's vm_state) v rest. code_at (vm_code vm) (vs_pc st) [op] \<Longrightarrow>
      vs_stack st = v # rest \<Longrightarrow> co_next_slot c \<le> length (vs_locals st) \<Longrightarrow>
      flows env vm (st\<lparr>vs_stack := rest\<rparr>) st (vs_pc st + 1) (co_next_slot c) (co_locals c) (co_locals c)
        (g v (venv_of (co_locals c) (vs_locals st)) (vs_world st))"
  shows "stmt_compiles env vm c (emit op c1) n (\<lambda>rho w. value_bind (f rho w) (\<lambda>v w. g v rho w)) (xs @ [op]) []"
proof -
  have e: "emits c c1 xs" using xs by (rule compiled_emits)
  have e': "emits c (emit op c1) (xs @ [op])" using emits_trans [OF e emits_emit] .
  have "stmt_code env vm (co_next_slot c) (co_next_slot (emit op c1)) (co_locals c) (co_locals (emit op c1)) n
      (\<lambda>rho w. value_bind (f rho w) (\<lambda>v w. g v rho w)) (xs @ [op])"
    if run: "runs_code_of env vm (emit op c1)"
    unfolding stmt_code_def
  proof (intro allI impI)
    fix st :: "'s vm_state"
    assume at: "code_at (vm_code vm) (vs_pc st) (xs @ [op])" and hi: "co_next_slot (emit op c1) \<le> length (vs_locals st)"
      and room: "length (vs_stack st) + n \<le> vm_depth vm"
    have below: "slots_below (co_next_slot c) (co_locals c)" using ok by (simp add: comp_ok_def)
    have lo: "co_next_slot c \<le> length (vs_locals st)" using hi e by (simp add: emits_def)
    have code: "code_for env vm (co_locals c) n (\<lambda>rho w. single (f rho w)) xs"
      using xs ok runs_code_of_earlier [OF run emits_emit] by (simp add: compiled_def comp_ok_const_ok)
    show "flows env vm st st (vs_pc st + length (xs @ [op])) (co_next_slot c) (co_locals c) (co_locals (emit op c1))
        (value_bind (f (venv_of (co_locals c) (vs_locals st)) (vs_world st))
           (\<lambda>v w. g v (venv_of (co_locals c) (vs_locals st)) w))"
    proof (rule flows_expr [OF code])
      fix v w
      let ?st = "st\<lparr>vs_pc := vs_pc st + length xs, vs_stack := v # vs_stack st, vs_world := w\<rparr>"
      have "st\<lparr>vs_stack := vs_stack st\<rparr> = st" by (cases st) simp
      with op [of ?st v "vs_stack st"] at lo e
      show "flows env vm st ?st (vs_pc st + length (xs @ [op])) (co_next_slot c) (co_locals c) (co_locals (emit op c1))
          (g v (venv_of (co_locals c) (vs_locals st)) w)"
        by (simp add: emits_def)
    qed (use at room below lo in \<open>auto intro: slots_below_mono\<close>)
  qed
  then show ?thesis
    using xs ok emits_grows [OF e'] emits_comp_ok [OF e'] by (auto simp: stmt_compiles_def compiled_def comp_ok_const_ok)
qed

lemma expr_stmt_compiles:
  fixes env :: "('s, 'r) vm_env"
  assumes "compile_stmt (regex_new env) (ExprStmt e) c = Inr c'" "clean_stmt (ExprStmt e)" "comp_ok c"
  shows "\<exists>ops news. stmt_compiles env vm c c' (need_expr e) (exec_stmt env (vm_lim vm) (ExprStmt e)) ops news"
proof -
  obtain c1 where c: "compile_expr (regex_new env) e c = Inr c1" "c' = emit OpPop c1"
    using assms(1) by (auto simp: res_bind_Inr_iff)
  obtain xs where xs: "compiled env vm c c1 (need_expr e) (\<lambda>rho w. single (eval env (vm_lim vm) rho e w)) xs"
    using expr_compilesD [OF compile_expr_correct c(1)] assms(2) by auto
  have "stmt_compiles env vm c (emit OpPop c1) (need_expr e)
      (\<lambda>rho w. value_bind (eval env (vm_lim vm) rho e w) (\<lambda>v w. Continue rho w)) (xs @ [OpPop]) []"
  proof (rule value_stmt_compiles [OF xs assms(3)])
    fix st :: "'s vm_state" and v rest
    assume "code_at (vm_code vm) (vs_pc st) [OpPop]" "vs_stack st = v # rest"
    then have "reaches env vm st (st\<lparr>vs_pc := vs_pc st + 1, vs_stack := rest\<rparr>)"
      by (intro reaches_step) (auto simp: code_at_single pop_def)
    then show "flows env vm (st\<lparr>vs_stack := rest\<rparr>) st (vs_pc st + 1) (co_next_slot c) (co_locals c) (co_locals c)
        (Continue (venv_of (co_locals c) (vs_locals st)) (vs_world st))"
      by (intro flowsI [where locs = "vs_locals st"]) (cases st, simp_all)
  qed
  moreover have "exec_stmt env (vm_lim vm) (ExprStmt e) =
      (\<lambda>rho w. value_bind (eval env (vm_lim vm) rho e w) (\<lambda>v w. Continue rho w))"
    by (intro ext) simp
  ultimately show ?thesis using c(2) by metis
qed

lemma venv_of_split:
  "venv_of (k # ls) locs = (if hidden_name (lv_name k) then [] else [(lv_name k, locs ! lv_slot k)]) @ venv_of ls locs"
  by (simp add: venv_of_def visible_def)

lemma venv_of_assign:
  assumes "find (\<lambda>l. lv_name l = x) ls = Some l" "\<not> hidden_name x" "distinct (map lv_slot ls)"
    "slots_below (length locs) ls"
  shows "venv_of ls (locs[lv_slot l := v]) = assign x v (venv_of ls locs)"
  using assms
proof (induction ls)
  case (Cons k ls)
  have k: "lv_slot k < length locs" using Cons.prems(4) by (simp add: slots_below_def)
  show ?case
  proof (cases "lv_name k = x")
    case True
    then have "l = k" using Cons.prems(1) by simp
    moreover have "venv_of ls (locs[lv_slot k := v]) = venv_of ls locs"
      using Cons.prems(3) set_visible [of ls] by (intro venv_of_cong nth_list_update_neq) (auto simp: image_iff)
    ultimately show ?thesis using True Cons.prems(2) k by (simp add: venv_of_split)
  next
    case False
    then have f: "find (\<lambda>l. lv_name l = x) ls = Some l" using Cons.prems(1) by simp
    then have "l \<in> set ls" by (auto simp: find_Some_iff)
    then have "lv_slot k \<noteq> lv_slot l" using Cons.prems(3) by (auto simp: image_iff)
    moreover have "venv_of ls (locs[lv_slot l := v]) = assign x v (venv_of ls locs)"
      using f Cons.prems(2-4) by (intro Cons.IH) (simp_all add: slots_below_def)
    ultimately show ?thesis using False by (simp add: venv_of_split)
  qed
qed simp

lemma assign_compiles:
  fixes env :: "('s, 'r) vm_env"
  assumes "compile_stmt (regex_new env) (Assign x e) c = Inr c'" "clean_stmt (Assign x e)" "comp_ok c"
  shows "\<exists>ops news. stmt_compiles env vm c c' (need_expr e) (exec_stmt env (vm_lim vm) (Assign x e)) ops news"
proof -
  obtain l c1 where c: "find (\<lambda>l. lv_name l = x) (co_locals c) = Some l" "lv_mutable l"
      "compile_expr (regex_new env) e c = Inr c1" "c' = emit (SetLocal (lv_slot l)) c1"
    using assms(1) by (auto simp: res_bind_Inr_iff resolve_local_def split: option.splits if_splits)
  obtain xs where xs: "compiled env vm c c1 (need_expr e) (\<lambda>rho w. single (eval env (vm_lim vm) rho e w)) xs"
    using expr_compilesD [OF compile_expr_correct c(3)] assms(2) by auto
  have l: "l \<in> set (co_locals c)" "lv_name l = x" using c(1) by (auto simp: find_Some_iff)
  then have mut: "lv_slot l \<in> mut_slots (co_locals c)"
    using c(2) assms(2) by (auto simp: mut_slots_def visible_def)
  have "stmt_compiles env vm c (emit (SetLocal (lv_slot l)) c1) (need_expr e)
      (\<lambda>rho w. value_bind (eval env (vm_lim vm) rho e w) (\<lambda>v w. Continue (assign x v rho) w)) (xs @ [SetLocal (lv_slot l)]) []"
  proof (rule value_stmt_compiles [OF xs assms(3)])
    fix st :: "'s vm_state" and v rest
    assume a: "code_at (vm_code vm) (vs_pc st) [SetLocal (lv_slot l)]" "vs_stack st = v # rest"
      "co_next_slot c \<le> length (vs_locals st)"
    have below: "slots_below (length (vs_locals st)) (co_locals c)"
      using assms(3) a(3) by (auto simp: comp_ok_def intro: slots_below_mono)
    then have "lv_slot l < length (vs_locals st)" using l by (auto simp: slots_below_def)
    then have "reaches env vm st (st\<lparr>vs_pc := vs_pc st + 1, vs_stack := rest, vs_locals := (vs_locals st)[lv_slot l := v]\<rparr>)"
      using a by (intro reaches_set_local) (auto simp: code_at_single)
    moreover have "frame (co_next_slot c) (co_locals c) (vs_locals st) ((vs_locals st)[lv_slot l := v])"
      using mut by (auto simp: frame_def intro!: nth_list_update_neq)
    moreover have "assign x v (venv_of (co_locals c) (vs_locals st)) = venv_of (co_locals c) ((vs_locals st)[lv_slot l := v])"
      using venv_of_assign [OF c(1) _ _ below] assms(2,3) by (simp add: comp_ok_def)
    ultimately show "flows env vm (st\<lparr>vs_stack := rest\<rparr>) st (vs_pc st + 1) (co_next_slot c) (co_locals c) (co_locals c)
        (Continue (assign x v (venv_of (co_locals c) (vs_locals st))) (vs_world st))"
      by (intro flowsI) (cases st, simp_all)
  qed
  moreover have "exec_stmt env (vm_lim vm) (Assign x e) =
      (\<lambda>rho w. value_bind (eval env (vm_lim vm) rho e w) (\<lambda>v w. Continue (assign x v rho) w))"
    by (intro ext) simp
  ultimately show ?thesis using c(4) by metis
qed

lemma return_next_compiles:
  assumes "compile_stmt (regex_new env) ReturnNext c = Inr c'" "comp_ok c"
  shows "\<exists>ops news. stmt_compiles env vm c c' 0 (exec_stmt env (vm_lim vm) ReturnNext) ops news"
proof -
  have "stmt_code env vm lo hi ls ls' 0 (exec_stmt env (vm_lim vm) ReturnNext) [OpReturnNext]" for lo hi ls ls'
    by (auto simp: stmt_code_def code_at_single intro: ends_result)
  then have "stmt_compiles env vm c c' 0 (exec_stmt env (vm_lim vm) ReturnNext) [OpReturnNext] []"
    using assms emits_grows [OF emits_emit] by (auto simp: stmt_compiles_def)
  then show ?thesis by blast
qed

lemma return_deny_compiles:
  fixes env :: "('s, 'r) vm_env"
  assumes "compile_stmt (regex_new env) (ReturnDeny e e') c = Inr c'" "clean_stmt (ReturnDeny e e')" and ok: "comp_ok c"
  shows "\<exists>ops news. stmt_compiles env vm c c' (need_stmt (ReturnDeny e e')) (exec_stmt env (vm_lim vm) (ReturnDeny e e')) ops news"
proof -
  obtain c1 c2 where c: "compile_expr (regex_new env) e c = Inr c1" "compile_expr (regex_new env) e' c1 = Inr c2"
      "c' = emit OpReturnDeny c2"
    using assms(1) by (auto simp: res_bind_Inr_iff)
  have cl: "clean_expr e" "clean_expr e'" using assms(2) by simp_all
  obtain xs ys where xs: "compiled env vm c c1 (need_expr e) (\<lambda>rho w. single (eval env (vm_lim vm) rho e w)) xs"
    and ys: "compiled env vm c1 c2 (need_expr e') (\<lambda>rho w. single (eval env (vm_lim vm) rho e' w)) ys"
    using expr_compilesD [OF compile_expr_correct c(1) cl(1)] expr_compilesD [OF compile_expr_correct c(2) cl(2)] by blast
  have e1: "emits c c1 xs" and e2: "emits c1 c2 ys" using xs ys by (auto intro: compiled_emits)
  have e: "emits c c' ((xs @ ys) @ [OpReturnDeny])" unfolding c(3) by (rule emits_trans [OF emits_trans [OF e1 e2] emits_emit])
  have "stmt_code env vm (co_next_slot c) (co_next_slot c') (co_locals c) (co_locals c') (need_stmt (ReturnDeny e e'))
      (exec_stmt env (vm_lim vm) (ReturnDeny e e')) ((xs @ ys) @ [OpReturnDeny])"
    if run: "runs_code_of env vm c'"
    unfolding stmt_code_def
  proof (intro allI impI)
    fix st :: "'s vm_state"
    let ?ops = "(xs @ ys) @ [OpReturnDeny]"
    assume at: "code_at (vm_code vm) (vs_pc st) ?ops" and hi: "co_next_slot c' \<le> length (vs_locals st)"
      and room: "length (vs_stack st) + need_stmt (ReturnDeny e e') \<le> vm_depth vm"
    have below: "slots_below (length (vs_locals st)) (co_locals c)"
      using ok hi e by (auto simp: comp_ok_def emits_def intro: slots_below_mono)
    have run2: "runs_code_of env vm c2" using runs_code_of_earlier [OF run [unfolded c(3)] emits_emit] .
    have loc: "co_locals c1 = co_locals c" using e1 by (simp add: emits_def)
    have cx: "code_for env vm (co_locals c) (need_expr e) (\<lambda>rho w. single (eval env (vm_lim vm) rho e w)) xs"
      and cy: "code_for env vm (co_locals c) (need_expr e') (\<lambda>rho w. single (eval env (vm_lim vm) rho e' w)) ys"
      using xs ys ok run2 runs_code_of_earlier [OF run2 e2] loc by (auto simp: compiled_def comp_ok_const_ok)
    let ?fl = "\<lambda>st'. flows env vm st st' (vs_pc st + length ?ops) (co_next_slot c) (co_locals c) (co_locals c')"
    show "?fl st (exec_stmt env (vm_lim vm) (ReturnDeny e e') (venv_of (co_locals c) (vs_locals st)) (vs_world st))"
      unfolding exec_stmt.simps
    proof (rule flows_expr [OF cx])
      fix v w
      let ?st = "st\<lparr>vs_pc := vs_pc st + length xs, vs_stack := v # vs_stack st, vs_world := w\<rparr>"
      have "?fl ?st (value_bind (eval env (vm_lim vm) (venv_of (co_locals c) (vs_locals ?st)) e' (vs_world ?st))
          (\<lambda>b w. Done (Inr (ErrResponse (deny_status v) (deny_body b))) w))"
      proof (rule flows_expr [OF cy])
        fix b w'
        let ?st' = "?st\<lparr>vs_pc := vs_pc ?st + length ys, vs_stack := b # vs_stack ?st, vs_world := w'\<rparr>"
        have "ends env vm ?st' (Inr (ErrResponse (deny_status v) (deny_body b))) w'"
          using at by (intro ends_result) (auto simp: code_at_single pop_def add.assoc)
        then show "?fl ?st' (Done (Inr (ErrResponse (deny_status v) (deny_body b))) w')" by simp
      qed (use at below room in auto)
      then show "?fl ?st (value_bind (eval env (vm_lim vm) (venv_of (co_locals c) (vs_locals st)) e' w)
          (\<lambda>b w. Done (Inr (ErrResponse (deny_status v) (deny_body b))) w))" by simp
    qed (use at below room in auto)
  qed
  then show ?thesis
    using emits_grows [OF e] emits_comp_ok [OF e] xs ys c(3) ok
    by (auto simp: stmt_compiles_def compiled_def comp_ok_const_ok)
qed

section \<open>Blocks\<close>

lemma enter_scope_fields: "enter_scope c = Inr c' \<Longrightarrow> c' = c\<lparr>co_scope_depth := co_scope_depth c + 1\<rparr>"
  by (auto simp: enter_scope_def split: if_splits)

text \<open>Leaving a scope forgets exactly the variables declared in it.\<close>

lemma leave_scope_fields:
  assumes "leave_scope c' = Inr c''" "co_locals c' = news @ ls" "\<forall>l \<in> set news. lv_depth l = co_scope_depth c'"
    "\<forall>l \<in> set ls. lv_depth l < co_scope_depth c'"
  shows "c'' = c'\<lparr>co_locals := ls, co_scope_depth := co_scope_depth c' - 1\<rparr>"
proof -
  have "dropWhile (\<lambda>l. co_scope_depth c' \<le> lv_depth l) (news @ ls) = dropWhile (\<lambda>l. co_scope_depth c' \<le> lv_depth l) ls"
    using assms(3) by (induction news) auto
  also have "\<dots> = ls" using assms(4) by (cases ls) auto
  finally show ?thesis using assms(1,2) by (auto simp: leave_scope_def split: if_splits)
qed

text \<open>What a block of statements or a loop leaves: code and used-up slots, no variables.\<close>

lemma block_fields:
  assumes "enter_scope c = Inr c0" "grows c0 c1 ops news" "leave_scope c1 = Inr c2" "comp_ok c"
  shows "c2 = c1\<lparr>co_locals := co_locals c, co_scope_depth := co_scope_depth c\<rparr>"
    "comp_ok c0" "co_locals c0 = co_locals c" "co_next_slot c0 = co_next_slot c" "co_code c0 = co_code c"
proof -
  have c0: "c0 = c\<lparr>co_scope_depth := co_scope_depth c + 1\<rparr>" using enter_scope_fields [OF assms(1)] .
  show "comp_ok c0" "co_locals c0 = co_locals c" "co_next_slot c0 = co_next_slot c" "co_code c0 = co_code c"
    using assms(4) by (auto simp: c0 comp_ok_def const_ok_def)
  have "c2 = c1\<lparr>co_locals := co_locals c0, co_scope_depth := co_scope_depth c1 - 1\<rparr>"
    using assms(2,4) by (intro leave_scope_fields [OF assms(3)]) (auto simp: grows_def c0 comp_ok_def)
  then show "c2 = c1\<lparr>co_locals := co_locals c, co_scope_depth := co_scope_depth c\<rparr>"
    using assms(2) by (simp add: grows_def c0)
qed

definition stmts_compile :: "('s, 'r) vm_env \<Rightarrow> 'r vm \<Rightarrow> stmt list \<Rightarrow> bool" where
  "stmts_compile env vm ss \<longleftrightarrow>
     (\<forall>c c'. compile_stmts (regex_new env) ss c = Inr c' \<longrightarrow> clean_stmts ss \<longrightarrow> comp_ok c \<longrightarrow>
        (\<exists>ops news. stmt_compiles env vm c c' (need_stmts ss) (exec_stmts env (vm_lim vm) ss) ops news))"

lemma length_venv_of: "length (venv_of ls locs) = length (visible ls)"
  by (simp add: venv_of_def)

lemma outer_venv_of: "outer (venv_of ls locs) (venv_of (news @ ls) locs') = venv_of ls locs'"
  by (simp add: outer_def venv_of_append length_venv_of)

lemma block_compiles:
  fixes env :: "('s, 'r) vm_env"
  assumes ss: "stmts_compile env vm ss" and comp: "compile_block (regex_new env) ss c = Inr c'"
    and clean: "clean_stmts ss" and ok: "comp_ok c"
  shows "\<exists>ops. stmt_compiles env vm c c' (need_stmts ss) (exec_block env (vm_lim vm) ss) ops []"
proof -
  obtain c0 c1 where c: "enter_scope c = Inr c0" "compile_stmts (regex_new env) ss c0 = Inr c1" "leave_scope c1 = Inr c'"
    using comp by (auto simp: res_bind_Inr_iff)
  have "comp_ok c0" using enter_scope_fields [OF c(1)] ok by (auto simp: comp_ok_def const_ok_def)
  then obtain ops news where ops: "stmt_compiles env vm c0 c1 (need_stmts ss) (exec_stmts env (vm_lim vm) ss) ops news"
    using ss c(2) clean unfolding stmts_compile_def by blast
  then have gr: "grows c0 c1 ops news" by (simp add: stmt_compiles_def)
  note f = block_fields [OF c(1) gr c(3) ok]
  have gr': "grows c c' ops []"
    using gr enter_scope_fields [OF c(1)] by (simp add: f(1) grows_def)
  have "co_next_slot c \<le> co_next_slot c1" using gr f(4) by (simp add: grows_def)
  then have ok': "comp_ok c'"
    using ok ops f by (auto simp: stmt_compiles_def comp_ok_def const_ok_def intro: slots_below_mono)
  have "stmt_code env vm (co_next_slot c) (co_next_slot c') (co_locals c) (co_locals c') (need_stmts ss)
      (exec_block env (vm_lim vm) ss) ops" if run: "runs_code_of env vm c'"
    unfolding stmt_code_def
  proof (intro allI impI)
    fix st :: "'s vm_state"
    assume at: "code_at (vm_code vm) (vs_pc st) ops" and hi: "co_next_slot c' \<le> length (vs_locals st)"
      and room: "length (vs_stack st) + need_stmts ss \<le> vm_depth vm"
    have "runs_code_of env vm c1" using run by (simp add: runs_code_of_def f(1))
    then have "stmt_code env vm (co_next_slot c) (co_next_slot c') (co_locals c) (news @ co_locals c) (need_stmts ss)
        (exec_stmts env (vm_lim vm) ss) ops"
      using ops gr f by (auto simp: stmt_compiles_def grows_def)
    from stmt_codeD [OF this at hi room]
    show "flows env vm st st (vs_pc st + length ops) (co_next_slot c) (co_locals c) (co_locals c')
        (exec_block env (vm_lim vm) ss (venv_of (co_locals c) (vs_locals st)) (vs_world st))"
      using f(1)
      by (cases "exec_stmts env (vm_lim vm) ss (venv_of (co_locals c) (vs_locals st)) (vs_world st)")
        (auto simp: flows_def outer_venv_of)
  qed
  then show ?thesis using gr' ok' unfolding stmt_compiles_def by blast
qed

lemma stmt_code_weaken:
  assumes "stmt_code env vm lo hi ls ls' n sem ops" "lo' \<le> lo" "hi \<le> hi'" "n \<le> n'"
  shows "stmt_code env vm lo' hi' ls ls' n' sem ops"
proof -
  have "frame lo ls l l' \<Longrightarrow> frame lo' ls l l'" for l l' using assms(2) by (auto simp: frame_def)
  then have "flows env vm st st pc lo ls ls' m \<Longrightarrow> flows env vm st st pc lo' ls ls' m" for st pc m
    by (cases m) (auto simp: flows_def)
  then show ?thesis using assms by (auto simp: stmt_code_def)
qed

lemma flow_bind_Continue [simp]: "flow_bind m Continue = m"
  by (cases m) auto

section \<open>Branches\<close>

text \<open>
  The code of an if statement from the code of its conditions and bodies: a body that is not the
  last one ends with a jump behind everything that follows, which has offset 0 until it is patched.
\<close>

fun layout :: "bool \<Rightarrow> nat option \<Rightarrow> (opcode list \<times> opcode list) list \<Rightarrow> opcode list" where
  "layout has_else n [] = []"
| "layout has_else n ((oc, ob) # segs) =
     (let rest = layout has_else n segs; more = segs \<noteq> [] \<or> has_else
      in oc @ [JumpIfFalse (as_i32 (int (length ob) + (if more then 1 else 0)))] @ ob
         @ (if more then [Jump (case n of None \<Rightarrow> 0 | Some k \<Rightarrow> as_i32 (int (length rest + k)))] else []) @ rest)"

fun jump_positions :: "nat \<Rightarrow> bool \<Rightarrow> (opcode list \<times> opcode list) list \<Rightarrow> nat list" where
  "jump_positions base has_else [] = []"
| "jump_positions base has_else ((oc, ob) # segs) =
     (let more = segs \<noteq> [] \<or> has_else; next = base + length oc + 1 + length ob
      in (if more then [next] else []) @ jump_positions (if more then next + 1 else next) has_else segs)"

lemma length_layout [simp]: "length (layout has_else (Some k) segs) = length (layout has_else None segs)"
  by (induction segs) (auto simp: Let_def)

lemma patch_layout:
  assumes "co_code c = pre @ layout has_else None segs @ tail"
  shows "patch_jumps (jump_positions (length pre) has_else segs) c =
    Inr (c\<lparr>co_code := pre @ layout has_else (Some (length tail)) segs @ tail\<rparr>)"
  using assms
proof (induction segs arbitrary: pre c)
  case Nil
  then have "c\<lparr>co_code := pre @ tail\<rparr> = c" by simp
  then show ?case by simp
next
  case (Cons seg segs)
  obtain oc ob where seg: "seg = (oc, ob)" by fastforce
  let ?rest = "layout has_else None segs"
  show ?case
  proof (cases "segs = [] \<longrightarrow> has_else")
    case True
    let ?pre = "pre @ oc @ [JumpIfFalse (as_i32 (int (length ob) + 1))] @ ob"
    have code: "co_code c = ?pre @ [Jump 0] @ (?rest @ tail)"
      using Cons.prems True by (simp add: seg Let_def)
    let ?j = "Jump (as_i32 (int (length ?rest + length tail)))"
    have "patch_jump (length ?pre) c = Inr (c\<lparr>co_code := ?pre @ [?j] @ (?rest @ tail)\<rparr>)"
      using patch_jump_always [OF code refl] by simp
    moreover have "patch_jumps (jump_positions (length (?pre @ [?j])) has_else segs)
        (c\<lparr>co_code := (?pre @ [?j]) @ ?rest @ tail\<rparr>) =
        Inr (c\<lparr>co_code := (?pre @ [?j]) @ layout has_else (Some (length tail)) segs @ tail\<rparr>)"
      using Cons.IH [of "c\<lparr>co_code := (?pre @ [?j]) @ ?rest @ tail\<rparr>" "?pre @ [?j]"] by simp
    ultimately show ?thesis using True by (simp add: seg Let_def add.assoc)
  next
    case False
    then have "segs = []" "\<not> has_else" by auto
    then show ?thesis using Cons.prems by (simp add: seg)
  qed
qed

text \<open>Each segment pair is the code of the condition and of the block of its branch.\<close>

definition seg_ok ::
  "('s, 'r) vm_env \<Rightarrow> 'r vm \<Rightarrow> nat \<Rightarrow> nat \<Rightarrow> local_var list \<Rightarrow> expr \<times> stmt list \<Rightarrow> opcode list \<times> opcode list \<Rightarrow> bool"
where
  "seg_ok env vm lo hi ls branch seg \<longleftrightarrow>
     code_for env vm ls (need_expr (fst branch)) (\<lambda>rho w. single (eval env (vm_lim vm) rho (fst branch) w)) (fst seg) \<and>
     stmt_code env vm lo hi ls ls (need_stmts (snd branch)) (exec_block env (vm_lim vm) (snd branch)) (snd seg)"

lemma seg_ok_weaken:
  "seg_ok env vm lo hi ls b seg \<Longrightarrow> lo' \<le> lo \<Longrightarrow> hi \<le> hi' \<Longrightarrow> seg_ok env vm lo' hi' ls b seg"
  unfolding seg_ok_def using stmt_code_weaken by blast

lemma compile_branches_layout:
  assumes "compile_branches (regex_new env) has_else brs jumps c = Inr (jumps', c')"
    and "\<forall>(e, b) \<in> set brs. stmts_compile env vm b" "clean_branches brs" "comp_ok c"
  shows "\<exists>segs. grows c c' (layout has_else None segs) [] \<and> comp_ok c' \<and>
           jumps' = jumps @ jump_positions (length (co_code c)) has_else segs \<and>
           (brs = [] \<longleftrightarrow> segs = []) \<and>
           (runs_code_of env vm c' \<longrightarrow>
              list_all2 (seg_ok env vm (co_next_slot c) (co_next_slot c') (co_locals c)) brs segs)"
  using assms
proof (induction brs arbitrary: jumps c)
  case Nil
  then show ?case by (intro exI [of _ "[]"]) simp
next
  case (Cons br brs)
  obtain e b where br: "br = (e, b)" by fastforce
  define more where "more \<longleftrightarrow> brs \<noteq> [] \<or> has_else"
  obtain c1 c2 where c: "compile_expr (regex_new env) e c = Inr c1"
      "compile_block (regex_new env) b (emit (JumpIfFalse 0) c1) = Inr c2"
    using Cons.prems(1) by (auto simp: br res_bind_Inr_iff Let_def)
  let ?c3 = "if more then emit (Jump 0) c2 else c2"
  obtain c4 where c4: "patch_jump (length (co_code c1)) ?c3 = Inr c4"
      "compile_branches (regex_new env) has_else brs
         (if more then jumps @ [length (co_code c2)] else jumps) c4 = Inr (jumps', c')"
    using Cons.prems(1) c by (auto simp: br res_bind_Inr_iff Let_def current_offset_def more_def)
  obtain oc where oc: "compiled env vm c c1 (need_expr e) (\<lambda>rho w. single (eval env (vm_lim vm) rho e w)) oc"
    using expr_compilesD [OF compile_expr_correct c(1)] Cons.prems(3) br by auto
  have e1: "emits c c1 oc" using oc by (rule compiled_emits)
  have ok1: "comp_ok (emit (JumpIfFalse 0) c1)"
    using emits_comp_ok [OF e1 _ Cons.prems(4)] oc Cons.prems(4) by (simp add: compiled_def comp_ok_const_ok)
  have b: "stmts_compile env vm b" "clean_stmts b" using Cons.prems(2,3) br by auto
  obtain ob where ob: "stmt_compiles env vm (emit (JumpIfFalse 0) c1) c2 (need_stmts b) (exec_block env (vm_lim vm) b) ob []"
    using block_compiles [OF b(1) c(2) b(2) ok1] by blast
  let ?off = "as_i32 (int (length ob) + (if more then 1 else 0))"
  let ?j = "if more then [Jump 0] else []"
  have code2: "co_code c2 = co_code c1 @ [JumpIfFalse 0] @ ob" using ob by (simp add: stmt_compiles_def grows_def)
  have c4': "c4 = c2\<lparr>co_code := co_code c1 @ [JumpIfFalse ?off] @ ob @ ?j\<rparr>"
    using c4(1) patch_jump_if_false [of ?c3 "co_code c1" 0 "ob @ ?j"] code2 by (auto simp: emit_def add.commute split: if_splits)
  have gr4: "grows c c4 (oc @ [JumpIfFalse ?off] @ ob @ ?j) []"
    using ob e1 by (auto simp: c4' stmt_compiles_def grows_def emits_def)
  have ok4: "comp_ok c4" using ob by (simp add: c4' stmt_compiles_def comp_ok_def const_ok_def)
  obtain segs where segs: "grows c4 c' (layout has_else None segs) []" "comp_ok c'"
      "jumps' = (if more then jumps @ [length (co_code c2)] else jumps) @ jump_positions (length (co_code c4)) has_else segs"
      "brs = [] \<longleftrightarrow> segs = []"
      "runs_code_of env vm c' \<longrightarrow> list_all2 (seg_ok env vm (co_next_slot c4) (co_next_slot c') (co_locals c4)) brs segs"
    using Cons.IH [OF c4(2) _ _ ok4] Cons.prems(2,3) br by auto
  have more: "more \<longleftrightarrow> segs \<noteq> [] \<or> has_else" using segs(4) by (simp add: more_def)
  have slots: "co_next_slot c \<le> co_next_slot c4" "co_next_slot c4 \<le> co_next_slot c'" "co_locals c4 = co_locals c"
      "co_next_slot c1 = co_next_slot c" "co_locals c1 = co_locals c" "co_next_slot c2 = co_next_slot c4" "co_locals c2 = co_locals c"
    using gr4 segs(1) e1 by (auto simp: grows_def emits_def c4')
  have "layout has_else None ((oc, ob) # segs) = (oc @ [JumpIfFalse ?off] @ ob @ ?j) @ layout has_else None segs"
    by (simp add: Let_def more)
  then have "grows c c' (layout has_else None ((oc, ob) # segs)) []"
    using grows_trans [OF gr4 segs(1)] by simp
  moreover have "jumps' = jumps @ jump_positions (length (co_code c)) has_else ((oc, ob) # segs)"
    using segs(3) code2 e1 by (auto simp: c4' Let_def more emits_def)
  moreover have "list_all2 (seg_ok env vm (co_next_slot c) (co_next_slot c') (co_locals c)) ((e, b) # brs) ((oc, ob) # segs)"
    if run: "runs_code_of env vm c'"
  proof -
    have r4: "runs_code_of env vm c4" using grows_runs [OF run segs(1)] .
    then have r2: "runs_code_of env vm c2" using code2 by (auto simp: runs_code_of_def c4')
    then have "runs_code_of env vm (emit (JumpIfFalse 0) c1)"
      using ob by (auto simp: stmt_compiles_def intro: grows_runs)
    then have "runs_code_of env vm c1" using runs_code_of_earlier [OF _ emits_emit] by blast
    then have "seg_ok env vm (co_next_slot c) (co_next_slot c4) (co_locals c) (e, b) (oc, ob)"
      using oc ob r2 Cons.prems(4) slots by (auto simp: seg_ok_def compiled_def stmt_compiles_def comp_ok_const_ok)
    then have "seg_ok env vm (co_next_slot c) (co_next_slot c') (co_locals c) (e, b) (oc, ob)"
      using slots by (auto intro: seg_ok_weaken)
    moreover have "list_all2 (seg_ok env vm (co_next_slot c) (co_next_slot c') (co_locals c)) brs segs"
      using segs(5) run slots by (auto elim!: list_all2_mono intro: seg_ok_weaken)
    ultimately show ?thesis by simp
  qed
  ultimately show ?case using segs(2) br by (intro exI [of _ "(oc, ob) # segs"]) auto
qed

text \<open>One test of an if statement, from its condition to the block it selects or to what follows.\<close>

lemma branch_flow:
  fixes env :: "('s, 'r) vm_env"
  assumes seg: "seg_ok env vm lo hi ls (e, b) (oc, ob)"
    and at: "code_at (vm_code vm) (vs_pc st) (oc @ [JumpIfFalse (int (length ob) + d)] @ ob)"
      "slots_below (length (vs_locals st)) ls" "hi \<le> length (vs_locals st)"
      "length (vs_stack st) + need_expr e \<le> vm_depth vm" "length (vs_stack st) + need_stmts b \<le> vm_depth vm"
    and next': "int next' = int (vs_pc st + length oc + 1 + length ob) + d" "next' \<le> length (vm_code vm)"
    and leave: "\<And>locs w. reaches env vm (st\<lparr>vs_pc := vs_pc st + length oc + 1 + length ob, vs_locals := locs, vs_world := w\<rparr>)
        (st\<lparr>vs_pc := target, vs_locals := locs, vs_world := w\<rparr>)"
    and rest: "\<And>w. flows env vm st (st\<lparr>vs_pc := next', vs_world := w\<rparr>) target lo ls ls
        (otherwise (venv_of ls (vs_locals st)) w)"
  shows "flows env vm st st target lo ls ls
    (value_bind (eval env (vm_lim vm) (venv_of ls (vs_locals st)) e (vs_world st))
       (\<lambda>v w. if is_truthy v then exec_block env (vm_lim vm) b (venv_of ls (vs_locals st)) w
               else otherwise (venv_of ls (vs_locals st)) w))"
proof -
  have cf: "code_for env vm ls (need_expr e) (\<lambda>rho w. single (eval env (vm_lim vm) rho e w)) oc"
    and sc: "stmt_code env vm lo hi ls ls (need_stmts b) (exec_block env (vm_lim vm) b) ob"
    using seg by (simp_all add: seg_ok_def)
  have self: "st\<lparr>vs_stack := vs_stack st\<rparr> = st" by (cases st) simp
  show ?thesis
  proof (rule flows_expr [OF cf])
    fix v w
    let ?st = "st\<lparr>vs_pc := vs_pc st + length oc, vs_stack := v # vs_stack st, vs_world := w\<rparr>"
    let ?pc = "if is_truthy v then vs_pc st + length oc + 1 else next'"
    let ?st1 = "st\<lparr>vs_pc := ?pc, vs_world := w\<rparr>"
    have "reaches env vm ?st (?st\<lparr>vs_pc := if is_truthy v then vs_pc ?st + 1 else next', vs_stack := vs_stack st\<rparr>)"
      using at next' by (intro reaches_jump_if_false) (auto simp: code_at_Cons)
    then have jif: "reaches env vm ?st ?st1" by (cases st) (simp split: if_splits)
    show "flows env vm st ?st target lo ls ls
        (if is_truthy v then exec_block env (vm_lim vm) b (venv_of ls (vs_locals st)) w
         else otherwise (venv_of ls (vs_locals st)) w)"
    proof (cases "is_truthy v")
      case True
      have "flows env vm st ?st1 target lo ls ls
          (flow_bind (exec_block env (vm_lim vm) b (venv_of ls (vs_locals ?st1)) (vs_world ?st1)) Continue)"
      proof (rule flows_stmt [OF sc])
        fix locs w'
        show "flows env vm st (?st1\<lparr>vs_pc := vs_pc ?st1 + length ob, vs_locals := locs, vs_world := w'\<rparr>) target lo ls ls
            (Continue (venv_of ls locs) w')"
          using leave [where locs = locs and w = w'] True by (intro flowsI [where locs = locs]) simp_all
      qed (use at True in \<open>auto simp: code_at_Cons\<close>)
      then have "flows env vm st ?st1 target lo ls ls (exec_block env (vm_lim vm) b (venv_of ls (vs_locals st)) w)"
        by (simp del: exec_block.simps)
      with flows_step [OF jif] True show ?thesis by simp
    next
      case False
      with flows_step [OF jif] rest [of w] show ?thesis by simp
    qed
  qed (use at in auto)
qed

lemma branches_flow:
  fixes env :: "('s, 'r) vm_env"
  assumes segs: "list_all2 (seg_ok env vm lo hi ls) brs segs"
    and eops: "stmt_code env vm lo hi ls ls m otherwise eops" "\<not> has_else \<Longrightarrow> eops = [] \<and> otherwise = Continue"
    and at: "code_at (vm_code vm) (vs_pc st) (layout has_else (Some (length eops)) segs @ eops)"
      "length (layout has_else (Some (length eops)) segs @ eops) < 2 ^ 31"
    and room: "slots_below (length (vs_locals st)) ls" "hi \<le> length (vs_locals st)"
      "length (vs_stack st) + need_branches brs \<le> vm_depth vm" "length (vs_stack st) + m \<le> vm_depth vm"
  shows "flows env vm st st (vs_pc st + length (layout has_else (Some (length eops)) segs @ eops)) lo ls ls
    (exec_branches env (vm_lim vm) brs otherwise (venv_of ls (vs_locals st)) (vs_world st))"
  using segs at room
proof (induction brs segs arbitrary: st rule: list_all2_induct)
  case Nil
  then show ?case using stmt_codeD [OF eops(1), of st] by simp
next
  case (Cons br brs seg segs)
  obtain e b oc ob where br: "br = (e, b)" "seg = (oc, ob)" by fastforce
  define more where "more \<longleftrightarrow> segs \<noteq> [] \<or> has_else"
  define d :: int where "d = (if more then 1 else 0)"
  let ?rest = "layout has_else (Some (length eops)) segs"
  let ?whole = "layout has_else (Some (length eops)) (seg # segs) @ eops"
  let ?j = "if more then [Jump (int (length ?rest + length eops))] else []"
  let ?next = "vs_pc st + length oc + 1 + length ob + length ?j"
  have small: "as_i32 (int (length ob) + d) = int (length ob) + d"
      "as_i32 (int (length ?rest + length eops)) = int (length ?rest + length eops)"
    using Cons.prems(2) by (auto simp: br Let_def d_def intro!: as_i32_small)
  have whole: "?whole = oc @ [JumpIfFalse (int (length ob) + d)] @ ob @ ?j @ (?rest @ eops)"
    using small by (cases more) (simp_all add: br Let_def d_def more_def del: of_nat_add)
  have len: "length ?whole = length oc + 1 + length ob + length ?j + length (?rest @ eops)" unfolding whole by simp
  have at: "code_at (vm_code vm) (vs_pc st) (oc @ [JumpIfFalse (int (length ob) + d)] @ ob)"
      "code_at (vm_code vm) (vs_pc st + length oc + 1 + length ob) ?j" "code_at (vm_code vm) ?next (?rest @ eops)"
    using Cons.prems(1) unfolding whole by (simp_all add: code_at_Cons add.assoc)
  have le: "?next + length (?rest @ eops) \<le> length (vm_code vm)" using code_at_le [OF at(3)] .
  have "flows env vm st st (vs_pc st + length ?whole) lo ls ls
      (value_bind (eval env (vm_lim vm) (venv_of ls (vs_locals st)) e (vs_world st))
        (\<lambda>v w. if is_truthy v then exec_block env (vm_lim vm) b (venv_of ls (vs_locals st)) w
               else exec_branches env (vm_lim vm) brs otherwise (venv_of ls (vs_locals st)) w))"
  proof (rule branch_flow [where next' = ?next])
    show "seg_ok env vm lo hi ls (e, b) (oc, ob)" using Cons.hyps(1) by (simp add: br)
    show "code_at (vm_code vm) (vs_pc st) (oc @ [JumpIfFalse (int (length ob) + d)] @ ob)" by (rule at(1))
    show "int ?next = int (vs_pc st + length oc + 1 + length ob) + d" by (simp add: d_def)
    show "?next \<le> length (vm_code vm)" using le by simp
  next
    fix locs w
    let ?st = "st\<lparr>vs_pc := vs_pc st + length oc + 1 + length ob, vs_locals := locs, vs_world := w\<rparr>"
    show "reaches env vm ?st (st\<lparr>vs_pc := vs_pc st + length ?whole, vs_locals := locs, vs_world := w\<rparr>)"
    proof (cases more)
      case True
      have "reaches env vm ?st (?st\<lparr>vs_pc := vs_pc st + length ?whole\<rparr>)"
        unfolding len using at(2) le True by (intro reaches_jump) (auto simp: code_at_single)
      then show ?thesis by simp
    next
      case False
      then have "segs = []" "eops = []" using eops(2) by (auto simp: more_def)
      then show ?thesis unfolding len using False by (simp add: add.assoc)
    qed
  next
    fix w
    show "flows env vm st (st\<lparr>vs_pc := ?next, vs_world := w\<rparr>) (vs_pc st + length ?whole) lo ls ls
        (exec_branches env (vm_lim vm) brs otherwise (venv_of ls (vs_locals st)) w)"
      using Cons.IH [of "st\<lparr>vs_pc := ?next, vs_world := w\<rparr>"] Cons.prems at(3) unfolding len
      by (simp add: br Let_def add.assoc)
  qed (use Cons.prems in \<open>auto simp: br\<close>)
  then show ?case by (simp add: br)
qed

lemma stmt_code_Nil: "stmt_code env vm lo hi ls ls n Continue []"
  unfolding stmt_code_def
proof (intro allI impI)
  fix st
  show "flows env vm st st (vs_pc st + length []) lo ls ls (Continue (venv_of ls (vs_locals st)) (vs_world st))"
    by (rule flowsI [where locs = "vs_locals st"]) (cases st, simp_all)
qed

lemma if_compiles:
  fixes env :: "('s, 'r) vm_env"
  assumes comp: "compile_stmt (regex_new env) (IfStmt brs els) c = Inr c'" and clean: "clean_stmt (IfStmt brs els)"
    and ok: "comp_ok c" and brs: "\<forall>(e, b) \<in> set brs. stmts_compile env vm b"
    and els: "\<And>b. els = Some b \<Longrightarrow> stmts_compile env vm b"
  shows "\<exists>ops news. stmt_compiles env vm c c' (need_stmt (IfStmt brs els)) (exec_stmt env (vm_lim vm) (IfStmt brs els)) ops news"
proof -
  let ?has = "els \<noteq> None"
  obtain jumps c1 c2 where c: "compile_branches (regex_new env) ?has brs [] c = Inr (jumps, c1)"
      "(case els of Some body \<Rightarrow> compile_block (regex_new env) body c1 | None \<Rightarrow> Inr c1) = Inr c2"
      "patch_jumps jumps c2 = Inr c'"
    using comp by (auto simp: res_bind_Inr_iff)
  have cb: "clean_branches brs" using clean by (cases els) auto
  obtain segs where segs: "grows c c1 (layout ?has None segs) []" "comp_ok c1"
      "jumps = jump_positions (length (co_code c)) ?has segs"
      "runs_code_of env vm c1 \<longrightarrow> list_all2 (seg_ok env vm (co_next_slot c) (co_next_slot c1) (co_locals c)) brs segs"
    using compile_branches_layout [OF c(1) brs cb ok] by auto
  define otherwise where "otherwise = (case els of Some body \<Rightarrow> exec_block env (vm_lim vm) body | None \<Rightarrow> Continue)"
  define m where "m = (case els of Some body \<Rightarrow> need_stmts body | None \<Rightarrow> 0)"
  have "\<exists>eops. stmt_compiles env vm c1 c2 m otherwise eops [] \<and> (\<not> ?has \<longrightarrow> eops = [])"
  proof (cases els)
    case None
    then have "stmt_compiles env vm c1 c2 m otherwise [] []"
      using c(2) segs(2) by (auto simp: stmt_compiles_def otherwise_def stmt_code_Nil)
    then show ?thesis by blast
  next
    case (Some body)
    then show ?thesis
      using block_compiles [OF els [OF Some], of c1 c2] c(2) segs(2) clean by (auto simp: otherwise_def m_def)
  qed
  then obtain eops where eops: "stmt_compiles env vm c1 c2 m otherwise eops []" "\<not> ?has \<Longrightarrow> eops = []" by blast
  let ?ops = "layout ?has (Some (length eops)) segs @ eops"
  have gr2: "grows c1 c2 eops []" using eops(1) by (simp add: stmt_compiles_def)
  have code2: "co_code c2 = co_code c @ layout ?has None segs @ eops" using segs(1) gr2 by (simp add: grows_def)
  have c': "c' = c2\<lparr>co_code := co_code c @ ?ops\<rparr>" using c(3) patch_layout [OF code2] segs(3) by simp
  have gr: "grows c c' ?ops []" using grows_trans [OF segs(1) gr2] by (simp add: c' grows_def)
  have ok': "comp_ok c'" using eops(1) by (simp add: c' stmt_compiles_def comp_ok_def const_ok_def)
  have loc: "co_locals c1 = co_locals c" "co_locals c' = co_locals c" "co_next_slot c \<le> co_next_slot c1"
      "co_next_slot c1 \<le> co_next_slot c'"
    using segs(1) gr gr2 by (auto simp: grows_def c')
  have "stmt_code env vm (co_next_slot c) (co_next_slot c') (co_locals c) (co_locals c') (need_stmt (IfStmt brs els))
      (exec_stmt env (vm_lim vm) (IfStmt brs els)) ?ops" if run: "runs_code_of env vm c'"
    unfolding stmt_code_def
  proof (intro allI impI)
    fix st :: "'s vm_state"
    assume at: "code_at (vm_code vm) (vs_pc st) ?ops" and hi: "co_next_slot c' \<le> length (vs_locals st)"
      and room: "length (vs_stack st) + need_stmt (IfStmt brs els) \<le> vm_depth vm"
    have run2: "runs_code_of env vm c2" using run code2 by (auto simp: runs_code_of_def c')
    have run1: "runs_code_of env vm c1" using grows_runs [OF run2 gr2] .
    have "list_all2 (seg_ok env vm (co_next_slot c) (co_next_slot c') (co_locals c)) brs segs"
      using segs(4) run1 loc by (auto elim!: list_all2_mono intro: seg_ok_weaken)
    moreover have "stmt_code env vm (co_next_slot c) (co_next_slot c') (co_locals c) (co_locals c) m otherwise eops"
      using eops(1) run2 loc by (auto simp: stmt_compiles_def c' intro: stmt_code_weaken)
    moreover have "\<not> ?has \<Longrightarrow> eops = [] \<and> otherwise = Continue" using eops(2) by (simp add: otherwise_def)
    ultimately have "flows env vm st st (vs_pc st + length ?ops) (co_next_slot c) (co_locals c) (co_locals c)
        (exec_branches env (vm_lim vm) brs otherwise (venv_of (co_locals c) (vs_locals st)) (vs_world st))"
    proof (rule branches_flow)
      show "length ?ops < 2 ^ 31" using run by (simp add: runs_code_of_def c')
      show "slots_below (length (vs_locals st)) (co_locals c)"
        using ok hi loc by (auto simp: comp_ok_def intro: slots_below_mono)
    qed (use at hi room in \<open>cases els; auto simp: m_def\<close>)+
    then show "flows env vm st st (vs_pc st + length ?ops) (co_next_slot c) (co_locals c) (co_locals c')
        (exec_stmt env (vm_lim vm) (IfStmt brs els) (venv_of (co_locals c) (vs_locals st)) (vs_world st))"
      by (simp add: loc otherwise_def)
  qed
  then show ?thesis using gr ok' unfolding stmt_compiles_def by blast
qed

end
