(* ===== verification/Dsl_Correct.thy ===== *)
theory Dsl_Correct
  imports Dsl_Stmt_Correct "HOL-Library.Code_Target_Nat"
begin

text \<open>
  Loops and whole programs: a compiled EdgionDSL script, run by the machine, gives the result,
  the session effects and the log that the reference semantics gives the program.
\<close>

section \<open>Loops\<close>

text \<open>
  The machine at a loop head \<open>L\<close> tests the condition and goes to the body at \<open>B\<close> or to the exit at
  \<open>X\<close>; the body ends at \<open>K\<close> with the jump back. \<open>R\<close> relates the loop value and the environment to
  the locals. The loop counter of the machine counts the repetitions that are used up.
\<close>

lemma loop_runs:
  fixes env :: "('s, 'r) vm_env"
  assumes cond: "\<And>(st :: 's vm_state) x rho. vs_pc st = L \<Longrightarrow> vs_stack st = stk \<Longrightarrow> R x rho (vs_locals st) \<Longrightarrow>
      (case cond x rho (vs_world st) of
         (Inl e, w) \<Rightarrow> ends env vm st (Inl e) w
       | (Inr go, w) \<Rightarrow> reaches env vm st (st\<lparr>vs_pc := if go then B else X, vs_world := w\<rparr>))"
    and body: "\<And>(st :: 's vm_state) x rho. vs_pc st = B \<Longrightarrow> vs_stack st = stk \<Longrightarrow> R x rho (vs_locals st) \<Longrightarrow>
      (case flow_bind (body x rho (vs_world st))
              (\<lambda>rho w. case next x of Inl e \<Rightarrow> Done (Inl e) w | Inr _ \<Rightarrow> Continue rho w) of
         Done r w \<Rightarrow> ends env vm st r w
       | Continue rho' w \<Rightarrow>
           \<exists>locs. reaches env vm st (st\<lparr>vs_pc := K, vs_locals := locs, vs_world := w\<rparr>)
                  \<and> R (projr (next x)) rho' locs)"
    and jb: "K < length (vm_code vm)" "vm_code vm ! K = LoopBack off" "int K + 1 + off = int L" "L \<le> length (vm_code vm)"
    and limit: "max_loop_iterations (vm_lim vm) = limit"
  shows "vs_pc st = L \<Longrightarrow> vs_stack st = stk \<Longrightarrow> R x rho (vs_locals st) \<Longrightarrow> vs_loops st = k # ns \<Longrightarrow> k + n = limit \<Longrightarrow>
      (case loop limit cond body next n x rho (vs_world st) of
         Done r w \<Rightarrow> ends env vm st r w
       | Continue rho' w \<Rightarrow>
           \<exists>locs x' k'. reaches env vm st (st\<lparr>vs_pc := X, vs_locals := locs, vs_loops := k' # ns, vs_world := w\<rparr>)
                     \<and> R x' rho' locs)"
proof (induction n arbitrary: st x rho k rule: less_induct)
  case (less n)
  obtain r w where c: "cond x rho (vs_world st) = (r, w)" by fastforce
  have 1: "case (r, w) of
         (Inl e, w) \<Rightarrow> ends env vm st (Inl e) w
       | (Inr go, w) \<Rightarrow> reaches env vm st (st\<lparr>vs_pc := if go then B else X, vs_world := w\<rparr>)"
    using cond [OF less.prems(1-3)] c by simp
  consider (err) e where "r = Inl e" | (exit) "r = Inr False" | (go) "r = Inr True" by (metis (full_types) sum.exhaust)
  then show ?case
  proof cases
    case err
    with 1 c show ?thesis by (subst loop.simps) simp
  next
    case exit
    have "st\<lparr>vs_pc := X, vs_world := w\<rparr> = st\<lparr>vs_pc := X, vs_locals := vs_locals st, vs_loops := k # ns, vs_world := w\<rparr>"
      using less.prems(4) by (cases st) simp
    then have "reaches env vm st (st\<lparr>vs_pc := X, vs_locals := vs_locals st, vs_loops := k # ns, vs_world := w\<rparr>)"
      using 1 exit by simp
    then have "\<exists>locs x' k'. reaches env vm st (st\<lparr>vs_pc := X, vs_locals := locs, vs_loops := k' # ns, vs_world := w\<rparr>)
        \<and> R x' rho locs"
      using less.prems(3) by blast
    then show ?thesis using c exit by (subst loop.simps) simp
  next
    case go
    let ?st = "st\<lparr>vs_pc := B, vs_world := w\<rparr>"
    have r1: "reaches env vm st ?st" using 1 go by simp
    define m where "m = flow_bind (body x rho w)
        (\<lambda>rho w. case next x of Inl e \<Rightarrow> Done (Inl e) w | Inr _ \<Rightarrow> Continue rho w)"
    have 2: "case m of
         Done r w \<Rightarrow> ends env vm ?st r w
       | Continue rho' w' \<Rightarrow>
           \<exists>locs. reaches env vm ?st (?st\<lparr>vs_pc := K, vs_locals := locs, vs_world := w'\<rparr>) \<and> R (projr (next x)) rho' locs"
      using body [of ?st x rho] less.prems unfolding m_def by simp
    have unfold: "loop limit cond body next n x rho (vs_world st) =
        flow_bind m (\<lambda>rho w. case n of 0 \<Rightarrow> Done (Inl (LoopLimitExceeded limit)) w
                               | Suc n' \<Rightarrow> loop limit cond body next n' (projr (next x)) rho w)"
      using c go unfolding m_def
      by (subst loop.simps) (cases "body x rho w"; cases "next x"; cases n; simp)
    show ?thesis
    proof (cases m)
      case (Done q w')
      then show ?thesis using 2 unfold reaches_ends [OF r1] by simp
    next
      case (Continue rho' w')
      with 2 obtain locs where l: "reaches env vm ?st (?st\<lparr>vs_pc := K, vs_locals := locs, vs_world := w'\<rparr>)"
        "R (projr (next x)) rho' locs" by auto
      let ?st2 = "st\<lparr>vs_pc := K, vs_locals := locs, vs_world := w'\<rparr>"
      have r2: "reaches env vm st ?st2" using reaches_trans [OF r1 l(1)] by simp
      show ?thesis
      proof (cases n)
        case 0
        have "ends env vm ?st2 (Inl (LoopLimitExceeded limit)) w'"
          using jb limit less.prems(4,5) 0 by (intro ends_error) auto
        then show ?thesis using reaches_ends [OF r2] unfold Continue 0 by simp
      next
        case (Suc n')
        let ?st3 = "st\<lparr>vs_pc := L, vs_locals := locs, vs_loops := (k + 1) # ns, vs_world := w'\<rparr>"
        have "reaches env vm ?st2 ?st3"
          using jb limit less.prems(4,5) Suc by (intro reaches_step) (auto simp: jump_to_def Let_def)
        then have r3: "reaches env vm st ?st3" by (rule reaches_trans [OF r2])
        have IH: "case loop limit cond body next n' (projr (next x)) rho' (vs_world ?st3) of
           Done r w \<Rightarrow> ends env vm ?st3 r w
         | Continue rho' w \<Rightarrow>
             \<exists>locs x' k'. reaches env vm ?st3 (?st3\<lparr>vs_pc := X, vs_locals := locs, vs_loops := k' # ns, vs_world := w\<rparr>)
                       \<and> R x' rho' locs"
          using Suc less.prems l(2) by (intro less.IH [where k = "k + 1"]) simp_all
        show ?thesis
          using IH unfold Continue Suc reaches_ends [OF r3] reaches_trans [OF r3]
          by (cases "loop limit cond body next n' (projr (next x)) rho' w'") (simp_all, blast)
      qed
    qed
  qed
qed

text \<open>The whole loop, from \<open>LoopInit\<close> to behind \<open>LoopEnd\<close>.\<close>

lemma loop_flows:
  fixes env :: "('s, 'r) vm_env"
  assumes cond: "\<And>(st :: 's vm_state) x rho. vs_pc st = L \<Longrightarrow> vs_stack st = vs_stack st1 \<Longrightarrow> R x rho (vs_locals st) \<Longrightarrow>
      (case cond x rho (vs_world st) of
         (Inl e, w) \<Rightarrow> ends env vm st (Inl e) w
       | (Inr go, w) \<Rightarrow> reaches env vm st (st\<lparr>vs_pc := if go then B else X, vs_world := w\<rparr>))"
    and body: "\<And>(st :: 's vm_state) x rho. vs_pc st = B \<Longrightarrow> vs_stack st = vs_stack st1 \<Longrightarrow> R x rho (vs_locals st) \<Longrightarrow>
      (case flow_bind (body x rho (vs_world st))
              (\<lambda>rho w. case next x of Inl e \<Rightarrow> Done (Inl e) w | Inr _ \<Rightarrow> Continue rho w) of
         Done r w \<Rightarrow> ends env vm st r w
       | Continue rho' w \<Rightarrow>
           \<exists>locs. reaches env vm st (st\<lparr>vs_pc := K, vs_locals := locs, vs_world := w\<rparr>)
                  \<and> R (projr (next x)) rho' locs)"
    and code: "vs_pc st1 < length (vm_code vm)" "vm_code vm ! vs_pc st1 = LoopInit" "L = vs_pc st1 + 1"
      "K < length (vm_code vm)" "vm_code vm ! K = LoopBack off" "int K + 1 + off = int L"
      "X = K + 1" "X < length (vm_code vm)" "vm_code vm ! X = LoopEnd"
    and R0: "R x rho (vs_locals st1)"
    and R: "\<And>x rho locs. R x rho locs \<Longrightarrow> frame lo ls (vs_locals st1) locs \<and> rho = venv_of ls locs"
    and limit: "max_loop_iterations (vm_lim vm) = limit"
  shows "flows env vm st1 st1 (X + 1) lo ls ls (loop limit cond body next limit x rho (vs_world st1))"
proof -
  let ?st2 = "st1\<lparr>vs_pc := L, vs_loops := 0 # vs_loops st1\<rparr>"
  have r: "reaches env vm st1 ?st2" using code by (intro reaches_step) auto
  have "case loop limit cond body next limit x rho (vs_world ?st2) of
         Done r w \<Rightarrow> ends env vm ?st2 r w
       | Continue rho' w \<Rightarrow>
           \<exists>locs x' k'. reaches env vm ?st2 (?st2\<lparr>vs_pc := X, vs_locals := locs, vs_loops := k' # vs_loops st1, vs_world := w\<rparr>)
                     \<and> R x' rho' locs"
    using code R0 limit
    by (intro loop_runs [where stk = "vs_stack st1" and L = L and B = B and K = K and off = off and R = R and k = 0])
      (use cond body in auto)
  then have l: "case loop limit cond body next limit x rho (vs_world st1) of
         Done r w \<Rightarrow> ends env vm st1 r w
       | Continue rho' w \<Rightarrow>
           \<exists>locs x' k'. reaches env vm st1 (st1\<lparr>vs_pc := X, vs_locals := locs, vs_loops := k' # vs_loops st1, vs_world := w\<rparr>)
                     \<and> R x' rho' locs"
    using reaches_trans [OF r] reaches_ends [OF r] by (auto split: flow.splits)
  show ?thesis
  proof (cases "loop limit cond body next limit x rho (vs_world st1)")
    case (Done r w)
    with l show ?thesis by simp
  next
    case (Continue rho' w)
    with l obtain locs x' k' where a:
        "reaches env vm st1 (st1\<lparr>vs_pc := X, vs_locals := locs, vs_loops := k' # vs_loops st1, vs_world := w\<rparr>)"
        "R x' rho' locs" by auto
    let ?st3 = "st1\<lparr>vs_pc := X, vs_locals := locs, vs_loops := k' # vs_loops st1, vs_world := w\<rparr>"
    have "reaches env vm ?st3 (?st3\<lparr>vs_pc := X + 1, vs_loops := vs_loops st1\<rparr>)"
      using code by (intro reaches_step) auto
    then have "reaches env vm st1 (?st3\<lparr>vs_pc := X + 1, vs_loops := vs_loops st1\<rparr>)" by (rule reaches_trans [OF a(1)])
    then have "reaches env vm st1 (st1\<lparr>vs_pc := X + 1, vs_locals := locs, vs_world := w\<rparr>)" by (cases st1) simp
    then show ?thesis using R [OF a(2)] by (simp add: Continue flowsI)
  qed
qed

section \<open>Pieces of loop code\<close>

lemma reaches_get_local:
  assumes "vs_pc st < length (vm_code vm)" "vm_code vm ! vs_pc st = GetLocal s" "s < length (vs_locals st)"
    "length (vs_stack st) < vm_depth vm"
  shows "reaches env vm st (st\<lparr>vs_pc := vs_pc st + 1, vs_stack := vs_locals st ! s # vs_stack st\<rparr>)"
  using assms by (intro reaches_step) (auto simp: push_def nth_opt_def)

lemma reaches_load_const:
  assumes "vs_pc st < length (vm_code vm)" "vm_code vm ! vs_pc st = LoadConst i" "nth_opt (vm_consts vm) i = Some k"
    "length (vs_stack st) < vm_depth vm"
  shows "reaches env vm st (st\<lparr>vs_pc := vs_pc st + 1, vs_stack := const_value k # vs_stack st\<rparr>)"
  using assms by (intro reaches_step) (auto simp: push_def Let_def nth_opt_def)

lemma binary_step:
  assumes "vs_pc st < length (vm_code vm)" "vs_stack st = b # a # rest" "length rest < vm_depth vm"
    and "\<And>st'. vm_step env vm (vm_code vm ! vs_pc st) st' = binary (vm_depth vm) f st'"
  shows "case f a b of
           Inl e \<Rightarrow> ends env vm st (Inl e) (vs_world st)
         | Inr v \<Rightarrow> reaches env vm st (st\<lparr>vs_pc := vs_pc st + 1, vs_stack := v # rest\<rparr>)"
  using assms by (auto simp: binary_def pop_def push_result_def push_def split: sum.splits intro!: reaches_step ends_error)

lemma increment_step:
  assumes at: "code_at (vm_code vm) (vs_pc st) [GetLocal s, LoadConst i, OpAdd, SetLocal s]"
    and s: "s < length (vs_locals st)" and i: "nth_opt (vm_consts vm) i = Some (CInt 1)"
    and room: "length (vs_stack st) + 2 \<le> vm_depth vm"
  shows "case v_add (max_string_len (vm_lim vm)) (vs_locals st ! s) (VInt 1) of
           Inl e \<Rightarrow> ends env vm st (Inl e) (vs_world st)
         | Inr v \<Rightarrow> reaches env vm st (st\<lparr>vs_pc := vs_pc st + 4, vs_locals := (vs_locals st)[s := v]\<rparr>)"
proof -
  let ?x = "vs_locals st ! s"
  let ?st1 = "st\<lparr>vs_pc := vs_pc st + 1, vs_stack := ?x # vs_stack st\<rparr>"
  let ?st2 = "st\<lparr>vs_pc := vs_pc st + 2, vs_stack := VInt 1 # ?x # vs_stack st\<rparr>"
  have "reaches env vm st ?st1" using at s room by (intro reaches_get_local) (auto simp: code_at_Cons)
  also have "reaches env vm ?st1 (?st1\<lparr>vs_pc := vs_pc ?st1 + 1, vs_stack := const_value (CInt 1) # vs_stack ?st1\<rparr>)"
    using at i room by (intro reaches_load_const) (auto simp: code_at_Cons)
  finally have r: "reaches env vm st ?st2" by (simp add: const_value_def)
  have add: "case v_add (max_string_len (vm_lim vm)) ?x (VInt 1) of
           Inl e \<Rightarrow> ends env vm ?st2 (Inl e) (vs_world ?st2)
         | Inr v \<Rightarrow> reaches env vm ?st2 (?st2\<lparr>vs_pc := vs_pc ?st2 + 1, vs_stack := v # vs_stack st\<rparr>)"
    using at room by (intro binary_step) (auto simp: code_at_Cons)
  show ?thesis
  proof (cases "v_add (max_string_len (vm_lim vm)) ?x (VInt 1)")
    case (Inl e)
    with add show ?thesis using reaches_ends [OF r] by simp
  next
    case (Inr v)
    let ?st3 = "?st2\<lparr>vs_pc := vs_pc ?st2 + 1, vs_stack := v # vs_stack st\<rparr>"
    have "reaches env vm st ?st3" using add Inr reaches_trans [OF r] by simp
    also have "reaches env vm ?st3 (?st3\<lparr>vs_pc := vs_pc ?st3 + 1, vs_stack := vs_stack st, vs_locals := (vs_locals ?st3)[s := v]\<rparr>)"
      using at s by (intro reaches_set_local) (auto simp: code_at_Cons eval_nat_numeral)
    finally show ?thesis using Inr by (cases st) (simp add: eval_nat_numeral)
  qed
qed

section \<open>Compiling loops\<close>

definition loop_opened :: "compiler \<Rightarrow> compiler \<Rightarrow> bool" where
  "loop_opened c cb \<longleftrightarrow>
     comp_ok cb \<and> co_locals cb = co_locals c \<and> co_next_slot cb = co_next_slot c \<and> co_code cb = co_code c
     \<and> co_constants cb = co_constants c \<and> co_scope_depth cb = co_scope_depth c + 1 \<and> co_loop_depth cb = co_loop_depth c + 1"

lemma loop_open:
  assumes "enter_scope c = Inr ca" "enter_loop ca = Inr cb" "comp_ok c"
  shows "loop_opened c cb"
proof -
  have "cb = ca\<lparr>co_loop_depth := co_loop_depth ca + 1, co_max_loop_depth := max (co_max_loop_depth ca) (co_loop_depth ca + 1)\<rparr>"
    using assms(2) by (auto simp: enter_loop_def split: if_splits)
  then show ?thesis
    using enter_scope_fields [OF assms(1)] assms(3) by (auto simp: loop_opened_def comp_ok_def const_ok_def)
qed

text \<open>Closing a loop patches its exit, jumps back, and drops the variables of the loop.\<close>

lemma loop_close:
  assumes op: "loop_opened c cb" and ok: "comp_ok c"
    and gr: "grows cb c1 (pre @ [JumpIfFalse 0] @ post) news" and ok1: "comp_ok c1"
    and close: "close_loop start exit_jump c1 = Inr c'" and exit_jump: "exit_jump = length (co_code c) + length pre"
  shows "\<exists>ops. ops = pre @ [JumpIfFalse (as_i32 (int (length post) + 1))] @ post
             @ [LoopBack (as_i32 (int start - (int (length (co_code c1)) + 1)))] @ [LoopEnd]
           \<and> grows c c' ops [] \<and> comp_ok c' \<and> co_next_slot c' = co_next_slot c1 \<and> co_locals c' = co_locals c
           \<and> co_constants c' = co_constants c1 \<and> length (co_code c') = length (co_code c1) + 2"
proof -
  let ?jmp = "LoopBack (back_offset start c1)"
  let ?ops = "pre @ [JumpIfFalse (as_i32 (int (length post) + 1))] @ post @ [?jmp] @ [LoopEnd]"
  have code1: "co_code c1 = co_code c @ pre @ [JumpIfFalse 0] @ post" using gr op by (simp add: grows_def loop_opened_def)
  have "patch_jump exit_jump (emit ?jmp c1) =
      Inr ((emit ?jmp c1)\<lparr>co_code := (co_code c @ pre) @ [JumpIfFalse (as_i32 (int (length (post @ [?jmp]))))] @ (post @ [?jmp])\<rparr>)"
    using code1 exit_jump by (intro patch_jump_if_false) simp_all
  then have lv: "leave_scope (leave_loop (emit LoopEnd ((emit ?jmp c1)\<lparr>co_code := co_code c @
        pre @ [JumpIfFalse (as_i32 (int (length post) + 1))] @ post @ [?jmp]\<rparr>))) = Inr c'"
    using close by (simp add: close_loop_def add.commute)
  have "c' = (leave_loop (emit LoopEnd ((emit ?jmp c1)\<lparr>co_code := co_code c @
        pre @ [JumpIfFalse (as_i32 (int (length post) + 1))] @ post @ [?jmp]\<rparr>)))\<lparr>co_locals := co_locals c,
        co_scope_depth := co_scope_depth c1 - 1\<rparr>"
    using gr op ok leave_scope_fields [OF lv, of news "co_locals c"]
    by (simp add: grows_def loop_opened_def comp_ok_def leave_loop_def less_Suc_eq_le emit_def)
  then have c': "c' = c1\<lparr>co_code := co_code c @ ?ops, co_locals := co_locals c, co_scope_depth := co_scope_depth c1 - 1,
      co_loop_depth := co_loop_depth c1 - 1\<rparr>"
    by (simp add: leave_loop_def emit_def)
  have sl: "co_next_slot c \<le> co_next_slot c1" using gr op by (simp add: grows_def loop_opened_def)
  have "grows c c' ?ops []" using gr op by (simp add: c' grows_def loop_opened_def)
  moreover have "comp_ok c'"
    using ok ok1 gr op sl by (auto simp: c' comp_ok_def const_ok_def grows_def loop_opened_def intro: slots_below_mono)
  moreover have "length (co_code c') = length (co_code c1) + 2" using code1 by (simp add: c')
  ultimately show ?thesis by (auto simp: c' back_offset_def current_offset_def)
qed

lemma emit_increment_ok:
  assumes "emit_increment s c = Inr c'"
  shows "\<exists>one. emits c c' [GetLocal s, LoadConst one, OpAdd, SetLocal s]
           \<and> (const_ok c \<longrightarrow> const_ok c' \<and> nth_opt (co_constants c') one = Some (CInt 1))"
proof -
  obtain one c1 where c1: "add_int_const 1 (emit (GetLocal s) c) = Inr (one, c1)"
      "c' = emit (SetLocal s) (emit OpAdd (emit (LoadConst one) c1))"
    using assms by (auto simp: emit_increment_def res_bind_Inr_iff)
  from add_int_const_ok [OF c1(1)] show ?thesis
    by (intro exI [of _ one]) (auto simp: c1(2) emits_def emit_def const_ok_def)
qed

text \<open>The code of a while loop, run from its \<open>LoopInit\<close>.\<close>

lemma while_flow:
  fixes env :: "('s, 'r) vm_env" and st :: "'s vm_state"
  assumes cf: "code_for env vm ls n (\<lambda>rho w. single (eval env (vm_lim vm) rho e w)) xs"
    and sc: "stmt_code env vm lo hi ls ls m (exec_block env (vm_lim vm) b) ys"
    and ops: "ops = [LoopInit] @ xs @ [JumpIfFalse (int (length ys) + 1)] @ ys
                @ [LoopBack (- int (length xs + length ys + 2))] @ [LoopEnd]"
    and at: "code_at (vm_code vm) (vs_pc st) ops" and hi: "hi \<le> length (vs_locals st)"
    and sb: "slots_below (length (vs_locals st)) ls"
    and room: "length (vs_stack st) + n \<le> vm_depth vm" "length (vs_stack st) + m \<le> vm_depth vm"
  shows "flows env vm st st (vs_pc st + length ops) lo ls ls
    (exec_stmt env (vm_lim vm) (While e b) (venv_of ls (vs_locals st)) (vs_world st))"
proof -
  define R where "R x rho locs \<longleftrightarrow> frame lo ls (vs_locals st) locs \<and> rho = venv_of ls locs" for x :: unit and rho locs
  let ?L = "vs_pc st + 1" and ?B = "vs_pc st + 2 + length xs" and ?K = "vs_pc st + 2 + length xs + length ys"
  note at' = at [unfolded ops]
  have "flows env vm st st ((?K + 1) + 1) lo ls ls
      (loop (max_loop_iterations (vm_lim vm))
        (\<lambda>_ rho w. w_bind (eval env (vm_lim vm) rho e w) (\<lambda>v w. (Inr (is_truthy v), w)))
        (\<lambda>_ rho w. exec_block env (vm_lim vm) b rho w)
        Inr (max_loop_iterations (vm_lim vm)) () (venv_of ls (vs_locals st)) (vs_world st))"
  proof (rule loop_flows [where L = ?L and B = ?B and K = ?K and R = R])
    fix st' :: "'s vm_state" and x rho
    assume a: "vs_pc st' = ?L" "vs_stack st' = vs_stack st" "R x rho (vs_locals st')"
    have lenl: "length (vs_locals st') = length (vs_locals st)" using a(3) by (auto simp: R_def frame_def)
    obtain r w where rw: "eval env (vm_lim vm) rho e (vs_world st') = (r, w)" by fastforce
    have arr: "arrives env vm st' (length xs) (single (r, w))"
      using code_forD [OF cf, of st'] at' a sb room rw lenl by (simp add: R_def code_at_Cons)
    show "case w_bind (eval env (vm_lim vm) rho e (vs_world st')) (\<lambda>v w. (Inr (is_truthy v), w)) of
        (Inl e, w) \<Rightarrow> ends env vm st' (Inl e) w
      | (Inr go, w) \<Rightarrow> reaches env vm st' (st'\<lparr>vs_pc := if go then ?B else ?K + 1, vs_world := w\<rparr>)"
    proof (cases r)
      case (Inl err)
      with arr rw show ?thesis by simp
    next
      case (Inr v)
      let ?st1 = "st'\<lparr>vs_pc := vs_pc st' + length xs, vs_stack := v # vs_stack st', vs_world := w\<rparr>"
      have "reaches env vm st' ?st1" using arr Inr by simp
      also have "reaches env vm ?st1 (?st1\<lparr>vs_pc := if is_truthy v then vs_pc ?st1 + 1 else ?K + 1, vs_stack := vs_stack st'\<rparr>)"
        using at' a(1) code_at_le [OF at'] by (intro reaches_jump_if_false) (auto simp: code_at_Cons)
      finally have "reaches env vm st' (st'\<lparr>vs_pc := if is_truthy v then ?B else ?K + 1, vs_world := w\<rparr>)"
        using a(1) by (cases st') (simp split: if_splits)
      then show ?thesis using rw Inr by simp
    qed
  next
    fix st' :: "'s vm_state" and x rho
    assume a: "vs_pc st' = ?B" "vs_stack st' = vs_stack st" "R x rho (vs_locals st')"
    have lenl: "length (vs_locals st') = length (vs_locals st)" using a(3) by (auto simp: R_def frame_def)
    have fl: "flows env vm st' st' (vs_pc st' + length ys) lo ls ls (exec_block env (vm_lim vm) b rho (vs_world st'))"
      using stmt_codeD [OF sc, of st'] at' a hi room lenl
      by (simp add: R_def code_at_Cons add.assoc del: exec_block.simps)
    show "case flow_bind (exec_block env (vm_lim vm) b rho (vs_world st'))
            (\<lambda>rho w. case Inr x of Inl e \<Rightarrow> Done (Inl e) w | Inr _ \<Rightarrow> Continue rho w) of
       Done r w \<Rightarrow> ends env vm st' r w
     | Continue rho' w \<Rightarrow>
         \<exists>locs. reaches env vm st' (st'\<lparr>vs_pc := ?K, vs_locals := locs, vs_world := w\<rparr>) \<and> R (projr (Inr x)) rho' locs"
      using fl a frame_trans [of lo ls "vs_locals st" "vs_locals st'" lo ls]
      by (cases "exec_block env (vm_lim vm) b rho (vs_world st')") (auto simp: flows_def R_def simp del: exec_block.simps)
  qed (use at' in \<open>auto simp: R_def code_at_Cons add.assoc simp del: exec_block.simps\<close>)
  then show ?thesis by (simp add: ops add.assoc del: exec_block.simps)
qed

lemma while_compiles:
  fixes env :: "('s, 'r) vm_env"
  assumes comp: "compile_stmt (regex_new env) (While e b) c = Inr c'" and clean: "clean_stmt (While e b)"
    and ok: "comp_ok c" and b: "stmts_compile env vm b"
  shows "\<exists>ops news. stmt_compiles env vm c c' (need_stmt (While e b)) (exec_stmt env (vm_lim vm) (While e b)) ops news"
proof -
  obtain ca cb c1 c2 where c: "enter_scope c = Inr ca" "enter_loop ca = Inr cb"
      "compile_expr (regex_new env) e (emit LoopInit cb) = Inr c1"
      "compile_block (regex_new env) b (emit (JumpIfFalse 0) c1) = Inr c2"
      "close_loop (length (co_code cb) + 1) (length (co_code c1)) c2 = Inr c'"
    using comp by (auto simp: res_bind_Inr_iff Let_def current_offset_def)
  have op: "loop_opened c cb" using loop_open [OF c(1,2) ok] .
  then have okb: "comp_ok cb" by (simp add: loop_opened_def)
  have cl: "clean_expr e" "clean_stmts b" using clean by simp_all
  obtain xs where xs: "compiled env vm (emit LoopInit cb) c1 (need_expr e) (\<lambda>rho w. single (eval env (vm_lim vm) rho e w)) xs"
    using expr_compilesD [OF compile_expr_correct c(3) cl(1)] by blast
  have e1: "emits (emit LoopInit cb) c1 xs" using xs by (rule compiled_emits)
  have ok1: "comp_ok (emit (JumpIfFalse 0) c1)"
    using emits_comp_ok [OF e1] xs okb by (simp add: compiled_def comp_ok_const_ok)
  obtain ys where ys: "stmt_compiles env vm (emit (JumpIfFalse 0) c1) c2 (need_stmts b) (exec_block env (vm_lim vm) b) ys []"
    using block_compiles [OF b c(4) cl(2) ok1] by blast
  have gr: "grows cb c2 (([LoopInit] @ xs) @ [JumpIfFalse 0] @ ys) []"
    using e1 ys by (auto simp: emits_def stmt_compiles_def grows_def)
  have ex: "length (co_code c1) = length (co_code c) + length ([LoopInit] @ xs)"
    using e1 op by (simp add: emits_def loop_opened_def)
  let ?jmp = "as_i32 (int (length (co_code cb) + 1) - (int (length (co_code c2)) + 1))"
  let ?ops = "([LoopInit] @ xs) @ [JumpIfFalse (as_i32 (int (length ys) + 1))] @ ys @ [LoopBack ?jmp] @ [LoopEnd]"
  have cl': "grows c c' ?ops []" "comp_ok c'" "co_next_slot c' = co_next_slot c2" "co_locals c' = co_locals c"
      "co_constants c' = co_constants c2" "length (co_code c') = length (co_code c2) + 2"
    using loop_close [OF op ok gr _ c(5) ex] ys by (auto simp: stmt_compiles_def)
  have loc: "co_locals c1 = co_locals c" "co_locals c2 = co_locals c" "co_next_slot c1 = co_next_slot c"
      "co_next_slot c \<le> co_next_slot c2"
    using e1 op ys by (auto simp: emits_def loop_opened_def stmt_compiles_def grows_def)
  have len2: "length (co_code c2) = length (co_code cb) + 2 + length xs + length ys" using gr by (simp add: grows_def)
  have "stmt_code env vm (co_next_slot c) (co_next_slot c') (co_locals c) (co_locals c') (need_stmt (While e b))
      (exec_stmt env (vm_lim vm) (While e b)) ?ops" if run: "runs_code_of env vm c'"
  proof -
    have small: "length (co_code c') < 2 ^ 31" using run by (simp add: runs_code_of_def)
    have ops: "?ops = [LoopInit] @ xs @ [JumpIfFalse (int (length ys) + 1)] @ ys
        @ [LoopBack (- int (length xs + length ys + 2))] @ [LoopEnd]"
      using small cl'(6) len2 as_i32_small [of "int (length ys) + 1"] as_i32_neg [of "- int (length xs + length ys + 2)"]
      by simp
    have run2: "runs_code_of env vm c2" using run cl'(5,6) by (simp add: runs_code_of_def)
    have "runs_code_of env vm (emit (JumpIfFalse 0) c1)"
      using grows_runs [OF run2] ys by (auto simp: stmt_compiles_def)
    then have run1: "runs_code_of env vm c1" by (rule runs_code_of_earlier [OF _ emits_emit])
    have cf: "code_for env vm (co_locals c) (need_expr e) (\<lambda>rho w. single (eval env (vm_lim vm) rho e w)) xs"
      using xs run1 okb op by (simp add: compiled_def comp_ok_const_ok loop_opened_def)
    have sc: "stmt_code env vm (co_next_slot c) (co_next_slot c2) (co_locals c) (co_locals c) (need_stmts b)
        (exec_block env (vm_lim vm) b) ys"
      using ys run2 loc by (simp add: stmt_compiles_def)
    show ?thesis unfolding stmt_code_def cl'(4)
    proof (intro allI impI while_flow [OF cf sc ops])
      fix st :: "'s vm_state"
      assume "co_next_slot c' \<le> length (vs_locals st)"
      then show "slots_below (length (vs_locals st)) (co_locals c)"
        using ok loc cl'(3) by (auto simp: comp_ok_def intro: slots_below_mono)
    qed (use cl'(3) in auto)
  qed
  then show ?thesis using cl'(1,2) unfolding stmt_compiles_def by blast
qed

section \<open>Counted loops\<close>

text \<open>
  The body of a counted loop with its loop variable in slot \<open>xs\<close>, followed by the increment of
  the counter in slot \<open>s\<close>, which the body cannot reach.
\<close>

lemma body_then_increment:
  fixes env :: "('s, 'r) vm_env" and st :: "'s vm_state"
  assumes sc: "stmt_code env vm lo hi lsb lsb m (exec_block env (vm_lim vm) b) ys"
    and lsb: "\<And>locs. venv_of lsb locs = (x, locs ! xs) # venv_of ls locs"
    and at: "code_at (vm_code vm) (vs_pc st) (ys @ [GetLocal s, LoadConst i, OpAdd, SetLocal s])"
    and s: "s < lo" "s \<notin> mut_slots lsb" "s < length (vs_locals st)" and hi: "hi \<le> length (vs_locals st)"
    and i: "nth_opt (vm_consts vm) i = Some (CInt 1)"
    and room: "length (vs_stack st) + 2 \<le> vm_depth vm" "length (vs_stack st) + m \<le> vm_depth vm"
  shows "case flow_bind
           (flow_bind (exec_block env (vm_lim vm) b ((x, vs_locals st ! xs) # venv_of ls (vs_locals st)) (vs_world st))
              (\<lambda>rho w. Continue (tl rho) w))
           (\<lambda>rho w. case v_add (max_string_len (vm_lim vm)) (vs_locals st ! s) (VInt 1) of
                      Inl e \<Rightarrow> Done (Inl e) w | Inr _ \<Rightarrow> Continue rho w) of
         Done r w \<Rightarrow> ends env vm st r w
       | Continue rho' w \<Rightarrow>
           \<exists>locs. reaches env vm st (st\<lparr>vs_pc := vs_pc st + length ys + 4,
                     vs_locals := locs[s := projr (v_add (max_string_len (vm_lim vm)) (vs_locals st ! s) (VInt 1))],
                     vs_world := w\<rparr>)
                  \<and> frame lo lsb (vs_locals st) locs \<and> rho' = venv_of ls locs"
proof -
  let ?rho = "(x, vs_locals st ! xs) # venv_of ls (vs_locals st)"
  let ?add = "v_add (max_string_len (vm_lim vm)) (vs_locals st ! s) (VInt 1)"
  have fl: "flows env vm st st (vs_pc st + length ys) lo lsb lsb (exec_block env (vm_lim vm) b ?rho (vs_world st))"
    using stmt_codeD [OF sc, of st] at hi room lsb by (simp del: exec_block.simps)
  show ?thesis
  proof (cases "exec_block env (vm_lim vm) b ?rho (vs_world st)")
    case (Done r w)
    with fl show ?thesis by (simp del: exec_block.simps)
  next
    case (Continue rho' w)
    with fl obtain locs where l: "reaches env vm st (st\<lparr>vs_pc := vs_pc st + length ys, vs_locals := locs, vs_world := w\<rparr>)"
        "frame lo lsb (vs_locals st) locs" "rho' = (x, locs ! xs) # venv_of ls locs"
      by (auto simp: flows_def lsb)
    let ?st = "st\<lparr>vs_pc := vs_pc st + length ys, vs_locals := locs, vs_world := w\<rparr>"
    have same: "locs ! s = vs_locals st ! s" "length locs = length (vs_locals st)" using l(2) s by (auto simp: frame_def)
    have "case v_add (max_string_len (vm_lim vm)) (vs_locals ?st ! s) (VInt 1) of
           Inl e \<Rightarrow> ends env vm ?st (Inl e) (vs_world ?st)
         | Inr v \<Rightarrow> reaches env vm ?st (?st\<lparr>vs_pc := vs_pc ?st + 4, vs_locals := (vs_locals ?st)[s := v]\<rparr>)"
      using at s same i room by (intro increment_step) auto
    then show ?thesis
      using Continue l same reaches_ends [OF l(1)] reaches_trans [OF l(1)]
      by (cases ?add) (auto simp del: exec_block.simps)
  qed
qed

lemma mut_slots_below: "slots_below lo ls \<Longrightarrow> s \<in> mut_slots ls \<Longrightarrow> s < lo"
  by (auto simp: mut_slots_def visible_def slots_below_def)

text \<open>Loading the two operands of a comparison and jumping on its result.\<close>

lemma get_two_locals:
  assumes "code_at (vm_code vm) (vs_pc st) [GetLocal s, GetLocal t]" "s < length (vs_locals st)" "t < length (vs_locals st)"
    "length (vs_stack st) + 2 \<le> vm_depth vm"
  shows "reaches env vm st (st\<lparr>vs_pc := vs_pc st + 2, vs_stack := vs_locals st ! t # vs_locals st ! s # vs_stack st\<rparr>)"
proof -
  let ?st1 = "st\<lparr>vs_pc := vs_pc st + 1, vs_stack := vs_locals st ! s # vs_stack st\<rparr>"
  have "reaches env vm st ?st1" using assms by (intro reaches_get_local) (auto simp: code_at_Cons)
  also have "reaches env vm ?st1 (?st1\<lparr>vs_pc := vs_pc ?st1 + 1, vs_stack := vs_locals ?st1 ! t # vs_stack ?st1\<rparr>)"
    using assms by (intro reaches_get_local) (auto simp: code_at_Cons)
  finally show ?thesis by simp
qed

lemma less_then_jump:
  assumes at: "code_at (vm_code vm) (vs_pc st) [Less, JumpIfFalse off]" and st: "vs_stack st = b # a # rest"
    and room: "length rest < vm_depth vm" and X: "int (vs_pc st) + 2 + off = int X" "X \<le> length (vm_code vm)"
  shows "case v_less a b of
           Inl e \<Rightarrow> ends env vm st (Inl e) (vs_world st)
         | Inr t \<Rightarrow> reaches env vm st (st\<lparr>vs_pc := if is_truthy t then vs_pc st + 2 else X, vs_stack := rest\<rparr>)"
proof -
  have less: "case v_less a b of
           Inl e \<Rightarrow> ends env vm st (Inl e) (vs_world st)
         | Inr t \<Rightarrow> reaches env vm st (st\<lparr>vs_pc := vs_pc st + 1, vs_stack := t # rest\<rparr>)"
    using at st room by (intro binary_step) (auto simp: code_at_Cons)
  show ?thesis
  proof (cases "v_less a b")
    case (Inr t)
    let ?st1 = "st\<lparr>vs_pc := vs_pc st + 1, vs_stack := t # rest\<rparr>"
    have "reaches env vm st ?st1" using less Inr by simp
    also have "reaches env vm ?st1 (?st1\<lparr>vs_pc := if is_truthy t then vs_pc ?st1 + 1 else X, vs_stack := rest\<rparr>)"
      using at X by (intro reaches_jump_if_false) (auto simp: code_at_Cons)
    finally show ?thesis using Inr by (auto split: if_splits)
  qed (use less in simp)
qed

lemma list_len_step:
  assumes "vs_pc st < length (vm_code vm)" "vm_code vm ! vs_pc st = ListLen" "vs_stack st = a # rest" "length rest < vm_depth vm"
  shows "reaches env vm st (st\<lparr>vs_pc := vs_pc st + 1, vs_stack := v_list_len a # rest\<rparr>)"
  using assms by (intro reaches_step) (auto simp: unary_def pop_def push_result_def push_def)

text \<open>Fetching the element of a list at the loop index into the loop variable.\<close>

lemma fetch_element:
  assumes at: "code_at (vm_code vm) (vs_pc st) [GetLocal l, GetLocal i, ListGet, SetLocal v]"
    and s: "l < length (vs_locals st)" "i < length (vs_locals st)" "v < length (vs_locals st)"
    and room: "length (vs_stack st) + 2 \<le> vm_depth vm"
  shows "reaches env vm st (st\<lparr>vs_pc := vs_pc st + 4,
           vs_locals := (vs_locals st)[v := v_list_get (vs_locals st ! l) (vs_locals st ! i)]\<rparr>)"
proof -
  let ?x = "v_list_get (vs_locals st ! l) (vs_locals st ! i)"
  let ?st1 = "st\<lparr>vs_pc := vs_pc st + 2, vs_stack := vs_locals st ! i # vs_locals st ! l # vs_stack st\<rparr>"
  let ?st2 = "?st1\<lparr>vs_pc := vs_pc ?st1 + 1, vs_stack := ?x # vs_stack st\<rparr>"
  have "reaches env vm st ?st1" using at s room by (intro get_two_locals) (auto simp: code_at_Cons)
  also have "reaches env vm ?st1 ?st2"
    using at room by (intro reaches_step)
      (auto simp: code_at_Cons eval_nat_numeral binary_def pop_def push_result_def push_def)
  also have "reaches env vm ?st2 (?st2\<lparr>vs_pc := vs_pc ?st2 + 1, vs_stack := vs_stack st, vs_locals := (vs_locals ?st2)[v := ?x]\<rparr>)"
    using at s by (intro reaches_set_local) (auto simp: code_at_Cons eval_nat_numeral)
  finally show ?thesis by (cases st) (simp add: eval_nat_numeral)
qed

lemma range_flow:
  fixes env :: "('s, 'r) vm_env" and st :: "'s vm_state"
  assumes sc: "stmt_code env vm lob hi lsb lsb m (exec_block env (vm_lim vm) b) ys"
    and lsb: "\<And>locs. venv_of lsb locs = (x, locs ! v) # venv_of ls locs" "mut_slots lsb \<subseteq> mut_slots ls"
    and ops: "ops = [LoopInit, GetLocal v, GetLocal e, Less, JumpIfFalse (int (length ys) + 5)] @ ys
                @ [GetLocal v, LoadConst i, OpAdd, SetLocal v] @ [LoopBack (- int (length ys + 9))] @ [LoopEnd]"
    and at: "code_at (vm_code vm) (vs_pc st) ops"
    and slots: "slots_below lo ls" "lo \<le> e" "lo \<le> v" "e \<noteq> v" "e < lob" "v < lob" "lob \<le> hi" "hi \<le> length (vs_locals st)"
    and i: "nth_opt (vm_consts vm) i = Some (CInt 1)"
    and room: "length (vs_stack st) + 2 \<le> vm_depth vm" "length (vs_stack st) + m \<le> vm_depth vm"
  shows "flows env vm st st (vs_pc st + length ops) lo ls ls
    (loop (max_loop_iterations (vm_lim vm))
       (\<lambda>i rho w. (case v_less i (vs_locals st ! e) of Inl e \<Rightarrow> Inl e | Inr b \<Rightarrow> Inr (is_truthy b), w))
       (\<lambda>i rho w. flow_bind (exec_block env (vm_lim vm) b ((x, i) # rho) w) (\<lambda>rho w. Continue (tl rho) w))
       (\<lambda>i. v_add (max_string_len (vm_lim vm)) i (VInt 1))
       (max_loop_iterations (vm_lim vm)) (vs_locals st ! v) (venv_of ls (vs_locals st)) (vs_world st))"
proof -
  define R where "R i rho locs \<longleftrightarrow> frame lo ls (vs_locals st) locs \<and> rho = venv_of ls locs \<and>
    locs ! v = i \<and> locs ! e = vs_locals st ! e" for i rho locs
  let ?L = "vs_pc st + 1" and ?B = "vs_pc st + 5" and ?K = "vs_pc st + 9 + length ys"
  note at' = at [unfolded ops]
  have nomut: "s \<notin> mut_slots lsb" if "lo \<le> s" for s
    using mut_slots_below [OF slots(1), of s] lsb(2) that by auto
  have "flows env vm st st ((?K + 1) + 1) lo ls ls
      (loop (max_loop_iterations (vm_lim vm))
         (\<lambda>i rho w. (case v_less i (vs_locals st ! e) of Inl e \<Rightarrow> Inl e | Inr b \<Rightarrow> Inr (is_truthy b), w))
         (\<lambda>i rho w. flow_bind (exec_block env (vm_lim vm) b ((x, i) # rho) w) (\<lambda>rho w. Continue (tl rho) w))
         (\<lambda>i. v_add (max_string_len (vm_lim vm)) i (VInt 1))
         (max_loop_iterations (vm_lim vm)) (vs_locals st ! v) (venv_of ls (vs_locals st)) (vs_world st))"
  proof (rule loop_flows [where L = ?L and B = ?B and K = ?K and R = R])
    fix st' :: "'s vm_state" and j rho
    assume a: "vs_pc st' = ?L" "vs_stack st' = vs_stack st" "R j rho (vs_locals st')"
    have loc: "vs_locals st' ! v = j" "vs_locals st' ! e = vs_locals st ! e" "length (vs_locals st') = length (vs_locals st)"
      using a(3) by (simp_all add: R_def frame_def)
    let ?last = "vs_locals st ! e"
    let ?st2 = "st'\<lparr>vs_pc := vs_pc st' + 2, vs_stack := ?last # j # vs_stack st'\<rparr>"
    have r: "reaches env vm st' ?st2"
      using get_two_locals [of vm st' v e env] at' a slots loc room by (simp add: code_at_Cons)
    have lj: "case v_less j ?last of
           Inl err \<Rightarrow> ends env vm ?st2 (Inl err) (vs_world ?st2)
         | Inr t \<Rightarrow> reaches env vm ?st2 (?st2\<lparr>vs_pc := if is_truthy t then vs_pc ?st2 + 2 else ?K + 1, vs_stack := vs_stack st'\<rparr>)"
      using at' a room code_at_le [OF at'] by (intro less_then_jump) (auto simp: code_at_Cons eval_nat_numeral)
    show "case (case v_less j ?last of Inl e \<Rightarrow> Inl e | Inr b \<Rightarrow> Inr (is_truthy b), vs_world st') of
        (Inl e, w) \<Rightarrow> ends env vm st' (Inl e) w
      | (Inr go, w) \<Rightarrow> reaches env vm st' (st'\<lparr>vs_pc := if go then ?B else ?K + 1, vs_world := w\<rparr>)"
    proof (cases "v_less j ?last")
      case (Inl err)
      with lj show ?thesis using reaches_ends [OF r] by simp
    next
      case (Inr t)
      have "reaches env vm st' (?st2\<lparr>vs_pc := if is_truthy t then vs_pc ?st2 + 2 else ?K + 1, vs_stack := vs_stack st'\<rparr>)"
        using lj Inr reaches_trans [OF r] by simp
      then have "reaches env vm st' (st'\<lparr>vs_pc := if is_truthy t then ?B else ?K + 1, vs_world := vs_world st'\<rparr>)"
        using a(1) by (cases st') (simp add: eval_nat_numeral split: if_splits)
      then show ?thesis using Inr by simp
    qed
  next
    fix st' :: "'s vm_state" and j rho
    assume a: "vs_pc st' = ?B" "vs_stack st' = vs_stack st" "R j rho (vs_locals st')"
    have lenl: "length (vs_locals st') = length (vs_locals st)" using a(3) by (simp add: R_def frame_def)
    have loc: "vs_locals st' ! v = j" "rho = venv_of ls (vs_locals st')" using a(3) by (simp_all add: R_def)
    let ?m = "flow_bind (flow_bind (exec_block env (vm_lim vm) b ((x, j) # rho) (vs_world st')) (\<lambda>rho w. Continue (tl rho) w))
            (\<lambda>rho w. case v_add (max_string_len (vm_lim vm)) j (VInt 1) of Inl e \<Rightarrow> Done (Inl e) w | Inr _ \<Rightarrow> Continue rho w)"
    let ?j = "projr (v_add (max_string_len (vm_lim vm)) j (VInt 1))"
    have bi: "case ?m of Done r w \<Rightarrow> ends env vm st' r w
       | Continue rho' w \<Rightarrow> \<exists>locs. reaches env vm st' (st'\<lparr>vs_pc := vs_pc st' + length ys + 4, vs_locals := locs[v := ?j], vs_world := w\<rparr>)
           \<and> frame lob lsb (vs_locals st') locs \<and> rho' = venv_of ls locs"
    proof (rule body_then_increment [OF sc lsb(1), where st = st' and s = v and i = i, unfolded loc(1) loc(2) [symmetric]])
      show "code_at (vm_code vm) (vs_pc st') (ys @ [GetLocal v, LoadConst i, OpAdd, SetLocal v])"
        using at' a(1) by (simp add: code_at_Cons eval_nat_numeral)
    qed (use a lenl slots i room nomut in auto)
    show "case ?m of Done r w \<Rightarrow> ends env vm st' r w
       | Continue rho' w \<Rightarrow> \<exists>locs. reaches env vm st' (st'\<lparr>vs_pc := ?K, vs_locals := locs, vs_world := w\<rparr>) \<and> R ?j rho' locs"
    proof (cases ?m)
      case (Done r w)
      with bi show ?thesis by (simp del: exec_block.simps)
    next
      case (Continue rho' w)
      with bi obtain locs where l: "reaches env vm st' (st'\<lparr>vs_pc := vs_pc st' + length ys + 4, vs_locals := locs[v := ?j], vs_world := w\<rparr>)"
          "frame lob lsb (vs_locals st') locs" "rho' = venv_of ls locs" by (auto simp del: exec_block.simps)
      have "frame lo ls (vs_locals st) locs"
        using a(3) lsb(2) slots by (intro frame_trans [OF _ l(2)]) (auto simp: R_def)
      then have "R ?j rho' (locs[v := ?j])"
        using l(2,3) a(3) slots lenl nomut [of e]
        by (auto simp: R_def frame_def venv_of_update_above)
      moreover have pc: "vs_pc st' + length ys + 4 = ?K" using a(1) by simp
      ultimately show ?thesis using l(1) [unfolded pc] unfolding Continue flow.case by blast
    qed
  next
    show "R (vs_locals st ! v) (venv_of ls (vs_locals st)) (vs_locals st)" by (simp add: R_def)
  qed (use at' in \<open>auto simp: R_def code_at_Cons eval_nat_numeral add.assoc simp del: exec_block.simps\<close>)
  then show ?thesis by (simp add: ops add.assoc eval_nat_numeral del: exec_block.simps)
qed

lemma for_in_flow:
  fixes env :: "('s, 'r) vm_env" and st :: "'s vm_state"
  assumes sc: "stmt_code env vm lob hi lsb lsb m (exec_block env (vm_lim vm) b) ys"
    and lsb: "\<And>locs. venv_of lsb locs = (x, locs ! v) # venv_of ls locs" "mut_slots lsb \<subseteq> mut_slots ls"
    and ops: "ops = [LoopInit, GetLocal i, GetLocal l, ListLen, Less, JumpIfFalse (int (length ys) + 9),
                GetLocal l, GetLocal i, ListGet, SetLocal v] @ ys
                @ [GetLocal i, LoadConst k, OpAdd, SetLocal i] @ [LoopBack (- int (length ys + 14))] @ [LoopEnd]"
    and at: "code_at (vm_code vm) (vs_pc st) ops"
    and slots: "slots_below lo ls" "lo \<le> l" "lo \<le> i" "lo \<le> v" "distinct [l, i, v]" "l < lob" "i < lob" "v < lob"
      "lob \<le> hi" "hi \<le> length (vs_locals st)"
    and k: "nth_opt (vm_consts vm) k = Some (CInt 1)"
    and room: "length (vs_stack st) + 2 \<le> vm_depth vm" "length (vs_stack st) + m \<le> vm_depth vm"
  shows "flows env vm st st (vs_pc st + length ops) lo ls ls
    (loop (max_loop_iterations (vm_lim vm))
       (\<lambda>j rho w. (case v_less j (v_list_len (vs_locals st ! l)) of Inl e \<Rightarrow> Inl e | Inr b \<Rightarrow> Inr (is_truthy b), w))
       (\<lambda>j rho w. flow_bind (exec_block env (vm_lim vm) b ((x, v_list_get (vs_locals st ! l) j) # rho) w) (\<lambda>rho w. Continue (tl rho) w))
       (\<lambda>j. v_add (max_string_len (vm_lim vm)) j (VInt 1))
       (max_loop_iterations (vm_lim vm)) (vs_locals st ! i) (venv_of ls (vs_locals st)) (vs_world st))"
proof -
  let ?list = "vs_locals st ! l"
  define R where "R j rho locs \<longleftrightarrow> frame lo ls (vs_locals st) locs \<and> rho = venv_of ls locs \<and>
    locs ! i = j \<and> locs ! l = ?list" for j rho locs
  let ?L = "vs_pc st + 1" and ?B = "vs_pc st + 6" and ?K = "vs_pc st + 14 + length ys"
  note at' = at [unfolded ops]
  have nomut: "s \<notin> mut_slots lsb" if "lo \<le> s" for s
    using mut_slots_below [OF slots(1), of s] lsb(2) that by auto
  have "flows env vm st st ((?K + 1) + 1) lo ls ls
      (loop (max_loop_iterations (vm_lim vm))
         (\<lambda>j rho w. (case v_less j (v_list_len ?list) of Inl e \<Rightarrow> Inl e | Inr b \<Rightarrow> Inr (is_truthy b), w))
         (\<lambda>j rho w. flow_bind (exec_block env (vm_lim vm) b ((x, v_list_get ?list j) # rho) w) (\<lambda>rho w. Continue (tl rho) w))
         (\<lambda>j. v_add (max_string_len (vm_lim vm)) j (VInt 1))
         (max_loop_iterations (vm_lim vm)) (vs_locals st ! i) (venv_of ls (vs_locals st)) (vs_world st))"
  proof (rule loop_flows [where L = ?L and B = ?B and K = ?K and R = R])
    fix st' :: "'s vm_state" and j rho
    assume a: "vs_pc st' = ?L" "vs_stack st' = vs_stack st" "R j rho (vs_locals st')"
    have loc: "vs_locals st' ! i = j" "vs_locals st' ! l = ?list" "length (vs_locals st') = length (vs_locals st)"
      using a(3) by (simp_all add: R_def frame_def)
    let ?st1 = "st'\<lparr>vs_pc := vs_pc st' + 2, vs_stack := ?list # j # vs_stack st'\<rparr>"
    let ?st2 = "st'\<lparr>vs_pc := vs_pc st' + 3, vs_stack := v_list_len ?list # j # vs_stack st'\<rparr>"
    have "reaches env vm st' ?st1"
      using get_two_locals [of vm st' i l env] at' a slots loc room by (simp add: code_at_Cons)
    also have "reaches env vm ?st1 (?st1\<lparr>vs_pc := vs_pc ?st1 + 1, vs_stack := v_list_len ?list # j # vs_stack st'\<rparr>)"
      using at' a room by (intro list_len_step) (auto simp: code_at_Cons eval_nat_numeral)
    finally have r: "reaches env vm st' ?st2" by (simp add: eval_nat_numeral)
    have lj: "case v_less j (v_list_len ?list) of
           Inl e \<Rightarrow> ends env vm ?st2 (Inl e) (vs_world ?st2)
         | Inr t \<Rightarrow> reaches env vm ?st2 (?st2\<lparr>vs_pc := if is_truthy t then vs_pc ?st2 + 2 else ?K + 1, vs_stack := vs_stack st'\<rparr>)"
      using at' a room code_at_le [OF at'] by (intro less_then_jump) (auto simp: code_at_Cons eval_nat_numeral)
    show "case (case v_less j (v_list_len ?list) of Inl e \<Rightarrow> Inl e | Inr b \<Rightarrow> Inr (is_truthy b), vs_world st') of
        (Inl e, w) \<Rightarrow> ends env vm st' (Inl e) w
      | (Inr go, w) \<Rightarrow> reaches env vm st' (st'\<lparr>vs_pc := if go then ?B else ?K + 1, vs_world := w\<rparr>)"
    proof (cases "v_less j (v_list_len ?list)")
      case (Inl err)
      with lj show ?thesis using reaches_ends [OF r] by simp
    next
      case (Inr t)
      have "reaches env vm st' (?st2\<lparr>vs_pc := if is_truthy t then vs_pc ?st2 + 2 else ?K + 1, vs_stack := vs_stack st'\<rparr>)"
        using lj Inr reaches_trans [OF r] by simp
      then have "reaches env vm st' (st'\<lparr>vs_pc := if is_truthy t then ?B else ?K + 1, vs_world := vs_world st'\<rparr>)"
        using a(1) by (cases st') (simp add: eval_nat_numeral split: if_splits)
      then show ?thesis using Inr by simp
    qed
  next
    fix st' :: "'s vm_state" and j rho
    assume a: "vs_pc st' = ?B" "vs_stack st' = vs_stack st" "R j rho (vs_locals st')"
    have loc: "vs_locals st' ! i = j" "vs_locals st' ! l = ?list" "length (vs_locals st') = length (vs_locals st)"
        "rho = venv_of ls (vs_locals st')"
      using a(3) by (simp_all add: R_def frame_def)
    let ?el = "v_list_get ?list j"
    let ?st1 = "st'\<lparr>vs_pc := vs_pc st' + 4, vs_locals := (vs_locals st')[v := ?el]\<rparr>"
    have r: "reaches env vm st' ?st1"
      using fetch_element [of vm st' l i v env] at' a slots loc room by (simp add: code_at_Cons eval_nat_numeral)
    have loc1: "vs_locals ?st1 ! i = j" "vs_locals ?st1 ! v = ?el" "venv_of ls (vs_locals ?st1) = rho" "vs_world ?st1 = vs_world st'"
      using loc slots by (auto simp: venv_of_update_above)
    let ?m = "flow_bind (flow_bind (exec_block env (vm_lim vm) b ((x, ?el) # rho) (vs_world st')) (\<lambda>rho w. Continue (tl rho) w))
            (\<lambda>rho w. case v_add (max_string_len (vm_lim vm)) j (VInt 1) of Inl e \<Rightarrow> Done (Inl e) w | Inr _ \<Rightarrow> Continue rho w)"
    let ?j = "projr (v_add (max_string_len (vm_lim vm)) j (VInt 1))"
    have bi: "case ?m of Done r w \<Rightarrow> ends env vm ?st1 r w
       | Continue rho' w \<Rightarrow> \<exists>locs. reaches env vm ?st1 (?st1\<lparr>vs_pc := vs_pc ?st1 + length ys + 4, vs_locals := locs[i := ?j], vs_world := w\<rparr>)
           \<and> frame lob lsb (vs_locals ?st1) locs \<and> rho' = venv_of ls locs"
    proof (rule body_then_increment [OF sc lsb(1), where st = ?st1 and s = i and i = k, unfolded loc1])
      show "code_at (vm_code vm) (vs_pc ?st1) (ys @ [GetLocal i, LoadConst k, OpAdd, SetLocal i])"
        using at' a(1) by (simp add: code_at_Cons eval_nat_numeral)
    qed (use a loc slots k room nomut in auto)
    show "case ?m of Done r w \<Rightarrow> ends env vm st' r w
       | Continue rho' w \<Rightarrow> \<exists>locs. reaches env vm st' (st'\<lparr>vs_pc := ?K, vs_locals := locs, vs_world := w\<rparr>) \<and> R ?j rho' locs"
    proof (cases ?m)
      case (Done q w)
      with bi show ?thesis using reaches_ends [OF r] by (simp del: exec_block.simps)
    next
      case (Continue rho' w)
      with bi obtain locs where f: "reaches env vm ?st1 (?st1\<lparr>vs_pc := vs_pc ?st1 + length ys + 4, vs_locals := locs[i := ?j], vs_world := w\<rparr>)"
          "frame lob lsb (vs_locals ?st1) locs" "rho' = venv_of ls locs" by (auto simp del: exec_block.simps)
      have "frame lo ls (vs_locals st) (vs_locals ?st1)"
        using frame_trans [OF conjunct1 [OF a(3) [unfolded R_def]] frame_update [OF slots(4), of ls]] by simp
      then have "frame lo ls (vs_locals st) locs" using lsb(2) slots by (intro frame_trans [OF _ f(2)]) auto
      then have "R ?j rho' (locs[i := ?j])"
        using f(2,3) slots loc nomut [of l]
        by (auto simp: R_def frame_def venv_of_update_above)
      moreover have pc: "vs_pc ?st1 + length ys + 4 = ?K" using a(1) by simp
      have "reaches env vm st' (st'\<lparr>vs_pc := ?K, vs_locals := locs[i := ?j], vs_world := w\<rparr>)"
        using reaches_trans [OF r f(1) [unfolded pc]] by simp
      ultimately show ?thesis unfolding Continue flow.case by blast
    qed
  next
    show "R (vs_locals st ! i) (venv_of ls (vs_locals st)) (vs_locals st)" by (simp add: R_def)
  qed (use at' in \<open>auto simp: R_def code_at_Cons eval_nat_numeral add.assoc simp del: exec_block.simps\<close>)
  then show ?thesis by (simp add: ops add.assoc eval_nat_numeral del: exec_block.simps)
qed

section \<open>Counted loops as statements\<close>

text \<open>Evaluating an expression into a fresh slot.\<close>

lemma flows_store:
  fixes env :: "('s, 'r) vm_env" and st :: "'s vm_state"
  assumes cf: "code_for env vm ls1 n (\<lambda>rho w. single (f rho w)) xs"
    and at: "code_at (vm_code vm) (vs_pc st) (xs @ [SetLocal s])"
    and slots: "slots_below (length (vs_locals st)) ls1" "s < length (vs_locals st)" "lo \<le> s"
    and room: "length (vs_stack st) + n \<le> vm_depth vm"
    and k: "\<And>v w. flows env vm st0 (st\<lparr>vs_pc := vs_pc st + length xs + 1, vs_locals := (vs_locals st)[s := v], vs_world := w\<rparr>)
      pc lo ls ls' (g v w)"
  shows "flows env vm st0 st pc lo ls ls' (value_bind (f (venv_of ls1 (vs_locals st)) (vs_world st)) g)"
proof (rule flows_expr [OF cf])
  fix v w
  let ?st = "st\<lparr>vs_pc := vs_pc st + length xs, vs_stack := v # vs_stack st, vs_world := w\<rparr>"
  let ?st1 = "st\<lparr>vs_pc := vs_pc st + length xs + 1, vs_locals := (vs_locals st)[s := v], vs_world := w\<rparr>"
  have "reaches env vm ?st (?st\<lparr>vs_pc := vs_pc ?st + 1, vs_stack := vs_stack st, vs_locals := (vs_locals ?st)[s := v]\<rparr>)"
    using at slots by (intro reaches_set_local) (auto simp: code_at_single)
  then have r: "reaches env vm ?st ?st1" by (cases st) simp
  show "flows env vm st0 ?st pc lo ls ls' (g v w)"
    using slots by (intro flows_after [OF r _ k]) (auto intro: frame_update)
qed (use at slots room in auto)

lemma range_stmt_flow:
  fixes env :: "('s, 'r) vm_env" and st :: "'s vm_state"
  assumes ce: "code_for env vm ls ne (\<lambda>rho w. single (eval env (vm_lim vm) rho ee w)) xe"
    and cs: "code_for env vm lse ns (\<lambda>rho w. single (eval env (vm_lim vm) rho es w)) xs"
    and lse: "\<And>locs. venv_of lse locs = venv_of ls locs" "slots_below hi lse"
    and sc: "stmt_code env vm lob hi lsb lsb m (exec_block env (vm_lim vm) b) ys"
    and lsb: "\<And>locs. venv_of lsb locs = (x, locs ! v) # venv_of ls locs" "mut_slots lsb \<subseteq> mut_slots ls"
    and lp: "lp = [LoopInit, GetLocal v, GetLocal e, Less, JumpIfFalse (int (length ys) + 5)] @ ys
                @ [GetLocal v, LoadConst i, OpAdd, SetLocal v] @ [LoopBack (- int (length ys + 9))] @ [LoopEnd]"
    and at: "code_at (vm_code vm) (vs_pc st) ((xe @ [SetLocal e]) @ (xs @ [SetLocal v]) @ lp)"
    and slots: "slots_below lo ls" "lo \<le> e" "lo \<le> v" "e \<noteq> v" "e < lob" "v < lob" "lob \<le> hi" "hi \<le> length (vs_locals st)"
    and i: "nth_opt (vm_consts vm) i = Some (CInt 1)"
    and room: "length (vs_stack st) + 2 \<le> vm_depth vm" "length (vs_stack st) + m \<le> vm_depth vm"
      "length (vs_stack st) + ne \<le> vm_depth vm" "length (vs_stack st) + ns \<le> vm_depth vm"
  shows "flows env vm st st (vs_pc st + length ((xe @ [SetLocal e]) @ (xs @ [SetLocal v]) @ lp)) lo ls ls
    (exec_stmt env (vm_lim vm) (ForRange x es ee b) (venv_of ls (vs_locals st)) (vs_world st))"
  unfolding exec_stmt.simps
proof (rule flows_store [OF ce])
  fix last w
  let ?pc = "vs_pc st + length ((xe @ [SetLocal e]) @ (xs @ [SetLocal v]) @ lp)"
  let ?st1 = "st\<lparr>vs_pc := vs_pc st + length xe + 1, vs_locals := (vs_locals st)[e := last], vs_world := w\<rparr>"
  let ?loop = "\<lambda>first rho w. loop (max_loop_iterations (vm_lim vm))
       (\<lambda>i rho w. (case v_less i last of Inl e \<Rightarrow> Inl e | Inr b \<Rightarrow> Inr (is_truthy b), w))
       (\<lambda>i rho w. flow_bind (exec_block env (vm_lim vm) b ((x, i) # rho) w) (\<lambda>rho w. Continue (tl rho) w))
       (\<lambda>i. v_add (max_string_len (vm_lim vm)) i (VInt 1)) (max_loop_iterations (vm_lim vm)) first rho w"
  have rho: "venv_of lse (vs_locals ?st1) = venv_of ls (vs_locals st)"
    using lse(1) slots by (simp add: venv_of_update_above)
  have "flows env vm st ?st1 ?pc lo ls ls
      (value_bind (eval env (vm_lim vm) (venv_of lse (vs_locals ?st1)) es (vs_world ?st1))
         (\<lambda>first w. ?loop first (venv_of ls (vs_locals st)) w))"
  proof (rule flows_store [OF cs])
    fix first w'
    let ?st2 = "?st1\<lparr>vs_pc := vs_pc ?st1 + length xs + 1, vs_locals := (vs_locals ?st1)[v := first], vs_world := w'\<rparr>"
    have loc: "vs_locals ?st2 ! e = last" "vs_locals ?st2 ! v = first" "venv_of ls (vs_locals ?st2) = venv_of ls (vs_locals st)"
      using slots by (auto simp: venv_of_update_above)
    have "flows env vm ?st2 ?st2 (vs_pc ?st2 + length lp) lo ls ls
        (?loop (vs_locals ?st2 ! v) (venv_of ls (vs_locals ?st2)) (vs_world ?st2))"
      using range_flow [OF sc lsb lp, of ?st2 lo, unfolded loc(1)] at slots i room by (simp add: add.assoc code_at_Cons del: exec_block.simps)
    then show "flows env vm st ?st2 ?pc lo ls ls (?loop first (venv_of ls (vs_locals st)) w')"
      using loc by (simp add: add.assoc del: exec_block.simps)
  qed (use at slots room lse(2) in \<open>auto simp: add.assoc code_at_Cons intro: slots_below_mono\<close>)
  then show "flows env vm st ?st1 ?pc lo ls ls
      (value_bind (eval env (vm_lim vm) (venv_of ls (vs_locals st)) es w) (\<lambda>first w. ?loop first (venv_of ls (vs_locals st)) w))"
    using rho by (simp del: exec_block.simps)
qed (use at slots room in \<open>auto simp: code_at_Cons intro: slots_below_mono\<close>)

text \<open>Compiling an expression into a new local.\<close>

lemma store_compiles:
  fixes env :: "('s, 'r) vm_env"
  assumes c: "compile_expr (regex_new env) e c = Inr c1" "declare_local x m c1 = Inr (s, c2)" "clean_expr e" "comp_ok c"
  shows "\<exists>xs. s = co_next_slot c
    \<and> grows c (emit (SetLocal s) c2) (xs @ [SetLocal s]) [\<lparr>lv_name = x, lv_slot = s, lv_mutable = m, lv_depth = co_scope_depth c\<rparr>]
    \<and> comp_ok (emit (SetLocal s) c2) \<and> co_next_slot c2 = co_next_slot c + 1
    \<and> (runs_code_of env vm (emit (SetLocal s) c2) \<longrightarrow>
         code_for env vm (co_locals c) (need_expr e) (\<lambda>rho w. single (eval env (vm_lim vm) rho e w)) xs)"
proof -
  obtain xs where xs: "compiled env vm c c1 (need_expr e) (\<lambda>rho w. single (eval env (vm_lim vm) rho e w)) xs"
    using expr_compilesD [OF compile_expr_correct c(1,3)] by blast
  have em: "emits c c1 xs" using xs by (rule compiled_emits)
  have ok1: "comp_ok c1" using emits_comp_ok [OF em] xs c(4) by (simp add: compiled_def comp_ok_const_ok)
  have c2: "s = co_next_slot c" "c2 = c1\<lparr>co_next_slot := co_next_slot c + 1, co_locals :=
      \<lparr>lv_name = x, lv_slot = co_next_slot c, lv_mutable = m, lv_depth = co_scope_depth c\<rparr> # co_locals c\<rparr>"
    using declare_local_fields [OF c(2)] em by (simp_all add: emits_def)
  have "comp_ok c2" using declare_local_comp_ok [OF c(2) ok1] .
  then have ok2: "comp_ok (emit (SetLocal s) c2)" by (simp add: comp_ok_def const_ok_def emit_def)
  have gr: "grows c (emit (SetLocal s) c2) (xs @ [SetLocal s]) [\<lparr>lv_name = x, lv_slot = s, lv_mutable = m, lv_depth = co_scope_depth c\<rparr>]"
    using em by (simp add: c2 grows_def emits_def emit_def)
  have "runs_code_of env vm c1" if "runs_code_of env vm (emit (SetLocal s) c2)"
    using that by (simp add: runs_code_of_def c2 emit_def code_at_append)
  then show ?thesis
    using xs gr ok2 c(4) c2 by (intro exI [of _ xs]) (simp add: compiled_def comp_ok_const_ok)
qed

lemma range_compiles:
  fixes env :: "('s, 'r) vm_env"
  assumes comp: "compile_stmt (regex_new env) (ForRange x es ee b) c = Inr c'" and clean: "clean_stmt (ForRange x es ee b)"
    and ok: "comp_ok c" and b: "stmts_compile env vm b"
  shows "\<exists>ops news. stmt_compiles env vm c c' (need_stmt (ForRange x es ee b)) (exec_stmt env (vm_lim vm) (ForRange x es ee b)) ops news"
proof -
  let ?N = "co_next_slot c"
  obtain ca cb c1 e c2 c3 v c4 where c: "enter_scope c = Inr ca" "enter_loop ca = Inr cb"
      "compile_expr (regex_new env) ee cb = Inr c1" "declare_local ''__range_end__'' False c1 = Inr (e, c2)"
      "compile_expr (regex_new env) es (emit (SetLocal e) c2) = Inr c3" "declare_local x False c3 = Inr (v, c4)"
    and c': "res_bind (compile_block (regex_new env) b (emit (JumpIfFalse 0) (emit Less (emit (GetLocal e) (emit (GetLocal v)
        (emit LoopInit (emit (SetLocal v) c4))))))) (\<lambda>c. res_bind (emit_increment v c) (\<lambda>c.
        close_loop (length (co_code c4) + 2) (length (co_code c4) + 5) c)) = Inr c'"
    using comp by (auto simp: res_bind_Inr_iff Let_def current_offset_def eval_nat_numeral split: if_splits)
  let ?c2 = "emit (SetLocal e) c2" and ?c4 = "emit (SetLocal v) c4"
  let ?head = "[LoopInit, GetLocal v, GetLocal e, Less]"
  let ?c5 = "emit (JumpIfFalse 0) (emit Less (emit (GetLocal e) (emit (GetLocal v) (emit LoopInit ?c4))))"
  obtain c6 c7 where c67: "compile_block (regex_new env) b ?c5 = Inr c6" "emit_increment v c6 = Inr c7"
      "close_loop (length (co_code c4) + 2) (length (co_code c4) + 5) c7 = Inr c'"
    using c' by (auto simp: res_bind_Inr_iff)
  have op: "loop_opened c cb" using loop_open [OF c(1,2) ok] .
  have cl: "clean_expr es" "clean_expr ee" "clean_stmts b" "\<not> hidden_name x" using clean by simp_all
  let ?le = "\<lparr>lv_name = ''__range_end__'', lv_slot = e, lv_mutable = False, lv_depth = co_scope_depth cb\<rparr>"
  let ?lv = "\<lparr>lv_name = x, lv_slot = v, lv_mutable = False, lv_depth = co_scope_depth cb\<rparr>"
  have e: "e = ?N" and ok2: "comp_ok ?c2" and n2: "co_next_slot c2 = ?N + 1"
    and ex: "\<exists>xe. grows cb ?c2 (xe @ [SetLocal e]) [?le] \<and>
       (runs_code_of env vm ?c2 \<longrightarrow> code_for env vm (co_locals c) (need_expr ee) (\<lambda>rho w. single (eval env (vm_lim vm) rho ee w)) xe)"
    using store_compiles [OF c(3,4) cl(2), of vm] op by (auto simp: loop_opened_def)
  obtain xe where xe: "grows cb ?c2 (xe @ [SetLocal e]) [?le]"
      "runs_code_of env vm ?c2 \<Longrightarrow> code_for env vm (co_locals c) (need_expr ee) (\<lambda>rho w. single (eval env (vm_lim vm) rho ee w)) xe"
    using ex by blast
  have loc2: "co_locals c2 = ?le # co_locals c" "co_scope_depth c2 = co_scope_depth cb"
    using xe(1) op by (auto simp: grows_def loop_opened_def)
  obtain xs where xs: "v = ?N + 1" "grows ?c2 ?c4 (xs @ [SetLocal v]) [?lv]" "comp_ok ?c4" "co_next_slot c4 = ?N + 2"
      "runs_code_of env vm ?c4 \<Longrightarrow> code_for env vm (?le # co_locals c) (need_expr es) (\<lambda>rho w. single (eval env (vm_lim vm) rho es w)) xs"
    using store_compiles [OF c(5,6) cl(1) ok2, of vm] n2 loc2 by auto
  obtain ys where ys: "stmt_compiles env vm ?c5 c6 (need_stmts b) (exec_block env (vm_lim vm) b) ys []"
    using block_compiles [OF b c67(1) cl(3)] xs(3) by auto
  then have g6: "grows ?c5 c6 ys []" "comp_ok c6" by (auto simp: stmt_compiles_def)
  obtain one where one: "emits c6 c7 [GetLocal v, LoadConst one, OpAdd, SetLocal v]"
      "const_ok c7" "nth_opt (co_constants c7) one = Some (CInt 1)"
    using emit_increment_ok [OF c67(2)] comp_ok_const_ok [OF g6(2)] by blast
  let ?inc = "[GetLocal v, LoadConst one, OpAdd, SetLocal v]"
  have ok7: "comp_ok c7" using emits_comp_ok [OF one(1,2) g6(2)] .
  let ?pre = "(xe @ [SetLocal e]) @ (xs @ [SetLocal v]) @ ?head"
  have g7: "grows cb c7 (?pre @ [JumpIfFalse 0] @ (ys @ ?inc)) [?lv, ?le]"
    using xe(1) xs(2) g6(1) one(1) by (auto simp: grows_def emits_def)
  have len: "length (co_code c4) + 5 = length (co_code c) + length ?pre"
      "length (co_code c7) = length (co_code c4) + 10 + length ys"
    using xe(1) xs(2) g6(1) one(1) op by (auto simp: grows_def emits_def loop_opened_def)
  let ?jmp = "as_i32 (int (length (co_code c4) + 2) - (int (length (co_code c7)) + 1))"
  let ?ops = "?pre @ [JumpIfFalse (as_i32 (int (length (ys @ ?inc)) + 1))] @ (ys @ ?inc) @ [LoopBack ?jmp] @ [LoopEnd]"
  have cl': "grows c c' ?ops []" "comp_ok c'" "co_next_slot c' = co_next_slot c7" "co_locals c' = co_locals c"
      "co_constants c' = co_constants c7" "length (co_code c') = length (co_code c7) + 2"
    using loop_close [OF op ok g7 ok7 c67(3) len(1)] by auto
  have n7: "co_next_slot c7 = co_next_slot c6" "?N + 2 \<le> co_next_slot c6" "co_locals c6 = ?lv # ?le # co_locals c"
      "co_locals ?c5 = ?lv # ?le # co_locals c"
    using g6(1) xs(2,4) loc2 one(1) by (auto simp: grows_def emits_def)
  have "stmt_code env vm ?N (co_next_slot c') (co_locals c) (co_locals c') (need_stmt (ForRange x es ee b))
      (exec_stmt env (vm_lim vm) (ForRange x es ee b)) ?ops" if run: "runs_code_of env vm c'"
  proof -
    let ?lp = "[LoopInit, GetLocal v, GetLocal e, Less, JumpIfFalse (int (length ys) + 5)] @ ys @ ?inc @ [LoopBack (- int (length ys + 9))] @ [LoopEnd]"
    have ops: "?ops = (xe @ [SetLocal e]) @ (xs @ [SetLocal v]) @ ?lp"
      using run cl'(6) len(2) as_i32_small [of "5 + int (length ys)"] as_i32_neg [of "- 9 - int (length ys)"]
      by (simp add: runs_code_of_def)
    have run7: "runs_code_of env vm c7" using run cl'(5,6) by (simp add: runs_code_of_def)
    have run6: "runs_code_of env vm c6" by (rule runs_code_of_earlier [OF run7 one(1)])
    have run5: "runs_code_of env vm ?c5" by (rule grows_runs [OF run6 g6(1)])
    have run4: "runs_code_of env vm ?c4" using run5 by (simp add: runs_code_of_def)
    have run2: "runs_code_of env vm ?c2" by (rule grows_runs [OF run4 xs(2)])
    have i: "nth_opt (vm_consts vm) one = Some (CInt 1)"
      using run7 one(3) by (auto simp: runs_code_of_def nth_append prefix_def)
    have sc: "stmt_code env vm (?N + 2) (co_next_slot c6) (?lv # ?le # co_locals c) (?lv # ?le # co_locals c) (need_stmts b)
        (exec_block env (vm_lim vm) b) ys"
      using ys run6 n7 xs(4) by (simp add: stmt_compiles_def)
    have h: "hidden_name ''__range_end__''" by (simp add: hidden_name_def)
    have sl: "slots_below ?N (co_locals c)" using ok by (simp add: comp_ok_def)
    have sl2: "slots_below (co_next_slot c6) (?le # co_locals c)"
      using slots_below_mono [OF sl, of "co_next_slot c6"] n7(2) e by (simp add: slots_below_def)
    show ?thesis unfolding stmt_code_def cl'(4) ops
    proof (intro allI impI range_stmt_flow [OF xe(2) [OF run2] xs(5) [OF run4] _ sl2 sc _ _ refl])
      show "mut_slots (?lv # ?le # co_locals c) \<subseteq> mut_slots (co_locals c)"
        by (auto simp: mut_slots_def visible_def)
    qed (use cl'(3) n7 e xs(1) i sl h cl(4) in \<open>auto simp: venv_of_Cons venv_of_Cons_hidden\<close>)
  qed
  then show ?thesis using cl'(1,2) unfolding stmt_compiles_def by blast
qed

lemma for_in_stmt_flow:
  fixes env :: "('s, 'r) vm_env" and st :: "'s vm_state"
  assumes ce: "code_for env vm ls ne (\<lambda>rho w. single (eval env (vm_lim vm) rho ee w)) xe"
    and sc: "stmt_code env vm lob hi lsb lsb m (exec_block env (vm_lim vm) b) ys"
    and lsb: "\<And>locs. venv_of lsb locs = (x, locs ! v) # venv_of ls locs" "mut_slots lsb \<subseteq> mut_slots ls"
    and lp: "lp = [LoopInit, GetLocal i, GetLocal l, ListLen, Less, JumpIfFalse (int (length ys) + 9),
                GetLocal l, GetLocal i, ListGet, SetLocal v] @ ys
                @ [GetLocal i, LoadConst k, OpAdd, SetLocal i] @ [LoopBack (- int (length ys + 14))] @ [LoopEnd]"
    and at: "code_at (vm_code vm) (vs_pc st) ((xe @ [SetLocal l]) @ [LoadConst z, SetLocal i] @ lp)"
    and slots: "slots_below lo ls" "lo \<le> l" "lo \<le> i" "lo \<le> v" "l \<noteq> i" "l \<noteq> v" "i \<noteq> v" "l < lob" "i < lob" "v < lob"
      "lob \<le> hi" "hi \<le> length (vs_locals st)"
    and k: "nth_opt (vm_consts vm) k = Some (CInt 1)" and z: "nth_opt (vm_consts vm) z = Some (CInt 0)"
    and room: "length (vs_stack st) + 2 \<le> vm_depth vm" "length (vs_stack st) + m \<le> vm_depth vm"
      "length (vs_stack st) + ne \<le> vm_depth vm"
  shows "flows env vm st st (vs_pc st + length ((xe @ [SetLocal l]) @ [LoadConst z, SetLocal i] @ lp)) lo ls ls
    (exec_stmt env (vm_lim vm) (ForIn x ee b) (venv_of ls (vs_locals st)) (vs_world st))"
  unfolding exec_stmt.simps
proof (rule flows_store [OF ce])
  fix li w
  let ?pc = "vs_pc st + length ((xe @ [SetLocal l]) @ [LoadConst z, SetLocal i] @ lp)"
  let ?st1 = "st\<lparr>vs_pc := vs_pc st + length xe + 1, vs_locals := (vs_locals st)[l := li], vs_world := w\<rparr>"
  let ?st2 = "?st1\<lparr>vs_pc := vs_pc ?st1 + 1, vs_stack := const_value (CInt 0) # vs_stack ?st1\<rparr>"
  let ?st3 = "st\<lparr>vs_pc := vs_pc st + length xe + 3, vs_locals := (vs_locals st)[l := li, i := VInt 0], vs_world := w\<rparr>"
  have "reaches env vm ?st1 ?st2"
    using at z room by (intro reaches_load_const) (auto simp: code_at_Cons)
  also have "reaches env vm ?st2 (?st2\<lparr>vs_pc := vs_pc ?st2 + 1, vs_stack := vs_stack st, vs_locals := (vs_locals ?st2)[i := VInt 0]\<rparr>)"
    using at slots by (intro reaches_set_local) (auto simp: code_at_Cons const_value_def)
  finally have r: "reaches env vm ?st1 ?st3" by (cases st) (simp add: eval_nat_numeral)
  have loc: "vs_locals ?st3 ! l = li" "vs_locals ?st3 ! i = VInt 0" "venv_of ls (vs_locals ?st3) = venv_of ls (vs_locals st)"
    using slots by (auto simp: venv_of_update_above)
  let ?loop = "\<lambda>j rho w. loop (max_loop_iterations (vm_lim vm))
       (\<lambda>i rho w. (case v_less i (v_list_len li) of Inl e \<Rightarrow> Inl e | Inr b \<Rightarrow> Inr (is_truthy b), w))
       (\<lambda>i rho w. flow_bind (exec_block env (vm_lim vm) b ((x, v_list_get li i) # rho) w) (\<lambda>rho w. Continue (tl rho) w))
       (\<lambda>i. v_add (max_string_len (vm_lim vm)) i (VInt 1)) (max_loop_iterations (vm_lim vm)) j rho w"
  have "flows env vm ?st3 ?st3 (vs_pc ?st3 + length lp) lo ls ls
      (?loop (vs_locals ?st3 ! i) (venv_of ls (vs_locals ?st3)) (vs_world ?st3))"
    using for_in_flow [OF sc lsb lp, of ?st3 lo, unfolded loc(1)] at slots k room
    by (simp add: add.assoc eval_nat_numeral code_at_Cons del: exec_block.simps)
  then have fl: "flows env vm st ?st3 ?pc lo ls ls (?loop (VInt 0) (venv_of ls (vs_locals st)) w)"
    using loc by (simp add: add.assoc eval_nat_numeral del: exec_block.simps)
  show "flows env vm st ?st1 ?pc lo ls ls (?loop (VInt 0) (venv_of ls (vs_locals st)) w)"
    using slots by (intro flows_after [OF r _ fl]) (auto intro: frame_update)
qed (use at slots room in \<open>auto simp: code_at_Cons intro: slots_below_mono\<close>)

lemma runs_code_const:
  "runs_code_of env vm c \<Longrightarrow> nth_opt (co_constants c) i = Some k \<Longrightarrow> nth_opt (vm_consts vm) i = Some k"
  by (auto simp: runs_code_of_def nth_append prefix_def)

lemma declare_local_grows:
  assumes "declare_local x m c = Inr (s, c')" "comp_ok c"
  shows "s = co_next_slot c" "co_next_slot c' = co_next_slot c + 1" "comp_ok c'"
    "grows c c' [] [\<lparr>lv_name = x, lv_slot = s, lv_mutable = m, lv_depth = co_scope_depth c\<rparr>]"
  using declare_local_fields [OF assms(1)] declare_local_comp_ok [OF assms] by (simp_all add: grows_def)

lemma for_in_compiles:
  fixes env :: "('s, 'r) vm_env"
  assumes comp: "compile_stmt (regex_new env) (ForIn x ee b) c = Inr c'" and clean: "clean_stmt (ForIn x ee b)"
    and ok: "comp_ok c" and b: "stmts_compile env vm b"
  shows "\<exists>ops news. stmt_compiles env vm c c' (need_stmt (ForIn x ee b)) (exec_stmt env (vm_lim vm) (ForIn x ee b)) ops news"
proof -
  let ?N = "co_next_slot c"
  obtain ca cb c1 l c2 z c3 i c4 where c: "enter_scope c = Inr ca" "enter_loop ca = Inr cb"
      "compile_expr (regex_new env) ee cb = Inr c1" "declare_local ''__list__'' False c1 = Inr (l, c2)"
      "add_int_const 0 (emit (SetLocal l) c2) = Inr (z, c3)" "declare_local ''__idx__'' True (emit (LoadConst z) c3) = Inr (i, c4)"
    and c': "res_bind (declare_local x False (emit ListGet (emit (GetLocal i) (emit (GetLocal l) (emit (JumpIfFalse 0)
          (emit Less (emit ListLen (emit (GetLocal l) (emit (GetLocal i) (emit LoopInit (emit (SetLocal i) c4))))))))))) (\<lambda>(v, c).
        res_bind (compile_block (regex_new env) b (emit (SetLocal v) c)) (\<lambda>c. res_bind (emit_increment i c) (\<lambda>c.
        close_loop (length (co_code c4) + 2) (length (co_code c4) + 6) c))) = Inr c'"
    using comp by (auto simp: res_bind_Inr_iff Let_def current_offset_def eval_nat_numeral split: if_splits)
  let ?c2 = "emit (SetLocal l) c2" and ?c3 = "emit (LoadConst z) c3"
  let ?c4 = "emit ListGet (emit (GetLocal i) (emit (GetLocal l) (emit (JumpIfFalse 0)
          (emit Less (emit ListLen (emit (GetLocal l) (emit (GetLocal i) (emit LoopInit (emit (SetLocal i) c4)))))))))"
  obtain v c5 c6 c7 where c67: "declare_local x False ?c4 = Inr (v, c5)" "compile_block (regex_new env) b (emit (SetLocal v) c5) = Inr c6"
      "emit_increment i c6 = Inr c7" "close_loop (length (co_code c4) + 2) (length (co_code c4) + 6) c7 = Inr c'"
    using c' by (auto simp: res_bind_Inr_iff)
  let ?c5 = "emit (SetLocal v) c5"
  have op: "loop_opened c cb" using loop_open [OF c(1,2) ok] .
  have cl: "clean_expr ee" "clean_stmts b" "\<not> hidden_name x" using clean by simp_all
  let ?ll = "\<lparr>lv_name = ''__list__'', lv_slot = l, lv_mutable = False, lv_depth = co_scope_depth cb\<rparr>"
  let ?li = "\<lparr>lv_name = ''__idx__'', lv_slot = i, lv_mutable = True, lv_depth = co_scope_depth cb\<rparr>"
  let ?lv = "\<lparr>lv_name = x, lv_slot = v, lv_mutable = False, lv_depth = co_scope_depth cb\<rparr>"
  have l: "l = ?N" and ok2: "comp_ok ?c2" and n2: "co_next_slot c2 = ?N + 1"
    and ex: "\<exists>xe. grows cb ?c2 (xe @ [SetLocal l]) [?ll] \<and>
       (runs_code_of env vm ?c2 \<longrightarrow> code_for env vm (co_locals c) (need_expr ee) (\<lambda>rho w. single (eval env (vm_lim vm) rho ee w)) xe)"
    using store_compiles [OF c(3,4) cl(1), of vm] op by (auto simp: loop_opened_def)
  obtain xe where xe: "grows cb ?c2 (xe @ [SetLocal l]) [?ll]"
      "runs_code_of env vm ?c2 \<Longrightarrow> code_for env vm (co_locals c) (need_expr ee) (\<lambda>rho w. single (eval env (vm_lim vm) rho ee w)) xe"
    using ex by blast
  have z: "emits ?c2 c3 []" "const_ok c3" "nth_opt (co_constants c3) z = Some (CInt 0)"
    using add_int_const_ok [OF c(5)] comp_ok_const_ok [OF ok2] by auto
  have ok3: "comp_ok ?c3" using emits_comp_ok [OF z(1,2) ok2] by simp
  have n3: "co_next_slot c3 = ?N + 1" "co_scope_depth c3 = co_scope_depth cb"
    using z(1) n2 xe(1) by (auto simp: emits_def grows_def)
  have i: "i = ?N + 1" "co_next_slot c4 = ?N + 2" "comp_ok c4" "grows ?c3 c4 [] [?li]"
    using declare_local_grows [OF c(6) ok3] n3 by auto
  have n4: "co_scope_depth c4 = co_scope_depth cb" using i(4) n3 by (simp add: grows_def)
  have v: "v = ?N + 2" "co_next_slot c5 = ?N + 3" "comp_ok c5" "grows ?c4 c5 [] [?lv]"
    using declare_local_grows [OF c67(1)] i(2,3) n4 by auto
  obtain ys where ys: "stmt_compiles env vm ?c5 c6 (need_stmts b) (exec_block env (vm_lim vm) b) ys []"
    using block_compiles [OF b c67(2) cl(2)] v(3) by auto
  then have g6: "grows ?c5 c6 ys []" "comp_ok c6" by (auto simp: stmt_compiles_def)
  obtain one where one: "emits c6 c7 [GetLocal i, LoadConst one, OpAdd, SetLocal i]"
      "const_ok c7" "nth_opt (co_constants c7) one = Some (CInt 1)"
    using emit_increment_ok [OF c67(3)] comp_ok_const_ok [OF g6(2)] by blast
  let ?inc = "[GetLocal i, LoadConst one, OpAdd, SetLocal i]"
  have ok7: "comp_ok c7" using emits_comp_ok [OF one(1,2) g6(2)] .
  let ?pre = "(xe @ [SetLocal l]) @ [LoadConst z, SetLocal i] @ [LoopInit, GetLocal i, GetLocal l, ListLen, Less]"
  let ?post = "[GetLocal l, GetLocal i, ListGet, SetLocal v] @ ys @ ?inc"
  have g7: "grows cb c7 (?pre @ [JumpIfFalse 0] @ ?post) [?lv, ?li, ?ll]"
    using xe(1) z(1) i(4) v(4) g6(1) one(1) by (auto simp: grows_def emits_def)
  have len: "length (co_code c4) + 6 = length (co_code c) + length ?pre"
      "length (co_code c7) = length (co_code c4) + 15 + length ys"
    using xe(1) z(1) i(4) v(4) g6(1) one(1) op by (auto simp: grows_def emits_def loop_opened_def)
  let ?jmp = "as_i32 (int (length (co_code c4) + 2) - (int (length (co_code c7)) + 1))"
  let ?ops = "?pre @ [JumpIfFalse (as_i32 (int (length ?post) + 1))] @ ?post @ [LoopBack ?jmp] @ [LoopEnd]"
  have cl': "grows c c' ?ops []" "comp_ok c'" "co_next_slot c' = co_next_slot c7" "co_locals c' = co_locals c"
      "co_constants c' = co_constants c7" "length (co_code c') = length (co_code c7) + 2"
    using loop_close [OF op ok g7 ok7 c67(4) len(1)] by auto
  let ?lsb = "?lv # ?li # ?ll # co_locals c"
  have n7: "co_next_slot c7 = co_next_slot c6" "?N + 3 \<le> co_next_slot c6" "co_locals c6 = ?lsb" "co_locals ?c5 = ?lsb"
    using g6(1) v(2,4) i(4) z(1) xe(1) op one(1) by (auto simp: grows_def emits_def loop_opened_def)
  have "stmt_code env vm ?N (co_next_slot c') (co_locals c) (co_locals c') (need_stmt (ForIn x ee b))
      (exec_stmt env (vm_lim vm) (ForIn x ee b)) ?ops" if run: "runs_code_of env vm c'"
  proof -
    let ?lp = "[LoopInit, GetLocal i, GetLocal l, ListLen, Less, JumpIfFalse (int (length ys) + 9),
        GetLocal l, GetLocal i, ListGet, SetLocal v] @ ys @ ?inc @ [LoopBack (- int (length ys + 14))] @ [LoopEnd]"
    have ops: "?ops = (xe @ [SetLocal l]) @ [LoadConst z, SetLocal i] @ ?lp"
      using run cl'(6) len(2) as_i32_small [of "9 + int (length ys)"] as_i32_neg [of "- 14 - int (length ys)"]
      by (simp add: runs_code_of_def)
    have run7: "runs_code_of env vm c7" using run cl'(5,6) by (simp add: runs_code_of_def)
    have run6: "runs_code_of env vm c6" by (rule runs_code_of_earlier [OF run7 one(1)])
    have run5: "runs_code_of env vm ?c5" by (rule grows_runs [OF run6 g6(1)])
    have "runs_code_of env vm c5" using run5 by (simp add: runs_code_of_def)
    then have run4: "runs_code_of env vm ?c4" by (rule grows_runs [OF _ v(4)])
    have "runs_code_of env vm c4" using run4 by (simp add: runs_code_of_def)
    then have run3: "runs_code_of env vm ?c3" by (rule grows_runs [OF _ i(4)])
    have "runs_code_of env vm c3" using run3 by (simp add: runs_code_of_def)
    then have run2: "runs_code_of env vm ?c2" by (rule runs_code_of_earlier [OF _ z(1)])
    have kz: "nth_opt (vm_consts vm) one = Some (CInt 1)" "nth_opt (vm_consts vm) z = Some (CInt 0)"
      using runs_code_const [OF run7 one(3)] runs_code_const [OF run3] z(3) by simp_all
    have sc: "stmt_code env vm (?N + 3) (co_next_slot c6) ?lsb ?lsb (need_stmts b) (exec_block env (vm_lim vm) b) ys"
      using ys run6 n7 v(2) by (simp add: stmt_compiles_def)
    have h: "hidden_name ''__idx__''" "hidden_name ''__list__''" by (simp_all add: hidden_name_def)
    have sl: "slots_below ?N (co_locals c)" using ok by (simp add: comp_ok_def)
    show ?thesis unfolding stmt_code_def cl'(4) ops
    proof (intro allI impI for_in_stmt_flow [OF xe(2) [OF run2] sc _ _ refl])
      show "mut_slots ?lsb \<subseteq> mut_slots (co_locals c)"
        using h by (auto simp: mut_slots_def visible_def)
    qed (use cl'(3) n7 l i(1) v(1) kz sl h cl(3) in \<open>auto simp: venv_of_Cons venv_of_Cons_hidden\<close>)
  qed
  then show ?thesis using cl'(1,2) unfolding stmt_compiles_def by blast
qed

section \<open>All statements\<close>

definition stmt_is_compiled :: "('s, 'r) vm_env \<Rightarrow> 'r vm \<Rightarrow> stmt \<Rightarrow> bool" where
  "stmt_is_compiled env vm s \<longleftrightarrow>
     (\<forall>c c'. compile_stmt (regex_new env) s c = Inr c' \<longrightarrow> clean_stmt s \<longrightarrow> comp_ok c \<longrightarrow>
        (\<exists>ops news. stmt_compiles env vm c c' (need_stmt s) (exec_stmt env (vm_lim vm) s) ops news))"

lemma stmts_compileI:
  fixes env :: "('s, 'r) vm_env"
  assumes "\<And>s. s \<in> set ss \<Longrightarrow> stmt_is_compiled env vm s"
  shows "stmts_compile env vm ss"
  using assms
proof (induction ss)
  case Nil
  have "stmt_compiles env vm c c 0 Continue [] []" if "comp_ok c" for c
    using that by (simp add: stmt_compiles_def stmt_code_Nil)
  moreover have "exec_stmts env (vm_lim vm) [] = Continue" by (intro ext) simp
  ultimately show ?case unfolding stmts_compile_def compile_stmts.simps need_stmts.simps by (metis sum.inject(2))
next
  case (Cons s ss)
  have s: "stmt_is_compiled env vm s" and ss: "stmts_compile env vm ss" using Cons by simp_all
  show ?case unfolding stmts_compile_def
  proof (intro allI impI)
    fix c c'
    assume a: "compile_stmts (regex_new env) (s # ss) c = Inr c'" "clean_stmts (s # ss)" "comp_ok c"
    then obtain c1 where c1: "compile_stmt (regex_new env) s c = Inr c1" "compile_stmts (regex_new env) ss c1 = Inr c'"
      by (auto simp: res_bind_Inr_iff)
    obtain xs ns where x: "stmt_compiles env vm c c1 (need_stmt s) (exec_stmt env (vm_lim vm) s) xs ns"
      using s c1(1) a unfolding stmt_is_compiled_def clean_stmts.simps by blast
    then have "comp_ok c1" by (simp add: stmt_compiles_def)
    then obtain ys ns' where y: "stmt_compiles env vm c1 c' (need_stmts ss) (exec_stmts env (vm_lim vm) ss) ys ns'"
      using ss c1(2) a(2) unfolding stmts_compile_def clean_stmts.simps by blast
    have "exec_stmts env (vm_lim vm) (s # ss) =
        (\<lambda>rho w. flow_bind (exec_stmt env (vm_lim vm) s rho w) (exec_stmts env (vm_lim vm) ss))"
      by (intro ext) simp
    then have "stmt_compiles env vm c c' (need_stmts (s # ss)) (exec_stmts env (vm_lim vm) (s # ss)) (xs @ ys) (ns' @ ns)"
      using stmt_compiles_seq [OF x y, of "need_stmts (s # ss)"] by simp
    then show "\<exists>ops news. stmt_compiles env vm c c' (need_stmts (s # ss)) (exec_stmts env (vm_lim vm) (s # ss)) ops news"
      by blast
  qed
qed

lemma all_stmts_compile:
  fixes env :: "('s, 'r) vm_env"
  shows "stmt_is_compiled env vm s"
proof (induction s)
  case (LetStmt x m e)
  show ?case unfolding stmt_is_compiled_def need_stmt.simps
    using let_compiles [of env _ _ _ _ _ vm] by blast
next
  case (Assign x e)
  show ?case unfolding stmt_is_compiled_def need_stmt.simps
    using assign_compiles [of env _ _ _ _ vm] by blast
next
  case (IfStmt brs els)
  have "stmts_compile env vm b" if "(e, b) \<in> set brs" for e b
    using IfStmt(1) [OF that] by (intro stmts_compileI) auto
  moreover have "stmts_compile env vm b" if "els = Some b" for b
    using IfStmt(2) that by (intro stmts_compileI) auto
  ultimately show ?case by (subst stmt_is_compiled_def) (auto intro!: if_compiles simp del: compile_stmt.simps exec_stmt.simps clean_stmt.simps need_stmt.simps)
next
  case (ForIn x e b)
  then show ?case by (subst stmt_is_compiled_def) (auto intro!: for_in_compiles stmts_compileI simp del: compile_stmt.simps exec_stmt.simps clean_stmt.simps need_stmt.simps)
next
  case (ForRange x e e' b)
  then show ?case by (subst stmt_is_compiled_def) (auto intro!: range_compiles stmts_compileI simp del: compile_stmt.simps exec_stmt.simps clean_stmt.simps need_stmt.simps)
next
  case (While e b)
  then show ?case by (subst stmt_is_compiled_def) (auto intro!: while_compiles stmts_compileI simp del: compile_stmt.simps exec_stmt.simps clean_stmt.simps need_stmt.simps)
next
  case (ReturnDeny e e')
  then show ?case unfolding stmt_is_compiled_def using return_deny_compiles by blast
next
  case ReturnNext
  show ?case unfolding stmt_is_compiled_def need_stmt.simps
    using return_next_compiles [of env _ _ vm] by blast
next
  case (ExprStmt e)
  show ?case unfolding stmt_is_compiled_def need_stmt.simps
    using expr_stmt_compiles [of env _ _ _ vm] by blast
qed

section \<open>Whole scripts\<close>

lemma compile_fields:
  assumes "compile rx p = Inr script"
  obtains c where "compile_stmts rx p compiler_new = Inr c" "cs_constants script = co_constants c"
    "cs_local_count script = co_next_slot c"
    "cs_code script = co_code c @ (if ends_with_return c then [] else [OpReturnNext])"
  using assms by (auto simp: compile_def res_bind_Inr_iff Let_def emit_def split: if_splits)

lemma vm_new_fields:
  assumes "vm_new env script lim = Inr vm"
  shows "vm_script vm = script" "vm_lim vm = lim" "vm_ok env vm"
proof -
  have f: "find (\<lambda>c. isl (case c of CRegex p \<Rightarrow> (case regex_new env p of
        Inl e \<Rightarrow> Inl (RegexError (''failed to compile regex '' @ [CHR 0x27] @ p @ [CHR 0x27] @ '': '' @ e))
      | Inr re \<Rightarrow> Inr (Some re)) | _ \<Rightarrow> Inr None)) (cs_constants script) = None"
    using assms unfolding vm_new_def Let_def by (auto split: option.splits)
  then have ok: "\<exists>re. regex_new env p = Inr re" if "CRegex p \<in> set (cs_constants script)" for p
    using that by (fastforce simp: find_None_iff split: sum.splits)
  show "vm_script vm = script" "vm_lim vm = lim"
    using assms f unfolding vm_new_def Let_def by auto
  show "vm_ok env vm"
    using assms f unfolding vm_new_def Let_def vm_ok_def by (auto split: dsl_constant.splits dest!: ok)
qed

lemma compiler_new_ok [simp]: "comp_ok compiler_new"
  by (simp add: compiler_new_def comp_ok_def const_ok_def slots_below_def)

lemma program_ends:
  fixes env :: "('s, 'r) vm_env" and s :: 's
  assumes comp: "compile (regex_new env) p = Inr script" and clean: "clean_stmts p"
    and vm: "vm_new env script lim = Inr vm" and depth: "need_stmts p \<le> max_stack_depth lim"
    and small: "length (cs_code script) < 2 ^ 31"
  shows "\<exists>r w. ends env vm (vm_state_new (cs_local_count script) lim s log) r w
           \<and> interpret_program env lim p s log = (r, w_session w, w_log w)"
proof -
  obtain c where c: "compile_stmts (regex_new env) p compiler_new = Inr c" "cs_constants script = co_constants c"
      "cs_local_count script = co_next_slot c" "cs_code script = co_code c @ (if ends_with_return c then [] else [OpReturnNext])"
    using compile_fields [OF comp] .
  note v = vm_new_fields [OF vm]
  obtain ops news where sc: "stmt_compiles env vm compiler_new c (need_stmts p) (exec_stmts env (vm_lim vm) p) ops news"
    using stmts_compileI [OF all_stmts_compile, where ss = p and env = env and vm = vm] c(1) clean unfolding stmts_compile_def by fastforce
  have "runs_code_of env vm c" using v c small by (auto simp: runs_code_of_def)
  then have code: "stmt_code env vm 0 (co_next_slot c) [] (co_locals c) (need_stmts p) (exec_stmts env lim p) ops"
      "co_code c = ops"
    using sc v by (auto simp: stmt_compiles_def grows_def compiler_new_def)
  let ?st = "vm_state_new (cs_local_count script) lim s log" and ?w = "\<lparr>w_session = s, w_log = log, w_calls = max_call_count lim\<rparr>"
  have fl: "flows env vm ?st ?st (length ops) 0 [] (co_locals c) (exec_stmts env lim p [] ?w)"
    using stmt_codeD [OF code(1), of ?st] v c code(2) depth
    by (simp add: vm_state_new_def venv_of_def visible_def code_at_def)
  show ?thesis
  proof (cases "exec_stmts env lim p [] ?w")
    case (Done r w)
    then show ?thesis using fl by (auto simp: interpret_program_def)
  next
    case (Continue rho w)
    with fl obtain locs where r: "reaches env vm ?st (?st\<lparr>vs_pc := length ops, vs_locals := locs, vs_world := w\<rparr>)"
      by (auto simp: flows_def)
    let ?st1 = "?st\<lparr>vs_pc := length ops, vs_locals := locs, vs_world := w\<rparr>"
    have "ends env vm ?st1 (Inr GoodNext) (vs_world ?st1)"
    proof (cases "ends_with_return c")
      case True
      then show ?thesis using v c code(2) by (intro ends_off_end) simp
    next
      case False
      then show ?thesis using v c code(2) by (intro ends_result) (auto simp: vm_state_new_def)
    qed
    then show ?thesis using reaches_ends [OF r] Continue by (auto simp: interpret_program_def)
  qed
qed

text \<open>
  C25: The compiler and the machine together implement the language. For every script that compiles and does
  not use the compiler's hidden loop variables, whatever session it is run on, there is a number of steps
  such that with a step limit of at least that many the machine gives exactly the result, the effects
  on the session and the log that the reference semantics of the source program gives, and with a lower
  limit it stops with the step limit error. So every script ends.
\<close>

theorem compiled_script_implements_program:
  assumes "compile (regex_new env) p = Inr script" "clean_stmts p" "vm_new env script lim = Inr vm"
    and "need_stmts p \<le> max_stack_depth lim" "length (cs_code script) < 2 ^ 31"
  shows "\<exists>N. \<forall>n. if N \<le> n then execute env (with_steps n vm) s log = interpret_program env lim p s log
                  else fst (execute env (with_steps n vm) s log) = Inl (StepLimitExceeded n)"
proof -
  obtain r w where e: "ends env vm (vm_state_new (cs_local_count script) lim s log) r w"
      "interpret_program env lim p s log = (r, w_session w, w_log w)"
    using program_ends [OF assms] by blast
  obtain N where N: "\<And>n a. if N \<le> n
      then run env (with_steps a vm) n (vm_state_new (cs_local_count script) lim s log) = (r, w)
      else fst (run env (with_steps a vm) n (vm_state_new (cs_local_count script) lim s log)) = Inl (StepLimitExceeded a)"
    using run_determined [OF e(1)] by blast
  have x: "execute env (with_steps n vm) s log = (let (r, w) = run env (with_steps n vm) n
      (vm_state_new (cs_local_count script) lim s log) in (r, w_session w, w_log w))" for n
    using vm_new_fields [OF assms(3)] by (simp add: execute_def vm_state_new_def with_steps_def)
  have "if N \<le> n then execute env (with_steps n vm) s log = interpret_program env lim p s log
      else fst (execute env (with_steps n vm) s log) = Inl (StepLimitExceeded n)" for n
    using N [of n n] e(2) by (auto simp: x split: if_splits prod.splits)
  then show ?thesis by blast
qed

text \<open>A host with a header list as its session, for the concrete scripts below.\<close>

definition sample_env :: "((string \<times> string) list, string) vm_env" where
  "sample_env =
     \<lparr>header_value = map_of, request_headers = \<lambda>s. s, get_method = \<lambda>s. ''GET'', get_path = \<lambda>s. ''/'',
      get_query = \<lambda>s. None, get_query_param = \<lambda>s k. None, get_cookie = \<lambda>s k. None,
      client_addr = \<lambda>s. ''10.0.0.1'', remote_addr = \<lambda>s. ''10.0.0.1'', get_path_param = \<lambda>s k. (None, s),
      get_ctx_var = \<lambda>s k. None, set_request_header = \<lambda>s k v. (True, (k, v) # s),
      append_request_header = \<lambda>s k v. (True, s @ [(k, v)]), remove_request_header = \<lambda>s k. (True, filter (\<lambda>h. fst h \<noteq> k) s),
      set_upstream_uri = \<lambda>s v. (True, s), set_upstream_host = \<lambda>s v. (True, s), set_upstream_method = \<lambda>s v. (True, s),
      set_response_header = \<lambda>s k v. (True, s), append_response_header = \<lambda>s k v. (True, s),
      remove_response_header = \<lambda>s k. (True, s), set_ctx_var = \<lambda>s k v. (True, s), remove_ctx_var = \<lambda>s k. (True, s),
      unix_now = \<lambda>s. 0, to_uppercase = \<lambda>v. v, to_lowercase = \<lambda>v. v, base64_encode = \<lambda>v. v,
      base64_decode = Some, regex_new = Inr, is_match = \<lambda>re v. contains v re\<rparr>"

definition sample_program :: program where
  "sample_program =
     [LetStmt ''n'' True (IntLit 0),
      ForRange ''i'' (IntLit 0) (IntLit 4) [Assign ''n'' (BinaryOp BinAdd (Ident ''n'') (Ident ''i''))],
      IfStmt [(BinaryOp BinEq (Ident ''n'') (IntLit 6), [ReturnDeny (IntLit 403) (StringLit ''six'')])] None]"

definition sample_script :: compiled_script where
  "sample_script =
     \<lparr>cs_version = 1,
      cs_code =
        [LoadConst 0, SetLocal 0, LoadConst 1, SetLocal 1, LoadConst 0, SetLocal 2,
         LoopInit, GetLocal 2, GetLocal 1, Less, JumpIfFalse 9,
         GetLocal 0, GetLocal 2, OpAdd, SetLocal 0,
         GetLocal 2, LoadConst 2, OpAdd, SetLocal 2, LoopBack (- 13), LoopEnd,
         GetLocal 0, LoadConst 3, Equal, JumpIfFalse 3, LoadConst 4, LoadConst 5, OpReturnDeny],
      cs_constants = [CInt 0, CInt 4, CInt 1, CInt 6, CInt 403, CStr ''six''],
      cs_local_count = 3, cs_max_loop_depth = 1, cs_source = None\<rparr>"

definition sample_vm :: "string vm" where
  "sample_vm = \<lparr>vm_script = sample_script, vm_regex_cache = replicate 6 None, vm_lim = default_vm_limits\<rparr>"

lemma sample_compiles:
  "compile (regex_new sample_env) sample_program = Inr sample_script"
  "vm_new sample_env sample_script default_vm_limits = Inr sample_vm"
  by code_simp+

theorem compiled_script_implements_program_witness:
  "\<exists>N. \<forall>n. if N \<le> n then execute sample_env (with_steps n sample_vm) [] (plugin_log_new ''dsl'')
                   = (Inr (ErrResponse 403 (Some ''six'')), [], plugin_log_new ''dsl'')
                  else fst (execute sample_env (with_steps n sample_vm) [] (plugin_log_new ''dsl'')) = Inl (StepLimitExceeded n)"
proof -
  have r: "interpret_program sample_env default_vm_limits sample_program [] (plugin_log_new ''dsl'') =
      (Inr (ErrResponse 403 (Some ''six'')), [], plugin_log_new ''dsl'')" by code_simp
  have "clean_stmts sample_program" by code_simp
  moreover have "need_stmts sample_program \<le> max_stack_depth default_vm_limits" by code_simp
  moreover have "length (cs_code sample_script) < 2 ^ 31" by (simp add: sample_script_def)
  ultimately show ?thesis
    using compiled_script_implements_program
      [OF sample_compiles(1) _ sample_compiles(2), where s = "[]" and log = "plugin_log_new ''dsl''", unfolded r]
    by blast
qed

text \<open>
  The variables that a loop adds can be named by the script, and the index of a \<open>for\<close> loop over a list
  can be assigned: the compiled loop below logs one of the two header names.
\<close>

definition index_program :: program where
  "index_program =
     [ForIn ''h'' (MethodCall (Ident ''req'') ''header_names'' [])
       [ExprStmt (FnCall ''log'' [Ident ''h'']), Assign ''__idx__'' (IntLit 5)]]"

definition run_source :: "program \<Rightarrow> (string \<times> string) list \<Rightarrow> plugin_log \<Rightarrow> plugin_log option" where
  "run_source p s log =
     (case compile (regex_new sample_env) p of
        Inl _ \<Rightarrow> None
      | Inr script \<Rightarrow> (case vm_new sample_env script default_vm_limits of
                         Inl _ \<Rightarrow> None
                       | Inr vm \<Rightarrow> Some (snd (snd (execute sample_env vm s log)))))"

lemma loop_index_is_assignable:
  "map_option log_entries (run_source index_program [(''a'', ''1''), (''b'', ''2'')] (plugin_log_new ''dsl'')) = Some [''a'']
   \<and> log_entries (snd (snd (interpret_program sample_env default_vm_limits index_program
                             [(''a'', ''1''), (''b'', ''2'')] (plugin_log_new ''dsl'')))) = [''a'', ''b'']"
  by code_simp

end
