(* ===== verification/Dsl_Validator.thy ===== *)
theory Dsl_Validator
  imports Dsl_Correct
begin

text \<open>
  The static checks on bytecode that run before a script reaches the gateway
  (dsl/lang/validator.rs), and what they guarantee for scripts that did not come from the compiler:
  the machine loads them and never leaves the constant pool, the locals or the code. A message of
  the source is a constructor with the values it shows.
\<close>

section \<open>Checks\<close>

record validation_limits =
  vl_max_instructions :: nat
  vl_max_locals :: nat
  vl_max_constants :: nat
  vl_max_string_const_len :: nat
  vl_max_const_pool_bytes :: nat
  vl_max_loop_depth :: nat

definition default_validation_limits :: validation_limits where
  "default_validation_limits =
     \<lparr>vl_max_instructions = 1000, vl_max_locals = 64, vl_max_constants = 256,
      vl_max_string_const_len = 4096, vl_max_const_pool_bytes = 32768, vl_max_loop_depth = 8\<rparr>"

datatype validation_error =
    VeInstructions nat nat
  | VeLocals nat nat
  | VeConstants nat nat
  | VeStringTooLong nat nat nat
  | VeRegexTooLong nat nat
  | VeInvalidRegex nat string string
  | VePoolTooLarge nat nat
  | VeLoadConst nat nat nat
  | VeMatchesBounds nat nat nat
  | VeMatchesNotRegex nat nat
  | VeArgCount builtin_id nat nat nat
  | VeJump nat int nat
  | VeSlot nat nat nat
  | VeLoopEnd nat
  | VeLoopBack nat
  | VeUnbalanced int
  | VeLoopDepth nat nat

definition check_constant ::
  "validation_limits \<Rightarrow> (string \<Rightarrow> string + 'r) \<Rightarrow> nat \<times> dsl_constant \<Rightarrow> validation_error list" where
  "check_constant lim rx ic =
     (case ic of (i, c) \<Rightarrow>
        (case c of
           CStr s \<Rightarrow>
             if vl_max_string_const_len lim < length s
             then [VeStringTooLong i (length s) (vl_max_string_const_len lim)] else []
         | CInt n \<Rightarrow> []
         | CRegex p \<Rightarrow>
             (if 1024 < length p then [VeRegexTooLong i (length p)] else [])
             @ (case rx p of Inl e \<Rightarrow> [VeInvalidRegex i p e] | Inr _ \<Rightarrow> [])))"

definition constant_bytes :: "dsl_constant \<Rightarrow> nat" where
  "constant_bytes c = (case c of CStr s \<Rightarrow> length s | CInt n \<Rightarrow> 8 | CRegex p \<Rightarrow> length p)"

definition is_regex_const :: "dsl_constant \<Rightarrow> bool" where
  "is_regex_const c = (case c of CRegex p \<Rightarrow> True | _ \<Rightarrow> False)"

definition check_const_index :: "dsl_constant list \<Rightarrow> nat \<times> opcode \<Rightarrow> validation_error list" where
  "check_const_index consts iop =
     (case iop of (i, op) \<Rightarrow>
        (case op of
           LoadConst idx \<Rightarrow> if length consts \<le> idx then [VeLoadConst i idx (length consts)] else []
         | Matches idx \<Rightarrow>
             if length consts \<le> idx then [VeMatchesBounds i idx (length consts)]
             else if \<not> is_regex_const (consts ! idx) then [VeMatchesNotRegex i idx] else []
         | _ \<Rightarrow> []))"

definition check_arg_count :: "nat \<times> opcode \<Rightarrow> validation_error list" where
  "check_arg_count iop =
     (case iop of (i, op) \<Rightarrow>
        (case op of
           CallBuiltin b argc \<Rightarrow>
             if argc \<noteq> builtin_expected_argc b then [VeArgCount b i (builtin_expected_argc b) argc] else []
         | _ \<Rightarrow> []))"

fun jump_offset :: "opcode \<Rightarrow> int option" where
  "jump_offset (Jump off) = Some off"
| "jump_offset (JumpIfFalse off) = Some off"
| "jump_offset (LoopBack off) = Some off"
| "jump_offset _ = None"

definition check_jump :: "nat \<Rightarrow> nat \<times> opcode \<Rightarrow> validation_error list" where
  "check_jump code_len iop =
     (case iop of (i, op) \<Rightarrow>
        (case jump_offset op of
           Some off \<Rightarrow>
             let target = int i + 1 + off
             in if target < 0 \<or> int code_len < target then [VeJump i target code_len] else []
         | None \<Rightarrow> []))"

fun local_slot :: "opcode \<Rightarrow> nat option" where
  "local_slot (GetLocal slot) = Some slot"
| "local_slot (SetLocal slot) = Some slot"
| "local_slot _ = None"

definition check_slot :: "nat \<Rightarrow> nat \<times> opcode \<Rightarrow> validation_error list" where
  "check_slot local_count iop =
     (case iop of (i, op) \<Rightarrow>
        (case local_slot op of
           Some slot \<Rightarrow> if local_count \<le> slot then [VeSlot i slot local_count] else []
         | None \<Rightarrow> []))"

text \<open>The balance of loop instructions, from left to right with the current depth.\<close>

fun check_loops :: "int \<Rightarrow> (nat \<times> opcode) list \<Rightarrow> validation_error list" where
  "check_loops depth [] = (if depth \<noteq> 0 then [VeUnbalanced depth] else [])"
| "check_loops depth ((i, LoopInit) # ops) = check_loops (depth + 1) ops"
| "check_loops depth ((i, LoopEnd) # ops) =
     (if depth - 1 < 0 then [VeLoopEnd i] else []) @ check_loops (depth - 1) ops"
| "check_loops depth ((i, LoopBack off) # ops) =
     (if depth \<le> 0 then [VeLoopBack i] else []) @ check_loops depth ops"
| "check_loops depth (_ # ops) = check_loops depth ops"

definition validate ::
  "validation_limits \<Rightarrow> (string \<Rightarrow> string + 'r) \<Rightarrow> compiled_script \<Rightarrow> validation_error list" where
  "validate lim rx script =
     (let code = enumerate 0 (cs_code script);
          consts = cs_constants script;
          pool = sum_list (map constant_bytes consts)
      in (if vl_max_instructions lim < length (cs_code script)
          then [VeInstructions (length (cs_code script)) (vl_max_instructions lim)] else [])
       @ (if vl_max_locals lim < cs_local_count script
          then [VeLocals (cs_local_count script) (vl_max_locals lim)] else [])
       @ (if vl_max_constants lim < length consts
          then [VeConstants (length consts) (vl_max_constants lim)] else [])
       @ concat (map (check_constant lim rx) (enumerate 0 consts))
       @ (if vl_max_const_pool_bytes lim < pool then [VePoolTooLarge pool (vl_max_const_pool_bytes lim)] else [])
       @ concat (map (check_const_index consts) code)
       @ concat (map check_arg_count code)
       @ concat (map (check_jump (length (cs_code script))) code)
       @ concat (map (check_slot (cs_local_count script)) code)
       @ check_loops 0 code
       @ (if vl_max_loop_depth lim < cs_max_loop_depth script
          then [VeLoopDepth (cs_max_loop_depth script) (vl_max_loop_depth lim)] else []))"

section \<open>What accepted bytecode satisfies\<close>

lemma concat_map_Nil_iff: "concat (map f xs) = [] \<longleftrightarrow> (\<forall>x \<in> set xs. f x = [])"
  by auto

lemma ball_enumerate: "(\<forall>x \<in> set (enumerate 0 xs). P x) \<longleftrightarrow> (\<forall>i < length xs. P (i, xs ! i))"
  by (auto simp: in_set_enumerate_eq)

definition op_in_bounds :: "compiled_script \<Rightarrow> nat \<Rightarrow> opcode \<Rightarrow> bool" where
  "op_in_bounds script i op \<longleftrightarrow>
     (\<forall>idx. op = LoadConst idx \<longrightarrow> idx < length (cs_constants script))
     \<and> (\<forall>idx. op = Matches idx \<longrightarrow> idx < length (cs_constants script) \<and> is_regex_const (cs_constants script ! idx))
     \<and> (\<forall>off. jump_offset op = Some off \<longrightarrow> 0 \<le> int i + 1 + off \<and> int i + 1 + off \<le> int (length (cs_code script)))
     \<and> (\<forall>slot. local_slot op = Some slot \<longrightarrow> slot < cs_local_count script)"

lemma validate_in_bounds:
  assumes "validate vlim rx script = []" "i < length (cs_code script)"
  shows "op_in_bounds script i (cs_code script ! i)"
proof -
  let ?op = "cs_code script ! i"
  have "check_const_index (cs_constants script) (i, ?op) = []" "check_jump (length (cs_code script)) (i, ?op) = []"
      "check_slot (cs_local_count script) (i, ?op) = []"
    using assms unfolding validate_def Let_def append_is_Nil_conv concat_map_Nil_iff ball_enumerate by blast+
  then show ?thesis
    by (auto simp: op_in_bounds_def check_const_index_def check_jump_def check_slot_def Let_def split: if_splits)
qed

lemma validate_constants:
  assumes "validate vlim rx script = []" "c \<in> set (cs_constants script)"
  shows "(\<forall>s. c = CStr s \<longrightarrow> length s \<le> vl_max_string_const_len vlim) \<and> (\<forall>p. c = CRegex p \<longrightarrow> (\<exists>re. rx p = Inr re))"
proof -
  obtain i where i: "i < length (cs_constants script)" "cs_constants script ! i = c" using assms(2) by (auto simp: in_set_conv_nth)
  have "check_constant vlim rx (i, c) = []"
    using assms(1) i unfolding validate_def Let_def append_is_Nil_conv concat_map_Nil_iff ball_enumerate by blast
  then show ?thesis by (auto simp: check_constant_def split: if_splits sum.splits)
qed

lemma validated_loads:
  assumes "validate vlim (regex_new env) script = []"
  shows "\<exists>vm. vm_new env script lim = Inr vm"
proof -
  have "find (\<lambda>c. isl (case c of CRegex p \<Rightarrow> (case regex_new env p of
        Inl e \<Rightarrow> Inl (RegexError (''failed to compile regex '' @ [CHR 0x27] @ p @ [CHR 0x27] @ '': '' @ e))
      | Inr re \<Rightarrow> Inr (Some re)) | _ \<Rightarrow> Inr None)) (cs_constants script) = None"
    using validate_constants [OF assms] by (fastforce simp: find_None_iff split: dsl_constant.splits sum.splits)
  then show ?thesis unfolding vm_new_def Let_def by simp
qed

section \<open>Errors of single operations\<close>

definition is_internal :: "runtime_error \<Rightarrow> bool" where
  "is_internal e \<longleftrightarrow> (\<exists>m. e = Internal m)"

text \<open>Errors of the machine itself, as opposed to errors of the operations a script performs.\<close>

fun machine_error :: "runtime_error \<Rightarrow> bool" where
  "machine_error (Internal m) \<longleftrightarrow> True"
| "machine_error (StackOverflow n) \<longleftrightarrow> True"
| "machine_error (UndefinedLocal n) \<longleftrightarrow> True"
| "machine_error (RegexError m) \<longleftrightarrow> True"
| "machine_error _ \<longleftrightarrow> False"

definition plain_error :: "runtime_error + 'a \<Rightarrow> bool" where
  "plain_error r \<longleftrightarrow> (\<forall>e. r = Inl e \<longrightarrow> \<not> machine_error e)"

lemma plain_error_simps [simp]:
  "plain_error (Inr v)" "plain_error (Inl e) \<longleftrightarrow> \<not> machine_error e"
  by (simp_all add: plain_error_def)

lemma is_internal_machine: "is_internal e \<Longrightarrow> machine_error e"
  by (auto simp: is_internal_def)

lemma is_internal_simps [simp]:
  "is_internal (Internal m)" "\<not> is_internal (TypeError a b c)" "\<not> is_internal DivisionByZero" "\<not> is_internal (IntegerOverflow a)"
  "\<not> is_internal (StepLimitExceeded n)" "\<not> is_internal (LoopLimitExceeded n)" "\<not> is_internal (CallLimitExceeded n)"
  "\<not> is_internal (StackOverflow n)" "\<not> is_internal (StringTooLong n k)" "\<not> is_internal (ApiError a b)"
  by (simp_all add: is_internal_def)

lemma plain_checked [simp]:
  "plain_error (checked_value_str lim s)" "plain_error (checked_value_opt_str lim so)" "plain_error (int_result f r)"
  "plain_error (header_names lim hs)" "plain_error (fst (api_call f rs w))" "\<not> machine_error (not_implemented f)"
  by (auto simp: checked_value_str_def check_string_len_def checked_value_opt_str_def int_result_def header_names_def
      api_call_def api_error_def not_implemented_def Let_def split: option.splits sum.splits)

lemma plain_ops [simp]:
  "plain_error (v_add lim a b)" "plain_error (v_sub a b)" "plain_error (v_mul a b)" "plain_error (v_div a b)"
  "plain_error (v_neg a)" "plain_error (v_less a b)" "plain_error (v_greater a b)" "plain_error (v_less_eq a b)"
  "plain_error (v_greater_eq a b)" "plain_error (v_len a)" "plain_error (v_substr lim a b c)"
  by ((cases a; cases b; simp add: v_less_def v_greater_def v_less_eq_def v_greater_eq_def Let_def); fail
    | cases a; simp add: Let_def)+

lemma plain_builtin [simp]: "plain_error (fst (builtin_op env lim b args w))"
  by (cases b) (simp_all add: split_beta)
section \<open>Bounds of the machine state\<close>

text \<open>
  A value is in range when its integers fit \<open>i64\<close> and its strings and lists are bounded; \<open>L\<close> is the
  longest string that the limits or the constant pool allow.
\<close>

fun value_ok :: "nat \<Rightarrow> dsl_value \<Rightarrow> bool" where
  "value_ok L (VStr s) \<longleftrightarrow> length s \<le> L"
| "value_ok L (VInt n) \<longleftrightarrow> is_i64 n"
| "value_ok L (VList l) \<longleftrightarrow> length l \<le> 256 \<and> (\<forall>s \<in> set l. length s \<le> L)"
| "value_ok L _ \<longleftrightarrow> True"

definition state_ok :: "nat \<Rightarrow> 'r vm \<Rightarrow> 's vm_state \<Rightarrow> bool" where
  "state_ok L vm st \<longleftrightarrow>
     vs_pc st \<le> length (vm_code vm) \<and> length (vs_stack st) \<le> vm_depth vm
     \<and> length (vs_locals st) = cs_local_count (vm_script vm)
     \<and> (\<forall>v \<in> set (vs_stack st) \<union> set (vs_locals st). value_ok L v)
     \<and> (\<forall>n \<in> set (vs_loops st). n \<le> max_loop_iterations (vm_lim vm))"

text \<open>
  The errors that bytecode outside the compiler's image can still raise: taking a value off an empty
  stack, or jumping back without a loop counter.
\<close>

definition harmless :: "runtime_error \<Rightarrow> bool" where
  "harmless e \<longleftrightarrow>
     (is_internal e \<longrightarrow> e = Internal ''stack underflow'' \<or> e = Internal ''LoopBack without matching LoopInit'')"

definition result_ok :: "plugin_result \<Rightarrow> bool" where
  "result_ok r \<longleftrightarrow> (\<forall>status body. r = ErrResponse status body \<longrightarrow> 100 \<le> status \<and> status \<le> 599)"

definition good :: "nat \<Rightarrow> 'r vm \<Rightarrow> 's step_result \<Rightarrow> bool" where
  "good L vm r \<longleftrightarrow>
     (case r of
        (Inl e, st) \<Rightarrow> harmless e
      | (Inr None, st) \<Rightarrow> state_ok L vm st
      | (Inr (Some q), st) \<Rightarrow> result_ok q)"

lemma good_simps [simp]:
  "good L vm (Inl e, st) \<longleftrightarrow> harmless e" "good L vm (Inr None, st) \<longleftrightarrow> state_ok L vm st"
  "good L vm (Inr (Some q), st) \<longleftrightarrow> result_ok q"
  by (simp_all add: good_def)

lemma harmless_plain: "\<not> is_internal e \<Longrightarrow> harmless e" "\<not> machine_error e \<Longrightarrow> harmless e"
  by (auto simp: harmless_def dest: is_internal_machine)

lemma good_push: "state_ok L vm st \<Longrightarrow> value_ok L v \<Longrightarrow> good L vm (push (vm_depth vm) v st)"
  by (auto simp: push_def state_ok_def harmless_def)

lemma good_pop:
  "state_ok L vm st \<Longrightarrow> (\<And>v vs. value_ok L v \<Longrightarrow> state_ok L vm (st\<lparr>vs_stack := vs\<rparr>) \<Longrightarrow> good L vm (k v (st\<lparr>vs_stack := vs\<rparr>))) \<Longrightarrow>
   good L vm (pop st k)"
  by (auto simp: pop_def state_ok_def harmless_def split: list.splits)

lemma good_push_result:
  "state_ok L vm st \<Longrightarrow> plain_error r \<Longrightarrow> (\<And>v. r = Inr v \<Longrightarrow> value_ok L v) \<Longrightarrow> good L vm (push_result (vm_depth vm) r st)"
  by (cases r) (auto simp: push_result_def harmless_plain intro: good_push)

lemma good_binary:
  "state_ok L vm st \<Longrightarrow> (\<And>a b. plain_error (f a b)) \<Longrightarrow>
   (\<And>a b v. value_ok L a \<Longrightarrow> value_ok L b \<Longrightarrow> f a b = Inr v \<Longrightarrow> value_ok L v) \<Longrightarrow> good L vm (binary (vm_depth vm) f st)"
  unfolding binary_def
  by (rule good_pop, assumption, rule good_pop, assumption, rule good_push_result, assumption) blast+

lemma good_unary:
  "state_ok L vm st \<Longrightarrow> (\<And>a. plain_error (f a)) \<Longrightarrow> (\<And>a v. value_ok L a \<Longrightarrow> f a = Inr v \<Longrightarrow> value_ok L v) \<Longrightarrow>
   good L vm (unary (vm_depth vm) f st)"
  unfolding unary_def
  by (rule good_pop, assumption, rule good_push_result, assumption) blast+

lemma good_pop_args:
  "state_ok L vm st \<Longrightarrow> \<forall>v \<in> set acc. value_ok L v \<Longrightarrow>
   (\<And>args vs. \<forall>v \<in> set args. value_ok L v \<Longrightarrow> state_ok L vm (st\<lparr>vs_stack := vs\<rparr>) \<Longrightarrow> good L vm (k args (st\<lparr>vs_stack := vs\<rparr>))) \<Longrightarrow>
   good L vm (pop_args n acc st k)"
proof (induction n arbitrary: acc st)
  case 0
  have "state_ok L vm (st\<lparr>vs_stack := vs_stack st\<rparr>)" using 0(1) by simp
  from 0(3) [OF 0(2) this] show ?case by simp
next
  case (Suc n)
  show ?case unfolding pop_args.simps
  proof (rule good_pop [OF Suc.prems(1)])
    fix v vs assume v: "value_ok L v" "state_ok L vm (st\<lparr>vs_stack := vs\<rparr>)"
    show "good L vm (pop_args n (v # acc) (st\<lparr>vs_stack := vs\<rparr>) k)"
    proof (rule Suc.IH [OF v(2)])
      show "\<forall>v \<in> set (v # acc). value_ok L v" using v(1) Suc.prems(2) by simp
    next
      fix args ws assume "\<forall>v \<in> set args. value_ok L v" "state_ok L vm (st\<lparr>vs_stack := vs, vs_stack := ws\<rparr>)"
      then show "good L vm (k args (st\<lparr>vs_stack := vs, vs_stack := ws\<rparr>))" using Suc.prems(3) [of args ws] by simp
    qed
  qed
qed

lemma checked_value_str_ok: "checked_value_str lim s = Inr v \<Longrightarrow> lim \<le> L \<Longrightarrow> value_ok L v"
  by (auto simp: checked_value_str_def check_string_len_def split: if_splits)

lemma checked_value_opt_str_ok: "checked_value_opt_str lim so = Inr v \<Longrightarrow> lim \<le> L \<Longrightarrow> value_ok L v"
  by (auto simp: checked_value_opt_str_def intro: checked_value_str_ok split: option.splits)

lemma int_result_ok: "int_result f (checked_i64 n) = Inr v \<Longrightarrow> value_ok L v"
  by (auto simp: int_result_def checked_i64_def split: option.splits if_splits)

lemma header_names_ok: "header_names lim hs = Inr v \<Longrightarrow> lim \<le> L \<Longrightarrow> value_ok L v"
  by (fastforce simp: header_names_def Let_def find_None_iff split: option.splits)

lemma v_add_ok: "v_add lim a b = Inr v \<Longrightarrow> lim \<le> L \<Longrightarrow> value_ok L v"
  by (cases a; cases b; auto intro: checked_value_str_ok int_result_ok)

lemma arith_ok:
  "v_sub a b = Inr v \<Longrightarrow> value_ok L v" "v_mul a b = Inr v \<Longrightarrow> value_ok L v"
  "v_div a b = Inr v \<Longrightarrow> value_ok L v" "v_neg a = Inr v \<Longrightarrow> value_ok L v"
  by (cases a; cases b; auto intro: int_result_ok split: if_splits)+

lemma compare_ok: "v_compare f p q a b = Inr v \<Longrightarrow> value_ok L v"
  by (cases a; cases b; auto)

lemma char_count_le: "char_count s \<le> length s"
  by (simp add: char_count_def)

lemma parse_i64_range: "parse_i64 s = Some n \<Longrightarrow> is_i64 n"
  by (auto simp: parse_i64_def bind_eq_Some_conv)

lemma value_reads_ok:
  assumes "value_ok L a" "int L < 2 ^ 63"
  shows "v_len a = Inr v \<Longrightarrow> value_ok L v" "value_ok L (v_list_len a)" "value_ok L (v_list_get a i)"
    "value_ok L (v_string_test t a i)" "value_ok L (v_to_int a)"
  subgoal using assms by (cases a) (auto simp: is_i64_def dest: order_trans [OF char_count_le])
  subgoal using assms by (cases a) (auto simp: is_i64_def)
  subgoal using assms by (cases a; cases i) (auto simp: value_of_option_def is_i64_def nth_opt_def)
  subgoal by (cases a; cases i) auto
  subgoal using assms by (cases a) (auto dest: parse_i64_range split: option.splits)
  done

lemma v_substr_ok: "v_substr lim a b c = Inr v \<Longrightarrow> lim \<le> L \<Longrightarrow> value_ok L v"
  by (cases a) (auto simp: Let_def split: if_splits intro: checked_value_str_ok)

lemma builtin_op_ok:
  assumes "\<forall>v \<in> set args. value_ok L v" "lim \<le> L" "int L < 2 ^ 63" "\<And>s. is_i64 (unix_now env s)"
    and "fst (builtin_op env lim b args w) = Inr v"
  shows "value_ok L v"
proof -
  have a: "value_ok L (arg args i)" for i using assms(1) by (auto simp: arg_def)
  show ?thesis
    using assms(2-5) value_reads_ok [OF a assms(3)]
    by (cases b) (auto simp: split_beta api_call_def split: if_splits
        intro: checked_value_str_ok checked_value_opt_str_ok header_names_ok v_substr_ok)
qed

section \<open>One instruction\<close>

lemma jump_to_good:
  "state_ok L vm st \<Longrightarrow> 0 \<le> int (vs_pc st) + off \<Longrightarrow> int (vs_pc st) + off \<le> int (length (vm_code vm)) \<Longrightarrow>
   good L vm (jump_to f (length (vm_code vm)) off st)"
  by (auto simp: jump_to_def Let_def state_ok_def)

definition const_values_ok :: "nat \<Rightarrow> 'r vm \<Rightarrow> bool" where
  "const_values_ok L vm \<longleftrightarrow> (\<forall>c \<in> set (vm_consts vm). value_ok L (const_value c))"

lemma step_good:
  assumes ok: "state_ok L vm st" and op: "op_in_bounds (vm_script vm) i op" "vs_pc st = i + 1"
    and lim: "max_string_len (vm_lim vm) \<le> L" "int L < 2 ^ 63" "\<And>s. is_i64 (unix_now env s)"
    and consts': "const_values_ok L vm"
  shows "good L vm (vm_step env vm op st)"
proof (cases op)
  case (LoadConst idx)
  then show ?thesis
    using op consts' ok by (auto simp: op_in_bounds_def const_values_ok_def nth_opt_def Let_def intro!: good_push)
next
  case OpPop
  then show ?thesis using ok by (auto intro: good_pop)
next
  case (GetLocal s)
  then show ?thesis using ok op by (auto simp: op_in_bounds_def nth_opt_def state_ok_def intro!: good_push)
next
  case (SetLocal s)
  have "good L vm (vm_step env vm (SetLocal s) st)" unfolding vm_step.simps
  proof (rule good_pop [OF ok])
    fix v vs assume "value_ok L v" "state_ok L vm (st\<lparr>vs_stack := vs\<rparr>)"
    then show "good L vm (if s < length (vs_locals (st\<lparr>vs_stack := vs\<rparr>))
        then (Inr None, st\<lparr>vs_stack := vs, vs_locals := (vs_locals (st\<lparr>vs_stack := vs\<rparr>))[s := v]\<rparr>)
        else (Inl (Internal (''SetLocal slot '' @ show_nat s @ '' out of bounds (locals size: ''
                            @ show_nat (length (vs_locals (st\<lparr>vs_stack := vs\<rparr>))) @ '')'')), st\<lparr>vs_stack := vs\<rparr>))"
      using op SetLocal by (auto simp: op_in_bounds_def state_ok_def dest!: set_update_subset_insert [THEN subsetD])
  qed
  then show ?thesis using SetLocal by simp
next
  case (Jump off)
  then show ?thesis using ok op by (auto simp: op_in_bounds_def intro!: jump_to_good)
next
  case (JumpIfFalse off)
  have "good L vm (vm_step env vm (JumpIfFalse off) st)" unfolding vm_step.simps
  proof (rule good_pop [OF ok])
    fix v vs assume a: "state_ok L vm (st\<lparr>vs_stack := vs\<rparr>)"
    show "good L vm (if is_truthy v then (Inr None, st\<lparr>vs_stack := vs\<rparr>)
        else jump_to ''JumpIfFalse'' (length (vm_code vm)) off (st\<lparr>vs_stack := vs\<rparr>))"
      using a op JumpIfFalse by (auto simp: op_in_bounds_def intro!: jump_to_good)
  qed
  then show ?thesis using JumpIfFalse by simp
next
  case (LoopBack off)
  have "state_ok L vm (st\<lparr>vs_loops := (n + 1) # ns\<rparr>)"
    if "vs_loops st = n # ns" "n + 1 \<le> max_loop_iterations (vm_lim vm)" for n ns
    using that ok by (auto simp: state_ok_def)
  then show ?thesis
    using op LoopBack by (auto simp: op_in_bounds_def harmless_def intro!: jump_to_good split: list.splits)
next
  case LoopEnd
  then show ?thesis using ok by (cases "vs_loops st") (auto simp: state_ok_def)
next
  case (CallBuiltin b argc)
  let ?st = "st\<lparr>vs_world := (vs_world st)\<lparr>w_calls := w_calls (vs_world st) - 1\<rparr>\<rparr>"
  have ok': "state_ok L vm ?st" using ok by (simp add: state_ok_def)
  have "good L vm (call_builtin env (vm_lim vm) b ?st)" unfolding call_builtin_def
  proof (rule good_pop_args [OF ok'])
    fix args vs assume a: "\<forall>v \<in> set args. value_ok L v" "state_ok L vm (?st\<lparr>vs_stack := vs\<rparr>)"
    obtain r w where rw: "builtin_op env (max_string_len (vm_lim vm)) b args (vs_world ?st) = (r, w)" by fastforce
    have "plain_error r" using rw plain_builtin by (metis fst_conv)
    then have "good L vm (push_result (vm_depth vm) r (?st\<lparr>vs_stack := vs, vs_world := w\<rparr>))"
      using a(2) builtin_op_ok [OF a(1) lim, of b "vs_world ?st"] rw
      by (intro good_push_result) (auto simp: state_ok_def)
    then show "good L vm (let (r, w) = builtin_op env (max_string_len (vm_lim vm)) b args (vs_world (?st\<lparr>vs_stack := vs\<rparr>))
        in push_result (vm_depth vm) r (?st\<lparr>vs_stack := vs, vs_world := w\<rparr>))"
      using rw by simp
  qed simp
  then show ?thesis using CallBuiltin by (simp add: tick_call_def harmless_plain)
next
  case OpReturnDeny
  have "good L vm (vm_step env vm OpReturnDeny st)" unfolding vm_step.simps
    by (rule good_pop [OF ok], rule good_pop, assumption)
      (auto simp: result_ok_def deny_status_def split: dsl_value.splits)
  then show ?thesis using OpReturnDeny by simp
next
  case LoopInit
  then show ?thesis using ok by (auto simp: state_ok_def)
qed (use ok lim in \<open>auto simp: v_less_def v_greater_def v_less_eq_def v_greater_eq_def result_ok_def regex_test_def
      intro!: good_binary good_unary good_push intro: v_add_ok arith_ok compare_ok value_reads_ok
      plain_ops [unfolded v_less_def v_greater_def v_less_eq_def v_greater_eq_def]\<close>)

section \<open>Runs of accepted bytecode\<close>

inductive vm_next :: "('s, 'r) vm_env \<Rightarrow> 'r vm \<Rightarrow> 's vm_state \<Rightarrow> 's vm_state \<Rightarrow> bool" for env vm where
  "vs_pc st < length (vm_code vm) \<Longrightarrow>
   vm_step env vm (vm_code vm ! vs_pc st) (st\<lparr>vs_pc := vs_pc st + 1\<rparr>) = (Inr None, st') \<Longrightarrow> vm_next env vm st st'"

inductive_cases vm_nextE: "vm_next env vm st st'"

definition accepted_script :: "('s, 'r) vm_env \<Rightarrow> 'r vm \<Rightarrow> nat \<Rightarrow> bool" where
  "accepted_script env vm L \<longleftrightarrow>
     (\<forall>i < length (vm_code vm). op_in_bounds (vm_script vm) i (vm_code vm ! i)) \<and> const_values_ok L vm
     \<and> max_string_len (vm_lim vm) \<le> L \<and> int L < 2 ^ 63 \<and> (\<forall>t. is_i64 (unix_now env t))"

lemma start_ok: "state_ok L vm (vm_state_new (cs_local_count (vm_script vm)) (vm_lim vm) s log)"
  by (auto simp: state_ok_def vm_state_new_def)

lemma instruction_good:
  assumes "accepted_script env vm L" "state_ok L vm st" "vs_pc st < length (vm_code vm)"
  shows "good L vm (vm_step env vm (vm_code vm ! vs_pc st) (st\<lparr>vs_pc := vs_pc st + 1\<rparr>))"
proof (rule step_good [where i = "vs_pc st"])
  show "state_ok L vm (st\<lparr>vs_pc := vs_pc st + 1\<rparr>)" using assms by (simp add: state_ok_def)
qed (use assms in \<open>auto simp: accepted_script_def\<close>)

lemma reachable_ok:
  assumes "accepted_script env vm L"
  shows "(vm_next env vm)\<^sup>*\<^sup>* (vm_state_new (cs_local_count (vm_script vm)) (vm_lim vm) s log) st \<Longrightarrow> state_ok L vm st"
proof (induction rule: rtranclp_induct)
  case base
  show ?case by (rule start_ok)
next
  case (step st st')
  from step(2) show ?case
    by (cases rule: vm_nextE) (use instruction_good [OF assms step(3)] in auto)
qed

lemma run_good:
  assumes "accepted_script env vm L"
  shows "state_ok L vm st \<Longrightarrow> (case fst (run env vm n st) of Inl e \<Rightarrow> harmless e | Inr r \<Rightarrow> result_ok r)"
proof (induction n arbitrary: st)
  case 0
  show ?case by (simp add: harmless_plain)
next
  case (Suc n)
  show ?case
  proof (cases "vs_pc st < length (vm_code vm)")
    case True
    obtain r st' where r: "vm_step env vm (vm_code vm ! vs_pc st) (st\<lparr>vs_pc := vs_pc st + 1\<rparr>) = (r, st')" by fastforce
    have "good L vm (r, st')" using instruction_good [OF assms Suc.prems True] r by simp
    then show ?thesis using Suc.IH [of st'] r True by (auto simp: Let_def split: sum.splits option.splits)
  qed (simp add: Let_def result_ok_def)
qed

lemma execute_good:
  assumes "accepted_script env vm L"
  shows "case fst (execute env vm s log) of Inl e \<Rightarrow> harmless e | Inr r \<Rightarrow> result_ok r"
  using run_good [OF assms start_ok [of L vm s log], of "max_steps (vm_lim vm)"]
  by (simp add: execute_def split_beta)

lemma validated_accepted:
  assumes "validate vlim (regex_new env) script = []" "vm_new env script lim = Inr vm"
    and "\<forall>n. CInt n \<in> set (cs_constants script) \<longrightarrow> is_i64 n"
    and "max_string_len lim \<le> L" "vl_max_string_const_len vlim \<le> L" "int L < 2 ^ 63" "\<And>t. is_i64 (unix_now env t)"
  shows "accepted_script env vm L"
proof -
  have "value_ok L (const_value c)" if c: "c \<in> set (cs_constants script)" for c
    using validate_constants [OF assms(1) c] assms(3,5) c by (cases c) (auto simp: const_value_def)
  then show ?thesis
    using assms validate_in_bounds [OF assms(1)] vm_new_fields [OF assms(2)]
    by (auto simp: accepted_script_def const_values_ok_def)
qed


text \<open>The compiled sample script, checked with the default limits.\<close>

lemma sample_validates: "validate default_validation_limits (regex_new sample_env) sample_script = []"
  by code_simp


end
