(* ===== verification/Dsl_Pipeline.thy ===== *)
theory Dsl_Pipeline
  imports Dsl_Validator
begin

text \<open>
  The compiler and the validator together: every state of the compiler keeps its constants, slots,
  argument counts and jumps in range and its loops balanced, so that what it emits passes every
  structural check of the validator and is rejected only for its size.
\<close>

section \<open>Well-formed compiler states\<close>

definition op_fits :: "dsl_constant list \<Rightarrow> nat \<Rightarrow> opcode \<Rightarrow> bool" where
  "op_fits consts slots op \<longleftrightarrow>
     (\<forall>idx. op = LoadConst idx \<longrightarrow> idx < length consts)
     \<and> (\<forall>idx. op = Matches idx \<longrightarrow> idx < length consts \<and> is_regex_const (consts ! idx))
     \<and> (\<forall>slot. local_slot op = Some slot \<longrightarrow> slot < slots)
     \<and> (\<forall>b argc. op = CallBuiltin b argc \<longrightarrow> argc = builtin_expected_argc b)"

definition jumps_fit :: "opcode list \<Rightarrow> bool" where
  "jumps_fit code \<longleftrightarrow>
     (\<forall>i < length code. \<forall>off. jump_offset (code ! i) = Some off \<longrightarrow> 0 \<le> int i + 1 + off \<and> int i + 1 + off \<le> int (length code))"

definition consts_fit :: "(string \<Rightarrow> string + 'r) \<Rightarrow> dsl_constant list \<Rightarrow> bool" where
  "consts_fit rx consts \<longleftrightarrow> (\<forall>p. CRegex p \<in> set consts \<longrightarrow> length p \<le> 1024 \<and> (\<exists>re. rx p = Inr re))"

definition comp_wf :: "(string \<Rightarrow> string + 'r) \<Rightarrow> compiler \<Rightarrow> bool" where
  "comp_wf rx c \<longleftrightarrow>
     (\<forall>op \<in> set (co_code c). op_fits (co_constants c) (co_next_slot c) op) \<and> jumps_fit (co_code c)
     \<and> consts_fit rx (co_constants c) \<and> (\<forall>(k, i) \<in> set (co_str_map c). i < length (co_constants c))
     \<and> (\<forall>(k, i) \<in> set (co_int_map c). i < length (co_constants c)) \<and> (\<forall>l \<in> set (co_locals c). lv_slot l < co_next_slot c)"

fun is_loop_op :: "opcode \<Rightarrow> bool" where
  "is_loop_op LoopInit \<longleftrightarrow> True"
| "is_loop_op LoopEnd \<longleftrightarrow> True"
| "is_loop_op (LoopBack off) \<longleftrightarrow> True"
| "is_loop_op _ \<longleftrightarrow> False"

text \<open>A compiler state grown by code with the loop instructions \<open>ops\<close>.\<close>

definition grow :: "(string \<Rightarrow> string + 'r) \<Rightarrow> opcode list \<Rightarrow> compiler \<Rightarrow> compiler \<Rightarrow> bool" where
  "grow rx ops c c' \<longleftrightarrow>
     length (co_code c) \<le> length (co_code c') \<and> prefix (co_constants c) (co_constants c')
     \<and> co_next_slot c \<le> co_next_slot c' \<and> filter is_loop_op (co_code c') = filter is_loop_op (co_code c) @ ops
     \<and> (length (co_code c') < 2 ^ 31 \<longrightarrow> comp_wf rx c \<longrightarrow> comp_wf rx c')"

lemma grow_refl [simp]: "grow rx [] c c"
  by (simp add: grow_def)

lemma grow_trans: "grow rx xs c c1 \<Longrightarrow> grow rx ys c1 c2 \<Longrightarrow> grow rx (xs @ ys) c c2"
  by (auto simp: grow_def)

lemma grow_trans0 [trans]: "grow rx [] c c1 \<Longrightarrow> grow rx ys c1 c2 \<Longrightarrow> grow rx ys c c2"
  using grow_trans [of rx "[]"] by simp

lemma op_fits_mono: "op_fits consts slots op \<Longrightarrow> prefix consts consts' \<Longrightarrow> slots \<le> slots' \<Longrightarrow> op_fits consts' slots' op"
  by (fastforce simp: op_fits_def prefix_def nth_append)

lemma grow_fits: "op_fits (co_constants c) (co_next_slot c) op \<Longrightarrow> grow rx ops c c' \<Longrightarrow> op_fits (co_constants c') (co_next_slot c') op"
  by (auto simp: grow_def intro: op_fits_mono)

section \<open>Single operations of the compiler\<close>

lemma grow_emit:
  assumes "grow rx ops c c1" "length (co_code c1) < 2 ^ 31 \<Longrightarrow> comp_wf rx c \<Longrightarrow> comp_wf rx c1 \<Longrightarrow> op_fits (co_constants c1) (co_next_slot c1) op"
    and "\<And>off. length (co_code c1) < 2 ^ 31 \<Longrightarrow> jump_offset op = Some off \<Longrightarrow> - int (length (co_code c1) + 1) \<le> off \<and> off \<le> 0"
  shows "grow rx (ops @ filter is_loop_op [op]) c (emit op c1)"
proof -
  have "jumps_fit (co_code c1 @ [op])" if "jumps_fit (co_code c1)" "length (co_code c1) < 2 ^ 31"
    unfolding jumps_fit_def
  proof (intro allI impI)
    fix i off assume a: "i < length (co_code c1 @ [op])" "jump_offset ((co_code c1 @ [op]) ! i) = Some off"
    show "0 \<le> int i + 1 + off \<and> int i + 1 + off \<le> int (length (co_code c1 @ [op]))"
    proof (cases "i < length (co_code c1)")
      case True
      then show ?thesis using that a by (fastforce simp: jumps_fit_def nth_append)
    next
      case False
      then have "i = length (co_code c1)" using a(1) by simp
      then show ?thesis using a(2) assms(3) [of off] that(2) by simp
    qed
  qed
  then show ?thesis using assms(1,2) by (auto simp: grow_def comp_wf_def)
qed

lemma grow_emit_simple:
  assumes "grow rx ops c c1" "op_fits [] 0 op" "jump_offset op = None \<or> jump_offset op = Some 0" "\<not> is_loop_op op"
  shows "grow rx ops c (emit op c1)"
  using grow_emit [OF assms(1), of op] assms(2-4) op_fits_mono [OF assms(2), of "co_constants c1" "co_next_slot c1"] by auto

lemma filter_update_out: "\<not> P y \<Longrightarrow> (i < length xs \<Longrightarrow> \<not> P (xs ! i)) \<Longrightarrow> filter P (xs[i := y]) = filter P xs"
  by (induction xs arbitrary: i) (auto split: nat.splits)

lemma patch_jump_cases:
  assumes "patch_jump idx c = Inr c'"
  obtains "c' = c"
  | op where "idx < length (co_code c)" "c' = c\<lparr>co_code := (co_code c)[idx := op]\<rparr>" "\<not> is_loop_op op" "\<not> is_loop_op (co_code c ! idx)"
      "op_fits [] 0 op" "jump_offset op = Some (as_i32 (int (length (co_code c)) - (int idx + 1)))"
  using assms
  by (cases "co_code c ! idx") (auto simp: patch_jump_def Let_def nth_opt_def op_fits_def split: if_splits)

lemma grow_patch:
  assumes "patch_jump idx c = Inr c'"
  shows "grow rx [] c c'"
  using assms
proof (cases rule: patch_jump_cases)
  case (2 op)
  have "jumps_fit ((co_code c)[idx := op])" if "jumps_fit (co_code c)" "length (co_code c) < 2 ^ 31"
    using that 2 as_i32_small [of "int (length (co_code c)) - (int idx + 1)"]
    by (auto simp: jumps_fit_def nth_list_update)
  moreover have "op_fits (co_constants c) (co_next_slot c) op" using op_fits_mono [OF 2(5)] by simp
  ultimately show ?thesis
    using 2 by (auto simp: grow_def comp_wf_def filter_update_out dest!: set_update_subset_insert [THEN subsetD])
qed simp

lemma grow_patches: "patch_jumps js c = Inr c' \<Longrightarrow> grow rx [] c c'"
  by (induction js arbitrary: c) (auto simp: res_bind_Inr_iff intro: grow_trans0 grow_patch)

lemma check_const_limit_Inr: "check_const_limit c = Inr i \<Longrightarrow> i = length (co_constants c)"
  by (auto simp: check_const_limit_def Let_def split: if_splits)

text \<open>The state after a new constant.\<close>

lemma comp_wf_const:
  assumes "comp_wf rx c" "consts_fit rx [k]"
    and "\<forall>(_, i) \<in> set ss. i \<le> length (co_constants c)" "\<forall>(_, i) \<in> set ns. i \<le> length (co_constants c)"
  shows "comp_wf rx (c\<lparr>co_constants := co_constants c @ [k], co_str_map := ss @ co_str_map c, co_int_map := ns @ co_int_map c\<rparr>)"
  using assms op_fits_mono [of "co_constants c" "co_next_slot c" _ "co_constants c @ [k]" "co_next_slot c"]
  by (fastforce simp: comp_wf_def consts_fit_def less_Suc_eq_le)

lemma grow_add_str:
  assumes "add_str_const s c = Inr (i, c1)"
  shows "grow rx [] c (emit (LoadConst i) c1)"
proof -
  have "grow rx [] c c1 \<and> (comp_wf rx c \<longrightarrow> i < length (co_constants c1))"
  proof (cases "map_of (co_str_map c) s")
    case None
    then have c1: "i = length (co_constants c)"
        "c1 = c\<lparr>co_constants := co_constants c @ [CStr s], co_str_map := [(s, i)] @ co_str_map c, co_int_map := [] @ co_int_map c\<rparr>"
      using assms by (auto simp: add_str_const_def res_bind_Inr_iff dest: check_const_limit_Inr)
    then show ?thesis using comp_wf_const [of rx c "CStr s" "[(s, i)]" "[]"] by (auto simp: grow_def consts_fit_def)
  next
    case (Some j)
    then show ?thesis
      using assms by (auto simp: add_str_const_def comp_wf_def dest!: map_of_SomeD)
  qed
  then show ?thesis
    using grow_emit [of rx "[]" c c1 "LoadConst i"] by (auto simp: op_fits_def)
qed

lemma grow_add_int:
  assumes "add_int_const n c = Inr (i, c1)"
  shows "grow rx [] c (emit (LoadConst i) c1)"
proof -
  have "grow rx [] c c1 \<and> (comp_wf rx c \<longrightarrow> i < length (co_constants c1))"
  proof (cases "map_of (co_int_map c) n")
    case None
    then have c1: "i = length (co_constants c)"
        "c1 = c\<lparr>co_constants := co_constants c @ [CInt n], co_str_map := [] @ co_str_map c, co_int_map := [(n, i)] @ co_int_map c\<rparr>"
      using assms by (auto simp: add_int_const_def res_bind_Inr_iff dest: check_const_limit_Inr)
    then show ?thesis using comp_wf_const [of rx c "CInt n" "[]" "[(n, i)]"] by (auto simp: grow_def consts_fit_def)
  next
    case (Some j)
    then show ?thesis
      using assms by (auto simp: add_int_const_def comp_wf_def dest!: map_of_SomeD)
  qed
  then show ?thesis
    using grow_emit [of rx "[]" c c1 "LoadConst i"] by (auto simp: op_fits_def)
qed

lemma grow_add_regex:
  assumes "add_regex_const rx p c = Inr (i, c1)"
  shows "grow rx [] c c1 \<and> op_fits (co_constants c1) (co_next_slot c1) (Matches i)"
proof (cases "position_of (CRegex p) (co_constants c)")
  case None
  then have c1: "i = length (co_constants c)" "length p \<le> 1024" "\<exists>re. rx p = Inr re"
      "c1 = c\<lparr>co_constants := co_constants c @ [CRegex p], co_str_map := [] @ co_str_map c, co_int_map := [] @ co_int_map c\<rparr>"
    using assms by (auto simp: add_regex_const_def res_bind_Inr_iff split: if_splits sum.splits dest: check_const_limit_Inr)
  then show ?thesis
    using comp_wf_const [of rx c "CRegex p" "[]" "[]"] by (auto simp: grow_def consts_fit_def op_fits_def is_regex_const_def)
next
  case (Some j)
  then show ?thesis
    using assms position_of_Some [OF Some] by (auto simp: add_regex_const_def op_fits_def is_regex_const_def split: if_splits)
qed

lemma grow_declare:
  assumes "declare_local x m c = Inr (s, c')"
  shows "grow rx [] c c'" "s < co_next_slot c'"
  using assms op_fits_mono [of "co_constants c" "co_next_slot c" _ "co_constants c" "co_next_slot c + 1"]
  by (auto simp: declare_local_def grow_def comp_wf_def less_Suc_eq split: if_splits)

lemma grow_scopes:
  "enter_scope c = Inr c' \<Longrightarrow> grow rx [] c c'" "leave_scope c = Inr c' \<Longrightarrow> grow rx [] c c'"
  "enter_loop c = Inr c' \<Longrightarrow> grow rx [] c c'" "grow rx [] c (leave_loop c)"
  by (auto simp: enter_scope_def leave_scope_def enter_loop_def leave_loop_def grow_def comp_wf_def
      split: if_splits dest!: set_dropWhileD)

section \<open>Expressions\<close>

lemma grow_plain:
  assumes "grow rx ops c c1"
  shows "grow rx ops c (emit (JumpIfFalse 0) c1)" "grow rx ops c (emit (Jump 0) c1)" "grow rx ops c (emit LoadTrue c1)"
    "grow rx ops c (emit LoadFalse c1)" "grow rx ops c (emit LoadNil c1)" "grow rx ops c (emit OpNot c1)"
    "grow rx ops c (emit OpNeg c1)" "grow rx ops c (emit OpPop c1)" "grow rx ops c (emit Less c1)"
    "grow rx ops c (emit ListLen c1)" "grow rx ops c (emit ListGet c1)" "grow rx ops c (emit OpAdd c1)"
    "grow rx ops c (emit OpReturnNext c1)" "grow rx ops c (emit OpReturnDeny c1)"
  by (rule grow_emit_simple [OF assms]; simp add: op_fits_def)+

lemma binary_opcode_plain: "binary_opcode bop = Some op \<Longrightarrow> op_fits consts slots op \<and> jump_offset op = None \<and> \<not> is_loop_op op"
  by (cases bop) (auto simp: op_fits_def)

lemma string_method_plain: "string_method m = Some op \<Longrightarrow> op_fits consts slots op \<and> jump_offset op = None \<and> \<not> is_loop_op op"
  by (auto simp: string_method_def op_fits_def split: if_splits)

lemma grow_call: "grow rx ops c c1 \<Longrightarrow> n = builtin_expected_argc b \<Longrightarrow> grow rx ops c (emit (CallBuiltin b (n mod 256)) c1)"
  using grow_emit_simple [of rx ops c c1 "CallBuiltin b (n mod 256)"] by (cases b) (auto simp: op_fits_def)

lemma compile_grows:
  fixes rx :: "string \<Rightarrow> string + 'r"
  shows "compile_expr rx e c = Inr c' \<Longrightarrow> grow rx [] c c'"
    and "compile_args rx as c = Inr c' \<Longrightarrow> grow rx [] c c'"
    and "compile_method_call rx ob m as c = Inr c' \<Longrightarrow> grow rx [] c c'"
proof (induction rx e c and rx as c and rx ob m as c arbitrary: c' and c' and c'
    rule: compile_expr_compile_args_compile_method_call.induct)
  case (1 rx s c)
  then show ?case by (auto simp: res_bind_Inr_iff intro: grow_add_str)
next
  case (2 rx n c)
  then show ?case by (auto simp: res_bind_Inr_iff intro: grow_add_int)
next
  case (5 rx name c)
  then obtain l where l: "resolve_local name c = Some l" "c' = emit (GetLocal (lv_slot l)) c"
    by (auto split: option.splits)
  then have "comp_wf rx c \<Longrightarrow> lv_slot l < co_next_slot c"
    by (auto simp: comp_wf_def resolve_local_def find_Some_iff)
  then show ?case using grow_emit [OF grow_refl, of c rx "GetLocal (lv_slot l)"] l(2) by (auto simp: op_fits_def)
next
  case (6 rx bop left right c)
  consider "bop = BinAnd" | "bop = BinOr" | "bop \<noteq> BinAnd" "bop \<noteq> BinOr" by blast
  then show ?case
  proof cases
    case 1
    then obtain c1 c2 c3 where c: "compile_expr rx left c = Inr c1" "compile_expr rx right (emit (JumpIfFalse 0) c1) = Inr c2"
        "patch_jump (length (co_code c1)) (emit (Jump 0) c2) = Inr c3" "patch_jump (length (co_code c2)) (emit LoadFalse c3) = Inr c'"
      using 6(7) by (auto simp: res_bind_Inr_iff Let_def)
    have "grow rx [] c (emit (JumpIfFalse 0) c1)" using 6(1) [OF 1 c(1)] by (rule grow_plain)
    also have "grow rx [] (emit (JumpIfFalse 0) c1) (emit (Jump 0) c2)" using 6(2) [OF 1 c(1) refl c(2)] by (rule grow_plain)
    also have "grow rx [] (emit (Jump 0) c2) (emit LoadFalse c3)" using grow_patch [OF c(3)] by (rule grow_plain)
    also have "grow rx [] (emit LoadFalse c3) c'" using grow_patch [OF c(4)] .
    finally show ?thesis .
  next
    case 2
    then obtain c1 c2 c3 where c: "compile_expr rx left c = Inr c1" "compile_expr rx right (emit (JumpIfFalse 0) (emit OpNot c1)) = Inr c2"
        "patch_jump (length (co_code (emit OpNot c1))) (emit (Jump 0) c2) = Inr c3" "patch_jump (length (co_code c2)) (emit LoadTrue c3) = Inr c'"
      using 6(7) by (auto simp: res_bind_Inr_iff Let_def)
    have "grow rx [] c (emit OpNot c1)" using 6(3) [OF _ 2 c(1)] 2 by (intro grow_plain) simp_all
    then have "grow rx [] c (emit (JumpIfFalse 0) (emit OpNot c1))" by (rule grow_plain)
    also have "grow rx [] (emit (JumpIfFalse 0) (emit OpNot c1)) (emit (Jump 0) c2)"
      using 6(4) [OF _ 2 c(1) refl c(2)] 2 by (intro grow_plain) simp_all
    also have "grow rx [] (emit (Jump 0) c2) (emit LoadTrue c3)" using grow_patch [OF c(3)] by (rule grow_plain)
    also have "grow rx [] (emit LoadTrue c3) c'" using grow_patch [OF c(4)] .
    finally show ?thesis .
  next
    case 3
    then obtain c1 c2 op where c: "compile_expr rx left c = Inr c1" "compile_expr rx right c1 = Inr c2"
        "binary_opcode bop = Some op" "c' = emit op c2"
      using 6(7) by (auto simp: res_bind_Inr_iff split: option.splits)
    have "grow rx [] c c2" using grow_trans0 [OF 6(5) [OF 3 c(1)] 6(6) [OF 3 c(1,2)]] .
    then show ?thesis unfolding c(4) by (rule grow_emit_simple) (use binary_opcode_plain [OF c(3)] in auto)
  qed
next
  case (7 rx uop operand c)
  then show ?case
    by (cases uop) (auto simp: res_bind_Inr_iff intro!: grow_plain)
next
  case (9 rx name args c)
  then obtain b n c1 where b: "map_of builtin_functions name = Some (b, n)" "length args = n" "compile_args rx args c = Inr c1"
      "c' = emit (CallBuiltin b (length args mod 256)) c1"
    by (auto simp: res_bind_Inr_iff split: option.splits if_splits)
  then show ?case using 9 builtin_functions_argc [OF b(1)] by (auto intro!: grow_call)
next
  case (13 rx ob m as c)
  show ?case
  proof (cases "namespace_builtin ob m")
    case (Some b)
    then obtain c1 where b: "length as = builtin_expected_argc b" "compile_args rx as c = Inr c1"
        "c' = emit (CallBuiltin b (length as mod 256)) c1"
      using 13(5) by (auto simp: res_bind_Inr_iff split: if_splits)
    have "grow rx [] c c1" using 13(1-4) Some b(1,2) by blast
    then show ?thesis using b(1,3) by (auto intro!: grow_call)
  next
    case None
    note none = this
    show ?thesis
    proof (cases "string_method m")
      case (Some op)
      then obtain a c1 c2 where a: "as = [a]" "compile_expr rx ob c = Inr c1" "compile_expr rx a c1 = Inr c2" "c' = emit op c2"
        using 13(5) none by (auto simp: res_bind_Inr_iff split: list.splits)
      have "grow rx [] c c1" "grow rx [] c1 c2" using 13(1-4) none Some a(1-3) by blast+
      then have "grow rx [] c c2" by (rule grow_trans0)
      then show ?thesis unfolding a(4) by (rule grow_emit_simple) (use string_method_plain [OF Some] in auto)
    next
      case None
      then obtain p i c1 c2 where p: "m = ''matches''" "as = [StringLit p]" "add_regex_const rx p c = Inr (i, c1)"
          "compile_expr rx ob c1 = Inr c2" "c' = emit (Matches i) c2"
        using 13(5) none by (auto simp: res_bind_Inr_iff split: if_splits list.splits expr.splits)
      have g: "grow rx [] c1 c2" using 13(1-4) none None p(1-4) by blast
      have "op_fits (co_constants c2) (co_next_slot c2) (Matches i)" using grow_fits grow_add_regex [OF p(3)] g by blast
      then show ?thesis
        using grow_emit [OF grow_trans0 [OF conjunct1 [OF grow_add_regex [OF p(3)]] g], of "Matches i"] p(5) by simp
    qed
  qed
qed (auto simp: res_bind_Inr_iff intro: grow_plain [OF grow_refl] grow_trans0 split: if_splits)

section \<open>Statements\<close>

text \<open>The loop depth after some instructions, or None where an instruction has no loop to belong to.\<close>

fun loops_after :: "nat \<Rightarrow> opcode list \<Rightarrow> nat option" where
  "loops_after d [] = Some d"
| "loops_after d (LoopInit # ops) = loops_after (Suc d) ops"
| "loops_after d (LoopEnd # ops) = (if d = 0 then None else loops_after (d - 1) ops)"
| "loops_after d (LoopBack off # ops) = (if d = 0 then None else loops_after d ops)"
| "loops_after d (_ # ops) = loops_after d ops"

lemma loops_after_append: "loops_after d (xs @ ys) = Option.bind (loops_after d xs) (\<lambda>d. loops_after d ys)"
  by (induction d xs rule: loops_after.induct) auto

lemma loops_after_filter: "loops_after d (filter is_loop_op ops) = loops_after d ops"
  by (induction d ops rule: loops_after.induct) auto

lemma check_loops_Nil: "loops_after d ops = Some 0 \<Longrightarrow> check_loops (int d) (enumerate n ops) = []"
  by (induction d ops arbitrary: n rule: loops_after.induct) (auto simp: add.commute of_nat_diff split: if_splits)

definition balanced :: "opcode list \<Rightarrow> bool" where
  "balanced ops \<longleftrightarrow> (\<forall>d. loops_after d ops = Some d)"

lemma balanced_simps [simp]:
  "balanced []" "balanced xs \<Longrightarrow> balanced ys \<Longrightarrow> balanced (xs @ ys)"
  "balanced ops \<Longrightarrow> balanced ([LoopInit] @ ops @ [LoopBack off, LoopEnd])"
  by (auto simp: balanced_def loops_after_append)

definition grow_bal :: "(string \<Rightarrow> string + 'r) \<Rightarrow> compiler \<Rightarrow> compiler \<Rightarrow> bool" where
  "grow_bal rx c c' \<longleftrightarrow> (\<exists>ops. balanced ops \<and> grow rx ops c c')"

lemma grow_balI [intro]: "grow rx [] c c' \<Longrightarrow> grow_bal rx c c'"
  by (auto simp: grow_bal_def intro: exI [of _ "[]"])

lemma grow_bal_trans [trans]: "grow_bal rx c c1 \<Longrightarrow> grow_bal rx c1 c2 \<Longrightarrow> grow_bal rx c c2"
  unfolding grow_bal_def by (meson balanced_simps(2) grow_trans)

lemma grow_slot:
  assumes "grow rx ops c c1" "s < co_next_slot c1"
  shows "grow rx ops c (emit (GetLocal s) c1)" "grow rx ops c (emit (SetLocal s) c1)"
  using grow_emit [OF assms(1), of "GetLocal s"] grow_emit [OF assms(1), of "SetLocal s"] assms(2) by (simp_all add: op_fits_def)

lemma grow_next_slot: "grow rx ops c c1 \<Longrightarrow> s < co_next_slot c \<Longrightarrow> s < co_next_slot c1"
  by (simp add: grow_def)

lemma grow_increment:
  assumes "emit_increment s c = Inr c'" "s < co_next_slot c"
  shows "grow rx [] c c'"
proof -
  obtain one c1 where c1: "add_int_const 1 (emit (GetLocal s) c) = Inr (one, c1)"
      "c' = emit (SetLocal s) (emit OpAdd (emit (LoadConst one) c1))"
    using assms(1) by (auto simp: emit_increment_def res_bind_Inr_iff)
  have "grow rx [] c (emit (GetLocal s) c)" by (rule grow_slot(1) [OF grow_refl assms(2)])
  also have "grow rx [] (emit (GetLocal s) c) (emit (LoadConst one) c1)" using grow_add_int [OF c1(1)] .
  finally have g: "grow rx [] c (emit OpAdd (emit (LoadConst one) c1))" by (rule grow_plain)
  show ?thesis unfolding c1(2) by (rule grow_slot(2) [OF g grow_next_slot [OF g assms(2)]])
qed

lemma grow_close:
  assumes "close_loop start j c = Inr c'" "start \<le> length (co_code c)"
  shows "\<exists>off. grow rx [LoopBack off, LoopEnd] c c'"
proof -
  let ?off = "back_offset start c"
  obtain c1 where c1: "patch_jump j (emit (LoopBack ?off) c) = Inr c1" "leave_scope (leave_loop (emit LoopEnd c1)) = Inr c'"
    using assms(1) by (auto simp: close_loop_def res_bind_Inr_iff)
  have "?off = int start - (int (length (co_code c)) + 1)" if "length (co_code c) < 2 ^ 31"
    using that assms(2) as_i32_neg [of "int start - (int (length (co_code c)) + 1)"]
    by (simp add: back_offset_def current_offset_def)
  then have "grow rx [LoopBack ?off] c (emit (LoopBack ?off) c)"
    using grow_emit [OF grow_refl, of c rx "LoopBack ?off"] assms(2) by (auto simp: op_fits_def)
  from grow_trans [OF this grow_patch [OF c1(1)]] have "grow rx [LoopBack ?off] c c1" by simp
  from grow_emit [OF this, of LoopEnd] have "grow rx [LoopBack ?off, LoopEnd] c (emit LoopEnd c1)" by (simp add: op_fits_def)
  from grow_trans [OF grow_trans [OF this grow_scopes(4)] grow_scopes(2) [OF c1(2)]] show ?thesis by auto
qed

text \<open>A loop: code before it, its entry, a balanced body, and its end.\<close>

lemma grow_loop:
  assumes "grow rx [] c c1" "grow_bal rx (emit LoopInit c1) c2" "close_loop (length (co_code c1) + 1) j c2 = Inr c'"
  shows "grow_bal rx c c'"
proof -
  obtain ops where ops: "balanced ops" "grow rx ops (emit LoopInit c1) c2" using assms(2) by (auto simp: grow_bal_def)
  have "length (co_code c1) + 1 \<le> length (co_code c2)" using ops(2) by (simp add: grow_def)
  then obtain off where "grow rx [LoopBack off, LoopEnd] c2 c'" using grow_close [OF assms(3)] by blast
  moreover have "grow rx [LoopInit] c (emit LoopInit c1)"
    using grow_emit [OF assms(1), of LoopInit] by (simp add: op_fits_def)
  ultimately have "grow rx ([LoopInit] @ ops @ [LoopBack off, LoopEnd]) c c'" using ops(2) grow_trans by blast
  then show ?thesis using ops(1) unfolding grow_bal_def by (metis balanced_simps(3))
qed

definition stmts_grow :: "(string \<Rightarrow> string + 'r) \<Rightarrow> stmt list \<Rightarrow> bool" where
  "stmts_grow rx ss \<longleftrightarrow> (\<forall>c c'. compile_stmts rx ss c = Inr c' \<longrightarrow> grow_bal rx c c')"

lemma block_grows:
  assumes "stmts_grow rx ss" "compile_block rx ss c = Inr c'"
  shows "grow_bal rx c c'"
proof -
  obtain c1 c2 where c: "enter_scope c = Inr c1" "compile_stmts rx ss c1 = Inr c2" "leave_scope c2 = Inr c'"
    using assms(2) by (auto simp: res_bind_Inr_iff)
  have "grow_bal rx c c1" using grow_scopes(1) [OF c(1)] by (rule grow_balI)
  also have "grow_bal rx c1 c2" using assms(1) c(2) by (simp add: stmts_grow_def)
  also have "grow_bal rx c2 c'" using grow_scopes(2) [OF c(3)] by (rule grow_balI)
  finally show ?thesis .
qed

lemma range_grows:
  assumes comp: "compile_stmt rx (ForRange x es ee b) c = Inr c'" and b: "stmts_grow rx b"
  shows "grow_bal rx c c'"
proof -
  obtain ca cb c1 e c2 c3 v c4 c5 c6 where c: "enter_scope c = Inr ca" "enter_loop ca = Inr cb"
      "compile_expr rx ee cb = Inr c1" "declare_local ''__range_end__'' False c1 = Inr (e, c2)"
      "compile_expr rx es (emit (SetLocal e) c2) = Inr c3" "declare_local x False c3 = Inr (v, c4)"
    and c': "compile_block rx b (emit (JumpIfFalse 0) (emit Less (emit (GetLocal e) (emit (GetLocal v) (emit LoopInit (emit (SetLocal v) c4)))))) = Inr c5"
      "emit_increment v c5 = Inr c6" "close_loop (length (co_code (emit (SetLocal v) c4)) + 1) (length (co_code c4) + 5) c6 = Inr c'"
    using comp by (auto simp: res_bind_Inr_iff Let_def current_offset_def eval_nat_numeral split: if_splits)
  have "grow rx [] c c1"
    using grow_trans0 [OF grow_scopes(1) [OF c(1)] grow_trans0 [OF grow_scopes(3) [OF c(2)] compile_grows(1) [OF c(3)]]] .
  from grow_trans0 [OF this grow_declare(1) [OF c(4)]] have g2: "grow rx [] c c2" .
  have g3: "grow rx [] c (emit (SetLocal e) c2)" by (rule grow_slot(2) [OF g2 grow_declare(2) [OF c(4)]])
  have g34: "grow rx [] (emit (SetLocal e) c2) c4" by (rule grow_trans0 [OF compile_grows(1) [OF c(5)] grow_declare(1) [OF c(6)]])
  note v4 = grow_declare(2) [OF c(6)]
  have e4: "e < co_next_slot c4" using grow_next_slot [OF g34] grow_declare(2) [OF c(4)] by simp
  have g4: "grow rx [] c (emit (SetLocal v) c4)" by (rule grow_slot(2) [OF grow_trans0 [OF g3 g34] v4])
  let ?c4 = "emit LoopInit (emit (SetLocal v) c4)"
  have "grow rx [] ?c4 (emit (GetLocal e) (emit (GetLocal v) ?c4))"
    using grow_slot(1) [OF grow_slot(1) [OF grow_refl], of v ?c4 e] v4 e4 by simp
  then have g5: "grow rx [] ?c4 (emit (JumpIfFalse 0) (emit Less (emit (GetLocal e) (emit (GetLocal v) ?c4))))"
    by (intro grow_plain)
  have bb: "grow_bal rx (emit (JumpIfFalse 0) (emit Less (emit (GetLocal e) (emit (GetLocal v) ?c4)))) c5"
    using block_grows [OF b c'(1)] .
  then have v5: "v < co_next_slot c5" using v4 by (auto simp: grow_bal_def grow_def)
  have "grow_bal rx ?c4 c6"
    by (rule grow_bal_trans [OF grow_balI [OF g5] grow_bal_trans [OF bb grow_balI [OF grow_increment [OF c'(2) v5]]]])
  then show ?thesis by (rule grow_loop [OF g4 _ c'(3)])
qed

lemma for_in_grows:
  assumes comp: "compile_stmt rx (ForIn x ee b) c = Inr c'" and b: "stmts_grow rx b"
  shows "grow_bal rx c c'"
proof -
  let ?init = "\<lambda>i c. emit LoopInit (emit (SetLocal i) c)"
  let ?test = "\<lambda>l i c. emit ListGet (emit (GetLocal i) (emit (GetLocal l) (emit (JumpIfFalse 0)
          (emit Less (emit ListLen (emit (GetLocal l) (emit (GetLocal i) (?init i c))))))))"
  from comp obtain ca cb c1 l c2 z c3 i c4 v c5 c6 c7 where c: "enter_scope c = Inr ca" "enter_loop ca = Inr cb"
      "compile_expr rx ee cb = Inr c1" "declare_local ''__list__'' False c1 = Inr (l, c2)"
      "add_int_const 0 (emit (SetLocal l) c2) = Inr (z, c3)" "declare_local ''__idx__'' True (emit (LoadConst z) c3) = Inr (i, c4)"
      "declare_local x False (?test l i c4) = Inr (v, c5)"
    and c': "compile_block rx b (emit (SetLocal v) c5) = Inr c6" "emit_increment i c6 = Inr c7"
      "close_loop (length (co_code (emit (SetLocal i) c4)) + 1) (length (co_code c4) + 6) c7 = Inr c'"
    by (auto simp: res_bind_Inr_iff Let_def current_offset_def eval_nat_numeral split: if_splits)
  have "grow rx [] c c1"
    using grow_trans0 [OF grow_scopes(1) [OF c(1)] grow_trans0 [OF grow_scopes(3) [OF c(2)] compile_grows(1) [OF c(3)]]] .
  from grow_trans0 [OF this grow_declare(1) [OF c(4)]] have g2: "grow rx [] c c2" .
  have g3: "grow rx [] c (emit (SetLocal l) c2)" by (rule grow_slot(2) [OF g2 grow_declare(2) [OF c(4)]])
  have g34: "grow rx [] (emit (SetLocal l) c2) c4" by (rule grow_trans0 [OF grow_add_int [OF c(5)] grow_declare(1) [OF c(6)]])
  note i4 = grow_declare(2) [OF c(6)]
  have l4: "l < co_next_slot c4" using grow_next_slot [OF g34] grow_declare(2) [OF c(4)] by simp
  have g4: "grow rx [] c (emit (SetLocal i) c4)" by (rule grow_slot(2) [OF grow_trans0 [OF g3 g34] i4])
  have t: "grow rx [] (?init i c4) (?test l i c4)"
    using i4 l4 by (intro grow_plain grow_slot) (auto intro!: grow_refl)
  have s5: "grow rx [] (?init i c4) (emit (SetLocal v) c5)"
    by (rule grow_slot(2) [OF grow_trans0 [OF t grow_declare(1) [OF c(7)]] grow_declare(2) [OF c(7)]])
  have bb: "grow_bal rx (emit (SetLocal v) c5) c6"
    using block_grows [OF b c'(1)] .
  have "grow_bal rx (?init i c4) c6" by (rule grow_bal_trans [OF grow_balI [OF s5] bb])
  then have i6: "i < co_next_slot c6" using i4 by (auto simp: grow_bal_def grow_def)
  have "grow_bal rx (?init i c4) c7"
    by (rule grow_bal_trans [OF grow_balI [OF s5] grow_bal_trans [OF bb grow_balI [OF grow_increment [OF c'(2) i6]]]])
  then show ?thesis by (rule grow_loop [OF g4 _ c'(3)])
qed

lemma while_grows:
  assumes comp: "compile_stmt rx (While e b) c = Inr c'" and b: "stmts_grow rx b"
  shows "grow_bal rx c c'"
proof -
  obtain ca cb c1 c2 where c: "enter_scope c = Inr ca" "enter_loop ca = Inr cb"
      "compile_expr rx e (emit LoopInit cb) = Inr c1" "compile_block rx b (emit (JumpIfFalse 0) c1) = Inr c2"
      "close_loop (length (co_code cb) + 1) (length (co_code c1)) c2 = Inr c'"
    using comp by (auto simp: res_bind_Inr_iff Let_def current_offset_def)
  have "grow_bal rx (emit LoopInit cb) (emit (JumpIfFalse 0) c1)" using grow_plain(1) [OF compile_grows(1) [OF c(3)]] by blast
  also have "grow_bal rx (emit (JumpIfFalse 0) c1) c2" using block_grows [OF b c(4)] .
  finally show ?thesis
    using grow_loop [OF grow_trans0 [OF grow_scopes(1) [OF c(1)] grow_scopes(3) [OF c(2)]] _ c(5)] by blast
qed

lemma branches_grow:
  assumes "compile_branches rx he brs js c = Inr (js', c')" "\<And>e b. (e, b) \<in> set brs \<Longrightarrow> stmts_grow rx b"
  shows "grow_bal rx c c'"
  using assms
proof (induction brs arbitrary: js c)
  case Nil
  then show ?case by auto
next
  case (Cons eb rest)
  obtain e b where eb: "eb = (e, b)" by fastforce
  obtain c1 c2 c3 js1 where c: "compile_expr rx e c = Inr c1" "compile_block rx b (emit (JumpIfFalse 0) c1) = Inr c2"
      "patch_jump (length (co_code c1)) (if rest \<noteq> [] \<or> he then emit (Jump 0) c2 else c2) = Inr c3"
      "compile_branches rx he rest js1 c3 = Inr (js', c')"
      "js1 = (if rest \<noteq> [] \<or> he then js @ [length (co_code c2)] else js)"
    using Cons.prems(1) eb by (auto simp: res_bind_Inr_iff Let_def current_offset_def)
  have "grow_bal rx c (emit (JumpIfFalse 0) c1)" using grow_plain(1) [OF compile_grows(1) [OF c(1)]] by blast
  also have "grow_bal rx (emit (JumpIfFalse 0) c1) c2" using block_grows [OF Cons.prems(2) c(2), of e] eb by simp
  also have "grow_bal rx c2 (if rest \<noteq> [] \<or> he then emit (Jump 0) c2 else c2)" using grow_plain(2) [OF grow_refl] by auto
  also have "grow_bal rx (if rest \<noteq> [] \<or> he then emit (Jump 0) c2 else c2) c3" using grow_patch [OF c(3)] by blast
  also have "grow_bal rx c3 c'" by (rule Cons.IH [OF c(4)]) (auto intro: Cons.prems(2))
  finally show ?case .
qed

lemma stmts_growI: "(\<And>s c c'. s \<in> set ss \<Longrightarrow> compile_stmt rx s c = Inr c' \<Longrightarrow> grow_bal rx c c') \<Longrightarrow> stmts_grow rx ss"
proof (induction ss)
  case Nil
  then show ?case by (auto simp: stmts_grow_def)
next
  case (Cons s ss)
  have ss: "stmts_grow rx ss" by (rule Cons.IH) (auto intro: Cons.prems)
  show ?case unfolding stmts_grow_def
  proof (intro allI impI)
    fix c c' assume "compile_stmts rx (s # ss) c = Inr c'"
    then obtain c1 where c: "compile_stmt rx s c = Inr c1" "compile_stmts rx ss c1 = Inr c'" by (auto simp: res_bind_Inr_iff)
    have "grow_bal rx c c1" using c(1) by (rule Cons.prems [rotated]) simp
    also have "grow_bal rx c1 c'" using ss c(2) by (simp add: stmts_grow_def)
    finally show "grow_bal rx c c'" .
  qed
qed

lemma compile_stmt_grows: "compile_stmt rx s c = Inr c' \<Longrightarrow> grow_bal rx c c'"
proof (induction s arbitrary: c c')
  case (LetStmt x m e)
  then obtain c1 s c2 where c: "compile_expr rx e c = Inr c1" "declare_local x m c1 = Inr (s, c2)" "c' = emit (SetLocal s) c2"
    by (auto simp: res_bind_Inr_iff split: if_splits)
  have "grow rx [] c c2" by (rule grow_trans0 [OF compile_grows(1) [OF c(1)] grow_declare(1) [OF c(2)]])
  from grow_slot(2) [OF this grow_declare(2) [OF c(2)]] show ?case unfolding c(3) by (rule grow_balI)
next
  case (Assign x e)
  then obtain l c1 where c: "resolve_local x c = Some l" "compile_expr rx e c = Inr c1" "c' = emit (SetLocal (lv_slot l)) c1"
    by (auto simp: res_bind_Inr_iff split: option.splits if_splits)
  have g: "grow rx [] c c1" using compile_grows(1) [OF c(2)] .
  have "l \<in> set (co_locals c)" using c(1) by (auto simp: resolve_local_def dest: find_SomeD)
  then have "comp_wf rx c \<Longrightarrow> lv_slot l < co_next_slot c1"
    using grow_next_slot [OF g] by (simp add: comp_wf_def)
  then show ?case using grow_emit [OF g, of "SetLocal (lv_slot l)"] c(3) by (auto simp: op_fits_def)
next
  case (IfStmt brs els)
  from IfStmt.prems obtain js c1 c2 where c: "compile_branches rx (els \<noteq> None) brs [] c = Inr (js, c1)"
      "(case els of Some body \<Rightarrow> compile_block rx body c1 | None \<Rightarrow> Inr c1) = Inr c2" "patch_jumps js c2 = Inr c'"
    by (auto simp: res_bind_Inr_iff)
  have "grow_bal rx c c1" by (rule branches_grow [OF c(1)], rule stmts_growI) (use IfStmt.IH(1) in auto)
  also have "grow_bal rx c1 c2" 
  proof (cases els)
    case (Some body)
    have "stmts_grow rx body" by (rule stmts_growI) (use IfStmt.IH(2) Some in auto)
    then show ?thesis using c(2) Some block_grows by (simp del: compile_block.simps)
  qed (use c(2) in auto)
  also have "grow_bal rx c2 c'" using grow_patches [OF c(3)] by blast
  finally show ?case .
next
  case (ForIn x e b)
  have "stmts_grow rx b" by (rule stmts_growI) (rule ForIn.IH)
  with ForIn.prems show ?case by (rule for_in_grows)
next
  case (ForRange x e e' b)
  have "stmts_grow rx b" by (rule stmts_growI) (rule ForRange.IH)
  with ForRange.prems show ?case by (rule range_grows)
next
  case (While e b)
  have "stmts_grow rx b" by (rule stmts_growI) (rule While.IH)
  with While.prems show ?case by (rule while_grows)
next
  case (ReturnDeny e e')
  then obtain c1 c2 where c: "compile_expr rx e c = Inr c1" "compile_expr rx e' c1 = Inr c2" "c' = emit OpReturnDeny c2"
    by (auto simp: res_bind_Inr_iff)
  show ?case unfolding c(3) by (rule grow_balI grow_plain grow_trans0 [OF compile_grows(1) [OF c(1)] compile_grows(1) [OF c(2)]])+
qed (auto simp: res_bind_Inr_iff intro!: grow_balI grow_plain dest: compile_grows(1))

section \<open>Compiled scripts are accepted\<close>

text \<open>The errors that only say that a script is too big.\<close>

fun limit_error :: "validation_error \<Rightarrow> bool" where
  "limit_error (VeInstructions n k) \<longleftrightarrow> True"
| "limit_error (VeLocals n k) \<longleftrightarrow> True"
| "limit_error (VeConstants n k) \<longleftrightarrow> True"
| "limit_error (VeStringTooLong i n k) \<longleftrightarrow> True"
| "limit_error (VePoolTooLarge n k) \<longleftrightarrow> True"
| "limit_error (VeLoopDepth n k) \<longleftrightarrow> True"
| "limit_error _ \<longleftrightarrow> False"

lemma comp_wf_new [simp]: "comp_wf rx compiler_new"
  by (simp add: comp_wf_def compiler_new_def jumps_fit_def consts_fit_def)

lemma compiled_wf:
  assumes "compile rx p = Inr script" "length (cs_code script) < 2 ^ 31"
  obtains c where "comp_wf rx c" "loops_after 0 (co_code c) = Some 0" "cs_code script = co_code c"
    "cs_constants script = co_constants c" "cs_local_count script = co_next_slot c"
proof -
  obtain c where c: "compile_stmts rx p compiler_new = Inr c" "cs_constants script = co_constants c" "cs_local_count script = co_next_slot c"
      "cs_code script = co_code (if ends_with_return c then c else emit OpReturnNext c)"
    using assms(1) by (auto simp: compile_def res_bind_Inr_iff Let_def)
  let ?c = "if ends_with_return c then c else emit OpReturnNext c"
  have "stmts_grow rx p" by (rule stmts_growI) (rule compile_stmt_grows)
  then obtain ops where ops: "balanced ops" "grow rx ops compiler_new c" using c(1) by (auto simp: stmts_grow_def grow_bal_def)
  then have g: "grow rx ops compiler_new ?c" using grow_plain(13) [OF ops(2)] by simp
  then have "comp_wf rx ?c" using assms(2) c(4) by (simp add: grow_def)
  moreover have "loops_after 0 (co_code ?c) = Some 0"
    using g ops(1) loops_after_filter [of 0 "co_code ?c"] by (simp add: grow_def compiler_new_def balanced_def)
  ultimately show ?thesis using that [of ?c] c by simp
qed

lemma op_fits_checks:
  "op_fits consts n op \<Longrightarrow> check_const_index consts (i, op) = [] \<and> check_arg_count (i, op) = [] \<and> check_slot n (i, op) = []"
  by (cases op) (auto simp: op_fits_def check_const_index_def check_arg_count_def check_slot_def)

lemma jumps_fit_check: "jumps_fit code \<Longrightarrow> i < length code \<Longrightarrow> check_jump (length code) (i, code ! i) = []"
  by (auto simp: jumps_fit_def check_jump_def Let_def split: option.splits)

lemma consts_fit_check: "consts_fit rx consts \<Longrightarrow> k \<in> set consts \<Longrightarrow> e \<in> set (check_constant lim rx (i, k)) \<Longrightarrow> limit_error e"
  by (cases k) (auto simp: consts_fit_def check_constant_def split: if_splits)

text \<open>
  C28: The validator rejects no script of the compiler for its structure. Every constant, slot, argument
  count and jump of compiled code is in range and its loops are balanced; what the validator can object to
  is the number of instructions, locals or constants, the length of a string, the bytes of the pool, or
  the depth of loops.
\<close>

theorem compiled_script_passes_structural_checks:
  assumes "compile rx p = Inr script" "length (cs_code script) < 2 ^ 31" "e \<in> set (validate lim rx script)"
  shows "limit_error e"
proof -
  obtain c where c: "comp_wf rx c" "loops_after 0 (co_code c) = Some 0" "cs_code script = co_code c"
      "cs_constants script = co_constants c" "cs_local_count script = co_next_slot c"
    using compiled_wf [OF assms(1,2)] .
  let ?code = "enumerate 0 (co_code c)"
  have "check_const_index (co_constants c) x = [] \<and> check_arg_count x = [] \<and> check_slot (co_next_slot c) x = []
      \<and> check_jump (length (co_code c)) x = []" if x: "x \<in> set ?code" for x
  proof -
    have i: "fst x < length (co_code c)" "x = (fst x, co_code c ! fst x)" using x by (auto simp: in_set_enumerate_eq prod_eq_iff)
    show ?thesis
      using c(1) i(1) op_fits_checks [of "co_constants c" "co_next_slot c" "co_code c ! fst x" "fst x"] jumps_fit_check [of "co_code c" "fst x"]
      by (subst (1 2 3 4) i(2)) (simp add: comp_wf_def)
  qed
  moreover have "limit_error e" if "x \<in> set (enumerate 0 (co_constants c))" "e \<in> set (check_constant lim rx x)" for x
    using that c(1) consts_fit_check [of rx "co_constants c" "snd x" e lim "fst x"]
      nth_mem [of "fst x" "co_constants c"]
    by (simp add: comp_wf_def in_set_enumerate_eq)
  moreover have "check_loops 0 ?code = []" using check_loops_Nil [OF c(2), of 0] by simp
  ultimately show ?thesis
    using assms(3) unfolding validate_def Let_def c(3-5) by (auto split: if_splits)
qed

theorem compiled_script_passes_structural_checks_witness: "limit_error (VeInstructions 28 3)"
proof (rule compiled_script_passes_structural_checks [OF sample_compiles(1)])
  show "VeInstructions 28 3 \<in> set (validate (default_validation_limits\<lparr>vl_max_instructions := 3\<rparr>) (regex_new sample_env) sample_script)"
    by code_simp
qed (simp add: sample_script_def)

end
