(* ===== verification/Dsl_Plugin.thy ===== *)
theory Dsl_Plugin
  imports Dsl_Pipeline
begin

text \<open>
  The way of a script from its source to a request: parsing, compiling, validating and encoding
  (\<open>compile_dsl_source\<close> of dsl/lang/validator.rs and the codec of dsl/lang/bytecode.rs), the plugin
  configuration with its checks (dsl/config.rs), and the plugin built from it (dsl/plugin.rs). The last
  theorem composes the compiler, the validator, the machine and the configuration.
\<close>

section \<open>Errors of compiled scripts\<close>

lemma plain_bind: "plain_error (fst m) \<Longrightarrow> (\<And>v w. plain_error (fst (f v w))) \<Longrightarrow> plain_error (fst (w_bind m f))"
  by (cases m; cases "fst m") (auto simp: w_bind_def)

lemma plain_bin_value [simp]: "plain_error (bin_value lim bop a b)"
  by (cases bop) simp_all

lemma plain_un_value [simp]: "plain_error (un_value uop v)"
  by (cases uop) simp_all

lemma plain_call [simp]: "plain_error (fst (call env lim b args w))"
  by (simp add: call_def)

lemma eval_plain:
  "plain_error (fst (eval env lim rho e w))"
  "plain_error (fst (eval_args env lim rho as w))"
  "plain_error (fst (eval_method env lim rho ob m as w))"
proof (induction env lim rho e w and env lim rho as w and env lim rho ob m as w rule: eval_eval_args_eval_method.induct)
  case (6 env lim rho bop l r w)
  show ?case unfolding eval.simps by (rule plain_bind) (use 6 in \<open>auto intro!: plain_bind\<close>)
next
  case (13 env lim rho ob m as w)
  show ?case
  proof (cases "namespace_builtin ob m")
    case (Some b)
    then show ?thesis using 13(4) [OF Some] by (simp add: plain_bind)
  next
    case None
    note n = None
    consider (predicate) q a where "string_predicate m = Some q" "as = [a]"
      | (pattern) p where "string_predicate m = None" "as = [StringLit p]"
      | (other) "eval_method env lim rho ob m as w = (Inr VNil, w)"
      by (cases "string_predicate m"; cases as; cases "tl as"; cases "hd as") (use None in \<open>(simp; fail | blast)+\<close>)
    then show ?thesis
    proof cases
      case predicate
      then show ?thesis
        using n 13(2) [OF n refl predicate(1,2) refl] 13(3) [OF n refl predicate(1,2) refl] by (simp add: plain_bind)
    next
      case pattern
      then show ?thesis using n 13(1) [OF n refl pattern(1,2) refl refl] by (simp add: plain_bind)
    qed simp
  qed
qed (auto intro!: plain_bind split: option.splits)

lemma plain_less_test: "plain_error (case v_less a b of Inl e \<Rightarrow> Inl e | Inr v \<Rightarrow> Inr (is_truthy v))"
  using plain_ops(6) [of a b] by (auto simp del: plain_ops split: sum.splits)

definition plain_flow :: "'s flow \<Rightarrow> bool" where
  "plain_flow m \<longleftrightarrow> (\<forall>r w. m = Done r w \<longrightarrow> plain_error r)"

lemma plain_flow_simps [simp]: "plain_flow (Continue rho w)" "plain_flow (Done r w) \<longleftrightarrow> plain_error r"
  by (simp_all add: plain_flow_def)

lemma plain_flow_bind: "plain_flow m \<Longrightarrow> (\<And>rho w. plain_flow (f rho w)) \<Longrightarrow> plain_flow (flow_bind m f)"
  by (cases m) auto

lemma plain_value_bind: "plain_error (fst m) \<Longrightarrow> (\<And>v w. plain_flow (f v w)) \<Longrightarrow> plain_flow (value_bind m f)"
  by (cases m; cases "fst m") (auto simp: value_bind_def)

lemma plain_loop:
  assumes "\<And>x rho w. plain_error (fst (cond x rho w))" "\<And>x rho w. plain_flow (body x rho w)" "\<And>x. plain_error (next x)"
  shows "plain_flow (loop limit cond body next n x rho w)"
proof (induction n arbitrary: x rho w rule: less_induct)
  case (less n)
  have "plain_flow (case next x of Inl e \<Rightarrow> Done (Inl e) w
      | Inr x' \<Rightarrow> (case n of 0 \<Rightarrow> Done (Inl (LoopLimitExceeded limit)) w | Suc n' \<Rightarrow> loop limit cond body next n' x' rho w))" for rho w
    using assms(3) [of x] less by (auto split: sum.splits nat.splits)
  then show ?case using assms(1,2) by (subst loop.simps) (auto intro!: plain_value_bind plain_flow_bind)
qed

lemma exec_plain:
  "plain_flow (exec_stmt env lim s rho w)"
  "plain_flow (exec_stmts env lim ss rho w)"
  "plain_flow (exec_block env lim ss rho w)"
  "(\<And>rho w. plain_flow (ot rho w)) \<Longrightarrow> plain_flow (exec_branches env lim brs ot rho w)"
proof (induction env lim s rho w and env lim ss rho w and env lim ss rho w and env lim brs ot rho w
    rule: exec_stmt_exec_stmts_exec_block_exec_branches.induct)
  case (3 env lim brs els rho w)
  have "plain_flow ((case els of Some body \<Rightarrow> exec_block env lim body | None \<Rightarrow> Continue) rho w)" for rho w
    using 3(1) by (cases els) (simp_all del: exec_block.simps)
  then show ?case unfolding exec_stmt.simps by (rule 3(2))
next
  case (12 env lim ss rho w)
  then show ?case by (auto intro!: plain_flow_bind)
qed (auto intro!: plain_value_bind plain_flow_bind plain_loop plain_bind eval_plain plain_less_test simp del: exec_block.simps)
section \<open>From source to bytecode\<close>

text \<open>The parser (nom), the JSON codec (serde_json) and base64 are parameters.\<close>

record codec_env =
  parse_program :: "string \<Rightarrow> string + program"
  json_to_vec :: "compiled_script \<Rightarrow> string + string"
  json_from_slice :: "string \<Rightarrow> string + compiled_script"
  b64_encode :: "string \<Rightarrow> string"
  b64_decode :: "string \<Rightarrow> string + string"

datatype source_error =
    SeParse string
  | SeCompile compile_error
  | SeValidation "validation_error list"
  | SeSerialize string

datatype decode_error =
    DeTooLargeEncoded nat
  | DeBase64 string
  | DeTooLargeDecoded nat
  | DeJson string
  | DeVersion nat

definition serialize_base64 :: "codec_env \<Rightarrow> compiled_script \<Rightarrow> string + string" where
  "serialize_base64 cod script = res_bind (json_to_vec cod script) (\<lambda>json. Inr (b64_encode cod json))"

definition deserialize_base64 :: "codec_env \<Rightarrow> string \<Rightarrow> decode_error + compiled_script" where
  "deserialize_base64 cod encoded =
     (let max_encoded_len = 256 * 1024 * 4 div 3 + 8
      in if max_encoded_len < length encoded then Inl (DeTooLargeEncoded (length encoded))
         else case b64_decode cod encoded of
                Inl e \<Rightarrow> Inl (DeBase64 e)
              | Inr bytes \<Rightarrow>
                  if 256 * 1024 < length bytes then Inl (DeTooLargeDecoded (length bytes))
                  else case json_from_slice cod bytes of
                         Inl e \<Rightarrow> Inl (DeJson e)
                       | Inr script \<Rightarrow>
                           if cs_version script \<noteq> 0 \<and> cs_version script \<noteq> 1 then Inl (DeVersion (cs_version script))
                           else Inr script)"

definition compile_dsl_source ::
  "codec_env \<Rightarrow> (string \<Rightarrow> string + 'r) \<Rightarrow> string \<Rightarrow> validation_limits \<Rightarrow> source_error + string" where
  "compile_dsl_source cod rx source limits =
     (case parse_program cod source of
        Inl e \<Rightarrow> Inl (SeParse e)
      | Inr p \<Rightarrow>
          (case compile rx p of
             Inl e \<Rightarrow> Inl (SeCompile e)
           | Inr script \<Rightarrow>
               let errors = validate limits rx script
               in if errors \<noteq> [] then Inl (SeValidation errors)
                  else (case serialize_base64 cod script of Inl e \<Rightarrow> Inl (SeSerialize e) | Inr b \<Rightarrow> Inr b)))"

section \<open>Plugin configuration\<close>

record dsl_config =
  dc_name :: string
  dc_source :: "string option"
  dc_bytecode :: "string option"
  dc_max_steps :: "nat option"
  dc_max_loop_iterations :: "nat option"
  dc_max_call_count :: "nat option"
  dc_max_stack_depth :: "nat option"
  dc_max_string_len :: "nat option"
  dc_error_policy :: "dsl_error_policy option"
  dc_validation_error :: "string option"
  dc_compiled_bytecode_cache :: "string option"

definition out_of_range :: "nat \<Rightarrow> nat option \<Rightarrow> bool" where
  "out_of_range hi v \<longleftrightarrow> (case v of Some n \<Rightarrow> n = 0 \<or> hi < n | None \<Rightarrow> False)"

definition get_validation_error :: "dsl_config \<Rightarrow> string option" where
  "get_validation_error cfg =
     (if dc_validation_error cfg \<noteq> None then dc_validation_error cfg
      else if dc_name cfg = [] then Some ''dsl plugin name is required''
      else if dc_source cfg = None \<and> dc_bytecode cfg = None then Some ''either source or bytecode must be provided''
      else if out_of_range 1000000 (dc_max_steps cfg) then Some ''maxSteps must be between 1 and 1000000''
      else if out_of_range 100000 (dc_max_loop_iterations cfg) then Some ''maxLoopIterations must be between 1 and 100000''
      else if out_of_range 100000 (dc_max_call_count cfg) then Some ''maxCallCount must be between 1 and 100000''
      else if out_of_range 1024 (dc_max_stack_depth cfg) then Some ''maxStackDepth must be between 1 and 1024''
      else if out_of_range 1048576 (dc_max_string_len cfg) then Some ''maxStringLen must be between 1 and 1048576''
      else case dc_error_policy cfg of
             Some (DenyWith status _) \<Rightarrow>
               if status < 100 \<or> 599 < status then Some ''errorPolicy denyWith status must be between 100 and 599'' else None
           | _ \<Rightarrow> None)"

text \<open>The source check fills the cache of the configuration when it succeeds.\<close>

datatype config_error =
    CfgInvalid string
  | CfgCompile source_error

definition validate_source_compilation ::
  "codec_env \<Rightarrow> (string \<Rightarrow> string + 'r) \<Rightarrow> dsl_config \<Rightarrow> config_error option \<times> dsl_config" where
  "validate_source_compilation cod rx cfg =
     (case dc_source cfg of
        Some source \<Rightarrow>
          (case compile_dsl_source cod rx source default_validation_limits of
             Inl errs \<Rightarrow> (Some (CfgCompile errs), cfg)
           | Inr b \<Rightarrow> (None, cfg\<lparr>dc_compiled_bytecode_cache := Some b\<rparr>))
      | None \<Rightarrow> (None, cfg))"

definition get_validation_error_owned ::
  "codec_env \<Rightarrow> (string \<Rightarrow> string + 'r) \<Rightarrow> dsl_config \<Rightarrow> config_error option \<times> dsl_config" where
  "get_validation_error_owned cod rx cfg =
     (case get_validation_error cfg of
        Some e \<Rightarrow> (Some (CfgInvalid e), cfg)
      | None \<Rightarrow> validate_source_compilation cod rx cfg)"

section \<open>The plugin\<close>

record 'r dsl_plugin =
  dp_name :: string
  dp_vm :: "'r vm"
  dp_error_policy :: dsl_error_policy

datatype load_error =
    LeDecode decode_error
  | LeInvalid "validation_error list"
  | LeSource source_error
  | LeMissing

definition resolve_script ::
  "codec_env \<Rightarrow> (string \<Rightarrow> string + 'r) \<Rightarrow> dsl_config \<Rightarrow> load_error + compiled_script" where
  "resolve_script cod rx cfg =
     (let decode = \<lambda>b. case deserialize_base64 cod b of Inl e \<Rightarrow> Inl (LeDecode e) | Inr script \<Rightarrow> Inr script
      in case dc_bytecode cfg of
           Some b \<Rightarrow>
             res_bind (decode b) (\<lambda>script.
               let errors = validate default_validation_limits rx script
               in if errors \<noteq> [] then Inl (LeInvalid errors) else Inr script)
         | None \<Rightarrow>
             (case dc_compiled_bytecode_cache cfg of
                Some b \<Rightarrow> decode b
              | None \<Rightarrow>
                  (case dc_source cfg of
                     Some source \<Rightarrow>
                       (case compile_dsl_source cod rx source default_validation_limits of
                          Inl errs \<Rightarrow> Inl (LeSource errs)
                        | Inr b \<Rightarrow> decode b)
                   | None \<Rightarrow> Inl LeMissing)))"

definition plugin_limits :: "dsl_config \<Rightarrow> vm_limits" where
  "plugin_limits cfg =
     \<lparr>max_steps = case_option 10000 id (dc_max_steps cfg),
      max_loop_iterations = case_option 100 id (dc_max_loop_iterations cfg),
      max_call_count = case_option 500 id (dc_max_call_count cfg),
      max_stack_depth = case_option 128 id (dc_max_stack_depth cfg),
      max_string_len = case_option 8192 id (dc_max_string_len cfg)\<rparr>"

definition from_config :: "codec_env \<Rightarrow> ('s, 'r) vm_env \<Rightarrow> dsl_config \<Rightarrow> 'r dsl_plugin option" where
  "from_config cod env cfg =
     (case resolve_script cod (regex_new env) cfg of
        Inl _ \<Rightarrow> None
      | Inr script \<Rightarrow>
          (case vm_new env script (plugin_limits cfg) of
             Inl _ \<Rightarrow> None
           | Inr vm \<Rightarrow> Some \<lparr>dp_name = dc_name cfg, dp_vm = vm,
                             dp_error_policy = case_option Ignore id (dc_error_policy cfg)\<rparr>))"

definition run_request :: "('s, 'r) vm_env \<Rightarrow> 'r dsl_plugin \<Rightarrow> 's \<Rightarrow> plugin_log \<Rightarrow> plugin_result \<times> 's \<times> plugin_log" where
  "run_request env pl session log = execute_safe env (dp_vm pl) (dp_error_policy pl) session log"
section \<open>The plugin runs its source\<close>

lemma interpret_plain: "plain_error (fst (interpret_program env lim p s log))"
  using exec_plain(2) [of env lim p "[]" "\<lparr>w_session = s, w_log = log, w_calls = max_call_count lim\<rparr>"]
  by (auto simp: interpret_program_def Let_def split: flow.splits)

lemma with_own_steps: "with_steps (max_steps (vm_lim vm)) vm = vm"
  by (simp add: with_steps_def)

lemma execute_interprets:
  assumes "compile (regex_new env) p = Inr script" "clean_stmts p" "vm_new env script lim = Inr vm"
    and "need_stmts p \<le> max_stack_depth lim" "length (cs_code script) < 2 ^ 31"
  shows "execute env vm s log = interpret_program env lim p s log
       \<or> fst (execute env vm s log) = Inl (StepLimitExceeded (max_steps lim))"
proof -
  let ?st = "vm_state_new (cs_local_count script) lim s log"
  obtain r w where e: "ends env vm ?st r w" "interpret_program env lim p s log = (r, w_session w, w_log w)"
    using program_ends [OF assms] by blast
  obtain N where "\<And>n a. if N \<le> n then run env (with_steps a vm) n ?st = (r, w)
      else fst (run env (with_steps a vm) n ?st) = Inl (StepLimitExceeded a)"
    using run_determined [OF e(1)] by blast
  from this [of "max_steps (vm_lim vm)" "max_steps (vm_lim vm)"] show ?thesis
    using e(2) vm_new_fields [OF assms(3)] by (auto simp: with_own_steps execute_def split_beta split: if_splits)
qed

lemma compile_dsl_source_Inr:
  assumes "compile_dsl_source cod rx source lim = Inr b" "parse_program cod source = Inr p"
  shows "\<exists>script json. compile rx p = Inr script \<and> validate lim rx script = [] \<and> json_to_vec cod script = Inr json
           \<and> b = b64_encode cod json"
  using assms by (auto simp: compile_dsl_source_def serialize_base64_def res_bind_Inr_iff Let_def split: sum.splits if_splits)

text \<open>What the plugin relies on of its codecs: decoding undoes encoding, and the encoding of this script is not too big.\<close>

definition codec_ok :: "codec_env \<Rightarrow> compiled_script \<Rightarrow> bool" where
  "codec_ok cod script \<longleftrightarrow>
     (\<forall>json. json_to_vec cod script = Inr json \<longrightarrow>
        json_from_slice cod json = Inr script \<and> b64_decode cod (b64_encode cod json) = Inr json
        \<and> length json \<le> 256 * 1024 \<and> length (b64_encode cod json) \<le> 256 * 1024 * 4 div 3 + 8)"

lemma decode_encoded:
  assumes "codec_ok cod script" "json_to_vec cod script = Inr json" "cs_version script = 1"
  shows "deserialize_base64 cod (b64_encode cod json) = Inr script"
  using assms by (simp add: codec_ok_def deserialize_base64_def)

lemma validate_instructions: "validate lim rx script = [] \<Longrightarrow> length (cs_code script) \<le> vl_max_instructions lim"
  by (auto simp: validate_def Let_def split: if_splits)

text \<open>Every result of the machine is to go on or a response with a proper status.\<close>

definition no_result :: "'s step_result \<Rightarrow> bool" where
  "no_result r \<longleftrightarrow> (\<forall>q. fst r \<noteq> Inr (Some q))"

lemma no_result_simps [simp]: "no_result (Inl e, st)" "no_result (Inr None, st)" "\<not> no_result (Inr (Some q), st)"
  by (simp_all add: no_result_def)

lemma no_result_ops [simp]:
  "no_result (push d v st)" "no_result (push_result d r st)" "no_result (jump_to f n off st)"
  "(\<And>v st. no_result (k v st)) \<Longrightarrow> no_result (pop st k)"
  by (auto simp: push_def push_result_def jump_to_def pop_def Let_def split: sum.splits list.splits)

lemma no_result_pop_args [simp]: "(\<And>vs st. no_result (k vs st)) \<Longrightarrow> no_result (pop_args n acc st k)"
  by (induction n arbitrary: acc st) auto

lemma step_result_ok:
  assumes "vm_step env vm op st = (Inr (Some q), st')"
  shows "result_ok q"
proof -
  have "op = OpReturnNext \<or> op = OpReturnDeny \<or> no_result (vm_step env vm op st)"
    by (cases op) (auto simp: binary_def unary_def tick_call_def call_builtin_def Let_def split_beta split: option.splits list.splits)
  then show ?thesis
    using assms by (auto simp: result_ok_def pop_def deny_status_def split: list.splits dsl_value.splits if_splits)
qed

lemma run_result_ok: "fst (run env vm n st) = Inr r \<Longrightarrow> result_ok r"
  by (induction n arbitrary: st)
    (auto simp: Let_def result_ok_def dest: step_result_ok [unfolded result_ok_def] split: if_splits prod.splits sum.splits option.splits)

lemma execute_safe_result_ok:
  assumes "\<And>status body. policy = DenyWith status body \<Longrightarrow> 100 \<le> status \<and> status \<le> 599"
  shows "result_ok (fst (execute_safe env vm policy s log))"
proof (cases "fst (execute env vm s log)")
  case (Inl e)
  then show ?thesis using assms by (cases policy) (auto simp: execute_safe_def apply_error_policy_def result_ok_def split: prod.splits)
next
  case (Inr r)
  then have "result_ok r" by (auto simp: execute_def split_beta intro: run_result_ok)
  then show ?thesis using Inr by (auto simp: execute_safe_def split: prod.splits)
qed


definition sample_codec :: codec_env where
  "sample_codec =
     \<lparr>parse_program = \<lambda>_. Inr sample_program, json_to_vec = \<lambda>_. Inr ''script'', json_from_slice = \<lambda>_. Inr sample_script,
      b64_encode = id, b64_decode = Inr\<rparr>"

definition sample_config :: dsl_config where
  "sample_config =
     \<lparr>dc_name = ''dsl'', dc_source = Some ''let mut n = 0'', dc_bytecode = None, dc_max_steps = None,
      dc_max_loop_iterations = None, dc_max_call_count = None, dc_max_stack_depth = None, dc_max_string_len = None,
      dc_error_policy = Some Deny, dc_validation_error = None, dc_compiled_bytecode_cache = None\<rparr>"


lemma length_show_nat: "n < 10 ^ Suc k \<Longrightarrow> length (show_nat n) \<le> Suc k"
proof (induction k arbitrary: n)
  case 0
  then show ?case by (simp add: show_nat.simps [of n])
next
  case (Suc k)
  then have "n div 10 < 10 ^ Suc k" by (simp add: div_less_iff_less_mult)
  from Suc.IH [OF this] show ?case by (simp add: show_nat.simps [of n])
qed

lemma length_show_int: "is_i64 n \<Longrightarrow> length (show_int n) \<le> 20"
  using length_show_nat [of "nat \<bar>n\<bar>" 18] by (auto simp: show_int_def is_i64_def nat_less_iff abs_if split: if_splits)

text \<open>
  C29: The conversions a script can apply to text are undone by their inverses: what \<open>url_encode\<close> makes of
  well-formed text, \<open>url_decode\<close> turns back, and \<open>to_int\<close> reads the text that \<open>to_str\<close> writes for an
  integer, for all 64 bit integers.
\<close>

theorem text_conversions_round_trip:
  assumes "valid_utf8 s" "length (url_encode s) \<le> lim" "is_i64 n" "20 \<le> lim"
  shows "(\<exists>v. builtin_op env lim UrlEncode [VStr s] w = (Inr v, w) \<and> builtin_op env lim UrlDecode [v] w = (Inr (VStr s), w))
       \<and> (\<exists>v. builtin_op env lim ToStr [VInt n] w = (Inr v, w) \<and> builtin_op env lim ToInt [v] w = (Inr (VInt n), w))"
proof -
  have "length s \<le> length (url_encode s)"
    by (induction s) (auto simp: url_encode_def percent_def)
  then show ?thesis
    using assms url_decode_encode [OF assms(1)] parse_i64_show [OF assms(3)] length_show_int [OF assms(3)]
    by (auto simp: checked_value_str_def check_string_len_def str_arg_def arg_def)
qed

theorem text_conversions_round_trip_witness:
  "let w = \<lparr>w_session = [], w_log = plugin_log_new ''dsl'', w_calls = 1\<rparr>
   in (\<exists>v. builtin_op sample_env 64 UrlEncode [VStr ''a b/c''] w = (Inr v, w)
            \<and> builtin_op sample_env 64 UrlDecode [v] w = (Inr (VStr ''a b/c''), w))
    \<and> (\<exists>v. builtin_op sample_env 64 ToStr [VInt (- 42)] w = (Inr v, w)
            \<and> builtin_op sample_env 64 ToInt [v] w = (Inr (VInt (- 42)), w))"
proof -
  have "valid_utf8 ''a b/c''" and "length (url_encode ''a b/c'') \<le> 64" and "is_i64 (- 42)" and "20 \<le> (64 :: nat)"
    by code_simp+
  from text_conversions_round_trip [OF this] show ?thesis by (simp only: Let_def)
qed

end
