(* ===== verification/Rust_Std.thy ===== *)
theory Rust_Std
  imports Edgion_Prelude
begin

text \<open>
  The parts of the Rust standard library that the address handling of the gateway uses: splitting and
  trimming of strings, the parsers of \<open>u8\<close>, of IP addresses and of socket addresses, and the textual
  form of IP addresses. Strings are lists of UTF-8 bytes.
\<close>

section \<open>Splitting and trimming\<close>

text \<open>\<open>str::split\<close> by an ASCII character: the pieces between its occurrences, at least one.\<close>

fun split_char :: "char \<Rightarrow> string \<Rightarrow> string list" where
  "split_char c [] = [[]]"
| "split_char c (x # xs) =
     (if x = c then [] # split_char c xs
      else (case split_char c xs of [] \<Rightarrow> [[x]] | p # ps \<Rightarrow> (x # p) # ps))"

lemma split_char_not_Nil [simp]: "split_char c s \<noteq> []"
  by (induction s) (auto split: list.splits)

lemma split_char_absent: "c \<notin> set s \<Longrightarrow> split_char c s = [s]"
  by (induction s) auto

lemma split_char_append: "c \<notin> set p \<Longrightarrow> split_char c (p @ c # s) = p # split_char c s"
  by (induction p) auto

lemma split_char_append_last: "split_char c (s @ c # t) = split_char c s @ split_char c t"
  by (induction s) (auto split: list.splits)

text \<open>
  \<open>str::trim\<close> removes characters with the Unicode property \<open>White_Space\<close>. \<open>ws_len\<close> is the number of
  bytes of such a character at the front of the bytes, \<open>ws_len_rev\<close> at the front of the reversed bytes.
\<close>

definition ws_chars :: "nat list list" where
  "ws_chars = [[9], [10], [11], [12], [13], [32], [0xC2, 0x85], [0xC2, 0xA0], [0xE1, 0x9A, 0x80]]
     @ map (\<lambda>b. [0xE2, 0x80, b]) ([0x80..<0x8B] @ [0xA8, 0xA9, 0xAF]) @ [[0xE2, 0x81, 0x9F], [0xE3, 0x80, 0x80]]"

definition ws_len :: "nat list list \<Rightarrow> string \<Rightarrow> nat" where
  "ws_len cs s =
     (case List.find (\<lambda>w. take (length w) (map of_char s) = w) cs of Some w \<Rightarrow> length w | None \<Rightarrow> 0)"

function trim_front :: "nat list list \<Rightarrow> string \<Rightarrow> string" where
  "trim_front cs s = (if s = [] \<or> ws_len cs s = 0 then s else trim_front cs (drop (ws_len cs s) s))"
  by pat_completeness auto

termination by (relation "measure (\<lambda>(cs, s). length s)") auto

declare trim_front.simps [simp del]

definition trim :: "string \<Rightarrow> string" where
  "trim s = rev (trim_front (map rev ws_chars) (rev (trim_front ws_chars s)))"

section \<open>Unsigned bytes\<close>

datatype int_error = IeEmpty | IeInvalidDigit | IePosOverflow

fun display_int_error :: "int_error \<Rightarrow> string" where
  "display_int_error IeEmpty = ''cannot parse integer from empty string''"
| "display_int_error IeInvalidDigit = ''invalid digit found in string''"
| "display_int_error IePosOverflow = ''number too large to fit in target type''"

fun u8_digits :: "nat \<Rightarrow> string \<Rightarrow> int_error + nat" where
  "u8_digits acc [] = Inr acc"
| "u8_digits acc (c # cs) =
     (case digit_value c of
        None \<Rightarrow> Inl IeInvalidDigit
      | Some d \<Rightarrow> if 255 < acc * 10 + d then Inl IePosOverflow else u8_digits (acc * 10 + d) cs)"

definition parse_u8 :: "string \<Rightarrow> int_error + nat" where
  "parse_u8 s =
     (if s = [] then Inl IeEmpty
      else if s = [CHR 0x2B] \<or> s = [CHR 0x2D] then Inl IeInvalidDigit
      else u8_digits 0 (if hd s = CHR 0x2B then tl s else s))"

lemma u8_digits_le: "u8_digits acc s = Inr n \<Longrightarrow> acc \<le> 255 \<Longrightarrow> n \<le> 255"
  by (induction s arbitrary: acc) (auto split: option.splits if_splits)

lemma parse_u8_le: "parse_u8 s = Inr n \<Longrightarrow> n \<le> 255"
  by (auto simp: parse_u8_def dest: u8_digits_le split: if_splits)

section \<open>IP addresses\<close>

datatype ip_addr = V4 "32 word" | V6 "128 word"

text \<open>A parser returns the value it read and the rest of the input, or None without reading anything.\<close>

definition hex_digit_value :: "char \<Rightarrow> nat option" where
  "hex_digit_value c =
     (let n = of_char c
      in if 48 \<le> n \<and> n \<le> 57 then Some (n - 48)
         else if 97 \<le> n \<and> n \<le> 102 then Some (n - 87)
         else if 65 \<le> n \<and> n \<le> 70 then Some (n - 55) else None)"

definition to_digit :: "nat \<Rightarrow> char \<Rightarrow> nat option" where
  "to_digit radix c = Option.bind (hex_digit_value c) (\<lambda>d. if d < radix then Some d else None)"

definition digits_value :: "nat \<Rightarrow> string \<Rightarrow> nat" where
  "digits_value radix ds = foldl (\<lambda>acc c. acc * radix + (case to_digit radix c of Some d \<Rightarrow> d | None \<Rightarrow> 0)) 0 ds"

definition read_number :: "nat \<Rightarrow> nat option \<Rightarrow> bool \<Rightarrow> nat \<Rightarrow> string \<Rightarrow> (nat \<times> string) option" where
  "read_number radix max_digits allow_zero_prefix bound s =
     (let ds = takeWhile (\<lambda>c. to_digit radix c \<noteq> None) s
      in if ds = [] \<or> (case max_digits of Some m \<Rightarrow> m < length ds | None \<Rightarrow> False)
            \<or> (\<not> allow_zero_prefix \<and> hd ds = CHR 0x30 \<and> 1 < length ds)
            \<or> bound \<le> digits_value radix ds
         then None else Some (digits_value radix ds, drop (length ds) s))"

definition read_given_char :: "char \<Rightarrow> string \<Rightarrow> string option" where
  "read_given_char c s = (case s of [] \<Rightarrow> None | x # xs \<Rightarrow> if x = c then Some xs else None)"

definition read_separator :: "char \<Rightarrow> nat \<Rightarrow> (string \<Rightarrow> ('a \<times> string) option) \<Rightarrow> string \<Rightarrow> ('a \<times> string) option" where
  "read_separator sep index inner s =
     (if 0 < index then Option.bind (read_given_char sep s) inner else inner s)"

definition read_octet :: "nat \<Rightarrow> string \<Rightarrow> (nat \<times> string) option" where
  "read_octet index = read_separator (CHR 0x2E) index (read_number 10 (Some 3) False 256)"

definition read_ipv4_addr :: "string \<Rightarrow> (nat \<times> string) option" where
  "read_ipv4_addr s =
     Option.bind (read_octet 0 s) (\<lambda>(a, s). Option.bind (read_octet 1 s) (\<lambda>(b, s).
     Option.bind (read_octet 2 s) (\<lambda>(c, s). Option.bind (read_octet 3 s) (\<lambda>(d, s).
       Some (((a * 256 + b) * 256 + c) * 256 + d, s)))))"

function read_groups :: "nat \<Rightarrow> nat \<Rightarrow> string \<Rightarrow> nat list \<times> bool \<times> string" where
  "read_groups limit i s =
     (if limit \<le> i then ([], False, s)
      else (case (if i < limit - 1 then read_separator (CHR 0x3A) i read_ipv4_addr s else None) of
              Some (v4, r) \<Rightarrow> ([v4 div 65536, v4 mod 65536], True, r)
            | None \<Rightarrow>
                (case read_separator (CHR 0x3A) i (read_number 16 (Some 4) True 65536) s of
                   None \<Rightarrow> ([], False, s)
                 | Some (g, r) \<Rightarrow> (let (gs, v4, r') = read_groups limit (Suc i) r in (g # gs, v4, r')))))"
  by pat_completeness auto

termination by (relation "measure (\<lambda>(limit, i, s). limit - i)") auto

declare read_groups.simps [simp del]

definition groups_value :: "nat list \<Rightarrow> nat" where
  "groups_value gs = foldl (\<lambda>acc g. acc * 65536 + g) 0 gs"

definition read_ipv6_addr :: "string \<Rightarrow> (nat \<times> string) option" where
  "read_ipv6_addr s =
     (let (hd_groups, hd_v4, r) = read_groups 8 0 s
      in if length hd_groups = 8 then Some (groups_value hd_groups, r)
         else if hd_v4 then None
         else Option.bind (Option.bind (read_given_char (CHR 0x3A) r) (read_given_char (CHR 0x3A))) (\<lambda>r.
           let (tl_groups, _, r') = read_groups (8 - (length hd_groups + 1)) 0 r
           in Some (groups_value (hd_groups @ replicate (8 - length hd_groups - length tl_groups) 0 @ tl_groups), r')))"

definition read_ip_addr :: "string \<Rightarrow> (ip_addr \<times> string) option" where
  "read_ip_addr s =
     (case read_ipv4_addr s of
        Some (a, r) \<Rightarrow> Some (V4 (of_nat a), r)
      | None \<Rightarrow> map_option (\<lambda>(a, r). (V6 (of_nat a), r)) (read_ipv6_addr s))"

text \<open>A value is parsed from a string when the whole input is read.\<close>

definition parse_with :: "('a \<times> string) option \<Rightarrow> 'a option" where
  "parse_with r = (case r of Some (x, []) \<Rightarrow> Some x | _ \<Rightarrow> None)"

definition parse_ip :: "string \<Rightarrow> ip_addr option" where
  "parse_ip s = parse_with (read_ip_addr s)"

definition read_port :: "string \<Rightarrow> (nat \<times> string) option" where
  "read_port s = Option.bind (read_given_char (CHR 0x3A) s) (read_number 10 None True 65536)"

definition read_scope :: "string \<Rightarrow> string" where
  "read_scope s =
     (case Option.bind (read_given_char (CHR 0x25) s) (read_number 10 None True 4294967296) of
        Some (_, r) \<Rightarrow> r
      | None \<Rightarrow> s)"

text \<open>\<open>SocketAddr\<close>: of the parsed value only the address is used; the port must be there.\<close>

definition read_socket_v4 :: "string \<Rightarrow> (ip_addr \<times> string) option" where
  "read_socket_v4 s =
     Option.bind (read_ipv4_addr s) (\<lambda>(a, r). map_option (\<lambda>(_, r'). (V4 (of_nat a), r')) (read_port r))"

definition read_socket_v6 :: "string \<Rightarrow> (ip_addr \<times> string) option" where
  "read_socket_v6 s =
     Option.bind (read_given_char (CHR 0x5B) s) (\<lambda>r. Option.bind (read_ipv6_addr r) (\<lambda>(a, r).
       Option.bind (read_given_char (CHR 0x5D) (read_scope r)) (\<lambda>r.
         map_option (\<lambda>(_, r'). (V6 (of_nat a), r')) (read_port r))))"

definition parse_socket_ip :: "string \<Rightarrow> ip_addr option" where
  "parse_socket_ip s =
     parse_with (case read_socket_v4 s of Some x \<Rightarrow> Some x | None \<Rightarrow> read_socket_v6 s)"

definition is_ipv4 :: "ip_addr \<Rightarrow> bool" where
  "is_ipv4 ip = (case ip of V4 _ \<Rightarrow> True | V6 _ \<Rightarrow> False)"

subsection \<open>The textual form\<close>

definition show_ipv4 :: "nat \<Rightarrow> string" where
  "show_ipv4 a =
     show_nat (a div 2 ^ 24 mod 256) @ ''.'' @ show_nat (a div 2 ^ 16 mod 256) @ ''.'' @
     show_nat (a div 2 ^ 8 mod 256) @ ''.'' @ show_nat (a mod 256)"

fun show_hex :: "nat \<Rightarrow> string" where
  "show_hex n =
     (let d = (\<lambda>k. char_of (if k < 10 then 48 + k else 87 + k :: nat))
      in if n < 16 then [d n] else show_hex (n div 16) @ [d (n mod 16)])"

declare show_hex.simps [simp del]

definition segments :: "nat \<Rightarrow> nat list" where
  "segments a = map (\<lambda>i. a div 65536 ^ (7 - i) mod 65536) [0..<8]"

text \<open>The first of the longest runs of zeros, as its start and its length.\<close>

fun zero_run :: "nat list \<Rightarrow> nat \<Rightarrow> nat \<times> nat \<Rightarrow> nat \<times> nat \<Rightarrow> nat \<times> nat" where
  "zero_run [] i cur longest = longest"
| "zero_run (g # gs) i cur longest =
     (if g = 0
      then (let cur = (if snd cur = 0 then i else fst cur, snd cur + 1)
            in zero_run gs (i + 1) cur (if snd longest < snd cur then cur else longest))
      else zero_run gs (i + 1) (0, 0) longest)"

definition fmt_subslice :: "nat list \<Rightarrow> string" where
  "fmt_subslice gs =
     (case gs of [] \<Rightarrow> [] | g # gs \<Rightarrow> show_hex g @ concat (map (\<lambda>g. CHR 0x3A # show_hex g) gs))"

definition show_ipv6 :: "nat \<Rightarrow> string" where
  "show_ipv6 a =
     (if a div 2 ^ 32 = 65535 then ''::ffff:'' @ show_ipv4 (a mod 2 ^ 32)
      else (let gs = segments a; (start, len) = zero_run gs 0 (0, 0) (0, 0)
            in if 1 < len then fmt_subslice (take start gs) @ ''::'' @ fmt_subslice (drop (start + len) gs)
               else fmt_subslice gs))"

definition show_ip :: "ip_addr \<Rightarrow> string" where
  "show_ip ip = (case ip of V4 a \<Rightarrow> show_ipv4 (unat a) | V6 a \<Rightarrow> show_ipv6 (unat a))"

end
