(* ===== verification/Ip_Radix.thy ===== *)
theory Ip_Radix
  imports Rust_Std "HOL-Library.Code_Target_Nat"
begin

text \<open>
  The IP address matcher of core/common/matcher/ip_radix_tree: CIDR notation (types.rs), the binary
  trees rules are inserted into (builder_v4.rs, builder_v6.rs), their flat form (frozen_v4.rs,
  frozen_v6.rs) and the matcher over both (matcher.rs). The two builders and the two frozen trees are the
  same code at 32 and at 128 bits; they are modelled once, at any word length. The last part shows that
  the matcher answers by the longest prefix, whatever rules were inserted in whatever order.
\<close>

unbundle bit_operations_syntax

section \<open>CIDR notation\<close>

datatype ip_radix_error =
    InvalidCidr string string
  | PrefixTooLong nat nat
  | TooManyNodes nat nat
  | EmptyTree
  | InvalidIpAddress string string

datatype ip_cidr = CidrV4 "32 word" nat | CidrV6 "128 word" nat

definition normalize :: "nat \<Rightarrow> 'a::len word \<Rightarrow> 'a word" where
  "normalize prefix_len addr =
     (if prefix_len = 0 then 0
      else if LENGTH('a) \<le> prefix_len then addr
      else addr AND push_bit (LENGTH('a) - prefix_len) (NOT 0))"

definition cidr_parse :: "string \<Rightarrow> ip_radix_error + ip_cidr" where
  "cidr_parse cidr_str =
     (case split_char (CHR 0x2F) cidr_str of
        [ip_str, prefix_str] \<Rightarrow>
          (case parse_u8 prefix_str of
             Inl e \<Rightarrow> Inl (InvalidCidr cidr_str (''invalid prefix length: '' @ display_int_error e))
           | Inr prefix_len \<Rightarrow>
               (case parse_ip ip_str of
                  None \<Rightarrow> Inl (InvalidIpAddress ip_str ''invalid IP address syntax'')
                | Some (V4 addr) \<Rightarrow>
                    if 32 < prefix_len then Inl (PrefixTooLong prefix_len 32)
                    else Inr (CidrV4 (normalize prefix_len addr) prefix_len)
                | Some (V6 addr) \<Rightarrow>
                    if 128 < prefix_len then Inl (PrefixTooLong prefix_len 128)
                    else Inr (CidrV6 (normalize prefix_len addr) prefix_len)))
      | _ \<Rightarrow> Inl (InvalidCidr cidr_str (''CIDR must be in format '' @ [CHR 0x27] @ ''address/prefix_len'' @ [CHR 0x27])))"

section \<open>The tree of the build phase\<close>

datatype build_node =
  BuildNode (bn_left: "build_node option") (bn_right: "build_node option") (bn_value: "bool option") (bn_prefix_len: nat)

definition build_node_new :: build_node where
  "build_node_new = BuildNode None None None 0"

text \<open>The bit at a position counted from the left, as the code computes it.\<close>

definition bit_at :: "'a::len word \<Rightarrow> nat \<Rightarrow> 'a word" where
  "bit_at ip current_bit = drop_bit (LENGTH('a) - 1 - current_bit) ip AND 1"

definition get_or_new :: "build_node option \<Rightarrow> build_node" where
  "get_or_new n = (case n of Some n \<Rightarrow> n | None \<Rightarrow> build_node_new)"

text \<open>Past the last bit the subtraction of the bit position overflows: a panic.\<close>

function insert_helper :: "build_node \<Rightarrow> 'a::len word \<Rightarrow> nat \<Rightarrow> bool \<Rightarrow> nat \<Rightarrow> build_node option" where
  "insert_helper node ip prefix_len allow current_bit =
     (case node of BuildNode l r v p \<Rightarrow>
        if current_bit = prefix_len then Some (BuildNode l r (Some allow) prefix_len)
        else if LENGTH('a) \<le> current_bit then None
        else if bit_at ip current_bit = 0
        then map_option (\<lambda>l'. BuildNode (Some l') r v p)
               (insert_helper (get_or_new l) ip prefix_len allow (current_bit + 1))
        else map_option (\<lambda>r'. BuildNode l (Some r') v p)
               (insert_helper (get_or_new r) ip prefix_len allow (current_bit + 1)))"
  by pat_completeness auto

termination by (relation "measure (\<lambda>(n, ip :: 'a word, p, a, c). LENGTH('a) - c)") auto

declare insert_helper.simps [simp del]

record radix_builder =
  rb_root :: build_node
  rb_rule_count :: nat

definition radix_builder_new :: radix_builder where
  "radix_builder_new = \<lparr>rb_root = build_node_new, rb_rule_count = 0\<rparr>"

definition builder_insert :: "'a::len word \<Rightarrow> nat \<Rightarrow> bool \<Rightarrow> radix_builder \<Rightarrow> radix_builder option" where
  "builder_insert addr prefix_len allow b =
     map_option (\<lambda>root. b\<lparr>rb_root := root, rb_rule_count := rb_rule_count b + 1\<rparr>)
       (insert_helper (rb_root b) addr prefix_len allow 0)"

definition v4_insert :: "string \<Rightarrow> bool \<Rightarrow> radix_builder \<Rightarrow> (ip_radix_error + radix_builder) option" where
  "v4_insert cidr_str allow b =
     (case cidr_parse cidr_str of
        Inl e \<Rightarrow> Some (Inl e)
      | Inr (CidrV4 addr prefix_len) \<Rightarrow> map_option Inr (builder_insert addr prefix_len allow b)
      | Inr (CidrV6 _ _) \<Rightarrow> Some (Inl (InvalidCidr cidr_str ''IPv6 CIDR not supported in IPv4 builder'')))"

definition v6_insert :: "string \<Rightarrow> bool \<Rightarrow> radix_builder \<Rightarrow> (ip_radix_error + radix_builder) option" where
  "v6_insert cidr_str allow b =
     (case cidr_parse cidr_str of
        Inl e \<Rightarrow> Some (Inl e)
      | Inr (CidrV6 addr prefix_len) \<Rightarrow> map_option Inr (builder_insert addr prefix_len allow b)
      | Inr (CidrV4 _ _) \<Rightarrow> Some (Inl (InvalidCidr cidr_str ''IPv4 CIDR not supported in IPv6 builder'')))"

section \<open>The frozen tree\<close>

record flat_ip_node =
  left_index :: u32
  right_index :: u32
  flat_prefix_len :: nat
  flags :: u8

definition has_value :: "flat_ip_node \<Rightarrow> bool" where
  "has_value n \<longleftrightarrow> flags n AND 1 \<noteq> 0"

definition get_value :: "flat_ip_node \<Rightarrow> bool" where
  "get_value n \<longleftrightarrow> flags n AND 2 \<noteq> 0"

definition encode_flags :: "bool option \<Rightarrow> u8" where
  "encode_flags v = (case v of Some True \<Rightarrow> 3 | Some False \<Rightarrow> 1 | None \<Rightarrow> 0)"

fun count_nodes :: "build_node \<Rightarrow> nat" where
  "count_nodes (BuildNode l r v p) =
     1 + (case l of Some n \<Rightarrow> count_nodes n | None \<Rightarrow> 0) + (case r of Some n \<Rightarrow> count_nodes n | None \<Rightarrow> 0)"

definition u32_max :: nat where
  "u32_max = 4294967295"

fun flatten_node :: "build_node \<Rightarrow> flat_ip_node list \<Rightarrow> ip_radix_error + (u32 \<times> flat_ip_node list)" where
  "flatten_node (BuildNode l r v p) nodes =
     (if u32_max \<le> length nodes then Inl (TooManyNodes (length nodes + 1) u32_max)
      else
        let node_idx = length nodes;
            nodes = nodes @ [\<lparr>left_index = 0, right_index = 0, flat_prefix_len = p, flags = encode_flags v\<rparr>]
        in res_bind (case l of Some n \<Rightarrow> flatten_node n nodes | None \<Rightarrow> Inr (0, nodes)) (\<lambda>(left_idx, nodes).
           res_bind (case r of Some n \<Rightarrow> flatten_node n nodes | None \<Rightarrow> Inr (0, nodes)) (\<lambda>(right_idx, nodes).
             Inr (of_nat node_idx,
                  nodes[node_idx := (nodes ! node_idx)\<lparr>left_index := left_idx, right_index := right_idx\<rparr>]))))"

definition from_builder :: "build_node \<Rightarrow> ip_radix_error + flat_ip_node list" where
  "from_builder root =
     (if u32_max < count_nodes root then Inl (TooManyNodes (count_nodes root) u32_max)
      else res_bind (flatten_node root []) (\<lambda>(_, nodes). Inr nodes))"

definition freeze :: "radix_builder \<Rightarrow> ip_radix_error + flat_ip_node list" where
  "freeze b = (if rb_rule_count b = 0 then Inl EmptyTree else from_builder (rb_root b))"

text \<open>The walk down the flat nodes; an index out of range panics.\<close>

function match_loop :: "flat_ip_node list \<Rightarrow> 'a::len word \<Rightarrow> nat \<Rightarrow> bool option \<Rightarrow> nat \<Rightarrow> bool option option" where
  "match_loop nodes ip node_idx last_match current_bit =
     (case nth_opt nodes node_idx of
        None \<Rightarrow> None
      | Some node \<Rightarrow>
          let last_match = (if has_value node then Some (get_value node) else last_match)
          in if LENGTH('a) \<le> current_bit then Some last_match
             else let next_idx = (if bit_at ip current_bit = 0 then left_index node else right_index node)
                  in if next_idx = 0 then Some last_match
                     else match_loop nodes ip (unat next_idx) last_match (current_bit + 1))"
  by pat_completeness auto

termination by (relation "measure (\<lambda>(n, ip :: 'a word, i, l, c). LENGTH('a) - c)") auto

declare match_loop.simps [simp del]

definition tree_match_ip :: "flat_ip_node list \<Rightarrow> 'a::len word \<Rightarrow> bool option option" where
  "tree_match_ip nodes ip = (if nodes = [] then Some None else match_loop nodes ip 0 None 0)"

section \<open>The matcher\<close>

record ip_radix_matcher =
  ipv4_tree :: "flat_ip_node list option"
  ipv6_tree :: "flat_ip_node list option"

record matcher_builder =
  v4_builder :: radix_builder
  v6_builder :: radix_builder

definition matcher_builder_new :: matcher_builder where
  "matcher_builder_new = \<lparr>v4_builder = radix_builder_new, v6_builder = radix_builder_new\<rparr>"

definition matcher_insert :: "string \<Rightarrow> bool \<Rightarrow> matcher_builder \<Rightarrow> (ip_radix_error + matcher_builder) option" where
  "matcher_insert cidr_str allow b =
     (case cidr_parse cidr_str of
        Inl e \<Rightarrow> Some (Inl e)
      | Inr (CidrV4 _ _) \<Rightarrow>
          map_option (\<lambda>r. res_bind r (\<lambda>v4. Inr (b\<lparr>v4_builder := v4\<rparr>))) (v4_insert cidr_str allow (v4_builder b))
      | Inr (CidrV6 _ _) \<Rightarrow>
          map_option (\<lambda>r. res_bind r (\<lambda>v6. Inr (b\<lparr>v6_builder := v6\<rparr>))) (v6_insert cidr_str allow (v6_builder b)))"

definition freeze_opt :: "radix_builder \<Rightarrow> ip_radix_error + flat_ip_node list option" where
  "freeze_opt b = (if rb_rule_count b \<noteq> 0 then res_bind (freeze b) (\<lambda>t. Inr (Some t)) else Inr None)"

definition matcher_build :: "matcher_builder \<Rightarrow> ip_radix_error + ip_radix_matcher" where
  "matcher_build b =
     (if rb_rule_count (v4_builder b) = 0 \<and> rb_rule_count (v6_builder b) = 0 then Inl EmptyTree
      else res_bind (freeze_opt (v4_builder b)) (\<lambda>t4. res_bind (freeze_opt (v6_builder b)) (\<lambda>t6.
             Inr \<lparr>ipv4_tree = t4, ipv6_tree = t6\<rparr>)))"

definition match_ip :: "ip_radix_matcher \<Rightarrow> ip_addr \<Rightarrow> bool option option" where
  "match_ip m ip =
     (case ip of
        V4 a \<Rightarrow> (case ipv4_tree m of None \<Rightarrow> Some None | Some t \<Rightarrow> tree_match_ip t a)
      | V6 a \<Rightarrow> (case ipv6_tree m of None \<Rightarrow> Some None | Some t \<Rightarrow> tree_match_ip t a))"

section \<open>The tree as a map from bit strings\<close>

definition msb_bit :: "'a::len word \<Rightarrow> nat \<Rightarrow> bool" where
  "msb_bit w i = bit w (LENGTH('a) - 1 - i)"

lemma bit_at_eq_0 [simp]: "bit_at w i = 0 \<longleftrightarrow> \<not> msb_bit w i"
  by (simp add: bit_at_def msb_bit_def and_one_eq mod_2_eq_odd bit_iff_odd_drop_bit)

definition child :: "bool \<Rightarrow> build_node \<Rightarrow> build_node option" where
  "child b n = (if b then bn_right n else bn_left n)"

fun val_at :: "build_node \<Rightarrow> bool list \<Rightarrow> bool option" where
  "val_at n [] = bn_value n"
| "val_at n (b # bs) = Option.bind (child b n) (\<lambda>m. val_at m bs)"

definition bits_from :: "'a::len word \<Rightarrow> nat \<Rightarrow> nat \<Rightarrow> bool list" where
  "bits_from w i j = map (msb_bit w) [i..<j]"

lemma bits_from_Cons: "i < j \<Longrightarrow> bits_from w i j = msb_bit w i # bits_from w (Suc i) j"
  by (simp add: bits_from_def upt_conv_Cons)

lemma bits_from_Nil [simp]: "bits_from w i i = []"
  by (simp add: bits_from_def)

lemma length_bits_from [simp]: "length (bits_from w i j) = j - i"
  by (simp add: bits_from_def)

lemma take_bits_from: "k \<le> j \<Longrightarrow> take k (bits_from w 0 j) = bits_from w 0 k"
  by (simp add: bits_from_def take_map)

lemma val_at_new [simp]: "val_at build_node_new bs = None"
  by (cases bs) (simp_all add: build_node_new_def child_def)

lemma val_at_get_or_new: "val_at (get_or_new n) bs = Option.bind n (\<lambda>m. val_at m bs)"
  by (cases n) (simp_all add: get_or_new_def)

lemma insert_helper_val:
  fixes ip :: "'a::len word"
  assumes "c \<le> p" "p \<le> LENGTH('a)"
  shows "\<exists>n'. insert_helper n ip p allow c = Some n' \<and>
    (\<forall>bs. val_at n' bs = (if bs = bits_from ip c p then Some allow else val_at n bs))
    \<and> count_nodes n' \<le> count_nodes n + (p - c)"
  using assms
proof (induction "p - c" arbitrary: c n)
  case 0
  then have "c = p" by simp
  obtain l r v q where n: "n = BuildNode l r v q" by (cases n)
  have "val_at (BuildNode l r (Some allow) p) bs = (if bs = [] then Some allow else val_at n bs)" for bs
    by (cases bs) (simp_all add: n child_def)
  then show ?case using \<open>c = p\<close> by (simp add: n insert_helper.simps)
next
  case (Suc k)
  obtain l r v q where n: "n = BuildNode l r v q" by (cases n)
  let ?ch = "if msb_bit ip c then r else l"
  have k: "k = p - Suc c" "Suc c \<le> p" using Suc.hyps(2) by arith+
  obtain n' where n': "insert_helper (get_or_new ?ch) ip p allow (Suc c) = Some n'"
    "\<And>bs. val_at n' bs = (if bs = bits_from ip (Suc c) p then Some allow else val_at (get_or_new ?ch) bs)"
    "count_nodes n' \<le> count_nodes (get_or_new ?ch) + (p - Suc c)"
    using Suc.hyps(1) [OF k Suc.prems(2), of "get_or_new ?ch"] by blast
  let ?n = "if msb_bit ip c then BuildNode l (Some n') v q else BuildNode (Some n') r v q"
  have "insert_helper n ip p allow c = Some ?n"
    using k(2) Suc.prems n'(1) by (cases "msb_bit ip c") (simp_all add: n insert_helper.simps [of _ _ _ _ c])
  moreover have "val_at ?n bs = (if bs = bits_from ip c p then Some allow else val_at n bs)" for bs
    using k(2) n'(2) by (cases bs) (auto simp: n child_def bits_from_Cons val_at_get_or_new)
  moreover have "count_nodes ?n \<le> count_nodes n + (p - c)"
    using k(2) n'(3) by (auto simp: n get_or_new_def build_node_new_def split: option.splits if_splits)
  ultimately show ?case by blast
qed

text \<open>The walk of a lookup on the tree of the build phase.\<close>

fun walk :: "build_node \<Rightarrow> bool list \<Rightarrow> bool option \<Rightarrow> bool option" where
  "walk n [] found = (case bn_value n of Some v \<Rightarrow> Some v | None \<Rightarrow> found)"
| "walk n (b # bs) found =
     (let found = (case bn_value n of Some v \<Rightarrow> Some v | None \<Rightarrow> found)
      in case child b n of None \<Rightarrow> found | Some m \<Rightarrow> walk m bs found)"

definition latest :: "(nat \<Rightarrow> 'v option) \<Rightarrow> nat list \<Rightarrow> 'v option \<Rightarrow> 'v option" where
  "latest f ks found = foldl (\<lambda>found k. case f k of Some v \<Rightarrow> Some v | None \<Rightarrow> found) found ks"

lemma latest_simps [simp]:
  "latest f [] found = found"
  "latest f (k # ks) found = latest f ks (case f k of Some v \<Rightarrow> Some v | None \<Rightarrow> found)"
  "latest f (map g ks) found = latest (\<lambda>k. f (g k)) ks found"
  by (simp_all add: latest_def foldl_map)

lemma latest_None: "(\<And>k. k \<in> set ks \<Longrightarrow> f k = None) \<Longrightarrow> latest f ks found = found"
  by (induction ks) auto

lemma latest_cong: "(\<And>k. k \<in> set ks \<Longrightarrow> f k = g k) \<Longrightarrow> latest f ks found = latest g ks found"
  by (induction ks arbitrary: found) auto

lemma upt_Suc_map: "[0..<Suc n] = 0 # map Suc [0..<n]"
  by (simp add: upt_conv_Cons map_Suc_upt del: upt_Suc)

lemma walk_latest: "walk n bs found = latest (\<lambda>k. val_at n (take k bs)) [0..<Suc (length bs)] found"
proof (induction bs arbitrary: n found)
  case Nil
  show ?case by simp
next
  case (Cons b bs)
  show ?case
    using Cons.IH
    by (subst upt_Suc_map) (auto simp: latest_None simp del: upt_Suc split: option.splits)
qed

lemma latest_greatest:
  assumes "k \<le> n" "f k = Some v" "\<And>j. k < j \<Longrightarrow> j \<le> n \<Longrightarrow> f j = None"
  shows "latest f [0..<Suc n] found = Some v"
proof -
  have "[0..<Suc n] = [0..<Suc k] @ [Suc k..<Suc n]"
    using assms(1) by (metis Suc_le_mono le0 upt_add_eq_append le_add_diff_inverse)
  then have "latest f [0..<Suc n] found = latest f [Suc k..<Suc n] (Some v)"
    using assms(2) by (simp add: latest_def)
  also have "\<dots> = Some v" using assms(3) by (intro latest_None) auto
  finally show ?thesis .
qed

section \<open>The flat form\<close>

fun flat_form :: "nat \<Rightarrow> build_node \<Rightarrow> flat_ip_node list" where
  "flat_form i (BuildNode l r v p) =
     (let lf = (case l of Some n \<Rightarrow> flat_form (i + 1) n | None \<Rightarrow> []);
          rf = (case r of Some n \<Rightarrow> flat_form (i + 1 + length lf) n | None \<Rightarrow> [])
      in \<lparr>left_index = (if l = None then 0 else of_nat (i + 1)),
          right_index = (if r = None then 0 else of_nat (i + 1 + length lf)),
          flat_prefix_len = p, flags = encode_flags v\<rparr> # lf @ rf)"

lemma length_flat_form [simp]: "length (flat_form i n) = count_nodes n"
proof (induction n arbitrary: i)
  case (BuildNode l r v p)
  then show ?case by (cases l; cases r) (simp_all add: Let_def)
qed

lemma flatten_node_form:
  "length nodes + count_nodes n \<le> u32_max \<Longrightarrow>
   flatten_node n nodes = Inr (of_nat (length nodes), nodes @ flat_form (length nodes) n)"
proof (induction n arbitrary: nodes)
  case (BuildNode l r v p)
  then show ?case
    by (cases l; cases r) (simp_all add: Let_def nth_append list_update_append)
qed

lemma has_value_encode [simp]: "flags node = encode_flags v \<Longrightarrow> has_value node \<longleftrightarrow> v \<noteq> None"
  by (auto simp: has_value_def encode_flags_def split: option.splits bool.splits)

lemma get_value_encode [simp]: "flags node = encode_flags (Some v) \<Longrightarrow> get_value node = v"
  by (auto simp: get_value_def encode_flags_def split: bool.splits)

lemma match_loop_walk:
  fixes ip :: "'a::len word"
  assumes "nodes = pre @ flat_form (length pre) n @ post" "length pre + count_nodes n \<le> u32_max" "c \<le> LENGTH('a)"
  shows "match_loop nodes ip (length pre) found c = Some (walk n (bits_from ip c LENGTH('a)) found)"
  using assms
proof (induction n arbitrary: pre post c found)
  case (BuildNode l r v p)
  let ?i = "length pre"
  let ?lf = "case l of Some n \<Rightarrow> flat_form (?i + 1) n | None \<Rightarrow> []"
  let ?rf = "case r of Some n \<Rightarrow> flat_form (?i + 1 + length ?lf) n | None \<Rightarrow> []"
  let ?node = "\<lparr>left_index = (if l = None then 0 else of_nat (?i + 1)),
     right_index = (if r = None then 0 else of_nat (?i + 1 + length ?lf)), flat_prefix_len = p, flags = encode_flags v\<rparr>"
  let ?found = "case v of Some v \<Rightarrow> Some v | None \<Rightarrow> found"
  define node where "node = ?node"
  have nodes: "nodes = pre @ [node] @ ?lf @ ?rf @ post" using BuildNode.prems(1) by (simp add: Let_def node_def)
  then have node: "nth_opt nodes ?i = Some node" by (simp add: nth_append)
  have val: "(if has_value node then Some (get_value node) else found) = ?found" by (cases v) (simp_all add: node_def)
  have idx: "unat (of_nat j :: u32) = j \<and> (of_nat j :: u32) \<noteq> 0" if "0 < j" "j < u32_max" for j
  proof -
    have "unat (of_nat j :: u32) = j" using that by (simp add: u32_max_def unsigned_of_nat take_bit_nat_eq_self)
    with that(1) show ?thesis by (metis less_numeral_extra(3) unsigned_0)
  qed
  have pos: "0 < count_nodes m" for m by (cases m) simp
  have small: "length ?lf + length ?rf + ?i + 1 \<le> u32_max"
    using BuildNode.prems(2) by (auto split: option.splits)
  have li: "left_index node = 0" if "l = None" using that by (simp add: node_def)
  have ri: "right_index node = 0" if "r = None" using that by (simp add: node_def)
  have left: "left_index node \<noteq> 0"
    "match_loop nodes ip (unat (left_index node)) ?found (c + 1) = Some (walk m (bits_from ip (c + 1) LENGTH('a)) ?found)"
    if "l = Some m" "c < LENGTH('a)" for m
    using BuildNode.IH(1) [of m "pre @ [node]" "?rf @ post" "c + 1" ?found] idx [of "?i + 1"] nodes that small pos [of m]
    by (simp_all add: node_def)
  have right: "right_index node \<noteq> 0"
    "match_loop nodes ip (unat (right_index node)) ?found (c + 1) = Some (walk m (bits_from ip (c + 1) LENGTH('a)) ?found)"
    if "r = Some m" "c < LENGTH('a)" for m
    using BuildNode.IH(2) [of m "pre @ [node] @ ?lf" post "c + 1" ?found] idx [of "?i + 1 + length ?lf"] nodes that small pos [of m]
    by (simp_all add: node_def)
  have step: "match_loop nodes ip ?i found c =
      (if LENGTH('a) \<le> c then Some ?found
       else let next = (if msb_bit ip c then right_index node else left_index node)
            in if next = 0 then Some ?found else match_loop nodes ip (unat next) ?found (c + 1))"
    unfolding match_loop.simps [of _ _ ?i] node by (simp add: val Let_def)
  show ?case
  proof (cases "c < LENGTH('a)")
    case False
    with BuildNode.prems(3) have "c = LENGTH('a)" by simp
    then show ?thesis using step by simp
  next
    case True
    then show ?thesis
      using left right li ri
      by (cases "msb_bit ip c"; cases l; cases r) (simp_all add: step bits_from_Cons child_def)
  qed
qed

section \<open>Matching by the longest prefix\<close>

text \<open>
  The meaning of a list of rules: among those that apply, the value of the last one with the greatest
  length.
\<close>

definition longest :: "('r \<Rightarrow> bool) \<Rightarrow> ('r \<Rightarrow> nat) \<Rightarrow> ('r \<Rightarrow> 'v) \<Rightarrow> 'r list \<Rightarrow> 'v option" where
  "longest applies len val rules =
     (let rs = filter applies rules
      in if rs = [] then None else Some (val (last (filter (\<lambda>r. len r = Max (set (map len rs))) rs))))"

definition last_val :: "('r \<Rightarrow> 'v) \<Rightarrow> 'r list \<Rightarrow> 'v option" where
  "last_val val rs = (if rs = [] then None else Some (val (last rs)))"

lemma last_val_snoc [simp]: "last_val val (rs @ [r]) = Some (val r)"
  by (simp add: last_val_def)

lemma longest_eq_latest:
  assumes "\<And>r. r \<in> set rules \<Longrightarrow> applies r \<Longrightarrow> len r \<le> n"
  shows "longest applies len val rules =
    latest (\<lambda>k. last_val val (filter (\<lambda>r. applies r \<and> len r = k) rules)) [0..<Suc n] None"
proof (cases "filter applies rules = []")
  case True
  then have "last_val val (filter (\<lambda>r. applies r \<and> len r = k) rules) = None" for k
    by (auto simp: last_val_def filter_empty_conv)
  then show ?thesis using True by (simp add: longest_def latest_None del: upt_Suc)
next
  case False
  let ?rs = "filter applies rules"
  let ?K = "Max (set (map len ?rs))"
  have "?K \<in> set (map len ?rs)" by (rule Max_in) (use False in \<open>auto simp: filter_empty_conv\<close>)
  then obtain r where r: "r \<in> set rules" "applies r" "len r = ?K" by auto
  have le: "len r \<le> ?K" if "r \<in> set rules" "applies r" for r using that by simp
  let ?f = "\<lambda>k. last_val val (filter (\<lambda>r. applies r \<and> len r = k) rules)"
  have "filter (\<lambda>r. applies r \<and> len r = ?K) rules \<noteq> []" using r by (auto simp: filter_empty_conv)
  then have "?f ?K = Some (val (last (filter (\<lambda>r. len r = ?K) ?rs)))"
    by (simp only: last_val_def filter_filter) (simp add: conj_commute)
  moreover have "?f j = None" if "?K < j" for j
    using le that by (fastforce simp: last_val_def filter_empty_conv simp del: set_map set_filter)
  moreover have "?K \<le> n" using assms r by metis
  ultimately have "latest ?f [0..<Suc n] None = Some (val (last (filter (\<lambda>r. len r = ?K) ?rs)))"
    by (intro latest_greatest) auto
  then show ?thesis using False by (simp add: longest_def del: upt_Suc)
qed

lemma longest_map_filter:
  assumes "\<And>r. applies r \<Longrightarrow> \<exists>r'. g r = Some r'"
    and "\<And>r r'. g r = Some r' \<Longrightarrow> applies r = applies' r' \<and> len r = len' r' \<and> val r = val' r'"
  shows "longest applies len val rules = longest applies' len' val' (List.map_filter g rules)"
proof -
  let ?h = "\<lambda>r. the (g r)"
  have f: "filter applies' (List.map_filter g rules) = map ?h (filter applies rules)"
    using assms by (induction rules) (fastforce split: option.splits)+
  have eq: "len' (?h r) = len r" "val' (?h r) = val r" if "applies r" for r
    using assms(1) [OF that] assms(2) by force+
  have lens: "map len' (map ?h (filter applies rules)) = map len (filter applies rules)" using eq(1) by simp
  let ?K = "Max (set (map len (filter applies rules)))"
  have g: "filter (\<lambda>r. len' r = ?K) (map ?h (filter applies rules)) =
      map ?h (filter (\<lambda>r. len r = ?K) (filter applies rules))"
    by (simp add: filter_map o_def eq(1) cong: filter_cong conj_cong)
  show ?thesis
  proof (cases "filter applies rules = []")
    case True
    then show ?thesis by (simp add: longest_def f)
  next
    case False
    have "?K \<in> set (map len (filter applies rules))" by (rule Max_in) (use False in \<open>auto simp: filter_empty_conv\<close>)
    then have ne: "filter (\<lambda>r. len r = ?K) (filter applies rules) \<noteq> []"
      by (auto simp: filter_empty_conv simp del: filter_filter)
    then have "applies (last (filter (\<lambda>r. len r = ?K) (filter applies rules)))"
      using last_in_set [OF ne] by auto
    from eq(2) [OF this] show ?thesis
      using False ne by (simp add: longest_def Let_def f lens g last_map del: set_map set_filter filter_filter map_map)
  qed
qed

section \<open>One tree\<close>

text \<open>An address is covered by a prefix when their leading bits agree.\<close>

definition covers :: "'a::len word \<Rightarrow> nat \<Rightarrow> 'a word \<Rightarrow> bool" where
  "covers w p ip \<longleftrightarrow> drop_bit (LENGTH('a) - p) ip = drop_bit (LENGTH('a) - p) w"

lemma covers_iff:
  fixes w :: "'a::len word"
  assumes "p \<le> LENGTH('a)"
  shows "covers w p ip \<longleftrightarrow> bits_from w 0 p = bits_from ip 0 p"
proof
  assume c: "covers w p ip"
  have "msb_bit w i = msb_bit ip i" if "i < p" for i
  proof -
    have "LENGTH('a) - 1 - i = LENGTH('a) - p + (p - 1 - i)" using that assms by simp
    moreover have "bit (drop_bit (LENGTH('a) - p) w) (p - 1 - i) = bit (drop_bit (LENGTH('a) - p) ip) (p - 1 - i)"
      using c by (simp add: covers_def)
    ultimately show ?thesis by (simp add: msb_bit_def bit_drop_bit_eq)
  qed
  then show "bits_from w 0 p = bits_from ip 0 p" by (simp add: bits_from_def)
next
  assume b: "bits_from w 0 p = bits_from ip 0 p"
  have "bit (drop_bit (LENGTH('a) - p) ip) i = bit (drop_bit (LENGTH('a) - p) w) i" if "i < LENGTH('a)" for i
  proof (cases "i < p")
    case True
    then have "LENGTH('a) - p + i = LENGTH('a) - 1 - (p - 1 - i)" using assms by simp
    moreover have "msb_bit w (p - 1 - i) = msb_bit ip (p - 1 - i)"
      using b True by (simp add: bits_from_def)
    ultimately show ?thesis by (simp add: msb_bit_def bit_drop_bit_eq)
  next
    case False
    then show ?thesis using assms by (auto simp: bit_drop_bit_eq dest: bit_imp_le_length)
  qed
  then show "covers w p ip" unfolding covers_def by (rule bit_word_eqI)
qed

lemma covers_normalize [simp]:
  fixes w :: "'a::len word"
  assumes "p \<le> LENGTH('a)"
  shows "covers (normalize p w) p ip = covers w p ip"
proof -
  have "drop_bit (LENGTH('a) - p) (normalize p w) = drop_bit (LENGTH('a) - p) w"
  proof (rule bit_word_eqI)
    fix i assume "i < LENGTH('a)"
    then show "bit (drop_bit (LENGTH('a) - p) (normalize p w)) i = bit (drop_bit (LENGTH('a) - p) w) i"
      using assms
      by (auto simp: normalize_def bit_drop_bit_eq bit_and_iff bit_not_iff bit_mask_iff push_bit_minus_one_eq_not_mask
          dest: bit_imp_le_length)
  qed
  then show ?thesis by (simp add: covers_def)
qed

type_synonym 'a rule = "'a word \<times> nat \<times> bool"

definition tree_verdict :: "'a::len rule list \<Rightarrow> 'a word \<Rightarrow> bool option" where
  "tree_verdict rules ip = longest (\<lambda>(w, p, a). covers w p ip) (\<lambda>(w, p, a). p) (\<lambda>(w, p, a). a) rules"

definition builder_ok :: "radix_builder \<Rightarrow> 'a::len rule list \<Rightarrow> bool" where
  "builder_ok b rules \<longleftrightarrow>
     (\<forall>bs. val_at (rb_root b) bs = last_val (\<lambda>(w, p, a). a) (filter (\<lambda>(w, p, a). bits_from w 0 p = bs) rules)) \<and>
     rb_rule_count b = length rules \<and> (\<forall>(w, p, a) \<in> set rules. p \<le> LENGTH('a)) \<and>
     count_nodes (rb_root b) \<le> 1 + LENGTH('a) * length rules"

lemma builder_ok_new [simp]: "builder_ok radix_builder_new []"
  by (simp add: builder_ok_def radix_builder_new_def last_val_def) (simp add: build_node_new_def)

lemma builder_insert_ok:
  fixes w :: "'a::len word"
  assumes "builder_ok b rules" "p \<le> LENGTH('a)"
  shows "\<exists>b'. builder_insert w p allow b = Some b' \<and> builder_ok b' (rules @ [(w, p, allow)])"
proof -
  obtain n' where n': "insert_helper (rb_root b) w p allow 0 = Some n'"
    "\<And>bs. val_at n' bs = (if bs = bits_from w 0 p then Some allow else val_at (rb_root b) bs)"
    "count_nodes n' \<le> count_nodes (rb_root b) + p"
    using insert_helper_val [of 0 p "rb_root b" w allow] assms(2) by auto
  have "count_nodes n' \<le> 1 + LENGTH('a) * Suc (length rules)"
    using n'(3) assms by (simp add: builder_ok_def)
  then show ?thesis
    using assms n' by (auto simp: builder_insert_def builder_ok_def)
qed

lemma frozen_tree_verdict:
  fixes rules :: "'a::len rule list"
  assumes "builder_ok b rules" "rules \<noteq> []" "1 + LENGTH('a) * length rules \<le> u32_max"
  shows "\<exists>t. freeze b = Inr t \<and> (\<forall>ip. tree_match_ip t ip = Some (tree_verdict rules ip))"
proof (intro exI conjI allI)
  let ?root = "rb_root b"
  have small: "count_nodes ?root \<le> u32_max" using assms(1,3) by (simp add: builder_ok_def)
  then show "freeze b = Inr (flat_form 0 ?root)"
    using assms(1,2) flatten_node_form [of "[]" ?root] by (simp add: freeze_def from_builder_def builder_ok_def)
  fix ip :: "'a word"
  let ?L = "LENGTH('a)"
  have plen: "p \<le> ?L" if "(w, p, a) \<in> set rules" for w p a using assms(1) that by (auto simp: builder_ok_def)
  have at: "val_at ?root (bits_from ip 0 k) =
      last_val (\<lambda>(w, p, a). a) (filter (\<lambda>r. (case r of (w, p, a) \<Rightarrow> covers w p ip) \<and> (case r of (w, p, a) \<Rightarrow> p) = k) rules)"
    if "k \<le> ?L" for k
  proof -
    have "p = k" if "bits_from w 0 p = bits_from ip 0 k" for w :: "'a word" and p
      using arg_cong [OF that, of length] by simp
    then have "bits_from w 0 p = bits_from ip 0 k \<longleftrightarrow> covers w p ip \<and> p = k" if "(w, p, a) \<in> set rules" for w p a
      using covers_iff [OF plen [OF that], of w ip] by metis
    then have "filter (\<lambda>(w, p, a). bits_from w 0 p = bits_from ip 0 k) rules =
        filter (\<lambda>r. (case r of (w, p, a) \<Rightarrow> covers w p ip) \<and> (case r of (w, p, a) \<Rightarrow> p) = k) rules"
      by (intro filter_cong) auto
    then show ?thesis using assms(1) by (simp add: builder_ok_def)
  qed
  have "walk ?root (bits_from ip 0 ?L) None = latest (\<lambda>k. val_at ?root (bits_from ip 0 k)) [0..<Suc ?L] None"
    unfolding walk_latest length_bits_from by (auto simp: take_bits_from simp del: upt_Suc intro!: latest_cong)
  also have "\<dots> = tree_verdict rules ip"
    unfolding tree_verdict_def using plen
    by (subst longest_eq_latest [where n = ?L]) (auto simp: at intro!: latest_cong simp del: upt_Suc)
  finally show "tree_match_ip (flat_form 0 ?root) ip = Some (tree_verdict rules ip)"
    using match_loop_walk [of "flat_form 0 ?root" "[]" ?root "[]" 0 ip None] small
    by (cases "flat_form 0 ?root = []") (use length_flat_form [of 0 ?root] in \<open>cases ?root; simp add: tree_match_ip_def\<close>)+
qed

section \<open>The matcher\<close>

fun cidr_contains :: "ip_cidr \<Rightarrow> ip_addr \<Rightarrow> bool" where
  "cidr_contains (CidrV4 w p) (V4 a) = covers w p a"
| "cidr_contains (CidrV6 w p) (V6 a) = covers w p a"
| "cidr_contains _ _ = False"

fun cidr_prefix_len :: "ip_cidr \<Rightarrow> nat" where
  "cidr_prefix_len (CidrV4 w p) = p"
| "cidr_prefix_len (CidrV6 w p) = p"

definition longest_match :: "(ip_cidr \<times> bool) list \<Rightarrow> ip_addr \<Rightarrow> bool option" where
  "longest_match rules ip = longest (\<lambda>(c, a). cidr_contains c ip) (\<lambda>(c, a). cidr_prefix_len c) snd rules"

fun v4_rule :: "ip_cidr \<times> bool \<Rightarrow> 32 rule option" where
  "v4_rule (CidrV4 w p, a) = Some (w, p, a)"
| "v4_rule (CidrV6 w p, a) = None"

fun v6_rule :: "ip_cidr \<times> bool \<Rightarrow> 128 rule option" where
  "v6_rule (CidrV6 w p, a) = Some (w, p, a)"
| "v6_rule (CidrV4 w p, a) = None"

definition matcher_ok :: "matcher_builder \<Rightarrow> (ip_cidr \<times> bool) list \<Rightarrow> bool" where
  "matcher_ok b rules \<longleftrightarrow>
     builder_ok (v4_builder b) (List.map_filter v4_rule rules) \<and>
     builder_ok (v6_builder b) (List.map_filter v6_rule rules)"

lemma cidr_parse_bound:
  "cidr_parse s = Inr (CidrV4 w p) \<Longrightarrow> p \<le> 32" "cidr_parse s = Inr (CidrV6 w' p) \<Longrightarrow> p \<le> 128"
  by (auto simp: cidr_parse_def split: list.splits sum.splits option.splits ip_addr.splits if_splits)

lemma matcher_ok_new [simp]: "matcher_ok matcher_builder_new []"
  by (simp add: matcher_ok_def matcher_builder_new_def)

lemma matcher_insert_ok:
  assumes ok: "matcher_ok b rules" and p: "cidr_parse s = Inr c"
  shows "\<exists>b'. matcher_insert s allow b = Some (Inr b') \<and> matcher_ok b' (rules @ [(c, allow)])"
proof (cases c)
  case (CidrV4 w q)
  have "q \<le> LENGTH(32)" using cidr_parse_bound(1) p CidrV4 by simp
  from builder_insert_ok [OF _ this] ok show ?thesis
    unfolding matcher_ok_def using p CidrV4 by (fastforce simp: matcher_insert_def v4_insert_def map_filter_append)
next
  case (CidrV6 w q)
  have "q \<le> LENGTH(128)" using cidr_parse_bound(2) p CidrV6 by simp
  from builder_insert_ok [OF _ this] ok show ?thesis
    unfolding matcher_ok_def using p CidrV6 by (fastforce simp: matcher_insert_def v6_insert_def map_filter_append)
qed

lemma matcher_insert_error: "cidr_parse s = Inl e \<Longrightarrow> matcher_insert s allow b = Some (Inl e)"
  by (simp add: matcher_insert_def)

lemma matcher_build_ok:
  assumes ok: "matcher_ok b rules" and "rules \<noteq> []" "length rules \<le> 2 ^ 24"
  shows "\<exists>m. matcher_build b = Inr m \<and> (\<forall>ip. match_ip m ip = Some (longest_match rules ip))"
proof -
  let ?r4 = "List.map_filter v4_rule rules" and ?r6 = "List.map_filter v6_rule rules"
  have count: "rb_rule_count (v4_builder b) = length ?r4" "rb_rule_count (v6_builder b) = length ?r6"
    using ok by (simp_all add: matcher_ok_def builder_ok_def)
  have lens: "length ?r4 \<le> 2 ^ 24" "length ?r6 \<le> 2 ^ 24"
    using assms(3) length_map_filter order_trans by blast+
  have "\<exists>t. freeze_opt (v4_builder b) = Inr t \<and>
      (\<forall>a. (case t of None \<Rightarrow> Some None | Some t \<Rightarrow> tree_match_ip t a) = Some (tree_verdict ?r4 a))"
    using frozen_tree_verdict [of "v4_builder b" ?r4] ok lens(1)
    by (cases "?r4 = []") (auto simp: freeze_opt_def count matcher_ok_def tree_verdict_def longest_def u32_max_def)
  moreover have "\<exists>t. freeze_opt (v6_builder b) = Inr t \<and>
      (\<forall>a. (case t of None \<Rightarrow> Some None | Some t \<Rightarrow> tree_match_ip t a) = Some (tree_verdict ?r6 a))"
    using frozen_tree_verdict [of "v6_builder b" ?r6] ok lens(2)
    by (cases "?r6 = []") (auto simp: freeze_opt_def count matcher_ok_def tree_verdict_def longest_def u32_max_def)
  moreover have "?r4 \<noteq> [] \<or> ?r6 \<noteq> []"
  proof -
    obtain c a rs where "rules = (c, a) # rs" using assms(2) by (cases rules) auto
    then show ?thesis by (cases c) simp_all
  qed
  moreover have "longest_match rules (V4 a) = tree_verdict ?r4 a" for a
    unfolding longest_match_def tree_verdict_def
    by (rule longest_map_filter) (auto elim!: cidr_contains.elims v4_rule.elims)
  moreover have "longest_match rules (V6 a) = tree_verdict ?r6 a" for a
    unfolding longest_match_def tree_verdict_def
    by (rule longest_map_filter) (auto elim!: cidr_contains.elims v6_rule.elims)
  ultimately show ?thesis
    by (auto simp: matcher_build_def count match_ip_def split: ip_addr.splits)
qed

text \<open>A sequence of insertions, given up at the first error.\<close>

fun insert_all :: "(string \<times> bool) list \<Rightarrow> matcher_builder \<Rightarrow> (ip_radix_error + matcher_builder) option" where
  "insert_all [] b = Some (Inr b)"
| "insert_all ((s, allow) # rest) b =
     (case matcher_insert s allow b of
        None \<Rightarrow> None
      | Some (Inl e) \<Rightarrow> Some (Inl e)
      | Some (Inr b') \<Rightarrow> insert_all rest b')"

lemma insert_all_ok:
  assumes "list_all2 (\<lambda>(s, a) (c, a'). cidr_parse s = Inr c \<and> a' = a) inputs rules" "matcher_ok b rules0"
  shows "\<exists>b'. insert_all inputs b = Some (Inr b') \<and> matcher_ok b' (rules0 @ rules)"
  using assms
proof (induction inputs rules arbitrary: b rules0 rule: list_all2_induct)
  case (Cons x xs y ys)
  obtain s a c where xy: "x = (s, a)" "y = (c, a)" "cidr_parse s = Inr c" using Cons(1) by (cases x; cases y) auto
  obtain b' where b': "matcher_insert s a b = Some (Inr b')" "matcher_ok b' (rules0 @ [(c, a)])"
    using matcher_insert_ok [OF Cons.prems xy(3)] by blast
  then show ?case using Cons.IH [OF b'(2)] xy by simp
qed simp

text \<open>
  C31: The IP address matcher matches by the longest prefix. When the rules of a list are in valid CIDR
  notation, inserting them succeeds, the trees freeze, and a lookup of any address returns, without a
  panic, what the last inserted of the rules with the longest prefix covering the address says, and
  nothing when no rule covers it. The bound on the number of rules keeps the node indices within 32 bits.
\<close>

theorem ip_matcher_longest_prefix:
  assumes "list_all2 (\<lambda>(s, allow) (c, allow'). cidr_parse s = Inr c \<and> allow' = allow) inputs rules"
    and "rules \<noteq> []" "length rules \<le> 2 ^ 24"
  shows "\<exists>b m. insert_all inputs matcher_builder_new = Some (Inr b) \<and> matcher_build b = Inr m \<and>
    (\<forall>ip. match_ip m ip = Some (longest_match rules ip))"
  using insert_all_ok [OF assms(1) matcher_ok_new] matcher_build_ok [OF _ assms(2,3)] by fastforce

theorem ip_matcher_longest_prefix_witness:
  "let rules = [(CidrV4 0x0A000000 8, True), (CidrV4 0x0A010000 16, False), (CidrV6 0x20010db8000000000000000000000001 128, True)]
   in longest_match rules (V4 0x0A010203) = Some False \<and>
    (\<exists>b m. insert_all [(''10.0.0.0/8'', True), (''10.1.2.3/16'', False), (''2001:db8::1/128'', True)] matcher_builder_new = Some (Inr b)
       \<and> matcher_build b = Inr m \<and> (\<forall>ip. match_ip m ip = Some (longest_match rules ip)))"
proof -
  let ?rules = "[(CidrV4 0x0A000000 8, True), (CidrV4 0x0A010000 16, False), (CidrV6 0x20010db8000000000000000000000001 128, True)]"
  have "cidr_parse ''10.0.0.0/8'' = Inr (CidrV4 0x0A000000 8)"
    and "cidr_parse ''10.1.2.3/16'' = Inr (CidrV4 0x0A010000 16)"
    and "cidr_parse ''2001:db8::1/128'' = Inr (CidrV6 0x20010db8000000000000000000000001 128)"
    by code_simp+
  moreover have "longest_match ?rules (V4 0x0A010203) = Some False" by code_simp
  ultimately show ?thesis
    using ip_matcher_longest_prefix [of "[(''10.0.0.0/8'', True), (''10.1.2.3/16'', False), (''2001:db8::1/128'', True)]" ?rules]
    by (simp add: Let_def)
qed

end
