(* ===== verification/Ip_Access.thy ===== *)
theory Ip_Access
  imports Ip_Radix Plugin_Log
begin

text \<open>
  Access control and client identification by IP address: the configuration of the IP restriction
  (plugin_configs/ip_restriction.rs), its HTTP plugin (plugins/http/ip_restriction/plugin.rs) and its stream
  and TLS route plugins with the chains they run in (plugins/stream), the extractor of the real client address
  (common/utils/real_ip_extractor.rs), and the Real IP plugin with its configuration. The request session is
  a parameter. A panic is None.
\<close>

section \<open>IP restriction: configuration\<close>

datatype ip_source = ClientIp | RemoteAddr

datatype default_action = ActAllow | ActDeny

datatype list_kind = AllowList | DenyList

datatype ip_config_error =
    NoLists
  | InvalidStatus nat
  | EmptyList list_kind
  | BadCidrFormat string
  | BadCidrIp string
  | BadCidrPrefix string
  | PrefixExceeds nat nat ip_addr
  | BadIp string
  | InsertFailed list_kind string ip_radix_error
  | BuildFailed list_kind ip_radix_error

record ip_restriction_config =
  irc_allow :: "string list option"
  irc_deny :: "string list option"
  irc_ip_source :: ip_source
  irc_message :: "string option"
  irc_status :: nat
  irc_default_action :: default_action
  irc_allow_matcher :: "ip_radix_matcher option"
  irc_deny_matcher :: "ip_radix_matcher option"

abbreviation slash :: char where
  "slash \<equiv> CHR 0x2F"

definition max_prefix :: "ip_addr \<Rightarrow> nat" where
  "max_prefix ip = (if is_ipv4 ip then 32 else 128)"

definition validate_ip_or_cidr :: "string \<Rightarrow> ip_config_error + unit" where
  "validate_ip_or_cidr ip_str =
     (if slash \<in> set ip_str
      then (case split_char slash ip_str of
              [ip_part, prefix_part] \<Rightarrow>
                (case parse_ip ip_part of
                   None \<Rightarrow> Inl (BadCidrIp ip_part)
                 | Some ip \<Rightarrow>
                     (case parse_u8 prefix_part of
                        Inl _ \<Rightarrow> Inl (BadCidrPrefix prefix_part)
                      | Inr prefix_len \<Rightarrow>
                          if max_prefix ip < prefix_len then Inl (PrefixExceeds prefix_len (max_prefix ip) ip)
                          else Inr ()))
            | _ \<Rightarrow> Inl (BadCidrFormat ip_str))
      else if parse_ip ip_str = None then Inl (BadIp ip_str) else Inr ())"

definition to_cidr_format :: "string \<Rightarrow> ip_config_error + string" where
  "to_cidr_format ip_str =
     (if slash \<in> set ip_str then Inr ip_str
      else (case parse_ip ip_str of
              None \<Rightarrow> Inl (BadIp ip_str)
            | Some ip \<Rightarrow> Inr (ip_str @ [slash] @ show_nat (max_prefix ip))))"

fun insert_entries :: "list_kind \<Rightarrow> string list \<Rightarrow> matcher_builder \<Rightarrow> (ip_config_error + matcher_builder) option" where
  "insert_entries kind [] b = Some (Inr b)"
| "insert_entries kind (ip_str # rest) b =
     (case validate_ip_or_cidr ip_str of
        Inl e \<Rightarrow> Some (Inl e)
      | Inr _ \<Rightarrow>
          (case to_cidr_format ip_str of
             Inl e \<Rightarrow> Some (Inl e)
           | Inr cidr_str \<Rightarrow>
               (case matcher_insert cidr_str True b of
                  None \<Rightarrow> None
                | Some (Inl e) \<Rightarrow> Some (Inl (InsertFailed kind ip_str e))
                | Some (Inr b') \<Rightarrow> insert_entries kind rest b')))"

definition build_list :: "list_kind \<Rightarrow> string list \<Rightarrow> (ip_config_error + ip_radix_matcher) option" where
  "build_list kind entries =
     (if entries = [] then Some (Inl (EmptyList kind))
      else map_option
             (\<lambda>r. res_bind r (\<lambda>b. case matcher_build b of Inl e \<Rightarrow> Inl (BuildFailed kind e) | Inr m \<Rightarrow> Inr m))
             (insert_entries kind entries matcher_builder_new))"

text \<open>
  The configuration is updated in place: the allow matcher is stored before the deny list is read, and
  stays stored when the deny list is rejected.
\<close>

definition init_deny :: "ip_restriction_config \<Rightarrow> ((ip_config_error + unit) \<times> ip_restriction_config) option" where
  "init_deny cfg =
     (case irc_deny cfg of
        None \<Rightarrow> Some (Inr (), cfg)
      | Some entries \<Rightarrow>
          map_option (\<lambda>r. case r of Inl e \<Rightarrow> (Inl e, cfg) | Inr m \<Rightarrow> (Inr (), cfg\<lparr>irc_deny_matcher := Some m\<rparr>))
            (build_list DenyList entries))"

definition validate_and_init ::
  "ip_restriction_config \<Rightarrow> ((ip_config_error + unit) \<times> ip_restriction_config) option" where
  "validate_and_init cfg =
     (if irc_allow cfg = None \<and> irc_deny cfg = None then Some (Inl NoLists, cfg)
      else if irc_status cfg < 100 \<or> 600 \<le> irc_status cfg then Some (Inl (InvalidStatus (irc_status cfg)), cfg)
      else (case irc_allow cfg of
              None \<Rightarrow> init_deny cfg
            | Some entries \<Rightarrow>
                Option.bind (build_list AllowList entries)
                  (\<lambda>r. case r of Inl e \<Rightarrow> Some (Inl e, cfg)
                       | Inr m \<Rightarrow> init_deny (cfg\<lparr>irc_allow_matcher := Some m\<rparr>))))"

definition check_ip_access :: "ip_restriction_config \<Rightarrow> ip_addr \<Rightarrow> bool option" where
  "check_ip_access cfg ip =
     Option.bind (case irc_deny_matcher cfg of None \<Rightarrow> Some None | Some m \<Rightarrow> match_ip m ip) (\<lambda>denied.
       if denied = Some True then Some False
       else (case irc_allow_matcher cfg of
               Some m \<Rightarrow> map_option (\<lambda>r. r = Some True) (match_ip m ip)
             | None \<Rightarrow> Some (irc_default_action cfg = ActAllow)))"

section \<open>IP restriction: the plugins\<close>

text \<open>What the plugins use of a request session.\<close>

record 's addr_session =
  ses_remote_addr :: "'s \<Rightarrow> string"
  ses_client_addr :: "'s \<Rightarrow> string"
  ses_header_value :: "'s \<Rightarrow> string \<Rightarrow> string option"
  ses_set_remote_addr :: "'s \<Rightarrow> string \<Rightarrow> string + 's"
  ses_status_ok :: "nat \<Rightarrow> bool"
  ses_write_header :: "'s \<Rightarrow> nat \<Rightarrow> (string \<times> string) list \<Rightarrow> bool \<times> 's"
  ses_write_body :: "'s \<Rightarrow> string \<Rightarrow> bool \<times> 's"

definition get_client_ip :: "'s addr_session \<Rightarrow> ip_restriction_config \<Rightarrow> 's \<Rightarrow> ip_addr option" where
  "get_client_ip env cfg s =
     (let ip_str = (case irc_ip_source cfg of ClientIp \<Rightarrow> ses_remote_addr env s | RemoteAddr \<Rightarrow> ses_client_addr env s)
      in if ip_str = [] then None else parse_ip ip_str)"

definition json_message :: "string \<Rightarrow> string" where
  "json_message m = ''{'' @ [CHR 0x22] @ ''message'' @ [CHR 0x22] @ '':'' @ [CHR 0x22] @ m @ [CHR 0x22] @ ''}''"

text \<open>\<open>IpRestriction::create\<close> keeps the configuration it is given as it is.\<close>

definition ip_restriction_create :: "ip_restriction_config \<Rightarrow> ip_restriction_config" where
  "ip_restriction_create cfg = cfg"

definition ip_restriction_run ::
  "'s addr_session \<Rightarrow> ip_restriction_config \<Rightarrow> 's \<Rightarrow> plugin_log \<Rightarrow> (plugin_result \<times> 's \<times> plugin_log) option" where
  "ip_restriction_run env cfg s log =
     (case get_client_ip env cfg s of
        None \<Rightarrow> Some (GoodNext, s, snd (log_push ''No client IP; '' log))
      | Some client_ip \<Rightarrow>
          map_option
            (\<lambda>ok. if \<not> ok
              then let message = (case irc_message cfg of Some m \<Rightarrow> m
                                  | None \<Rightarrow> ''Your IP address is not allowed to access this resource'');
                       log = snd (log_push ''Denied; '' log);
                       status = (if ses_status_ok env (irc_status cfg) then irc_status cfg else 403);
                       (sent, s) = ses_write_header env s status [(''Content-Type'', ''application/json'')]
                   in if \<not> sent then (ErrTerminateRequest, s, log)
                      else let (_, s) = ses_write_body env s (json_message message)
                           in (ErrTerminateRequest, s, log)
              else (GoodNext, s, snd (log_push ''Allowed; '' log)))
            (check_ip_access cfg client_ip))"

datatype stream_result = StreamAllow | StreamDeny string

text \<open>The stream plugins initialise their copy of the configuration and go on when that fails.\<close>

definition stream_restriction_new :: "ip_restriction_config \<Rightarrow> ip_restriction_config option" where
  "stream_restriction_new cfg = map_option snd (validate_and_init cfg)"

definition on_connection :: "ip_restriction_config \<Rightarrow> ip_addr \<Rightarrow> stream_result option" where
  "on_connection cfg client_ip =
     map_option
       (\<lambda>ok. if \<not> ok
             then StreamDeny (case irc_message cfg of Some m \<Rightarrow> m | None \<Rightarrow> ''IP address not allowed'')
             else StreamAllow)
       (check_ip_access cfg client_ip)"

record stream_entry =
  sp_enable :: bool
  sp_config :: ip_restriction_config

text \<open>The chain of a resource: the enabled entries, run in order until one denies.\<close>

fun from_stream_plugins :: "stream_entry list \<Rightarrow> ip_restriction_config list option" where
  "from_stream_plugins [] = Some []"
| "from_stream_plugins (e # es) =
     (if \<not> sp_enable e then from_stream_plugins es
      else Option.bind (stream_restriction_new (sp_config e)) (\<lambda>p. map_option ((#) p) (from_stream_plugins es)))"

fun stream_run :: "ip_restriction_config list \<Rightarrow> ip_addr \<Rightarrow> stream_result option" where
  "stream_run [] ip = Some StreamAllow"
| "stream_run (p # ps) ip =
     Option.bind (on_connection p ip)
       (\<lambda>r. case r of StreamAllow \<Rightarrow> stream_run ps ip | StreamDeny reason \<Rightarrow> Some (StreamDeny reason))"

text \<open>The connection filter of a listener: the resource it names is looked up for every connection.\<close>

definition should_accept ::
  "(string \<Rightarrow> ip_restriction_config list option) \<Rightarrow> string \<Rightarrow> ip_addr option \<Rightarrow> bool option" where
  "should_accept store key addr =
     (case addr of
        None \<Rightarrow> Some True
      | Some ip \<Rightarrow>
          (case store key of
             None \<Rightarrow> Some True
           | Some runtime \<Rightarrow>
               if runtime = [] then Some True
               else map_option (\<lambda>r. case r of StreamAllow \<Rightarrow> True | StreamDeny _ \<Rightarrow> False) (stream_run runtime ip)))"

section \<open>The real client address\<close>

record real_ip_extractor =
  rx_matcher :: "ip_radix_matcher option"
  rx_header :: string

fun insert_valid :: "string list \<Rightarrow> nat \<Rightarrow> matcher_builder \<Rightarrow> (nat \<times> matcher_builder) option" where
  "insert_valid [] valid_count b = Some (valid_count, b)"
| "insert_valid (cidr # rest) valid_count b =
     (case matcher_insert cidr True b of
        None \<Rightarrow> None
      | Some (Inl _) \<Rightarrow> insert_valid rest valid_count b
      | Some (Inr b') \<Rightarrow> insert_valid rest (valid_count + 1) b')"

definition extractor_new :: "string list \<Rightarrow> string \<Rightarrow> (ip_radix_error + real_ip_extractor) option" where
  "extractor_new trusted_ips real_ip_header =
     (if trusted_ips = [] then Some (Inr \<lparr>rx_matcher = None, rx_header = real_ip_header\<rparr>)
      else map_option
             (\<lambda>(valid_count, b).
                if 0 < valid_count
                then res_bind (matcher_build b) (\<lambda>m. Inr \<lparr>rx_matcher = Some m, rx_header = real_ip_header\<rparr>)
                else Inr \<lparr>rx_matcher = None, rx_header = real_ip_header\<rparr>)
             (insert_valid trusted_ips 0 matcher_builder_new))"

definition is_trusted :: "ip_radix_matcher option \<Rightarrow> ip_addr \<Rightarrow> bool option" where
  "is_trusted m ip = (case m of None \<Rightarrow> Some False | Some m \<Rightarrow> map_option (\<lambda>r. r = Some True) (match_ip m ip))"

definition is_trusted_proxy :: "real_ip_extractor \<Rightarrow> ip_addr \<Rightarrow> bool option" where
  "is_trusted_proxy x ip = is_trusted (rx_matcher x) ip"

definition extract_ip_from_socket_addr :: "string \<Rightarrow> ip_addr" where
  "extract_ip_from_socket_addr addr =
     (case parse_socket_ip addr of
        Some ip \<Rightarrow> ip
      | None \<Rightarrow> (case parse_ip addr of Some ip \<Rightarrow> ip | None \<Rightarrow> V4 0))"

text \<open>The walk over the entries of the header from the right; the inner None is an end without a result.\<close>

fun first_untrusted :: "real_ip_extractor \<Rightarrow> string list \<Rightarrow> ip_addr option option" where
  "first_untrusted x [] = Some None"
| "first_untrusted x (ip_str # rest) =
     (case parse_ip ip_str of
        None \<Rightarrow> first_untrusted x rest
      | Some ip \<Rightarrow>
          Option.bind (is_trusted_proxy x ip) (\<lambda>t. if \<not> t then Some (Some ip) else first_untrusted x rest))"

definition extract_real_ip :: "real_ip_extractor \<Rightarrow> string \<Rightarrow> (string \<Rightarrow> string option) \<Rightarrow> string option" where
  "extract_real_ip x client_addr header_str =
     (let client_ip = extract_ip_from_socket_addr client_addr
      in if rx_matcher x = None then Some (show_ip client_ip)
         else Option.bind (is_trusted_proxy x client_ip) (\<lambda>t.
           if \<not> t then Some (show_ip client_ip)
           else (case header_str (rx_header x) of
                   None \<Rightarrow> Some (show_ip client_ip)
                 | Some xff_str \<Rightarrow>
                     map_option (\<lambda>r. case r of Some ip \<Rightarrow> show_ip ip | None \<Rightarrow> show_ip client_ip)
                       (first_untrusted x (rev (map trim (split_char (CHR 0x2C) xff_str)))))))"

section \<open>The Real IP plugin\<close>

record real_ip_config =
  ric_trusted_ips :: "string list"
  ric_header :: string
  ric_recursive :: bool
  ric_matcher :: "ip_radix_matcher option"

datatype real_ip_error =
    NoTrustedIps
  | NoHeaderName
  | NoValidIps nat nat
  | TrustedBuildFailed ip_radix_error

definition validate_and_to_cidr :: "string \<Rightarrow> ip_config_error + string" where
  "validate_and_to_cidr ip_str =
     (let trimmed = trim ip_str
      in if slash \<in> set trimmed
         then (case split_char slash trimmed of
                 [ip_part, prefix_part] \<Rightarrow>
                   (case parse_ip ip_part of
                      None \<Rightarrow> Inl (BadCidrIp ip_part)
                    | Some ip \<Rightarrow>
                        (case parse_u8 prefix_part of
                           Inl _ \<Rightarrow> Inl (BadCidrPrefix prefix_part)
                         | Inr prefix_len \<Rightarrow>
                             if max_prefix ip < prefix_len then Inl (PrefixExceeds prefix_len (max_prefix ip) ip)
                             else Inr trimmed))
               | _ \<Rightarrow> Inl (BadCidrFormat trimmed))
         else (case parse_ip trimmed of
                 None \<Rightarrow> Inl (BadIp trimmed)
               | Some ip \<Rightarrow> Inr (trimmed @ [slash] @ show_nat (max_prefix ip))))"

fun insert_trusted :: "string list \<Rightarrow> nat \<Rightarrow> nat \<Rightarrow> matcher_builder \<Rightarrow> (nat \<times> nat \<times> matcher_builder) option" where
  "insert_trusted [] valid invalid b = Some (valid, invalid, b)"
| "insert_trusted (ip_str # rest) valid invalid b =
     (case validate_and_to_cidr ip_str of
        Inl _ \<Rightarrow> insert_trusted rest valid (invalid + 1) b
      | Inr cidr_str \<Rightarrow>
          (case matcher_insert cidr_str True b of
             None \<Rightarrow> None
           | Some (Inl _) \<Rightarrow> insert_trusted rest valid (invalid + 1) b
           | Some (Inr b') \<Rightarrow> insert_trusted rest (valid + 1) invalid b'))"

definition real_ip_validate :: "real_ip_config \<Rightarrow> ((real_ip_error + unit) \<times> real_ip_config) option" where
  "real_ip_validate cfg =
     (if ric_trusted_ips cfg = [] then Some (Inl NoTrustedIps, cfg)
      else if trim (ric_header cfg) = [] then Some (Inl NoHeaderName, cfg)
      else map_option
             (\<lambda>(valid, invalid, b).
                if valid = 0 then (Inl (NoValidIps (length (ric_trusted_ips cfg)) invalid), cfg)
                else (case matcher_build b of
                        Inl e \<Rightarrow> (Inl (TrustedBuildFailed e), cfg)
                      | Inr m \<Rightarrow> (Inr (), cfg\<lparr>ric_matcher := Some m\<rparr>)))
             (insert_trusted (ric_trusted_ips cfg) 0 0 matcher_builder_new))"

text \<open>The plugin does not use the matcher of its configuration: it builds an extractor of its own.\<close>

definition real_ip_create :: "real_ip_config \<Rightarrow> real_ip_extractor option option" where
  "real_ip_create cfg =
     (if ric_trusted_ips cfg \<noteq> []
      then map_option (\<lambda>r. case r of Inr x \<Rightarrow> Some x | Inl _ \<Rightarrow> None) (extractor_new (ric_trusted_ips cfg) (ric_header cfg))
      else Some None)"

definition extract_real_ip_with_extractor :: "real_ip_extractor \<Rightarrow> string \<Rightarrow> string \<Rightarrow> string option" where
  "extract_real_ip_with_extractor x client_addr header_value =
     (case parse_ip client_addr of
        None \<Rightarrow> Some client_addr
      | Some client_ip \<Rightarrow>
          Option.bind (is_trusted_proxy x client_ip) (\<lambda>t.
            if \<not> t then Some (show_ip client_ip)
            else let ips = filter (\<lambda>s. s \<noteq> []) (map trim (split_char (CHR 0x2C) header_value))
                 in map_option
                      (\<lambda>r. case r of
                         Some ip \<Rightarrow> show_ip ip
                       | None \<Rightarrow> (case ips of
                                    [] \<Rightarrow> show_ip client_ip
                                  | s # _ \<Rightarrow> (case parse_ip s of Some ip \<Rightarrow> show_ip ip | None \<Rightarrow> show_ip client_ip)))
                      (first_untrusted x (rev ips))))"

definition real_ip_run ::
  "'s addr_session \<Rightarrow> real_ip_extractor option \<Rightarrow> 's \<Rightarrow> plugin_log \<Rightarrow> (plugin_result \<times> 's \<times> plugin_log) option" where
  "real_ip_run env extractor s log =
     (case extractor of
        None \<Rightarrow> Some (GoodNext, s, snd (log_push ''Config error: No valid extractor; '' log))
      | Some x \<Rightarrow>
          let old = ses_remote_addr env s; client = ses_client_addr env s
          in map_option
               (\<lambda>new.
                  if new \<noteq> old
                  then (case ses_set_remote_addr env s new of
                          Inl e \<Rightarrow> (GoodNext, s, snd (log_push (''Failed to set remote_addr: '' @ e @ ''; '') log))
                        | Inr s' \<Rightarrow>
                            (GoodNext, s', snd (log_push (''Extracted real IP: '' @ new @ '' (was: '' @ old @ ''); '') log)))
                  else (GoodNext, s, snd (log_push (''Real IP unchanged: '' @ new @ ''; '') log)))
               (case ses_header_value env s (rx_header x) of
                  Some v \<Rightarrow> extract_real_ip_with_extractor x client v
                | None \<Rightarrow> (case parse_ip client of
                             None \<Rightarrow> Some client
                           | Some ip \<Rightarrow> map_option (\<lambda>_. client) (is_trusted_proxy x ip))))"

section \<open>What the lists mean\<close>

definition entry_cidr :: "string \<Rightarrow> ip_cidr option" where
  "entry_cidr s =
     (if slash \<in> set s then (case cidr_parse s of Inr c \<Rightarrow> Some c | Inl _ \<Rightarrow> None)
      else map_option (\<lambda>ip. case ip of V4 a \<Rightarrow> CidrV4 a 32 | V6 a \<Rightarrow> CidrV6 a 128) (parse_ip s))"

definition in_list :: "string list \<Rightarrow> ip_addr \<Rightarrow> bool" where
  "in_list entries ip = list_ex (\<lambda>s. case entry_cidr s of Some c \<Rightarrow> cidr_contains c ip | None \<Rightarrow> False) entries"

lemma longest_match_True:
  assumes "\<And>c a. (c, a) \<in> set rules \<Longrightarrow> a"
  shows "longest_match rules ip = (if list_ex (\<lambda>(c, a). cidr_contains c ip) rules then Some True else None)"
proof (cases "filter (\<lambda>(c, a). cidr_contains c ip) rules = []")
  case True
  then show ?thesis by (auto simp: longest_match_def longest_def list_ex_iff filter_empty_conv)
next
  case False
  let ?rs = "filter (\<lambda>(c, a). cidr_contains c ip) rules"
  let ?len = "\<lambda>(c, a). cidr_prefix_len c"
  have "Max (set (map ?len ?rs)) \<in> set (map ?len ?rs)"
    by (rule Max_in) (use False in \<open>auto simp: filter_empty_conv\<close>)
  then have ne: "filter (\<lambda>r. ?len r = Max (set (map ?len ?rs))) ?rs \<noteq> []"
    by (auto simp: filter_empty_conv simp del: filter_filter)
  have "last (filter (\<lambda>r. ?len r = Max (set (map ?len ?rs))) ?rs) \<in> set rules"
    using last_in_set [OF ne] by auto
  then have "snd (last (filter (\<lambda>r. ?len r = Max (set (map ?len ?rs))) ?rs))"
    using assms by (metis prod.collapse)
  then show ?thesis
    using False by (auto simp: longest_match_def longest_def Let_def list_ex_iff filter_empty_conv
        simp del: filter_filter set_filter set_map)
qed

lemma entry_valid: "validate_ip_or_cidr s = Inr () \<longleftrightarrow> entry_cidr s \<noteq> None"
  by (auto simp: validate_ip_or_cidr_def entry_cidr_def cidr_parse_def max_prefix_def is_ipv4_def
      split: list.splits sum.splits option.splits ip_addr.splits if_splits)

lemma entry_parses:
  assumes "entry_cidr s = Some c"
  shows "\<exists>cs. to_cidr_format s = Inr cs \<and> cidr_parse cs = Inr c"
proof (cases "slash \<in> set s")
  case True
  then show ?thesis using assms by (auto simp: to_cidr_format_def entry_cidr_def split: sum.splits)
next
  case False
  have n: "parse_u8 (show_nat 32) = Inr 32" "parse_u8 (show_nat 128) = Inr 128"
    "CHR 0x2F \<notin> set (show_nat 32)" "CHR 0x2F \<notin> set (show_nat 128)"
    by code_simp+
  obtain ip where ip: "parse_ip s = Some ip" "c = (case ip of V4 a \<Rightarrow> CidrV4 a 32 | V6 a \<Rightarrow> CidrV6 a 128)"
    using assms False by (auto simp: entry_cidr_def)
  let ?cs = "s @ [slash] @ show_nat (max_prefix ip)"
  have "split_char slash ?cs = [s, show_nat (max_prefix ip)]"
    using False n(3,4) by (simp add: split_char_append split_char_absent max_prefix_def)
  then have "cidr_parse ?cs = Inr c"
    using ip n(1,2) by (cases ip) (simp_all add: cidr_parse_def max_prefix_def is_ipv4_def normalize_def)
  then show ?thesis using False ip(1) by (simp add: to_cidr_format_def)
qed

definition valid_list :: "string list \<Rightarrow> bool" where
  "valid_list entries \<longleftrightarrow> entries \<noteq> [] \<and> list_all (\<lambda>s. entry_cidr s \<noteq> None) entries"

definition entry_rules :: "string list \<Rightarrow> (ip_cidr \<times> bool) list" where
  "entry_rules entries = map (\<lambda>s. (the (entry_cidr s), True)) entries"

lemma insert_entries_ok:
  assumes "matcher_ok b rules"
  shows "if list_all (\<lambda>s. entry_cidr s \<noteq> None) entries
    then \<exists>b'. insert_entries kind entries b = Some (Inr b') \<and> matcher_ok b' (rules @ entry_rules entries)
    else \<exists>e. insert_entries kind entries b = Some (Inl e)"
  using assms
proof (induction entries arbitrary: b rules)
  case (Cons s rest)
  show ?case
  proof (cases "entry_cidr s")
    case None
    then obtain e where "validate_ip_or_cidr s = Inl e" using entry_valid [of s] by (cases "validate_ip_or_cidr s") auto
    then show ?thesis using None by simp
  next
    case (Some c)
    obtain cs where cs: "to_cidr_format s = Inr cs" "cidr_parse cs = Inr c" using entry_parses [OF Some] by blast
    obtain b' where b': "matcher_insert cs True b = Some (Inr b')" "matcher_ok b' (rules @ [(c, True)])"
      using matcher_insert_ok [OF Cons.prems cs(2)] by blast
    have "validate_ip_or_cidr s = Inr ()" using entry_valid Some by simp
    then show ?thesis using Cons.IH [OF b'(2)] Some cs b'(1) by (auto simp: entry_rules_def split: if_splits)
  qed
qed (simp add: entry_rules_def)

lemma longest_match_entries:
  assumes "list_all (\<lambda>s. entry_cidr s \<noteq> None) entries"
  shows "longest_match (entry_rules entries) ip = (if in_list entries ip then Some True else None)"
proof -
  have "list_ex (\<lambda>(c, a). cidr_contains c ip) (entry_rules entries) = in_list entries ip"
    using assms by (induction entries) (auto simp: entry_rules_def in_list_def)
  then show ?thesis by (subst longest_match_True) (auto simp: entry_rules_def)
qed

text \<open>A matcher built for a list, when there is one, answers exactly for the addresses in the list.\<close>

definition serves :: "string list option \<Rightarrow> ip_radix_matcher option \<Rightarrow> bool" where
  "serves entries m \<longleftrightarrow>
     (case entries of
        None \<Rightarrow> m = None
      | Some l \<Rightarrow> \<exists>m'. m = Some m' \<and> (\<forall>ip. match_ip m' ip = Some (if in_list l ip then Some True else None)))"

definition list_built :: "list_kind \<Rightarrow> string list \<Rightarrow> bool" where
  "list_built kind entries \<longleftrightarrow>
     (if valid_list entries
      then \<exists>m. build_list kind entries = Some (Inr m) \<and> serves (Some entries) (Some m)
      else \<exists>e. build_list kind entries = Some (Inl e))"

lemma build_list_ok:
  assumes "length entries \<le> 2 ^ 24"
  shows "list_built kind entries"
proof (cases "valid_list entries")
  case True
  then obtain b where b: "insert_entries kind entries matcher_builder_new = Some (Inr b)" "matcher_ok b (entry_rules entries)"
    using insert_entries_ok [OF matcher_ok_new, of entries kind] by (auto simp: valid_list_def)
  obtain m where "matcher_build b = Inr m" "\<forall>ip. match_ip m ip = Some (longest_match (entry_rules entries) ip)"
    using matcher_build_ok [OF b(2)] True assms by (auto simp: entry_rules_def valid_list_def)
  then show ?thesis
    using True b(1) longest_match_entries by (simp add: build_list_def valid_list_def list_built_def serves_def)
next
  case False
  then show ?thesis
    using insert_entries_ok [OF matcher_ok_new, of entries kind]
    by (auto simp: build_list_def valid_list_def list_built_def)
qed

section \<open>The verdict of the IP restriction\<close>

text \<open>A configuration as it is decoded: the matchers are not part of the encoded form.\<close>

definition decoded :: "ip_restriction_config \<Rightarrow> bool" where
  "decoded cfg \<longleftrightarrow> irc_allow_matcher cfg = None \<and> irc_deny_matcher cfg = None"

definition valid_config :: "ip_restriction_config \<Rightarrow> bool" where
  "valid_config cfg \<longleftrightarrow>
     (irc_allow cfg \<noteq> None \<or> irc_deny cfg \<noteq> None) \<and> 100 \<le> irc_status cfg \<and> irc_status cfg < 600 \<and>
     (case irc_allow cfg of None \<Rightarrow> True | Some l \<Rightarrow> valid_list l) \<and>
     (case irc_deny cfg of None \<Rightarrow> True | Some l \<Rightarrow> valid_list l)"

definition allowed :: "ip_restriction_config \<Rightarrow> ip_addr \<Rightarrow> bool" where
  "allowed cfg ip \<longleftrightarrow>
     (case irc_deny cfg of None \<Rightarrow> True | Some l \<Rightarrow> \<not> in_list l ip) \<and>
     (case irc_allow cfg of None \<Rightarrow> irc_default_action cfg = ActAllow | Some l \<Rightarrow> in_list l ip)"

lemma check_ip_access_serves:
  assumes "serves (irc_deny cfg) (irc_deny_matcher cfg')" "serves (irc_allow cfg) (irc_allow_matcher cfg')"
    and "irc_default_action cfg' = irc_default_action cfg"
  shows "check_ip_access cfg' ip = Some (allowed cfg ip)"
  using assms by (auto simp: serves_def check_ip_access_def allowed_def split: option.splits)

lemma validate_and_init_verdict:
  assumes "decoded cfg"
    and "case irc_allow cfg of None \<Rightarrow> True | Some l \<Rightarrow> length l \<le> 2 ^ 24"
    and "case irc_deny cfg of None \<Rightarrow> True | Some l \<Rightarrow> length l \<le> 2 ^ 24"
  shows "if valid_config cfg
    then \<exists>cfg'. validate_and_init cfg = Some (Inr (), cfg') \<and> irc_message cfg' = irc_message cfg
                \<and> (\<forall>ip. check_ip_access cfg' ip = Some (allowed cfg ip))
    else \<exists>e cfg'. validate_and_init cfg = Some (Inl e, cfg')"
proof -
  have a: "case irc_allow cfg of None \<Rightarrow> True | Some l \<Rightarrow> list_built AllowList l"
    using assms(2) build_list_ok by (cases "irc_allow cfg") simp_all
  have d: "case irc_deny cfg of None \<Rightarrow> True | Some l \<Rightarrow> list_built DenyList l"
    using assms(3) build_list_ok by (cases "irc_deny cfg") simp_all
  have none: "serves None None" by (simp add: serves_def)
  show ?thesis
  proof (cases "valid_config cfg")
    case True
    then have "\<exists>cfg'. validate_and_init cfg = Some (Inr (), cfg') \<and> irc_message cfg' = irc_message cfg
        \<and> serves (irc_deny cfg) (irc_deny_matcher cfg') \<and> serves (irc_allow cfg) (irc_allow_matcher cfg')
        \<and> irc_default_action cfg' = irc_default_action cfg"
      using assms(1) a d none
      by (cases "irc_allow cfg"; cases "irc_deny cfg")
        (auto simp: validate_and_init_def init_deny_def valid_config_def decoded_def list_built_def)
    then show ?thesis using True check_ip_access_serves by (auto cong: conj_cong)
  next
    case False
    then show ?thesis
      using a d
      by (cases "irc_allow cfg"; cases "irc_deny cfg")
        (auto simp: validate_and_init_def init_deny_def valid_config_def list_built_def split: if_splits)
  qed
qed

definition usable :: "ip_restriction_config \<Rightarrow> bool" where
  "usable cfg \<longleftrightarrow> decoded cfg \<and> valid_config cfg \<and>
     (case irc_allow cfg of None \<Rightarrow> True | Some l \<Rightarrow> length l \<le> 2 ^ 24) \<and>
     (case irc_deny cfg of None \<Rightarrow> True | Some l \<Rightarrow> length l \<le> 2 ^ 24)"

definition denial :: "ip_restriction_config \<Rightarrow> string" where
  "denial cfg = (case irc_message cfg of Some m \<Rightarrow> m | None \<Rightarrow> ''IP address not allowed'')"

lemma stream_restriction_verdict:
  assumes "usable cfg"
  shows "\<exists>p. stream_restriction_new cfg = Some p \<and>
    (\<forall>ip. on_connection p ip = Some (if allowed cfg ip then StreamAllow else StreamDeny (denial cfg)))"
  using validate_and_init_verdict [of cfg] assms
  by (auto simp: usable_def stream_restriction_new_def on_connection_def denial_def)

lemma stream_chain_verdict:
  assumes "\<forall>e \<in> set es. sp_enable e \<longrightarrow> usable (sp_config e)"
  shows "\<exists>ps. from_stream_plugins es = Some ps \<and>
    (\<forall>ip. stream_run ps ip = Some (case List.find (\<lambda>e. sp_enable e \<and> \<not> allowed (sp_config e) ip) es of
                                      None \<Rightarrow> StreamAllow
                                    | Some e \<Rightarrow> StreamDeny (denial (sp_config e))))"
  using assms
proof (induction es)
  case (Cons e es)
  then obtain ps where ps: "from_stream_plugins es = Some ps"
    "\<And>ip. stream_run ps ip = Some (case List.find (\<lambda>e. sp_enable e \<and> \<not> allowed (sp_config e) ip) es of
                                      None \<Rightarrow> StreamAllow | Some e \<Rightarrow> StreamDeny (denial (sp_config e)))"
    by auto
  show ?case
  proof (cases "sp_enable e")
    case True
    then obtain p where "stream_restriction_new (sp_config e) = Some p"
      "\<And>ip. on_connection p ip = Some (if allowed (sp_config e) ip then StreamAllow else StreamDeny (denial (sp_config e)))"
      using stream_restriction_verdict Cons.prems by (metis list.set_intros(1))
    then show ?thesis using ps True by simp
  qed (use ps in simp)
qed simp

text \<open>
  C32: The IP restriction of streams enforces its lists. When the enabled entries of an EdgionStreamPlugins
  resource are valid, its chain is built without a panic, and the connection filter that looks it up
  accepts a client exactly when every enabled entry allows it: its address is in no deny list, and in the
  allow list when there is one (otherwise the default action decides). The chain denies with the message
  of the first entry that does not allow the address.
\<close>

theorem stream_chain_enforces_lists:
  assumes "\<forall>e \<in> set es. sp_enable e \<longrightarrow> usable (sp_config e)"
  shows "\<exists>ps. from_stream_plugins es = Some ps \<and>
    (\<forall>store key ip. store key = Some ps \<longrightarrow>
       should_accept store key (Some ip) = Some (\<forall>e \<in> set es. sp_enable e \<longrightarrow> allowed (sp_config e) ip) \<and>
       stream_run ps ip = Some (case List.find (\<lambda>e. sp_enable e \<and> \<not> allowed (sp_config e) ip) es of
                                  None \<Rightarrow> StreamAllow
                                | Some e \<Rightarrow> StreamDeny (denial (sp_config e))))"
proof -
  obtain ps where ps: "from_stream_plugins es = Some ps"
    "\<And>ip. stream_run ps ip = Some (case List.find (\<lambda>e. sp_enable e \<and> \<not> allowed (sp_config e) ip) es of
                                      None \<Rightarrow> StreamAllow | Some e \<Rightarrow> StreamDeny (denial (sp_config e)))"
    using stream_chain_verdict [OF assms] by blast
  have find: "(List.find (\<lambda>e. sp_enable e \<and> \<not> allowed (sp_config e) ip) es = None) \<longleftrightarrow>
      (\<forall>e \<in> set es. sp_enable e \<longrightarrow> allowed (sp_config e) ip)" for ip
    by (auto simp: find_None_iff)
  have "should_accept store key (Some ip) = Some (\<forall>e \<in> set es. sp_enable e \<longrightarrow> allowed (sp_config e) ip)"
    if "store key = Some ps" for store key ip
  proof (cases "ps = []")
    case True
    then have "List.find (\<lambda>e. sp_enable e \<and> \<not> allowed (sp_config e) ip) es = None"
      using ps(2) [of ip] by (auto split: option.splits)
    then show ?thesis using that True find by (simp add: should_accept_def)
  next
    case False
    then show ?thesis
      using that ps(2) [of ip] find [of ip] by (auto simp: should_accept_def split: option.splits)
  qed
  then show ?thesis using ps by blast
qed

definition sample_restriction :: ip_restriction_config where
  "sample_restriction =
     \<lparr>irc_allow = Some [''10.0.0.0/8''], irc_deny = Some [''10.0.0.100''], irc_ip_source = ClientIp, irc_message = None,
      irc_status = 403, irc_default_action = ActAllow, irc_allow_matcher = None, irc_deny_matcher = None\<rparr>"

lemma sample_usable: "usable sample_restriction"
  by code_simp

theorem stream_chain_enforces_lists_witness:
  "\<not> allowed sample_restriction (V4 0x0A000064) \<and> allowed sample_restriction (V4 0x0A000032) \<and>
   (\<exists>ps. from_stream_plugins [\<lparr>sp_enable = True, sp_config = sample_restriction\<rparr>] = Some ps \<and>
     (\<forall>ip. should_accept (\<lambda>k. Some ps) ''d/p'' (Some ip) = Some (allowed sample_restriction ip)))"
proof -
  have "\<not> allowed sample_restriction (V4 0x0A000064)" "allowed sample_restriction (V4 0x0A000032)" by code_simp+
  then show ?thesis
    using stream_chain_enforces_lists [of "[\<lparr>sp_enable = True, sp_config = sample_restriction\<rparr>]"] sample_usable
    by auto
qed

text \<open>
  C33: The HTTP plugin of the IP restriction does not look at its lists. The matchers of a configuration are
  not part of its encoded form, and the plugin is created from the decoded configuration without building
  them: it lets every request pass when the default action is to allow, and rejects every request with a
  known client address when it is to deny, whatever the allow and deny lists say.
\<close>

theorem http_restriction_ignores_lists:
  assumes "decoded cfg"
  shows "\<exists>s' log'. ip_restriction_run env (ip_restriction_create cfg) s log =
    Some (if get_client_ip env cfg s = None \<or> irc_default_action cfg = ActAllow then GoodNext else ErrTerminateRequest, s', log')"
proof (cases "get_client_ip env cfg s")
  case None
  then show ?thesis by (simp add: ip_restriction_create_def ip_restriction_run_def)
next
  case (Some ip)
  have "check_ip_access cfg ip = Some (irc_default_action cfg = ActAllow)"
    using assms by (simp add: check_ip_access_def decoded_def)
  then show ?thesis
    using Some by (auto simp: ip_restriction_create_def ip_restriction_run_def Let_def split: prod.splits)
qed

definition sample_session :: "string addr_session" where
  "sample_session =
     \<lparr>ses_remote_addr = (\<lambda>s. s), ses_client_addr = (\<lambda>s. s), ses_header_value = (\<lambda>s h. None),
      ses_set_remote_addr = (\<lambda>s a. Inr a), ses_status_ok = (\<lambda>n. True), ses_write_header = (\<lambda>s n hs. (True, s)),
      ses_write_body = (\<lambda>s b. (True, s))\<rparr>"

theorem http_restriction_ignores_lists_witness:
  "\<not> allowed sample_restriction (V4 0x0A000064) \<and>
   get_client_ip sample_session sample_restriction ''10.0.0.100'' = Some (V4 0x0A000064) \<and>
   (\<exists>s' log'. ip_restriction_run sample_session (ip_restriction_create sample_restriction) ''10.0.0.100'' (plugin_log_new ''IpRestriction'')
      = Some (GoodNext, s', log'))"
proof -
  have "decoded sample_restriction" "irc_default_action sample_restriction = ActAllow"
    "\<not> allowed sample_restriction (V4 0x0A000064)"
    "get_client_ip sample_session sample_restriction ''10.0.0.100'' = Some (V4 0x0A000064)"
    by code_simp+
  then show ?thesis
    using http_restriction_ignores_lists [of sample_restriction sample_session "''10.0.0.100''" "plugin_log_new ''IpRestriction''"]
    by simp
qed

section \<open>Trusted proxies\<close>

text \<open>The trusted addresses of a list: those covered by one of its entries in CIDR notation.\<close>

definition trusts :: "string list \<Rightarrow> ip_addr \<Rightarrow> bool" where
  "trusts cidrs ip = list_ex (\<lambda>s. case cidr_parse s of Inr c \<Rightarrow> cidr_contains c ip | Inl _ \<Rightarrow> False) cidrs"

definition cidr_rules :: "string list \<Rightarrow> (ip_cidr \<times> bool) list" where
  "cidr_rules cidrs = List.map_filter (\<lambda>s. case cidr_parse s of Inr c \<Rightarrow> Some (c, True) | Inl _ \<Rightarrow> None) cidrs"

lemma insert_valid_ok:
  assumes "matcher_ok b rules"
  shows "\<exists>b'. insert_valid cidrs k b = Some (k + length (cidr_rules cidrs), b') \<and> matcher_ok b' (rules @ cidr_rules cidrs)"
  using assms
proof (induction cidrs arbitrary: b k rules)
  case (Cons s rest)
  show ?case
  proof (cases "cidr_parse s")
    case (Inl e)
    then show ?thesis using Cons by (simp add: matcher_insert_error cidr_rules_def)
  next
    case (Inr c)
    obtain b' where b': "matcher_insert s True b = Some (Inr b')" "matcher_ok b' (rules @ [(c, True)])"
      using matcher_insert_ok [OF Cons.prems Inr] by blast
    then show ?thesis using Cons.IH [OF b'(2), of "k + 1"] Inr by (simp add: cidr_rules_def)
  qed
qed (simp add: cidr_rules_def)

lemma longest_match_cidrs: "longest_match (cidr_rules cidrs) ip = (if trusts cidrs ip then Some True else None)"
proof -
  have "list_ex (\<lambda>(c, a). cidr_contains c ip) (cidr_rules cidrs) = trusts cidrs ip"
    by (induction cidrs) (auto simp: cidr_rules_def trusts_def split: sum.splits)
  moreover have "a" if "(c, a) \<in> set (cidr_rules cidrs)" for c a
    using that by (induction cidrs) (auto simp: cidr_rules_def split: sum.splits)
  ultimately show ?thesis by (subst longest_match_True) auto
qed

lemma extractor_new_ok:
  assumes "length trusted \<le> 2 ^ 24"
  shows "\<exists>x. extractor_new trusted h = Some (Inr x) \<and> rx_header x = h \<and>
    (\<forall>ip. is_trusted_proxy x ip = Some (trusts trusted ip))"
proof -
  have none: "cidr_rules trusted = [] \<Longrightarrow> \<not> trusts trusted ip" for ip
    using longest_match_cidrs [of trusted ip] by (auto simp: longest_match_def longest_def split: if_splits)
  obtain b where b: "insert_valid trusted 0 matcher_builder_new = Some (length (cidr_rules trusted), b)"
    "matcher_ok b (cidr_rules trusted)"
    using insert_valid_ok [OF matcher_ok_new, of trusted 0] by auto
  have len: "length (cidr_rules trusted) \<le> 2 ^ 24"
    using assms length_map_filter order_trans unfolding cidr_rules_def by blast
  show ?thesis
  proof (cases "cidr_rules trusted = []")
    case True
    then show ?thesis
      using b(1) none [OF True] by (auto simp: extractor_new_def is_trusted_proxy_def is_trusted_def)
  next
    case False
    obtain m where "matcher_build b = Inr m" "\<forall>ip. match_ip m ip = Some (longest_match (cidr_rules trusted) ip)"
      using matcher_build_ok [OF b(2) False len] by blast
    moreover have "trusted \<noteq> []" using False by (auto simp: cidr_rules_def)
    ultimately show ?thesis
      using False b(1) by (simp add: extractor_new_def is_trusted_proxy_def is_trusted_def longest_match_cidrs)
  qed
qed

text \<open>The addresses a header names, and the one that counts.\<close>

definition forwarded_ips :: "string \<Rightarrow> ip_addr list" where
  "forwarded_ips xff = List.map_filter (\<lambda>s. parse_ip (trim s)) (split_char (CHR 0x2C) xff)"

definition real_client :: "string list \<Rightarrow> ip_addr \<Rightarrow> string option \<Rightarrow> ip_addr" where
  "real_client trusted client header =
     (case header of
        None \<Rightarrow> client
      | Some xff \<Rightarrow>
          let foreign = filter (\<lambda>ip. \<not> trusts trusted ip) (forwarded_ips xff)
          in if trusts trusted client \<and> foreign \<noteq> [] then last foreign else client)"

lemma first_untrusted_rev:
  assumes "\<And>ip. is_trusted_proxy x ip = Some (trusts trusted ip)"
  shows "first_untrusted x (rev ss) = Some (
    let foreign = filter (\<lambda>ip. \<not> trusts trusted ip) (List.map_filter parse_ip ss)
    in if foreign = [] then None else Some (last foreign))"
proof (induction ss rule: rev_induct)
  case (snoc s ss)
  then show ?case using assms by (cases "parse_ip s") (auto simp: map_filter_append Let_def)
qed simp

text \<open>
  C34: The extractor of the real client address follows the trusted proxies. For every list of trusted
  networks it is built without an error or a panic, ignoring invalid entries. The address it reports is
  that of the connection unless the peer is a trusted proxy, and then the rightmost address of the header
  that is not trusted, or the peer when there is none. So what a client writes in front of the header
  that the proxies complete has no influence.
\<close>

theorem real_ip_follows_trusted_proxies:
  assumes "length trusted \<le> 2 ^ 24"
  shows "\<exists>x. extractor_new trusted h = Some (Inr x) \<and>
    (\<forall>client_addr header.
       extract_real_ip x client_addr header =
         Some (show_ip (real_client trusted (extract_ip_from_socket_addr client_addr) (header h)))) \<and>
    (\<forall>client spoofed xff. (\<exists>ip \<in> set (forwarded_ips xff). \<not> trusts trusted ip) \<longrightarrow>
       real_client trusted client (Some (spoofed @ '','' @ xff)) = real_client trusted client (Some xff))"
proof -
  obtain x where x: "extractor_new trusted h = Some (Inr x)" "rx_header x = h"
    "\<And>ip. is_trusted_proxy x ip = Some (trusts trusted ip)"
    using extractor_new_ok [OF assms] by blast
  have none: "rx_matcher x = None \<Longrightarrow> \<not> trusts trusted ip" for ip
    using x(3) [of ip] by (simp add: is_trusted_proxy_def is_trusted_def)
  have "extract_real_ip x client_addr header =
      Some (show_ip (real_client trusted (extract_ip_from_socket_addr client_addr) (header h)))" for client_addr header
    unfolding extract_real_ip_def
    using none x first_untrusted_rev [OF x(3)]
    by (auto simp: real_client_def forwarded_ips_def map_filter_map Let_def split: option.splits)
  moreover have "real_client trusted client (Some (spoofed @ '','' @ xff)) = real_client trusted client (Some xff)"
    if "\<exists>ip \<in> set (forwarded_ips xff). \<not> trusts trusted ip" for client spoofed xff
  proof -
    let ?f = "filter (\<lambda>ip. \<not> trusts trusted ip)"
    have "forwarded_ips (spoofed @ '','' @ xff) = forwarded_ips spoofed @ forwarded_ips xff"
      by (simp add: forwarded_ips_def split_char_append_last map_filter_append)
    moreover have "?f (forwarded_ips xff) \<noteq> []" using that by (auto simp: filter_empty_conv)
    ultimately show ?thesis by (simp add: real_client_def Let_def)
  qed
  ultimately show ?thesis using x(1) by blast
qed

theorem real_ip_follows_trusted_proxies_witness:
  "\<exists>x. extractor_new [''192.168.0.0/16'', ''bad''] ''X-Forwarded-For'' = Some (Inr x) \<and>
     extract_real_ip x ''192.168.1.254:45678'' (\<lambda>h. Some ''203.0.113.1, 192.168.1.1'') = Some ''203.0.113.1'' \<and>
     real_client [''192.168.0.0/16'', ''bad''] (V4 0xC0A801FE) (Some (''9.9.9.9'' @ '','' @ ''203.0.113.1, 192.168.1.1'')) = V4 0xCB007101"
proof -
  let ?t = "[''192.168.0.0/16'', ''bad'']" and ?xff = "''203.0.113.1, 192.168.1.1''"
  have w: "\<exists>ip \<in> set (forwarded_ips ?xff). \<not> trusts ?t ip"
    "real_client ?t (V4 0xC0A801FE) (Some ?xff) = V4 0xCB007101"
    "extract_ip_from_socket_addr ''192.168.1.254:45678'' = V4 0xC0A801FE"
    "show_ip (V4 0xCB007101) = ''203.0.113.1''"
    by code_simp+
  have "length ?t \<le> 2 ^ 24" by simp
  from real_ip_follows_trusted_proxies [OF this, of "''X-Forwarded-For''"]
  obtain x where x: "extractor_new ?t ''X-Forwarded-For'' = Some (Inr x)"
    "\<And>client_addr header. extract_real_ip x client_addr header =
       Some (show_ip (real_client ?t (extract_ip_from_socket_addr client_addr) (header ''X-Forwarded-For'')))"
    "\<And>client spoofed xff. \<exists>ip \<in> set (forwarded_ips xff). \<not> trusts ?t ip \<Longrightarrow>
       real_client ?t client (Some (spoofed @ '','' @ xff)) = real_client ?t client (Some xff)"
    by blast
  have "extract_real_ip x ''192.168.1.254:45678'' (\<lambda>h. Some ?xff) = Some ''203.0.113.1''"
    using x(2) w(2-4) by (simp only:)
  with x(1) x(3) [OF w(1)] w(2) show ?thesis by (intro exI [of _ x]) (simp only:)
qed

text \<open>
  A plain address is accepted in the trusted list of the Real IP plugin: validation turns it into a network
  of one address. The extractor that the plugin builds reads the list as it is and skips the entry.
\<close>

lemma plain_address_is_validated_but_not_trusted:
  defines "cfg \<equiv> \<lparr>ric_trusted_ips = [''10.0.0.1''], ric_header = ''X-Forwarded-For'', ric_recursive = True, ric_matcher = None\<rparr>"
  shows "map_option (\<lambda>(r, cfg'). (r, is_trusted (ric_matcher cfg') (V4 0x0A000001))) (real_ip_validate cfg) = Some (Inr (), Some True)"
    and "map_option (map_option (\<lambda>x. is_trusted_proxy x (V4 0x0A000001))) (real_ip_create cfg) = Some (Some (Some False))"
  unfolding cfg_def by code_simp+

end
