(* ===== verification/Work_Queue.thy ===== *)
theory Work_Queue
  imports Edgion_Prelude
begin

text \<open>
  The work queue of the controller (core/controller/conf_mgr/sync_runtime/workqueue.rs) and the tasks around
  it. Its methods are asynchronous and share two concurrent sets, so each method is a task that takes one
  atomic step at a time: a test or a change of one set, or a transfer over a channel. A system state holds the
  tasks in flight, the background loop of the delay queue and the worker of conf_center/kubernetes/
  resource_controller.rs, and its steps interleave freely. Channels are never closed while the queue is in use,
  so the error branches of sending are not reached. Instants and durations are milliseconds.

  The results: in every interleaving, the steps of the system itself come to an end, no state is a deadlock,
  and when all is quiet the worker has processed the current object of every key.
\<close>

section \<open>Trigger chains\<close>

record trigger_source =
  ts_kind :: string
  ts_key :: string

type_synonym trigger_chain = "trigger_source list"

definition chain_extend :: "string \<Rightarrow> string \<Rightarrow> trigger_chain \<Rightarrow> trigger_chain" where
  "chain_extend kind key chain = chain @ [\<lparr>ts_kind = kind, ts_key = key\<rparr>]"

definition occurrence_count :: "string \<Rightarrow> string \<Rightarrow> trigger_chain \<Rightarrow> nat" where
  "occurrence_count kind key chain = length (filter (\<lambda>s. ts_kind s = kind \<and> ts_key s = key) chain)"

definition would_exceed_cycle_limit :: "string \<Rightarrow> string \<Rightarrow> nat \<Rightarrow> trigger_chain \<Rightarrow> bool" where
  "would_exceed_cycle_limit target_kind target_key max_cycles chain \<longleftrightarrow>
     max_cycles \<le> occurrence_count target_kind target_key chain"

section \<open>Items, configuration and the shared state\<close>

record work_item =
  wi_key :: string
  wi_retry_count :: nat
  wi_chain :: trigger_chain

definition work_item_new :: "string \<Rightarrow> work_item" where
  "work_item_new key = \<lparr>wi_key = key, wi_retry_count = 0, wi_chain = []\<rparr>"

definition work_item_for_retry :: "string \<Rightarrow> nat \<Rightarrow> work_item" where
  "work_item_for_retry key retry_count = \<lparr>wi_key = key, wi_retry_count = retry_count, wi_chain = []\<rparr>"

definition work_item_with_chain :: "string \<Rightarrow> trigger_chain \<Rightarrow> work_item" where
  "work_item_with_chain key chain = \<lparr>wi_key = key, wi_retry_count = 0, wi_chain = chain\<rparr>"

record delayed_item =
  di_key :: string
  di_chain :: trigger_chain
  di_ready_at :: nat

record wq_config =
  wc_capacity :: nat
  wc_max_retries :: nat
  wc_initial_backoff :: nat
  wc_max_backoff :: nat
  wc_default_requeue_delay :: nat
  wc_max_trigger_cycles :: nat
  wc_max_trigger_depth :: nat

definition default_wq_config :: wq_config where
  "default_wq_config =
     \<lparr>wc_capacity = 1000, wc_max_retries = 5, wc_initial_backoff = 100, wc_max_backoff = 30000,
      wc_default_requeue_delay = 100, wc_max_trigger_cycles = 5, wc_max_trigger_depth = 20\<rparr>"

record work_queue =
  wq_ready :: "work_item list"
  wq_pending :: "string set"
  wq_scheduled :: "string set"
  wq_delay :: "delayed_item list"
  wq_adds :: u64
  wq_retries :: u64
  wq_depth :: u64
  wq_delayed :: u64

definition work_queue_new :: work_queue where
  "work_queue_new =
     \<lparr>wq_ready = [], wq_pending = {}, wq_scheduled = {}, wq_delay = [],
      wq_adds = 0, wq_retries = 0, wq_depth = 0, wq_delayed = 0\<rparr>"

section \<open>The methods as tasks\<close>

text \<open>
  The position of a task: \<open>enqueue\<close> tests \<open>pending\<close>, inserts and sends; \<open>enqueue_after\<close> tests \<open>pending\<close> and
  \<open>scheduled\<close>, inserts into \<open>scheduled\<close> and sends to the delay loop; the task spawned by
  \<open>requeue_with_backoff\<close> sleeps, tests, inserts and sends.
\<close>

datatype wq_task =
    EnqueueCheck string
  | EnqueueInsert string
  | EnqueueSend work_item
  | AfterCheckPending string nat trigger_chain
  | AfterCheckScheduled string nat trigger_chain
  | AfterInsert string nat trigger_chain
  | AfterSend delayed_item
  | BackoffSleep string nat nat
  | BackoffInsert string nat
  | BackoffSend work_item

text \<open>One step of a task, with the task that is left of it; the outer None is a task that has to wait.\<close>

fun task_step :: "wq_config \<Rightarrow> nat \<Rightarrow> wq_task \<Rightarrow> work_queue \<Rightarrow> (wq_task option \<times> work_queue) option" where
  "task_step cfg now (EnqueueCheck key) q =
     (if key \<in> wq_pending q then Some (None, q) else Some (Some (EnqueueInsert key), q))"
| "task_step cfg now (EnqueueInsert key) q =
     Some (Some (EnqueueSend (work_item_new key)), q\<lparr>wq_pending := insert key (wq_pending q), wq_depth := wq_depth q + 1\<rparr>)"
| "task_step cfg now (EnqueueSend item) q =
     (if length (wq_ready q) < wc_capacity cfg
      then Some (None, q\<lparr>wq_ready := wq_ready q @ [item], wq_adds := wq_adds q + 1\<rparr>) else None)"
| "task_step cfg now (AfterCheckPending key delay chain) q =
     (if key \<in> wq_pending q then Some (None, q) else Some (Some (AfterCheckScheduled key delay chain), q))"
| "task_step cfg now (AfterCheckScheduled key delay chain) q =
     (if key \<in> wq_scheduled q then Some (None, q) else Some (Some (AfterInsert key delay chain), q))"
| "task_step cfg now (AfterInsert key delay chain) q =
     Some (Some (AfterSend \<lparr>di_key = key, di_chain = chain, di_ready_at = now + delay\<rparr>),
           q\<lparr>wq_scheduled := insert key (wq_scheduled q), wq_delayed := wq_delayed q + 1\<rparr>)"
| "task_step cfg now (AfterSend item) q =
     (if length (wq_delay q) < wc_capacity cfg then Some (None, q\<lparr>wq_delay := wq_delay q @ [item]\<rparr>) else None)"
| "task_step cfg now (BackoffSleep key retry until) q =
     (if now < until then None
      else if key \<in> wq_pending q then Some (None, q) else Some (Some (BackoffInsert key retry), q))"
| "task_step cfg now (BackoffInsert key retry) q =
     Some (Some (BackoffSend (work_item_for_retry key retry)),
           q\<lparr>wq_pending := insert key (wq_pending q), wq_depth := wq_depth q + 1, wq_retries := wq_retries q + 1\<rparr>)"
| "task_step cfg now (BackoffSend item) q =
     (if length (wq_ready q) < wc_capacity cfg then Some (None, q\<lparr>wq_ready := wq_ready q @ [item]\<rparr>) else None)"

definition backoff :: "wq_config \<Rightarrow> nat \<Rightarrow> nat" where
  "backoff cfg retry_count =
     min (wc_initial_backoff cfg * min (2 ^ retry_count) 4294967295) (wc_max_backoff cfg)"

definition requeue_with_backoff :: "wq_config \<Rightarrow> nat \<Rightarrow> work_item \<Rightarrow> wq_task option" where
  "requeue_with_backoff cfg now item =
     (if wc_max_retries cfg < wi_retry_count item + 1 then None
      else Some (BackoffSleep (wi_key item) (wi_retry_count item + 1) (now + backoff cfg (wi_retry_count item))))"

section \<open>The delay loop\<close>

datatype delay_pc =
    DelayWait
  | DelayPopped delayed_item
  | DelayUnscheduled delayed_item
  | DelayInsert delayed_item
  | DelaySend work_item

text \<open>An item may be popped when it is among the earliest of the heap and its time has come.\<close>

definition may_pop :: "nat \<Rightarrow> nat \<Rightarrow> delayed_item list \<Rightarrow> bool" where
  "may_pop now i heap \<longleftrightarrow>
     i < length heap \<and> list_all (\<lambda>d. di_ready_at (heap ! i) \<le> di_ready_at d) heap \<and> di_ready_at (heap ! i) \<le> now"

fun delay_next :: "wq_config \<Rightarrow> delay_pc \<Rightarrow> work_queue \<Rightarrow> (delay_pc \<times> work_queue) option" where
  "delay_next cfg DelayWait q = None"
| "delay_next cfg (DelayPopped item) q =
     Some (DelayUnscheduled item, q\<lparr>wq_scheduled := wq_scheduled q - {di_key item}\<rparr>)"
| "delay_next cfg (DelayUnscheduled item) q =
     (if di_key item \<in> wq_pending q then Some (DelayWait, q) else Some (DelayInsert item, q))"
| "delay_next cfg (DelayInsert item) q =
     Some (DelaySend (work_item_with_chain (di_key item) (di_chain item)),
           q\<lparr>wq_pending := insert (di_key item) (wq_pending q), wq_depth := wq_depth q + 1, wq_adds := wq_adds q + 1\<rparr>)"
| "delay_next cfg (DelaySend item) q =
     (if length (wq_ready q) < wc_capacity cfg
      then Some (DelayWait, q\<lparr>wq_ready := wq_ready q @ [item]\<rparr>) else None)"

section \<open>The system\<close>

text \<open>
  The worker receives an item, removes its key from \<open>pending\<close>, reads the object from the store and then has
  it processed; the store may change between any two of these steps. What processing does is a parameter: it
  takes an input from the environment, the key, the object and the chain of the item, and changes the state of
  the processor. \<open>None\<close> is a panic.
\<close>

datatype 'o worker_pc =
    WorkerWait
  | WorkerReceived work_item
  | WorkerItem work_item
  | WorkerObject work_item "'o option"

datatype 'o store_event = Applied 'o | Deleted 'o

fun event_object :: "'o store_event \<Rightarrow> 'o" where
  "event_object (Applied o') = o'"
| "event_object (Deleted o') = o'"

record ('o, 'c) system =
  sys_queue :: work_queue
  sys_tasks :: "wq_task list"
  sys_heap :: "delayed_item list"
  sys_delay :: delay_pc
  sys_worker :: "'o worker_pc"
  sys_now :: nat
  sys_events :: "'o store_event list"
  sys_store :: "string \<rightharpoonup> 'o"
  sys_proc :: 'c
  sys_seen :: "string \<rightharpoonup> 'o"

record ('o, 'c, 'e) system_env =
  se_config :: wq_config
  se_key :: "'o \<Rightarrow> string"
  se_namespace :: "'o \<Rightarrow> string option"
  se_valid :: "'o \<Rightarrow> bool"
  se_filter :: "string list option"
  se_process :: "'e \<Rightarrow> string \<Rightarrow> 'o option \<Rightarrow> trigger_chain \<Rightarrow> 'c \<Rightarrow> 'c option"

definition passes_namespace_filter :: "('o, 'c, 'e) system_env \<Rightarrow> 'o \<Rightarrow> bool" where
  "passes_namespace_filter env obj =
     (case se_filter env of
        None \<Rightarrow> True
      | Some allowed \<Rightarrow> (case se_namespace env obj of Some ns \<Rightarrow> ns \<in> set allowed | None \<Rightarrow> False))"

definition should_process :: "('o, 'c, 'e) system_env \<Rightarrow> 'o option \<Rightarrow> bool" where
  "should_process env store_obj =
     (case store_obj of Some obj \<Rightarrow> passes_namespace_filter env obj | None \<Rightarrow> True)"

text \<open>
  The steps of the system itself. \<open>sys_seen\<close> remembers for every key the object that was last processed; it
  is not part of the program.
\<close>

inductive internal_step :: "('o, 'c, 'e) system_env \<Rightarrow> ('o, 'c) system \<Rightarrow> ('o, 'c) system \<Rightarrow> bool"
  for env :: "('o, 'c, 'e) system_env" where
  Deliver:
    "sys_events s = ev # evs \<Longrightarrow>
     internal_step env s
       (s\<lparr>sys_events := evs,
          sys_tasks := sys_tasks s @ (if passes_namespace_filter env (event_object ev)
                                      then [EnqueueCheck (se_key env (event_object ev))] else [])\<rparr>)"
| Task:
    "i < length (sys_tasks s) \<Longrightarrow> task_step (se_config env) (sys_now s) (sys_tasks s ! i) (sys_queue s) = Some (t, q) \<Longrightarrow>
     internal_step env s
       (s\<lparr>sys_queue := q,
          sys_tasks := take i (sys_tasks s) @ (case t of Some t' \<Rightarrow> [t'] | None \<Rightarrow> []) @ drop (Suc i) (sys_tasks s)\<rparr>)"
| DelayReceive:
    "sys_delay s = DelayWait \<Longrightarrow> wq_delay (sys_queue s) = d # ds \<Longrightarrow>
     internal_step env s (s\<lparr>sys_queue := (sys_queue s)\<lparr>wq_delay := ds\<rparr>, sys_heap := sys_heap s @ [d]\<rparr>)"
| DelayPop:
    "sys_delay s = DelayWait \<Longrightarrow> may_pop (sys_now s) i (sys_heap s) \<Longrightarrow>
     internal_step env s
       (s\<lparr>sys_delay := DelayPopped (sys_heap s ! i), sys_heap := take i (sys_heap s) @ drop (Suc i) (sys_heap s)\<rparr>)"
| DelayNext:
    "delay_next (se_config env) (sys_delay s) (sys_queue s) = Some (pc, q) \<Longrightarrow>
     internal_step env s (s\<lparr>sys_delay := pc, sys_queue := q\<rparr>)"
| Receive:
    "sys_worker s = WorkerWait \<Longrightarrow> wq_ready (sys_queue s) = it # items \<Longrightarrow>
     internal_step env s (s\<lparr>sys_worker := WorkerReceived it, sys_queue := (sys_queue s)\<lparr>wq_ready := items\<rparr>\<rparr>)"
| Remove:
    "sys_worker s = WorkerReceived it \<Longrightarrow>
     internal_step env s
       (s\<lparr>sys_worker := WorkerItem it,
          sys_queue := (sys_queue s)\<lparr>wq_pending := wq_pending (sys_queue s) - {wi_key it}, wq_depth := wq_depth (sys_queue s) - 1\<rparr>\<rparr>)"
| Look_Up:
    "sys_worker s = WorkerItem it \<Longrightarrow>
     internal_step env s (s\<lparr>sys_worker := WorkerObject it (sys_store s (wi_key it))\<rparr>)"
| Process:
    "sys_worker s = WorkerObject it obj \<Longrightarrow> should_process env obj \<Longrightarrow>
     se_process env e (wi_key it) obj (wi_chain it) (sys_proc s) = Some c \<Longrightarrow>
     internal_step env s
       (s\<lparr>sys_worker := WorkerWait, sys_proc := c, sys_seen := (sys_seen s)(wi_key it := obj)\<rparr>)"
| Ignore:
    "sys_worker s = WorkerObject it obj \<Longrightarrow> \<not> should_process env obj \<Longrightarrow>
     internal_step env s (s\<lparr>sys_worker := WorkerWait\<rparr>)"

text \<open>
  What happens from outside: an object of the store changes to one that the API server admits, a key is
  enqueued again (by the handlers, on a change of leadership, or after a failure), time passes.
\<close>

inductive outside_step :: "('o, 'c, 'e) system_env \<Rightarrow> ('o, 'c) system \<Rightarrow> ('o, 'c) system \<Rightarrow> bool"
  for env :: "('o, 'c, 'e) system_env" where
  Apply:
    "se_valid env obj \<Longrightarrow>
     outside_step env s
       (s\<lparr>sys_store := (sys_store s)(se_key env obj \<mapsto> obj), sys_events := sys_events s @ [Applied obj]\<rparr>)"
| Remove_Object:
    "sys_store s key = Some obj \<Longrightarrow>
     outside_step env s (s\<lparr>sys_store := (sys_store s)(key := None), sys_events := sys_events s @ [Deleted obj]\<rparr>)"
| Requeue: "outside_step env s (s\<lparr>sys_tasks := sys_tasks s @ [EnqueueCheck key]\<rparr>)"
| Requeue_With_Chain:
    "outside_step env s
       (s\<lparr>sys_tasks := sys_tasks s @ [AfterCheckPending key (wc_default_requeue_delay (se_config env)) chain]\<rparr>)"
| Requeue_With_Backoff:
    "requeue_with_backoff (se_config env) (sys_now s) item = Some t \<Longrightarrow>
     outside_step env s (s\<lparr>sys_tasks := sys_tasks s @ [t]\<rparr>)"
| Tick: "outside_step env s (s\<lparr>sys_now := sys_now s + d\<rparr>)"

text \<open>
  The system starts with the worker, at the end of the initial list: the objects of the store that pass the
  filter have been processed once.
\<close>

definition filtered_store :: "('o, 'c, 'e) system_env \<Rightarrow> (string \<rightharpoonup> 'o) \<Rightarrow> (string \<rightharpoonup> 'o)" where
  "filtered_store env store k =
     (case store k of Some obj \<Rightarrow> if passes_namespace_filter env obj then Some obj else None | None \<Rightarrow> None)"

definition system_start :: "('o, 'c, 'e) system_env \<Rightarrow> (string \<rightharpoonup> 'o) \<Rightarrow> 'c \<Rightarrow> ('o, 'c) system" where
  "system_start env store c =
     \<lparr>sys_queue = work_queue_new, sys_tasks = [], sys_heap = [], sys_delay = DelayWait, sys_worker = WorkerWait,
      sys_now = 0, sys_events = [], sys_store = store, sys_proc = c, sys_seen = filtered_store env store\<rparr>"

inductive reachable :: "('o, 'c, 'e) system_env \<Rightarrow> ('o, 'c) system \<Rightarrow> ('o, 'c) system \<Rightarrow> bool"
  for env :: "('o, 'c, 'e) system_env" and s0 where
  Start: "reachable env s0 s0"
| Internal: "reachable env s0 s \<Longrightarrow> internal_step env s s' \<Longrightarrow> reachable env s0 s'"
| Outside: "reachable env s0 s \<Longrightarrow> outside_step env s s' \<Longrightarrow> reachable env s0 s'"

inductive_cases internal_stepE: "internal_step env s s'"
inductive_cases outside_stepE: "outside_step env s s'"

section \<open>No update is lost\<close>

text \<open>Where a key can be on its way to the worker.\<close>

fun task_key :: "wq_task \<Rightarrow> string" where
  "task_key (EnqueueCheck k) = k"
| "task_key (EnqueueInsert k) = k"
| "task_key (EnqueueSend it) = wi_key it"
| "task_key (AfterCheckPending k d c) = k"
| "task_key (AfterCheckScheduled k d c) = k"
| "task_key (AfterInsert k d c) = k"
| "task_key (AfterSend d) = di_key d"
| "task_key (BackoffSleep k r u) = k"
| "task_key (BackoffInsert k r) = k"
| "task_key (BackoffSend it) = wi_key it"

text \<open>The keys a task or a loop is about to send to the ready queue, and to the delay loop.\<close>

fun task_ready :: "wq_task \<Rightarrow> string set" where
  "task_ready (EnqueueSend it) = {wi_key it}"
| "task_ready (BackoffSend it) = {wi_key it}"
| "task_ready _ = {}"

fun task_scheduled :: "wq_task \<Rightarrow> string set" where
  "task_scheduled (AfterSend d) = {di_key d}"
| "task_scheduled _ = {}"

fun delay_ready :: "delay_pc \<Rightarrow> string set" where
  "delay_ready (DelaySend it) = {wi_key it}"
| "delay_ready _ = {}"

fun delay_scheduled :: "delay_pc \<Rightarrow> string set" where
  "delay_scheduled (DelayPopped d) = {di_key d}"
| "delay_scheduled _ = {}"

fun worker_ready :: "'o worker_pc \<Rightarrow> string set" where
  "worker_ready (WorkerReceived it) = {wi_key it}"
| "worker_ready _ = {}"

fun delay_keys :: "delay_pc \<Rightarrow> string set" where
  "delay_keys DelayWait = {}"
| "delay_keys (DelayPopped d) = {di_key d}"
| "delay_keys (DelayUnscheduled d) = {di_key d}"
| "delay_keys (DelayInsert d) = {di_key d}"
| "delay_keys (DelaySend it) = {wi_key it}"

fun worker_keys :: "'o worker_pc \<Rightarrow> string set" where
  "worker_keys WorkerWait = {}"
| "worker_keys (WorkerReceived it) = {wi_key it}"
| "worker_keys (WorkerItem it) = {wi_key it}"
| "worker_keys (WorkerObject it obj) = {}"

text \<open>What will have been processed last when the worker is done with the object it has read.\<close>

fun next_seen :: "('o, 'c, 'e) system_env \<Rightarrow> 'o worker_pc \<Rightarrow> (string \<rightharpoonup> 'o) \<Rightarrow> (string \<rightharpoonup> 'o)" where
  "next_seen env (WorkerObject it obj) seen = (if should_process env obj then seen(wi_key it := obj) else seen)"
| "next_seen env _ seen = seen"

abbreviation seen_after :: "('o, 'c, 'e) system_env \<Rightarrow> ('o, 'c) system \<Rightarrow> (string \<rightharpoonup> 'o)" where
  "seen_after env s \<equiv> next_seen env (sys_worker s) (sys_seen s)"

definition ready_keys :: "('o, 'c) system \<Rightarrow> string set" where
  "ready_keys s =
     \<Union> (task_ready ` set (sys_tasks s)) \<union> delay_ready (sys_delay s) \<union>
     wi_key ` set (wq_ready (sys_queue s)) \<union> worker_ready (sys_worker s)"

definition scheduled_keys :: "('o, 'c) system \<Rightarrow> string set" where
  "scheduled_keys s =
     \<Union> (task_scheduled ` set (sys_tasks s)) \<union> di_key ` set (wq_delay (sys_queue s)) \<union>
     di_key ` set (sys_heap s) \<union> delay_scheduled (sys_delay s)"

definition event_keys :: "('o, 'c, 'e) system_env \<Rightarrow> ('o, 'c) system \<Rightarrow> string set" where
  "event_keys env s =
     (\<lambda>ev. se_key env (event_object ev)) ` {ev \<in> set (sys_events s). passes_namespace_filter env (event_object ev)}"

definition active_keys :: "('o, 'c, 'e) system_env \<Rightarrow> ('o, 'c) system \<Rightarrow> string set" where
  "active_keys env s =
     event_keys env s \<union> task_key ` set (sys_tasks s) \<union> wi_key ` set (wq_ready (sys_queue s)) \<union>
     di_key ` set (wq_delay (sys_queue s)) \<union> di_key ` set (sys_heap s) \<union>
     delay_keys (sys_delay s) \<union> worker_keys (sys_worker s)"

text \<open>The two sets only name keys that are on their way.\<close>

definition sets_ok :: "('o, 'c) system \<Rightarrow> bool" where
  "sets_ok s \<longleftrightarrow> wq_pending (sys_queue s) \<subseteq> ready_keys s \<and> wq_scheduled (sys_queue s) \<subseteq> scheduled_keys s"

lemma task_ready_key: "task_ready t \<subseteq> {task_key t}" "task_scheduled t \<subseteq> {task_key t}"
  by (cases t; simp)+

lemma delay_ready_key: "delay_ready pc \<subseteq> delay_keys pc" "delay_scheduled pc \<subseteq> delay_keys pc"
  by (cases pc; simp)+

lemma worker_ready_key: "worker_ready pc \<subseteq> worker_keys pc"
  by (cases pc) simp_all

lemma ready_keys_active: "ready_keys s \<subseteq> active_keys env s"
  using task_ready_key(1) delay_ready_key(1) [of "sys_delay s"] worker_ready_key [of "sys_worker s"]
  unfolding ready_keys_def active_keys_def by fast

lemma scheduled_keys_active: "scheduled_keys s \<subseteq> active_keys env s"
  using task_ready_key(2) delay_ready_key(2) [of "sys_delay s"]
  unfolding scheduled_keys_def active_keys_def by fast

lemma split_at:
  assumes "i < length xs"
  obtains pre post where "xs = pre @ xs ! i # post" "take i xs = pre" "drop (Suc i) xs = post"
  using id_take_nth_drop [OF assms] by blast

lemma sets_ok_task:
  assumes ok: "sets_ok s" and tasks: "sys_tasks s = pre @ t # post"
    and step: "task_step cfg now t (sys_queue s) = Some (t', q)"
  shows "sets_ok (s\<lparr>sys_queue := q, sys_tasks := pre @ (case t' of Some t' \<Rightarrow> [t'] | None \<Rightarrow> []) @ post\<rparr>)"
  using assms
  by (cases t)
    (auto simp: sets_ok_def ready_keys_def scheduled_keys_def work_item_new_def work_item_for_retry_def
      split: if_splits)

lemma sets_ok_delay:
  assumes "sets_ok s" "delay_next cfg (sys_delay s) (sys_queue s) = Some (pc, q)"
  shows "sets_ok (s\<lparr>sys_delay := pc, sys_queue := q\<rparr>)"
  using assms
  by (cases "sys_delay s")
    (auto simp: sets_ok_def ready_keys_def scheduled_keys_def work_item_with_chain_def split: if_splits)

lemma sets_ok_internal:
  assumes "internal_step env s s'" "sets_ok s"
  shows "sets_ok s'"
  using assms(1)
proof cases
  case (Task i t q)
  then show ?thesis using split_at [OF Task(2)] sets_ok_task [OF assms(2)] by metis
next
  case (DelayPop i)
  then have "i < length (sys_heap s)" by (simp add: may_pop_def)
  then obtain pre post where "sys_heap s = pre @ sys_heap s ! i # post" "take i (sys_heap s) = pre" "drop (Suc i) (sys_heap s) = post"
    by (rule split_at)
  then have "set (sys_heap s) = insert (sys_heap s ! i) (set (take i (sys_heap s) @ drop (Suc i) (sys_heap s)))"
    by (metis Un_insert_right list.simps(15) set_append)
  then show ?thesis
    using DelayPop assms(2) by (auto simp: sets_ok_def ready_keys_def scheduled_keys_def)
next
  case (DelayNext pc q)
  then show ?thesis using sets_ok_delay assms(2) by blast
qed (use assms(2) in \<open>auto simp: sets_ok_def ready_keys_def scheduled_keys_def\<close>)

lemma sets_ok_outside: "outside_step env s s' \<Longrightarrow> sets_ok s \<Longrightarrow> sets_ok s'"
  by (erule outside_stepE) (auto simp: sets_ok_def ready_keys_def scheduled_keys_def)

text \<open>A step that drops a key finds it in one of the sets, so that the key stays on its way.\<close>

lemma active_task:
  assumes ok: "sets_ok s" and tasks: "sys_tasks s = pre @ t # post"
    and step: "task_step cfg now t (sys_queue s) = Some (t', q)"
  shows "active_keys env s \<subseteq>
    active_keys env (s\<lparr>sys_queue := q, sys_tasks := pre @ (case t' of Some t' \<Rightarrow> [t'] | None \<Rightarrow> []) @ post\<rparr>)"
    (is "_ \<subseteq> active_keys env ?s'")
proof -
  have ok': "sets_ok ?s'" by (rule sets_ok_task [OF assms])
  have p: "wq_pending (sys_queue ?s') \<subseteq> active_keys env ?s'" and d: "wq_scheduled (sys_queue ?s') \<subseteq> active_keys env ?s'"
    using ok' ready_keys_active [of ?s' env] scheduled_keys_active [of ?s' env] by (auto simp: sets_ok_def)
  have "active_keys env s - {task_key t} \<subseteq> active_keys env ?s'"
    using tasks step
    by (cases t) (auto simp: active_keys_def event_keys_def work_item_new_def work_item_for_retry_def split: if_splits)
  moreover have "task_key t \<in> active_keys env ?s'"
  proof (cases t')
    case None
    then show ?thesis
      using step p d by (cases t) (auto simp: active_keys_def split: if_splits)
  next
    case (Some t'')
    then have "task_key t'' = task_key t"
      using step by (cases t) (auto simp: work_item_new_def work_item_for_retry_def split: if_splits)
    then show ?thesis using Some by (auto simp: active_keys_def)
  qed
  ultimately show ?thesis by blast
qed

lemma active_delay:
  assumes ok: "sets_ok s" and step: "delay_next cfg (sys_delay s) (sys_queue s) = Some (pc, q)"
  shows "active_keys env s \<subseteq> active_keys env (s\<lparr>sys_delay := pc, sys_queue := q\<rparr>)" (is "_ \<subseteq> active_keys env ?s'")
proof -
  have ok': "sets_ok ?s'" by (rule sets_ok_delay [OF assms])
  have p: "wq_pending (sys_queue ?s') \<subseteq> active_keys env ?s'"
    using ok' ready_keys_active [of ?s' env] by (auto simp: sets_ok_def)
  have "active_keys env s - delay_keys (sys_delay s) \<subseteq> active_keys env ?s'"
    using step by (cases "sys_delay s") (auto simp: active_keys_def event_keys_def split: if_splits)
  moreover have "delay_keys (sys_delay s) \<subseteq> active_keys env ?s'"
    using step p
    by (cases "sys_delay s") (auto simp: active_keys_def work_item_with_chain_def split: if_splits)
  ultimately show ?thesis by blast
qed

definition namespaces_agree :: "('o, 'c, 'e) system_env \<Rightarrow> bool" where
  "namespaces_agree env \<longleftrightarrow> (\<forall>x y. se_valid env x \<and> se_valid env y \<and> se_key env x = se_key env y \<longrightarrow> se_namespace env x = se_namespace env y)"

definition objects_ok :: "('o, 'c, 'e) system_env \<Rightarrow> ('o, 'c) system \<Rightarrow> bool" where
  "objects_ok env s \<longleftrightarrow>
     (\<forall>k obj. sys_store s k = Some obj \<longrightarrow> se_valid env obj \<and> se_key env obj = k) \<and>
     (\<forall>k obj. seen_after env s k = Some obj \<longrightarrow> se_valid env obj \<and> se_key env obj = k \<and> passes_namespace_filter env obj) \<and>
     (\<forall>ev \<in> set (sys_events s). se_valid env (event_object ev))"

definition current :: "('o, 'c, 'e) system_env \<Rightarrow> ('o, 'c) system \<Rightarrow> bool" where
  "current env s \<longleftrightarrow>
     (\<forall>k. should_process env (sys_store s k) \<longrightarrow> seen_after env s k = sys_store s k \<or> k \<in> active_keys env s)"

lemma currentI:
  assumes "current env s" "sys_store s' = sys_store s" "seen_after env s' = seen_after env s"
    "active_keys env s \<subseteq> active_keys env s'"
  shows "current env s'"
  using assms by (auto simp: current_def)

lemma current_exceptI:
  assumes "current env s" "sys_store s' = sys_store s" "\<And>k. k \<noteq> key \<Longrightarrow> seen_after env s' k = seen_after env s k"
    "active_keys env s \<subseteq> insert key (active_keys env s')"
    "should_process env (sys_store s key) \<Longrightarrow> seen_after env s' key = sys_store s key"
  shows "current env s'"
  unfolding current_def
proof (intro allI impI)
  fix k assume "should_process env (sys_store s' k)"
  then show "seen_after env s' k = sys_store s' k \<or> k \<in> active_keys env s'"
    using assms by (cases "k = key") (auto simp: current_def)
qed

lemma passes_agree:
  "namespaces_agree env \<Longrightarrow> se_valid env x \<Longrightarrow> se_valid env y \<Longrightarrow> se_key env x = se_key env y \<Longrightarrow>
   passes_namespace_filter env x = passes_namespace_filter env y"
proof -
  assume "namespaces_agree env" "se_valid env x" "se_valid env y" "se_key env x = se_key env y"
  then have "se_namespace env x = se_namespace env y" unfolding namespaces_agree_def by blast
  then show ?thesis by (simp add: passes_namespace_filter_def split: option.split)
qed

lemma filtered_seen:
  assumes "namespaces_agree env" "objects_ok env s" "se_valid env obj" "\<not> passes_namespace_filter env obj"
  shows "seen_after env s (se_key env obj) = None"
proof (cases "seen_after env s (se_key env obj)")
  case (Some x)
  then have "se_valid env x" "se_key env x = se_key env obj" "passes_namespace_filter env x"
    using assms(2) by (auto simp: objects_ok_def)
  then show ?thesis using passes_agree [OF assms(1)] assms(3,4) by blast
qed

lemma filtered_store:
  assumes "namespaces_agree env" "objects_ok env s" "se_valid env obj" "\<not> passes_namespace_filter env obj"
    "should_process env (sys_store s (se_key env obj))"
  shows "sys_store s (se_key env obj) = None"
proof (cases "sys_store s (se_key env obj)")
  case (Some x)
  then have "se_valid env x" "se_key env x = se_key env obj" "passes_namespace_filter env x"
    using assms(2,5) by (auto simp: objects_ok_def should_process_def)
  then show ?thesis using passes_agree [OF assms(1)] assms(3,4) by blast
qed

lemma event_keysI:
  "ev \<in> set (sys_events s) \<Longrightarrow> passes_namespace_filter env (event_object ev) \<Longrightarrow>
   se_key env (event_object ev) \<in> active_keys env s"
  by (auto simp: active_keys_def event_keys_def)

lemma objects_internal: "internal_step env s s' \<Longrightarrow> objects_ok env s \<Longrightarrow> objects_ok env s'"
  by (erule internal_stepE) (auto simp: objects_ok_def should_process_def split: option.splits)

lemma objects_outside: "outside_step env s s' \<Longrightarrow> objects_ok env s \<Longrightarrow> objects_ok env s'"
  by (erule outside_stepE) (auto simp: objects_ok_def)

lemma current_internal:
  assumes "internal_step env s s'" "sets_ok s" "objects_ok env s" "namespaces_agree env" "current env s"
  shows "current env s'"
  using assms(1)
proof cases
  case (Deliver ev evs)
  let ?k = "se_key env (event_object ev)"
  show ?thesis
  proof (cases "passes_namespace_filter env (event_object ev)")
    case True
    show ?thesis
      by (rule currentI [OF assms(5)]) (use Deliver True in \<open>auto simp: active_keys_def event_keys_def\<close>)
  next
    case False
    have "se_valid env (event_object ev)" using assms(3) Deliver(2) by (simp add: objects_ok_def)
    note filtered = filtered_seen [OF assms(4,3) this False] filtered_store [OF assms(4,3) this False]
    show ?thesis
      by (rule current_exceptI [OF assms(5), of _ ?k])
        (use Deliver False filtered in \<open>auto simp: active_keys_def event_keys_def\<close>)
  qed
next
  case (Task i t q)
  obtain pre post where "sys_tasks s = pre @ sys_tasks s ! i # post" "take i (sys_tasks s) = pre" "drop (Suc i) (sys_tasks s) = post"
    using split_at [OF Task(2)] by metis
  then have "active_keys env s \<subseteq> active_keys env s'"
    using active_task [OF assms(2), of pre "sys_tasks s ! i" post] Task by simp
  then show ?thesis using Task(1) by (intro currentI [OF assms(5)]) auto
next
  case (DelayPop i)
  then have "i < length (sys_heap s)" by (simp add: may_pop_def)
  then obtain pre post where "sys_heap s = pre @ sys_heap s ! i # post" "take i (sys_heap s) = pre" "drop (Suc i) (sys_heap s) = post"
    by (rule split_at)
  then have "set (sys_heap s) = insert (sys_heap s ! i) (set (take i (sys_heap s) @ drop (Suc i) (sys_heap s)))"
    by (metis Un_insert_right list.simps(15) set_append)
  then show ?thesis using DelayPop by (intro currentI [OF assms(5)]) (auto simp: active_keys_def event_keys_def)
next
  case (DelayNext pc q)
  show ?thesis
    by (rule currentI [OF assms(5)]) (use DelayNext active_delay [OF assms(2) DelayNext(2)] in simp_all)
next
  case (Look_Up it)
  show ?thesis
    by (rule current_exceptI [OF assms(5), of _ "wi_key it"])
      (use Look_Up in \<open>auto simp: active_keys_def event_keys_def\<close>)
next
  case (Process it obj e c)
  show ?thesis
    by (rule currentI [OF assms(5)]) (use Process in \<open>auto simp: active_keys_def event_keys_def\<close>)
next
  case (Ignore it obj)
  show ?thesis
    by (rule currentI [OF assms(5)]) (use Ignore in \<open>auto simp: active_keys_def event_keys_def\<close>)
next
  case (DelayReceive d ds)
  show ?thesis
    by (rule currentI [OF assms(5)]) (use DelayReceive in \<open>auto simp: active_keys_def event_keys_def\<close>)
next
  case (Receive it items)
  show ?thesis
    by (rule currentI [OF assms(5)]) (use Receive in \<open>auto simp: active_keys_def event_keys_def\<close>)
next
  case (Remove it)
  show ?thesis
    by (rule currentI [OF assms(5)]) (use Remove in \<open>auto simp: active_keys_def event_keys_def\<close>)
qed

lemma current_outside:
  assumes "outside_step env s s'" "objects_ok env s" "namespaces_agree env" "current env s"
  shows "current env s'"
  using assms(1)
proof cases
  case (Apply obj)
  have "se_key env obj \<in> active_keys env s'" if "passes_namespace_filter env obj"
    using that Apply event_keysI [of "Applied obj" s' env] by simp
  moreover have "active_keys env s \<subseteq> active_keys env s'"
    unfolding Apply active_keys_def event_keys_def by auto
  ultimately show ?thesis
    using assms(4) unfolding current_def by (auto simp: Apply should_process_def)
next
  case (Remove_Object key obj)
  have key: "se_key env obj = key" "se_valid env obj" using Remove_Object(2) assms(2) by (simp_all add: objects_ok_def)
  have "key \<in> active_keys env s' \<or> seen_after env s key = None"
    using filtered_seen [OF assms(3,2) key(2)] event_keysI [of "Deleted obj" s' env] key Remove_Object(1)
    by (cases "passes_namespace_filter env obj") auto
  moreover have "active_keys env s \<subseteq> active_keys env s'"
    unfolding Remove_Object(1) active_keys_def event_keys_def by auto
  ultimately show ?thesis
    using assms(4) unfolding current_def by (auto simp: Remove_Object(1))
next
  case (Requeue key)
  show ?thesis
    by (rule currentI [OF assms(4)]) (use Requeue in \<open>auto simp: active_keys_def event_keys_def\<close>)
next
  case (Requeue_With_Chain key chain)
  show ?thesis
    by (rule currentI [OF assms(4)]) (use Requeue_With_Chain in \<open>auto simp: active_keys_def event_keys_def\<close>)
next
  case (Requeue_With_Backoff item t)
  show ?thesis
    by (rule currentI [OF assms(4)]) (use Requeue_With_Backoff(1) in \<open>auto simp: active_keys_def event_keys_def\<close>)
next
  case (Tick d)
  show ?thesis
    by (rule currentI [OF assms(4)]) (use Tick in \<open>auto simp: active_keys_def event_keys_def\<close>)
qed

section \<open>The system comes to rest\<close>

text \<open>
  A weight for everything in flight: each step of the system takes one thing further towards the worker and
  lowers the total.
\<close>

fun task_weight :: "wq_task \<Rightarrow> nat" where
  "task_weight (EnqueueCheck _) = 7"
| "task_weight (EnqueueInsert _) = 6"
| "task_weight (EnqueueSend _) = 5"
| "task_weight (AfterCheckPending _ _ _) = 14"
| "task_weight (AfterCheckScheduled _ _ _) = 13"
| "task_weight (AfterInsert _ _ _) = 12"
| "task_weight (AfterSend _) = 11"
| "task_weight (BackoffSleep _ _ _) = 7"
| "task_weight (BackoffInsert _ _) = 6"
| "task_weight (BackoffSend _) = 5"

fun delay_weight :: "delay_pc \<Rightarrow> nat" where
  "delay_weight DelayWait = 0"
| "delay_weight (DelayPopped _) = 8"
| "delay_weight (DelayUnscheduled _) = 7"
| "delay_weight (DelayInsert _) = 6"
| "delay_weight (DelaySend _) = 5"

fun worker_weight :: "'o worker_pc \<Rightarrow> nat" where
  "worker_weight WorkerWait = 0"
| "worker_weight (WorkerReceived _) = 3"
| "worker_weight (WorkerItem _) = 2"
| "worker_weight (WorkerObject _ _) = 1"

abbreviation queue_weight :: "work_queue \<Rightarrow> nat" where
  "queue_weight q \<equiv> 10 * length (wq_delay q) + 4 * length (wq_ready q)"

definition system_weight :: "('o, 'c) system \<Rightarrow> nat" where
  "system_weight s =
     8 * length (sys_events s) + sum_list (map task_weight (sys_tasks s)) + 9 * length (sys_heap s) +
     delay_weight (sys_delay s) + queue_weight (sys_queue s) + worker_weight (sys_worker s)"

lemma task_step_weight:
  assumes "task_step cfg now t q = Some (t', q')"
  shows "(case t' of Some t'' \<Rightarrow> task_weight t'' | None \<Rightarrow> 0) + queue_weight q' < task_weight t + queue_weight q"
  using assms by (cases t) (auto split: if_splits)

lemma delay_next_weight:
  "delay_next cfg pc q = Some (pc', q') \<Longrightarrow> delay_weight pc' + queue_weight q' < delay_weight pc + queue_weight q"
  by (cases pc) (auto split: if_splits)

lemma internal_step_weight:
  assumes "internal_step env s s'"
  shows "system_weight s' < system_weight s"
  using assms
proof cases
  case (Task i t q)
  obtain pre post where xs: "sys_tasks s = pre @ sys_tasks s ! i # post" "take i (sys_tasks s) = pre" "drop (Suc i) (sys_tasks s) = post"
    using split_at [OF Task(2)] by metis
  have "sum_list (map task_weight (sys_tasks s)) =
    sum_list (map task_weight pre) + task_weight (sys_tasks s ! i) + sum_list (map task_weight post)"
    by (subst xs(1)) simp
  then show ?thesis
    using task_step_weight [OF Task(3)] xs(2,3) Task(1) by (cases t) (simp_all add: system_weight_def)
next
  case (DelayPop i)
  then have "i < length (sys_heap s)" by (simp add: may_pop_def)
  then show ?thesis using DelayPop by (simp add: system_weight_def min_def)
next
  case (DelayNext pc q)
  then show ?thesis using delay_next_weight [OF DelayNext(2)] by (simp add: system_weight_def)
qed (simp_all add: system_weight_def)

lemma internal_steps_end: "wf {(s', s). internal_step env s s'}"
  by (rule wf_subset [of "measure system_weight"]) (auto dest: internal_step_weight)

text \<open>A state where nothing is on its way, and that any other state can move once time has passed.\<close>

definition quiet :: "('o, 'c) system \<Rightarrow> bool" where
  "quiet s \<longleftrightarrow>
     sys_events s = [] \<and> sys_tasks s = [] \<and> sys_heap s = [] \<and> wq_delay (sys_queue s) = [] \<and> wq_ready (sys_queue s) = [] \<and>
     sys_delay s = DelayWait \<and> sys_worker s = WorkerWait"

lemma quiet_active: "quiet s \<Longrightarrow> active_keys env s = {}"
  by (simp add: quiet_def active_keys_def event_keys_def)

lemma task_can_step:
  assumes "0 < wc_capacity cfg" "wq_ready q = []" "wq_delay q = []"
  shows "\<exists>d r. task_step cfg (now + d) t q = Some r"
proof (cases t)
  case (BackoffSleep k r u)
  then have "\<exists>r. task_step cfg (now + u) t q = Some r" by simp
  then show ?thesis by blast
qed (use assms in auto)

lemma delay_can_step:
  "0 < wc_capacity cfg \<Longrightarrow> pc \<noteq> DelayWait \<Longrightarrow> wq_ready q = [] \<Longrightarrow> \<exists>r. delay_next cfg pc q = Some r"
  by (cases pc) auto

lemma heap_can_pop:
  assumes "heap \<noteq> []"
  shows "\<exists>d i. may_pop (now + d) i heap"
proof -
  let ?m = "Min (set (map di_ready_at heap))"
  have "?m \<in> set (map di_ready_at heap)" using assms by (intro Min_in) auto
  then obtain i where i: "i < length heap" "di_ready_at (heap ! i) = ?m" by (auto simp: in_set_conv_nth)
  then have "may_pop (now + ?m) i heap" by (auto simp: may_pop_def list_all_iff)
  then show ?thesis by blast
qed

abbreviation later :: "nat \<Rightarrow> ('o, 'c) system \<Rightarrow> ('o, 'c) system" where
  "later d s \<equiv> s\<lparr>sys_now := sys_now s + d\<rparr>"

lemma later_0 [simp]: "later 0 s = s"
  by simp

lemma not_stuck:
  assumes cap: "0 < wc_capacity (se_config env)" and busy: "\<not> quiet s"
    and process: "\<And>it obj. sys_worker s = WorkerObject it obj \<Longrightarrow> should_process env obj \<Longrightarrow>
      \<exists>e c. se_process env e (wi_key it) obj (wi_chain it) (sys_proc s) = Some c"
  shows "\<exists>d s'. internal_step env (later d s) s'"
proof -
  consider (worker) "sys_worker s \<noteq> WorkerWait" | (ready) "sys_worker s = WorkerWait" "wq_ready (sys_queue s) \<noteq> []"
    | (event) "sys_events s \<noteq> []" | (delay) "sys_delay s \<noteq> DelayWait" "wq_ready (sys_queue s) = []"
    | (channel) "sys_delay s = DelayWait" "wq_delay (sys_queue s) \<noteq> []"
    | (heap) "sys_delay s = DelayWait" "sys_heap s \<noteq> []"
    | (task) "sys_tasks s \<noteq> []" "wq_ready (sys_queue s) = []" "wq_delay (sys_queue s) = []"
    using busy by (auto simp: quiet_def)
  then show ?thesis
  proof cases
    case worker
    then have "\<exists>s'. internal_step env (later 0 s) s'"
    proof (cases "sys_worker s")
      case (WorkerObject it obj)
      then show ?thesis
        using process [OF WorkerObject] by (cases "should_process env obj") (auto intro: internal_step.intros)
    qed (auto intro: internal_step.intros)
    then show ?thesis by blast
  next
    case ready
    then obtain it items where "wq_ready (sys_queue s) = it # items" by (cases "wq_ready (sys_queue s)") auto
    from Receive [OF ready(1) this] show ?thesis by (metis later_0)
  next
    case event
    then obtain ev evs where "sys_events s = ev # evs" by (cases "sys_events s") auto
    from Deliver [OF this] show ?thesis by (metis later_0)
  next
    case delay
    then obtain pc q where "delay_next (se_config env) (sys_delay s) (sys_queue s) = Some (pc, q)"
      using delay_can_step [OF cap] by (metis surj_pair)
    from DelayNext [where env = env, OF this] show ?thesis by (metis later_0)
  next
    case channel
    then obtain d ds where "wq_delay (sys_queue s) = d # ds" by (cases "wq_delay (sys_queue s)") auto
    from DelayReceive [OF channel(1) this] show ?thesis by (metis later_0)
  next
    case heap
    then obtain d i where "may_pop (sys_now s + d) i (sys_heap s)" using heap_can_pop by blast
    then show ?thesis using DelayPop [of "later d s" i env] heap(1) by auto
  next
    case task
    obtain d t q where "task_step (se_config env) (sys_now s + d) (sys_tasks s ! 0) (sys_queue s) = Some (t, q)"
      using task_can_step [OF cap task(2,3)] by (metis surj_pair)
    then show ?thesis using Task [of 0 "later d s" env t q] task(1) by auto
  qed
qed

section \<open>What a processor promises, and what the system makes of it\<close>

text \<open>
  The contract of a processor: it does not panic in a state that satisfies its invariant, its state then
  reflects the object it was given, and what it reflects of other keys stays. The system runs it until the
  state reflects the current store.
\<close>

definition object_at :: "('o, 'c, 'e) system_env \<Rightarrow> string \<Rightarrow> 'o option \<Rightarrow> bool" where
  "object_at env key obj \<longleftrightarrow>
     (case obj of Some o' \<Rightarrow> se_valid env o' \<and> se_key env o' = key \<and> passes_namespace_filter env o' | None \<Rightarrow> True)"

definition reconciled :: "('o, 'c, 'e) system_env \<Rightarrow> ('c \<Rightarrow> bool) \<Rightarrow> ('c \<Rightarrow> string \<Rightarrow> 'o option \<Rightarrow> bool) \<Rightarrow>
    ('o, 'c) system \<Rightarrow> bool" where
  "reconciled env proc_ok reflects s \<longleftrightarrow>
     sets_ok s \<and> objects_ok env s \<and> current env s \<and> proc_ok (sys_proc s) \<and>
     (\<forall>k. reflects (sys_proc s) k (sys_seen s k))"

definition start_ok :: "('o, 'c, 'e) system_env \<Rightarrow> ('c \<Rightarrow> bool) \<Rightarrow> ('c \<Rightarrow> string \<Rightarrow> 'o option \<Rightarrow> bool) \<Rightarrow>
    (string \<rightharpoonup> 'o) \<Rightarrow> 'c \<Rightarrow> bool" where
  "start_ok env proc_ok reflects store c \<longleftrightarrow>
     (\<forall>k obj. store k = Some obj \<longrightarrow> se_valid env obj \<and> se_key env obj = k) \<and> proc_ok c \<and>
     (\<forall>k. reflects c k (filtered_store env store k))"

lemma worker_object_at:
  assumes "objects_ok env s" "sys_worker s = WorkerObject it obj" "should_process env obj"
  shows "object_at env (wi_key it) obj"
proof -
  have "seen_after env s (wi_key it) = obj" using assms(2,3) by simp
  then have "obj = Some o' \<Longrightarrow> se_valid env o' \<and> se_key env o' = wi_key it \<and> passes_namespace_filter env o'" for o'
    using assms(1) unfolding objects_ok_def by blast
  then show ?thesis unfolding object_at_def by (cases obj) auto
qed

lemma start_objects:
  assumes "\<forall>k obj. store k = Some obj \<longrightarrow> se_valid env obj \<and> se_key env obj = k"
  shows "objects_ok env (system_start env store c)" "current env (system_start env store c)" "sets_ok (system_start env store c)"
  using assms
  by (auto simp: objects_ok_def current_def sets_ok_def system_start_def filtered_store_def should_process_def
    work_queue_new_def split: option.splits if_splits)

lemma internal_proc:
  assumes "internal_step env s s'"
  shows "(sys_proc s' = sys_proc s \<and> sys_seen s' = sys_seen s) \<or>
    (\<exists>it obj e. sys_worker s = WorkerObject it obj \<and> should_process env obj \<and>
       se_process env e (wi_key it) obj (wi_chain it) (sys_proc s) = Some (sys_proc s') \<and>
       sys_seen s' = (sys_seen s)(wi_key it := obj))"
  using assms by cases auto

lemma outside_proc: "outside_step env s s' \<Longrightarrow> sys_proc s' = sys_proc s \<and> sys_seen s' = sys_seen s"
  by (erule outside_stepE) auto

locale reconciler =
  fixes env :: "('o, 'c, 'e) system_env"
    and proc_ok :: "'c \<Rightarrow> bool"
    and reflects :: "'c \<Rightarrow> string \<Rightarrow> 'o option \<Rightarrow> bool"
  assumes capacity: "0 < wc_capacity (se_config env)"
    and namespaces: "namespaces_agree env"
    and no_panic: "proc_ok c \<Longrightarrow> object_at env key obj \<Longrightarrow> \<exists>c'. se_process env e key obj chain c = Some c'"
    and keeps: "proc_ok c \<Longrightarrow> object_at env key obj \<Longrightarrow> se_process env e key obj chain c = Some c' \<Longrightarrow> proc_ok c'"
    and outcome: "proc_ok c \<Longrightarrow> object_at env key obj \<Longrightarrow> se_process env e key obj chain c = Some c' \<Longrightarrow>
      reflects c' key obj"
    and frame: "proc_ok c \<Longrightarrow> object_at env key obj \<Longrightarrow> se_process env e key obj chain c = Some c' \<Longrightarrow>
      key' \<noteq> key \<Longrightarrow> reflects c key' obj' \<Longrightarrow> reflects c' key' obj'"
begin

lemma reconciled_internal:
  assumes "internal_step env s s'" "reconciled env proc_ok reflects s"
  shows "reconciled env proc_ok reflects s'"
proof -
  have inv: "sets_ok s" "objects_ok env s" "current env s" "proc_ok (sys_proc s)" "\<And>k. reflects (sys_proc s) k (sys_seen s k)"
    using assms(2) by (auto simp: reconciled_def)
  have "proc_ok (sys_proc s') \<and> (\<forall>k. reflects (sys_proc s') k (sys_seen s' k))"
    using internal_proc [OF assms(1)]
  proof (elim disjE exE conjE)
    fix it obj e
    assume w: "sys_worker s = WorkerObject it obj" "should_process env obj"
      and p: "se_process env e (wi_key it) obj (wi_chain it) (sys_proc s) = Some (sys_proc s')"
      and seen: "sys_seen s' = (sys_seen s)(wi_key it := obj)"
    note at = worker_object_at [OF inv(2) w]
    show ?thesis
      using keeps [OF inv(4) at p] outcome [OF inv(4) at p] frame [OF inv(4) at p] inv(5) by (simp add: seen)
  qed (use inv in simp)
  then show ?thesis
    using sets_ok_internal [OF assms(1) inv(1)] objects_internal [OF assms(1) inv(2)]
      current_internal [OF assms(1) inv(1,2) namespaces inv(3)] by (simp add: reconciled_def)
qed

lemma reconciled_outside:
  assumes "outside_step env s s'" "reconciled env proc_ok reflects s"
  shows "reconciled env proc_ok reflects s'"
  using assms sets_ok_outside [OF assms(1)] objects_outside [OF assms(1)] outside_proc [OF assms(1)]
    current_outside [OF assms(1) _ namespaces] by (auto simp: reconciled_def)

lemma reachable_reconciled:
  assumes "reachable env (system_start env store c) s" "start_ok env proc_ok reflects store c"
  shows "reconciled env proc_ok reflects s"
  using assms(1)
proof induction
  case Start
  show ?case
    using assms(2) start_objects [of store env c] by (simp add: reconciled_def start_ok_def system_start_def)
qed (blast intro: reconciled_internal reconciled_outside)+

lemma never_stuck:
  assumes "reachable env (system_start env store c) s" "start_ok env proc_ok reflects store c" "\<not> quiet s"
  shows "\<exists>d s'. internal_step env (later d s) s'"
proof (rule not_stuck [OF capacity assms(3)])
  fix it obj
  assume w: "sys_worker s = WorkerObject it obj" "should_process env obj"
  have "objects_ok env s" "proc_ok (sys_proc s)"
    using reachable_reconciled [OF assms(1,2)] by (auto simp: reconciled_def)
  then show "\<exists>e c. se_process env e (wi_key it) obj (wi_chain it) (sys_proc s) = Some c"
    using no_panic worker_object_at [OF _ w] by blast
qed

lemma quiet_reflects:
  assumes "reachable env (system_start env store c) s" "start_ok env proc_ok reflects store c" "quiet s"
    "should_process env (sys_store s key)"
  shows "reflects (sys_proc s) key (sys_store s key)"
proof -
  have inv: "current env s" "reflects (sys_proc s) key (sys_seen s key)"
    using reachable_reconciled [OF assms(1,2)] by (simp_all add: reconciled_def)
  have "seen_after env s = sys_seen s" using assms(3) by (simp add: quiet_def)
  then have "sys_seen s key = sys_store s key"
    using inv(1) quiet_active [OF assms(3), of env] assms(4) by (simp add: current_def)
  then show ?thesis using inv(2) by simp
qed

end

end
