(* ===== verification/Resource_Processor.thy ===== *)
theory Resource_Processor
  imports Work_Queue Event_Store
begin

text \<open>
  The resource processor of the controller (core/controller/conf_mgr/sync_runtime/resource_processor/processor.rs,
  handler.rs, context.rs) and the removal of metadata (core/common/utils/metadata_filter.rs). The handler of a
  kind is a record of functions, one for each method of the trait. The handlers share stores with each other;
  their state is the type \<open>'h\<close>, which the handler reads and changes. Serialisation is the library's: the
  operations of serde_json are parameters.

  A processor is a reconciler in the sense of the work queue: whatever the order of events, its cache ends up
  with the processed form of the current objects.
\<close>

section \<open>Objects, handlers and contexts\<close>

record object_meta =
  om_name :: "string option"
  om_namespace :: "string option"
  om_annotations :: "string dict option"
  om_managed_fields :: "string list option"
  om_generation :: "int option"

definition meta_name :: "object_meta \<Rightarrow> string" where
  "meta_name m = (case om_name m of Some n \<Rightarrow> n | None \<Rightarrow> [])"

definition make_resource_key :: "object_meta \<Rightarrow> string" where
  "make_resource_key m = (case om_namespace m of Some ns \<Rightarrow> ns @ ''/'' @ meta_name m | None \<Rightarrow> meta_name m)"

record metadata_filter =
  mf_blocked_annotations :: "string list"
  mf_remove_managed_fields :: bool

definition clean_metadata :: "metadata_filter \<Rightarrow> object_meta \<Rightarrow> object_meta" where
  "clean_metadata config m =
     (let m = (case om_annotations m of
                 Some annotations \<Rightarrow>
                   let annotations = fold AList.delete (mf_blocked_annotations config) annotations
                   in m\<lparr>om_annotations := if annotations = [] then None else Some annotations\<rparr>
               | None \<Rightarrow> m)
      in if mf_remove_managed_fields config then m\<lparr>om_managed_fields := None\<rparr> else m)"

datatype 'o process_result = Continue 'o | Skip string

record handler_context =
  hc_metadata_filter :: "metadata_filter option"
  hc_namespace_filter :: "string list option"
  hc_trigger_chain :: trigger_chain
  hc_max_trigger_cycles :: nat

text \<open>
  The methods of a handler. Those that change the object return it; \<open>on_change\<close> and \<open>on_delete\<close> return the
  targets they requeue, in order.
\<close>

record ('o, 'h) handler =
  h_filter :: "'o \<Rightarrow> bool"
  h_clean_metadata :: "handler_context \<Rightarrow> 'o \<Rightarrow> 'o"
  h_validate :: "handler_context \<Rightarrow> 'o \<Rightarrow> 'h \<Rightarrow> string list \<times> 'h"
  h_preparse :: "handler_context \<Rightarrow> 'o \<Rightarrow> 'h \<Rightarrow> 'o \<times> string list \<times> 'h"
  h_parse :: "handler_context \<Rightarrow> 'o \<Rightarrow> 'h \<Rightarrow> 'o process_result \<times> 'h"
  h_on_delete :: "handler_context \<Rightarrow> 'o \<Rightarrow> 'h \<Rightarrow> (string \<times> string) list \<times> 'h"
  h_on_change :: "handler_context \<Rightarrow> 'o \<Rightarrow> 'h \<Rightarrow> (string \<times> string) list \<times> 'h"
  h_update_status :: "handler_context \<Rightarrow> 'o \<Rightarrow> string list \<Rightarrow> 'h \<Rightarrow> 'o \<times> 'h"

definition default_handler :: "('o, 'h) handler" where
  "default_handler =
     \<lparr>h_filter = (\<lambda>obj. True), h_clean_metadata = (\<lambda>ctx obj. obj), h_validate = (\<lambda>ctx obj h. ([], h)),
      h_preparse = (\<lambda>ctx obj h. (obj, [], h)), h_parse = (\<lambda>ctx obj h. (Continue obj, h)),
      h_on_delete = (\<lambda>ctx obj h. ([], h)), h_on_change = (\<lambda>ctx obj h. ([], h)),
      h_update_status = (\<lambda>ctx obj errors h. (obj, h))\<rparr>"

type_synonym requeue_request = "string \<times> string \<times> trigger_chain"

definition context_requeue :: "handler_context \<Rightarrow> string \<times> string \<Rightarrow> requeue_request list" where
  "context_requeue ctx target =
     (case target of (kind, key) \<Rightarrow>
        if would_exceed_cycle_limit kind key (hc_max_trigger_cycles ctx) (hc_trigger_chain ctx) then []
        else [(kind, key, hc_trigger_chain ctx)])"

section \<open>Status extraction\<close>

record ('o, 'j) serde_json =
  sj_to_value :: "'o \<Rightarrow> 'j option"
  sj_get :: "string \<Rightarrow> 'j \<Rightarrow> 'j option"
  sj_is_null :: "'j \<Rightarrow> bool"
  sj_to_string :: "'j \<Rightarrow> string option"

datatype status_extract_result = Present string | NoStatus | SerializationError

definition extract_status_json :: "('o, 'j) serde_json \<Rightarrow> 'o \<Rightarrow> status_extract_result" where
  "extract_status_json sj obj =
     (case sj_to_value sj obj of
        Some value \<Rightarrow>
          (case sj_get sj ''status'' value of
             Some status \<Rightarrow>
               if sj_is_null sj status then NoStatus
               else (case sj_to_string sj status of Some s \<Rightarrow> Present s | None \<Rightarrow> SerializationError)
           | None \<Rightarrow> NoStatus)
      | None \<Rightarrow> SerializationError)"

fun status_has_changed :: "status_extract_result \<Rightarrow> status_extract_result \<Rightarrow> bool" where
  "status_has_changed (Present old_val) (Present new_val) = (old_val \<noteq> new_val)"
| "status_has_changed NoStatus NoStatus = False"
| "status_has_changed SerializationError _ = True"
| "status_has_changed _ SerializationError = True"
| "status_has_changed _ _ = True"

definition extract_status_value :: "('o, 'j) serde_json \<Rightarrow> 'o \<Rightarrow> 'j option" where
  "extract_status_value sj obj =
     (case sj_to_value sj obj of
        Some value \<Rightarrow> (case sj_get sj ''status'' value of
                         Some s \<Rightarrow> if sj_is_null sj s then None else Some s | None \<Rightarrow> None)
      | None \<Rightarrow> None)"

section \<open>The processor\<close>

text \<open>
  What is fixed for a processor, and its state: the cache, the two filters, the global counter of versions, the
  state the handlers share, and the requests that have been passed to the registry.
\<close>

record ('o, 'h, 'j) processor =
  pr_kind :: string
  pr_handler :: "('o, 'h) handler"
  pr_meta :: "'o \<Rightarrow> object_meta"
  pr_set_meta :: "object_meta \<Rightarrow> 'o \<Rightarrow> 'o"
  pr_json :: "('o, 'j) serde_json"
  pr_max_trigger_cycles :: nat

record ('o, 'h) proc_state =
  ps_cache :: "'o server_cache"
  ps_metadata_filter :: "metadata_filter option"
  ps_namespace_filter :: "string list option"
  ps_last_version :: u64
  ps_shared :: 'h
  ps_requeues :: "requeue_request list"

datatype 'o work_item_result = Processed 'o bool | Deleted_Key string | Skipped

definition processor_new :: "u32 \<Rightarrow> u64 \<Rightarrow> 'h \<Rightarrow> ('o, 'h) proc_state option" where
  "processor_new capacity last_version shared =
     map_option (\<lambda>cache. \<lparr>ps_cache = cache, ps_metadata_filter = None, ps_namespace_filter = None,
                          ps_last_version = last_version, ps_shared = shared, ps_requeues = []\<rparr>)
       (server_cache_new capacity)"

definition set_namespace_filter :: "string list option \<Rightarrow> ('o, 'h) proc_state \<Rightarrow> ('o, 'h) proc_state" where
  "set_namespace_filter namespaces ps = ps\<lparr>ps_namespace_filter := namespaces\<rparr>"

definition set_metadata_filter :: "metadata_filter option \<Rightarrow> ('o, 'h) proc_state \<Rightarrow> ('o, 'h) proc_state" where
  "set_metadata_filter config ps = ps\<lparr>ps_metadata_filter := config\<rparr>"

definition create_context :: "('o, 'h, 'j) processor \<Rightarrow> trigger_chain \<Rightarrow> ('o, 'h) proc_state \<Rightarrow> handler_context" where
  "create_context pr chain ps =
     \<lparr>hc_metadata_filter = ps_metadata_filter ps, hc_namespace_filter = ps_namespace_filter ps,
      hc_trigger_chain = chain, hc_max_trigger_cycles = pr_max_trigger_cycles pr\<rparr>"

definition context_clean_metadata :: "('o, 'h, 'j) processor \<Rightarrow> handler_context \<Rightarrow> 'o \<Rightarrow> 'o" where
  "context_clean_metadata pr ctx obj =
     (case hc_metadata_filter ctx of
        Some config \<Rightarrow> pr_set_meta pr (clean_metadata config (pr_meta pr obj)) obj
      | None \<Rightarrow> obj)"

text \<open>A change of the cache draws a version from the global counter; \<open>timestamp\<close> is the clock.\<close>

definition cache_change ::
  "('o, 'h, 'j) processor \<Rightarrow> u64 \<Rightarrow> resource_change \<Rightarrow> 'o \<Rightarrow> ('o, 'h) proc_state \<Rightarrow> ('o, 'h) proc_state option" where
  "cache_change pr timestamp change obj ps =
     (let v = next_resource_version timestamp (ps_last_version ps)
      in map_option (\<lambda>cache. ps\<lparr>ps_cache := cache, ps_last_version := v\<rparr>)
           (server_apply_change (\<lambda>o'. om_namespace (pr_meta pr o')) (\<lambda>o'. meta_name (pr_meta pr o')) change obj v (ps_cache ps)))"

definition processor_get :: "string \<Rightarrow> ('o, 'h) proc_state \<Rightarrow> 'o option" where
  "processor_get key ps = get_by_key key (sc_store (ps_cache ps))"

definition processor_save ::
  "('o, 'h, 'j) processor \<Rightarrow> u64 \<Rightarrow> 'o \<Rightarrow> ('o, 'h) proc_state \<Rightarrow> ('o, 'h) proc_state option" where
  "processor_save pr timestamp obj ps = cache_change pr timestamp EventUpdate obj ps"

definition processor_remove ::
  "('o, 'h, 'j) processor \<Rightarrow> u64 \<Rightarrow> string \<Rightarrow> ('o, 'h) proc_state \<Rightarrow> ('o, 'h) proc_state option" where
  "processor_remove pr timestamp key ps =
     (case processor_get key ps of
        Some cached \<Rightarrow> cache_change pr timestamp EventDelete cached ps
      | None \<Rightarrow> Some ps)"

definition send_requeues :: "handler_context \<Rightarrow> (string \<times> string) list \<Rightarrow> ('o, 'h) proc_state \<Rightarrow> ('o, 'h) proc_state" where
  "send_requeues ctx targets ps = ps\<lparr>ps_requeues := ps_requeues ps @ concat (map (context_requeue ctx) targets)\<rparr>"

definition namespace_allowed :: "handler_context \<Rightarrow> object_meta \<Rightarrow> bool" where
  "namespace_allowed ctx m =
     (case hc_namespace_filter ctx of
        Some allowed_ns \<Rightarrow>
          (let namespace = (case om_namespace m of Some n \<Rightarrow> n | None \<Rightarrow> [])
           in namespace = [] \<or> namespace \<in> set allowed_ns)
      | None \<Rightarrow> True)"

definition process_resource ::
  "('o, 'h, 'j) processor \<Rightarrow> u64 \<Rightarrow> handler_context \<Rightarrow> bool \<Rightarrow> string option \<Rightarrow> 'o \<Rightarrow> ('o, 'h) proc_state \<Rightarrow>
   ('o work_item_result \<times> ('o, 'h) proc_state) option" where
  "process_resource pr timestamp ctx is_init existing_status_json obj ps =
     (let hd = pr_handler pr
      in if \<not> namespace_allowed ctx (pr_meta pr obj) then Some (Skipped, ps)
      else if \<not> h_filter hd obj then Some (Skipped, ps)
      else
        let obj = context_clean_metadata pr ctx obj;
            obj = h_clean_metadata hd ctx obj;
            (errors, shared) = h_validate hd ctx obj (ps_shared ps);
            (obj, preparse_errors, shared) = h_preparse hd ctx obj shared;
            all_errors = errors @ preparse_errors
        in case h_parse hd ctx obj shared of
             (Continue parsed_obj, shared) \<Rightarrow>
               (let old_status = (case existing_status_json of
                                    Some json \<Rightarrow> Present json
                                  | None \<Rightarrow> extract_status_json (pr_json pr) parsed_obj);
                    (parsed_obj, shared) = h_update_status hd ctx parsed_obj all_errors shared;
                    status_changed = status_has_changed old_status (extract_status_json (pr_json pr) parsed_obj);
                    (targets, shared) = (if is_init then ([], shared) else h_on_change hd ctx parsed_obj shared);
                    ps = send_requeues ctx targets (ps\<lparr>ps_shared := shared\<rparr>)
                in map_option (Pair (Processed parsed_obj status_changed))
                     (if is_init then cache_change pr timestamp InitAdd parsed_obj ps
                      else processor_save pr timestamp parsed_obj ps))
           | (Skip reason, shared) \<Rightarrow> Some (Skipped, ps\<lparr>ps_shared := shared\<rparr>))"

definition process_delete ::
  "('o, 'h, 'j) processor \<Rightarrow> u64 \<Rightarrow> handler_context \<Rightarrow> 'o \<Rightarrow> ('o, 'h) proc_state \<Rightarrow> ('o, 'h) proc_state option" where
  "process_delete pr timestamp ctx cached_obj ps =
     (let key = make_resource_key (pr_meta pr cached_obj);
          (targets, shared) = h_on_delete (pr_handler pr) ctx cached_obj (ps_shared ps);
          ps = send_requeues ctx targets (ps\<lparr>ps_shared := shared\<rparr>)
      in processor_remove pr timestamp key ps)"

definition process_work_item ::
  "('o, 'h, 'j) processor \<Rightarrow> u64 \<Rightarrow> string \<Rightarrow> 'o option \<Rightarrow> string option \<Rightarrow> trigger_chain \<Rightarrow> ('o, 'h) proc_state \<Rightarrow>
   ('o work_item_result \<times> ('o, 'h) proc_state) option" where
  "process_work_item pr timestamp key store_obj existing_status_json chain ps =
     (let ctx = create_context pr (chain_extend (pr_kind pr) key chain) ps
      in case (store_obj, processor_get key ps) of
           (Some obj, _) \<Rightarrow> process_resource pr timestamp ctx False existing_status_json obj ps
         | (None, Some cached) \<Rightarrow> map_option (Pair (Deleted_Key key)) (process_delete pr timestamp ctx cached ps)
         | (None, None) \<Rightarrow> Some (Skipped, ps))"

subsection \<open>The initial list\<close>

definition on_init :: "('o, 'h) proc_state \<Rightarrow> ('o, 'h) proc_state" where
  "on_init ps = ps\<lparr>ps_cache := server_set_not_ready (ps_cache ps)\<rparr>"

definition on_init_apply ::
  "('o, 'h, 'j) processor \<Rightarrow> u64 \<Rightarrow> 'o \<Rightarrow> string option \<Rightarrow> ('o, 'h) proc_state \<Rightarrow>
   ('o work_item_result \<times> ('o, 'h) proc_state) option" where
  "on_init_apply pr timestamp obj existing_status_json ps =
     process_resource pr timestamp (create_context pr [] ps) True existing_status_json obj ps"

definition on_init_done :: "('o, 'h) proc_state \<Rightarrow> ('o, 'h) proc_state" where
  "on_init_done ps = ps\<lparr>ps_cache := (ps_cache ps)\<lparr>sc_ready := True\<rparr>\<rparr>"

text \<open>
  Other processors run at the same time: before each call they may have raised the counter of versions and
  changed the shared stores.
\<close>

record 'h process_input =
  pi_timestamp :: u64
  pi_last_version :: u64
  pi_shared :: 'h

definition interfere :: "'h process_input \<Rightarrow> ('o, 'h) proc_state \<Rightarrow> ('o, 'h) proc_state" where
  "interfere e ps = ps\<lparr>ps_last_version := max (pi_last_version e) (ps_last_version ps), ps_shared := pi_shared e\<rparr>"

definition worker_process ::
  "('o, 'h, 'j) processor \<Rightarrow> 'h process_input \<Rightarrow> string \<Rightarrow> 'o option \<Rightarrow> trigger_chain \<Rightarrow> ('o, 'h) proc_state \<Rightarrow>
   ('o, 'h) proc_state option" where
  "worker_process pr e key store_obj chain ps =
     map_option snd (process_work_item pr (pi_timestamp e) key store_obj None chain (interfere e ps))"

text \<open>
  The system of one kind under the Kubernetes controller. Names and namespaces that the API server admits are
  not empty and have no slash.
\<close>

definition valid_meta :: "object_meta \<Rightarrow> bool" where
  "valid_meta m \<longleftrightarrow>
     meta_name m \<noteq> [] \<and> CHR ''/'' \<notin> set (meta_name m) \<and>
     (case om_namespace m of Some ns \<Rightarrow> ns \<noteq> [] \<and> CHR ''/'' \<notin> set ns | None \<Rightarrow> True)"

definition processor_env ::
  "wq_config \<Rightarrow> string list option \<Rightarrow> ('o, 'h, 'j) processor \<Rightarrow> ('o, ('o, 'h) proc_state, 'h process_input) system_env" where
  "processor_env cfg namespaces pr =
     \<lparr>se_config = cfg, se_key = (\<lambda>obj. make_resource_key (pr_meta pr obj)),
      se_namespace = (\<lambda>obj. om_namespace (pr_meta pr obj)), se_valid = (\<lambda>obj. valid_meta (pr_meta pr obj)),
      se_filter = namespaces, se_process = worker_process pr\<rparr>"

text \<open>The events of the initial list, up to the start of the worker.\<close>

fun init_list ::
  "('o, ('o, 'h) proc_state, 'h process_input) system_env \<Rightarrow> ('o, 'h, 'j) processor \<Rightarrow> ('h process_input \<times> 'o) list \<Rightarrow>
   ('o, 'h) proc_state \<Rightarrow> ('o, 'h) proc_state option" where
  "init_list env pr [] ps = Some ps"
| "init_list env pr ((e, obj) # objs) ps =
     (if passes_namespace_filter env obj
      then (case on_init_apply pr (pi_timestamp e) obj None (interfere e ps) of
              Some (result, ps) \<Rightarrow> init_list env pr objs ps
            | None \<Rightarrow> None)
      else init_list env pr objs ps)"

definition init_phase ::
  "('o, ('o, 'h) proc_state, 'h process_input) system_env \<Rightarrow> ('o, 'h, 'j) processor \<Rightarrow> ('h process_input \<times> 'o) list \<Rightarrow>
   ('o, 'h) proc_state \<Rightarrow> ('o, 'h) proc_state option" where
  "init_phase env pr objs ps = map_option on_init_done (init_list env pr objs (on_init ps))"

section \<open>The cache\<close>

definition cache_ok :: "('o, 'h, 'j) processor \<Rightarrow> ('o, 'h) proc_state \<Rightarrow> bool" where
  "cache_ok pr ps \<longleftrightarrow>
     ring_wf (sc_store (ps_cache ps)) \<and> es_sync_version (sc_store (ps_cache ps)) \<le> ps_last_version ps \<and>
     (\<forall>k obj. processor_get k ps = Some obj \<longrightarrow> make_resource_key (pr_meta pr obj) = k)"

text \<open>What a change of the cache leaves as it was.\<close>

definition same_rest :: "('o, 'h) proc_state \<Rightarrow> ('o, 'h) proc_state \<Rightarrow> bool" where
  "same_rest ps ps' \<longleftrightarrow>
     ps_metadata_filter ps' = ps_metadata_filter ps \<and> ps_namespace_filter ps' = ps_namespace_filter ps \<and>
     ps_shared ps' = ps_shared ps \<and> ps_requeues ps' = ps_requeues ps"

lemma resource_key_make:
  "resource_key (\<lambda>o'. om_namespace (pr_meta pr o')) (\<lambda>o'. meta_name (pr_meta pr o')) obj = make_resource_key (pr_meta pr obj)"
  by (simp add: resource_key_def make_resource_key_def)

lemma ring_wf_data [simp]:
  "ring_wf (st\<lparr>es_data := d\<rparr>) = ring_wf st" "ring_wf (st\<lparr>es_sync_version := v\<rparr>) = ring_wf st"
  by (simp_all add: ring_wf_def)

lemma apply_event_spec:
  assumes "ring_wf st" "es_sync_version st \<le> v"
  shows "\<exists>st'. apply_event ns nm t obj v st = Some st' \<and> ring_wf st' \<and> es_sync_version st' = v \<and>
           es_data st' = (if t = Delete then AList.delete (resource_key ns nm obj) (es_data st)
                          else AList.update (resource_key ns nm obj) obj (es_data st))"
proof -
  let ?d = "if t = Delete then AList.delete (resource_key ns nm obj) (es_data st)
            else AList.update (resource_key ns nm obj) obj (es_data st)"
  have "apply_event ns nm t obj v st =
    mut_update \<lparr>ev_type = t, ev_sync_version = v, ev_data = obj\<rparr> (st\<lparr>es_data := ?d, es_sync_version := v\<rparr>)"
    using assms(2) by (auto simp: apply_event_def Let_def not_less order_le_less)
  then show ?thesis
    using mut_update_refines [of "st\<lparr>es_data := ?d, es_sync_version := v\<rparr>" "\<lparr>ev_type = t, ev_sync_version = v, ev_data = obj\<rparr>"] assms(1)
    by auto
qed

lemma cache_written:
  assumes "ring_wf st" "es_sync_version st \<le> v" "same_rest ps ps'" "ps_cache ps' = c" "sc_store c = st" "ps_last_version ps' = v"
    and data: "\<And>k. map_of (es_data st) k = (if k = key then obj else processor_get k ps)"
    and ok: "cache_ok pr ps" "\<And>o'. obj = Some o' \<Longrightarrow> make_resource_key (pr_meta pr o') = key"
  shows "cache_ok pr ps' \<and> same_rest ps ps' \<and> (\<forall>k. processor_get k ps' = (if k = key then obj else processor_get k ps))"
proof -
  have get: "processor_get k ps' = (if k = key then obj else processor_get k ps)" for k
    using data [of k] assms(4,5) by (simp add: processor_get_def get_by_key_def)
  have "make_resource_key (pr_meta pr o') = k" if "processor_get k ps' = Some o'" for k o'
    using that ok unfolding get cache_ok_def by (cases "k = key") auto
  then show ?thesis using assms(1-6) get by (simp add: cache_ok_def)
qed

lemma cache_version:
  assumes "cache_ok pr ps"
  shows "es_sync_version (sc_store (ps_cache ps)) \<le> next_resource_version ts (ps_last_version ps)"
  using assms next_version_mono [of "ps_last_version ps" ts] unfolding cache_ok_def by (meson order_trans)

lemma cache_change_event:
  assumes ok: "cache_ok pr ps" and change: "(change, t) \<in> {(EventUpdate, Update), (EventDelete, Delete)}"
  shows "\<exists>ps'. cache_change pr ts change obj ps = Some ps' \<and> cache_ok pr ps' \<and> same_rest ps ps' \<and>
           (\<forall>k. processor_get k ps' = (if k = make_resource_key (pr_meta pr obj)
              then (if t = Delete then None else Some obj) else processor_get k ps))"
proof -
  let ?ns = "\<lambda>o'. om_namespace (pr_meta pr o')" and ?nm = "\<lambda>o'. meta_name (pr_meta pr o')"
  let ?v = "next_resource_version ts (ps_last_version ps)" and ?st = "sc_store (ps_cache ps)"
  have "ring_wf ?st" using ok by (simp add: cache_ok_def)
  from apply_event_spec [OF this cache_version [OF ok], of ?ns ?nm t obj ts] obtain st'
    where st': "apply_event ?ns ?nm t obj ?v ?st = Some st'" "ring_wf st'" "es_sync_version st' = ?v"
      "es_data st' = (if t = Delete then AList.delete (make_resource_key (pr_meta pr obj)) (es_data ?st)
         else AList.update (make_resource_key (pr_meta pr obj)) obj (es_data ?st))"
    by (auto simp: resource_key_make)
  let ?ps' = "ps\<lparr>ps_cache := (ps_cache ps)\<lparr>sc_store := st'\<rparr>, ps_last_version := ?v\<rparr>"
  have eq: "cache_change pr ts change obj ps = Some ?ps'"
    using change st'(1) by (auto simp: cache_change_def server_apply_change_def push_event_def Let_def)
  have "cache_ok pr ?ps' \<and> same_rest ps ?ps' \<and> (\<forall>k. processor_get k ?ps' = (if k = make_resource_key (pr_meta pr obj)
              then (if t = Delete then None else Some obj) else processor_get k ps))"
    by (rule cache_written [OF st'(2) _ _ _ _ _ _ ok])
      (auto simp: st'(3,4) same_rest_def processor_get_def get_by_key_def update_conv' delete_conv' split: if_splits)
  then show ?thesis using eq by blast
qed

lemma cache_change_init:
  assumes ok: "cache_ok pr ps"
  shows "\<exists>ps'. cache_change pr ts InitAdd obj ps = Some ps' \<and> cache_ok pr ps' \<and> same_rest ps ps' \<and>
           (\<forall>k. processor_get k ps' = (if k = make_resource_key (pr_meta pr obj) then Some obj else processor_get k ps))"
proof -
  let ?v = "next_resource_version ts (ps_last_version ps)" and ?st = "sc_store (ps_cache ps)"
  let ?st' = "init_add (\<lambda>o'. om_namespace (pr_meta pr o')) (\<lambda>o'. meta_name (pr_meta pr o')) ?v obj ?st"
  let ?ps' = "ps\<lparr>ps_cache := (ps_cache ps)\<lparr>sc_store := ?st'\<rparr>, ps_last_version := ?v\<rparr>"
  have wf: "ring_wf ?st'" using ok by (auto simp: cache_ok_def init_add_def Let_def)
  have "cache_ok pr ?ps' \<and> same_rest ps ?ps' \<and>
      (\<forall>k. processor_get k ?ps' = (if k = make_resource_key (pr_meta pr obj) then Some obj else processor_get k ps))"
    by (rule cache_written [OF wf _ _ _ _ _ _ ok])
      (use cache_version [OF ok, of ts] in \<open>auto simp: same_rest_def processor_get_def get_by_key_def init_add_def Let_def
         resource_key_make update_conv'\<close>)
  then show ?thesis by (auto simp: cache_change_def server_apply_change_def Let_def)
qed

section \<open>Processing an object\<close>

text \<open>
  What the code relies on of a kind and its handler: reading and writing the metadata of an object are the
  library's, no step renames the object, and parsing continues (no handler of the program returns \<open>Skip\<close>).
\<close>

definition same_id :: "('o, 'h, 'j) processor \<Rightarrow> 'o \<Rightarrow> 'o \<Rightarrow> bool" where
  "same_id pr x y \<longleftrightarrow> om_name (pr_meta pr x) = om_name (pr_meta pr y) \<and> om_namespace (pr_meta pr x) = om_namespace (pr_meta pr y)"

definition handler_ok :: "('o, 'h, 'j) processor \<Rightarrow> bool" where
  "handler_ok pr \<longleftrightarrow>
     (\<forall>m obj. pr_meta pr (pr_set_meta pr m obj) = m) \<and>
     (\<forall>ctx obj. same_id pr (h_clean_metadata (pr_handler pr) ctx obj) obj) \<and>
     (\<forall>ctx obj h. same_id pr (fst (h_preparse (pr_handler pr) ctx obj h)) obj) \<and>
     (\<forall>ctx obj h. \<exists>obj' h'. h_parse (pr_handler pr) ctx obj h = (Continue obj', h') \<and> same_id pr obj' obj) \<and>
     (\<forall>ctx obj errors h. same_id pr (fst (h_update_status (pr_handler pr) ctx obj errors h)) obj)"

text \<open>The object that the handlers make of an object, given the shared state they find.\<close>

definition handled :: "('o, 'h, 'j) processor \<Rightarrow> handler_context \<Rightarrow> 'h \<Rightarrow> 'o \<Rightarrow> 'o option" where
  "handled pr ctx shared obj =
     (let hd = pr_handler pr;
          obj = h_clean_metadata hd ctx (context_clean_metadata pr ctx obj);
          (errors, shared) = h_validate hd ctx obj shared;
          (obj, preparse_errors, shared) = h_preparse hd ctx obj shared
      in case h_parse hd ctx obj shared of
           (Continue obj, shared) \<Rightarrow> Some (fst (h_update_status hd ctx obj (errors @ preparse_errors) shared))
         | (Skip reason, shared) \<Rightarrow> None)"

lemma clean_metadata_id: "om_name (clean_metadata c m) = om_name m" "om_namespace (clean_metadata c m) = om_namespace m"
  by (auto simp: clean_metadata_def Let_def split: option.splits)

lemma same_id_key: "same_id pr x y \<Longrightarrow> make_resource_key (pr_meta pr x) = make_resource_key (pr_meta pr y)"
  by (simp add: same_id_def make_resource_key_def meta_name_def split: option.split)

lemma same_id_trans: "same_id pr x y \<Longrightarrow> same_id pr y z \<Longrightarrow> same_id pr x z"
  by (simp add: same_id_def)

lemma context_clean_id: "handler_ok pr \<Longrightarrow> same_id pr (context_clean_metadata pr ctx obj) obj"
  by (auto simp: handler_ok_def same_id_def context_clean_metadata_def clean_metadata_id split: option.split)

lemma handled_id:
  assumes "handler_ok pr"
  shows "\<exists>obj'. handled pr ctx shared obj = Some obj' \<and> same_id pr obj' obj"
proof -
  let ?hd = "pr_handler pr"
  define o1 where "o1 = h_clean_metadata ?hd ctx (context_clean_metadata pr ctx obj)"
  obtain errs s1 where v: "h_validate ?hd ctx o1 shared = (errs, s1)" by fastforce
  obtain o2 errs2 s2 where p: "h_preparse ?hd ctx o1 s1 = (o2, errs2, s2)" by (metis prod_cases3)
  obtain o3 s3 where q: "h_parse ?hd ctx o2 s2 = (Continue o3, s3)" "same_id pr o3 o2"
    using assms unfolding handler_ok_def by blast
  have "same_id pr o1 (context_clean_metadata pr ctx obj)" "same_id pr o2 o1"
    "same_id pr (fst (h_update_status ?hd ctx o3 (errs @ errs2) s3)) o3"
    using assms p unfolding handler_ok_def o1_def by (metis fst_conv)+
  then have "same_id pr (fst (h_update_status ?hd ctx o3 (errs @ errs2) s3)) obj"
    using context_clean_id [OF assms] q(2) same_id_trans by metis
  then show ?thesis using v p q(1) by (simp add: handled_def flip: o1_def)
qed

lemma cache_ok_update [simp]:
  "cache_ok pr (ps\<lparr>ps_shared := h\<rparr>) = cache_ok pr ps" "cache_ok pr (ps\<lparr>ps_requeues := r\<rparr>) = cache_ok pr ps"
  "processor_get k (ps\<lparr>ps_shared := h\<rparr>) = processor_get k ps" "processor_get k (ps\<lparr>ps_requeues := r\<rparr>) = processor_get k ps"
  by (simp_all add: cache_ok_def processor_get_def)

definition same_filters :: "('o, 'h) proc_state \<Rightarrow> ('o, 'h) proc_state \<Rightarrow> bool" where
  "same_filters ps ps' \<longleftrightarrow>
     ps_metadata_filter ps' = ps_metadata_filter ps \<and> ps_namespace_filter ps' = ps_namespace_filter ps"

lemma save_spec:
  assumes "cache_ok pr ps"
  shows "\<exists>ps'. (if is_init then cache_change pr ts InitAdd obj (send_requeues ctx targets (ps\<lparr>ps_shared := h\<rparr>))
                else processor_save pr ts obj (send_requeues ctx targets (ps\<lparr>ps_shared := h\<rparr>))) = Some ps' \<and>
           cache_ok pr ps' \<and> same_filters ps ps' \<and>
           ps_requeues ps' = ps_requeues ps @ concat (map (context_requeue ctx) targets) \<and>
           (\<forall>k. processor_get k ps' = (if k = make_resource_key (pr_meta pr obj) then Some obj else processor_get k ps))"
  using cache_change_init [of pr "send_requeues ctx targets (ps\<lparr>ps_shared := h\<rparr>)" ts obj]
    cache_change_event [of pr "send_requeues ctx targets (ps\<lparr>ps_shared := h\<rparr>)" EventUpdate Update ts obj] assms
  by (cases is_init) (auto simp: processor_save_def send_requeues_def same_rest_def same_filters_def)

lemma process_resource_spec:
  assumes hd: "handler_ok pr" and ok: "cache_ok pr ps"
  shows "\<exists>r ps'. process_resource pr ts ctx is_init status obj ps = Some (r, ps') \<and> cache_ok pr ps' \<and> same_filters ps ps' \<and>
           (if namespace_allowed ctx (pr_meta pr obj) \<and> h_filter (pr_handler pr) obj
            then \<exists>obj'. handled pr ctx (ps_shared ps) obj = Some obj' \<and>
              (\<forall>k. processor_get k ps' = (if k = make_resource_key (pr_meta pr obj) then Some obj' else processor_get k ps))
            else r = Skipped \<and> ps' = ps)"
proof (cases "namespace_allowed ctx (pr_meta pr obj) \<and> h_filter (pr_handler pr) obj")
  case False
  then show ?thesis using ok by (auto simp: process_resource_def Let_def same_filters_def)
next
  case True
  let ?hd = "pr_handler pr"
  define o1 where "o1 = h_clean_metadata ?hd ctx (context_clean_metadata pr ctx obj)"
  obtain errs s1 where v: "h_validate ?hd ctx o1 (ps_shared ps) = (errs, s1)" by fastforce
  obtain o2 errs2 s2 where p: "h_preparse ?hd ctx o1 s1 = (o2, errs2, s2)" by (metis prod_cases3)
  obtain o3 s3 where q: "h_parse ?hd ctx o2 s2 = (Continue o3, s3)" using hd unfolding handler_ok_def by blast
  obtain o4 s4 where u: "h_update_status ?hd ctx o3 (errs @ errs2) s3 = (o4, s4)" by fastforce
  obtain tg s5 where c: "(if is_init then ([], s4) else h_on_change ?hd ctx o4 s4) = (tg, s5)" by fastforce
  have h: "handled pr ctx (ps_shared ps) obj = Some o4" using v p q u by (simp add: handled_def flip: o1_def)
  then have key: "make_resource_key (pr_meta pr o4) = make_resource_key (pr_meta pr obj)"
    using handled_id [OF hd, of ctx "ps_shared ps" obj] same_id_key by auto
  obtain ps' where ps': "(if is_init then cache_change pr ts InitAdd o4 (send_requeues ctx tg (ps\<lparr>ps_shared := s5\<rparr>))
      else processor_save pr ts o4 (send_requeues ctx tg (ps\<lparr>ps_shared := s5\<rparr>))) = Some ps'"
    "cache_ok pr ps'" "same_filters ps ps'"
    "\<forall>k. processor_get k ps' = (if k = make_resource_key (pr_meta pr o4) then Some o4 else processor_get k ps)"
    using save_spec [OF ok, where is_init = is_init and ts = ts and obj = o4 and ctx = ctx and targets = tg and h = s5]
    by (elim exE conjE) (rule that)
  have "\<exists>r. process_resource pr ts ctx is_init status obj ps = Some (r, ps')"
  proof (cases is_init)
    case init: True
    then show ?thesis using True v p q u c ps'(1) by (simp add: process_resource_def flip: o1_def)
  next
    case False
    then show ?thesis using True v p q u c ps'(1) by (simp add: process_resource_def flip: o1_def)
  qed
  then obtain r where "process_resource pr ts ctx is_init status obj ps = Some (r, ps')" ..
  then show ?thesis
    using True ps'(2,3) h ps'(4) [unfolded key] by (intro exI [of _ r] exI [of _ ps']) simp
qed

lemma process_delete_spec:
  assumes ok: "cache_ok pr ps" and cached: "processor_get key ps = Some cached"
  shows "\<exists>ps'. process_delete pr ts ctx cached ps = Some ps' \<and> cache_ok pr ps' \<and> same_filters ps ps' \<and>
           (\<forall>k. processor_get k ps' = (if k = key then None else processor_get k ps))"
proof -
  have key: "make_resource_key (pr_meta pr cached) = key" using assms by (simp add: cache_ok_def)
  obtain tg h where d: "h_on_delete (pr_handler pr) ctx cached (ps_shared ps) = (tg, h)" by fastforce
  let ?ps = "send_requeues ctx tg (ps\<lparr>ps_shared := h\<rparr>)"
  have "process_delete pr ts ctx cached ps = cache_change pr ts EventDelete cached ?ps"
    using d cached by (simp add: process_delete_def key processor_remove_def send_requeues_def)
  then show ?thesis
    using cache_change_event [of pr ?ps EventDelete Delete ts cached] ok key
    by (auto simp: send_requeues_def same_rest_def same_filters_def)
qed

text \<open>An update that a filter rejects does not touch what the cache holds for the key.\<close>

lemma filtered_update_keeps_cache:
  "\<not> h_filter (pr_handler pr) obj \<Longrightarrow> process_work_item pr ts key (Some obj) status chain ps = Some (Skipped, ps)"
  by (auto simp: process_work_item_def process_resource_def Let_def)

section \<open>A processor is a reconciler\<close>

definition proc_ok ::
  "metadata_filter option \<Rightarrow> string list option \<Rightarrow> ('o, 'h, 'j) processor \<Rightarrow> ('o, 'h) proc_state \<Rightarrow> bool" where
  "proc_ok mf nsf pr ps \<longleftrightarrow> cache_ok pr ps \<and> ps_metadata_filter ps = mf \<and> ps_namespace_filter ps = nsf"

text \<open>
  The cache reflects an object when it holds what the handlers made of it in some state of the shared stores,
  and a deletion when it holds nothing. An object that the filters reject says nothing about the cache.
\<close>

definition handler_contexts ::
  "metadata_filter option \<Rightarrow> string list option \<Rightarrow> ('o, 'h, 'j) processor \<Rightarrow> trigger_chain \<Rightarrow> handler_context" where
  "handler_contexts mf nsf pr chain =
     \<lparr>hc_metadata_filter = mf, hc_namespace_filter = nsf, hc_trigger_chain = chain,
      hc_max_trigger_cycles = pr_max_trigger_cycles pr\<rparr>"

definition cache_reflects ::
  "metadata_filter option \<Rightarrow> string list option \<Rightarrow> ('o, 'h, 'j) processor \<Rightarrow> ('o, 'h) proc_state \<Rightarrow> string \<Rightarrow> 'o option \<Rightarrow> bool" where
  "cache_reflects mf nsf pr ps key obj =
     (case obj of
        Some o' \<Rightarrow>
          namespace_allowed (handler_contexts mf nsf pr []) (pr_meta pr o') \<and> h_filter (pr_handler pr) o' \<longrightarrow>
          (\<exists>chain shared. processor_get key ps = handled pr (handler_contexts mf nsf pr chain) shared o')
      | None \<Rightarrow> processor_get key ps = None)"

lemma create_context_eq: "proc_ok mf nsf pr ps \<Longrightarrow> create_context pr chain ps = handler_contexts mf nsf pr chain"
  by (simp add: proc_ok_def create_context_def handler_contexts_def)

lemma namespace_allowed_chain:
  "namespace_allowed (handler_contexts mf nsf pr chain) m = namespace_allowed (handler_contexts mf nsf pr []) m"
  by (simp add: namespace_allowed_def handler_contexts_def)

lemma interfere_ok: "proc_ok mf nsf pr ps \<Longrightarrow> proc_ok mf nsf pr (interfere e ps)"
  by (auto simp: proc_ok_def cache_ok_def interfere_def processor_get_def max_def)

lemma interfere_get [simp]: "processor_get k (interfere e ps) = processor_get k ps"
  by (simp add: interfere_def processor_get_def)

lemma process_reflects:
  assumes hd: "handler_ok pr" and ok: "proc_ok mf nsf pr ps"
  shows "\<exists>r ps'. process_resource pr ts (handler_contexts mf nsf pr chain) is_init status obj ps = Some (r, ps') \<and>
           proc_ok mf nsf pr ps' \<and> cache_reflects mf nsf pr ps' (make_resource_key (pr_meta pr obj)) (Some obj) \<and>
           (\<forall>k. k \<noteq> make_resource_key (pr_meta pr obj) \<longrightarrow> processor_get k ps' = processor_get k ps)"
proof -
  let ?ctx = "handler_contexts mf nsf pr chain"
  have c: "cache_ok pr ps" using ok by (simp add: proc_ok_def)
  obtain r ps' where r: "process_resource pr ts ?ctx is_init status obj ps = Some (r, ps')" "cache_ok pr ps'" "same_filters ps ps'"
    and out: "if namespace_allowed ?ctx (pr_meta pr obj) \<and> h_filter (pr_handler pr) obj
      then \<exists>obj'. handled pr ?ctx (ps_shared ps) obj = Some obj' \<and>
        (\<forall>k. processor_get k ps' = (if k = make_resource_key (pr_meta pr obj) then Some obj' else processor_get k ps))
      else r = Skipped \<and> ps' = ps"
    using process_resource_spec [OF hd c, of ts ?ctx is_init status obj] by (elim exE conjE) (rule that)
  have "cache_reflects mf nsf pr ps' (make_resource_key (pr_meta pr obj)) (Some obj) \<and>
    (\<forall>k. k \<noteq> make_resource_key (pr_meta pr obj) \<longrightarrow> processor_get k ps' = processor_get k ps)"
  proof (cases "namespace_allowed ?ctx (pr_meta pr obj) \<and> h_filter (pr_handler pr) obj")
    case True
    then obtain obj' where "handled pr ?ctx (ps_shared ps) obj = Some obj'"
      "\<forall>k. processor_get k ps' = (if k = make_resource_key (pr_meta pr obj) then Some obj' else processor_get k ps)"
      using out by auto
    then show ?thesis unfolding cache_reflects_def by (auto intro!: exI [of _ chain] exI [of _ "ps_shared ps"])
  next
    case False
    then show ?thesis using out by (auto simp: cache_reflects_def namespace_allowed_chain [of mf nsf pr chain])
  qed
  then show ?thesis using r ok by (auto simp: proc_ok_def same_filters_def)
qed

lemma worker_process_spec:
  assumes hd: "handler_ok pr" and ok: "proc_ok mf nsf pr ps" and at: "object_at (processor_env cfg namespaces pr) key obj"
  shows "\<exists>ps'. worker_process pr e key obj chain ps = Some ps' \<and> proc_ok mf nsf pr ps' \<and>
           cache_reflects mf nsf pr ps' key obj \<and> (\<forall>k. k \<noteq> key \<longrightarrow> processor_get k ps' = processor_get k ps)"
proof -
  let ?ctx = "handler_contexts mf nsf pr (chain_extend (pr_kind pr) key chain)" and ?ps = "interfere e ps"
  note ok' = interfere_ok [OF ok, of e]
  note ctx = create_context_eq [OF ok', of "chain_extend (pr_kind pr) key chain"]
  show ?thesis
  proof (cases obj)
    case (Some o')
    then have "make_resource_key (pr_meta pr o') = key" using at by (simp add: object_at_def processor_env_def)
    then show ?thesis
      using process_reflects [OF hd ok', of "pi_timestamp e" "chain_extend (pr_kind pr) key chain" False None o'] Some
      by (auto simp: worker_process_def process_work_item_def ctx)
  next
    case None
    then show ?thesis
    proof (cases "processor_get key ps")
      case (Some cached)
      have "cache_ok pr ?ps" using ok' by (simp add: proc_ok_def)
      then show ?thesis
        using process_delete_spec [of pr ?ps key cached "pi_timestamp e" ?ctx] Some None ok'
        by (auto simp: worker_process_def process_work_item_def ctx cache_reflects_def proc_ok_def same_filters_def)
    qed (use ok' in \<open>simp add: worker_process_def process_work_item_def cache_reflects_def\<close>)
  qed
qed

lemma split_at_slash: "c \<notin> set a \<Longrightarrow> c \<notin> set b \<Longrightarrow> a @ c # x = b @ c # y \<Longrightarrow> a = b"
proof (induction a arbitrary: b)
  case Nil
  then show ?case by (cases b) auto
next
  case (Cons z a)
  then show ?case by (cases b) auto
qed

lemma valid_keys: "valid_meta m \<Longrightarrow> valid_meta m' \<Longrightarrow> make_resource_key m = make_resource_key m' \<Longrightarrow>
  om_namespace m = om_namespace m'"
proof (cases "om_namespace m"; cases "om_namespace m'")
  fix a b
  assume "valid_meta m" "valid_meta m'" "make_resource_key m = make_resource_key m'" "om_namespace m = Some a" "om_namespace m' = Some b"
  then show ?thesis using split_at_slash [of "CHR ''/''" a b] by (simp add: valid_meta_def make_resource_key_def)
next
  fix a
  assume "valid_meta m" "valid_meta m'" "make_resource_key m = make_resource_key m'" "om_namespace m = Some a" "om_namespace m' = None"
  moreover from this have "meta_name m' = a @ CHR ''/'' # meta_name m" by (simp add: make_resource_key_def)
  ultimately show ?thesis by (simp add: valid_meta_def)
next
  fix a
  assume "valid_meta m" "valid_meta m'" "make_resource_key m = make_resource_key m'" "om_namespace m = None" "om_namespace m' = Some a"
  moreover from this have "meta_name m = a @ CHR ''/'' # meta_name m'" by (simp add: make_resource_key_def)
  ultimately show ?thesis by (simp add: valid_meta_def)
qed simp

locale keyed_processor =
  fixes pr :: "('o, 'h, 'j) processor" and cfg :: wq_config and namespaces :: "string list option"
    and mf :: "metadata_filter option" and nsf :: "string list option"
  assumes handler: "handler_ok pr" and queue_capacity: "0 < wc_capacity cfg"

sublocale keyed_processor \<subseteq> reconciler "processor_env cfg namespaces pr" "proc_ok mf nsf pr" "cache_reflects mf nsf pr"
proof unfold_locales
  show "0 < wc_capacity (se_config (processor_env cfg namespaces pr))" by (simp add: processor_env_def queue_capacity)
  show "namespaces_agree (processor_env cfg namespaces pr)"
    unfolding namespaces_agree_def processor_env_def using valid_keys by auto
next
  fix ps key obj e chain ps' key' obj'
  assume a: "proc_ok mf nsf pr ps" "object_at (processor_env cfg namespaces pr) key obj"
  note spec = worker_process_spec [OF handler a, of e chain]
  have eq: "se_process (processor_env cfg namespaces pr) = worker_process pr" by (simp add: processor_env_def)
  show "\<exists>ps'. se_process (processor_env cfg namespaces pr) e key obj chain ps = Some ps'" using spec eq by auto
  assume b: "se_process (processor_env cfg namespaces pr) e key obj chain ps = Some ps'"
  show "proc_ok mf nsf pr ps'" "cache_reflects mf nsf pr ps' key obj" using spec b eq by auto
  assume "key' \<noteq> key" "cache_reflects mf nsf pr ps key' obj'"
  then show "cache_reflects mf nsf pr ps' key' obj'" using spec b eq by (auto simp: cache_reflects_def split: option.splits)
qed

subsection \<open>The initial list\<close>

abbreviation key_of :: "('o, 'h, 'j) processor \<Rightarrow> 'o \<Rightarrow> string" where
  "key_of pr obj \<equiv> make_resource_key (pr_meta pr obj)"

definition listed_store :: "('o, 'h, 'j) processor \<Rightarrow> ('h process_input \<times> 'o) list \<Rightarrow> string \<rightharpoonup> 'o" where
  "listed_store pr objs = map_of (map (\<lambda>(e, obj). (key_of pr obj, obj)) objs)"

lemma reflects_get:
  "processor_get k ps' = processor_get k ps \<Longrightarrow> cache_reflects mf nsf pr ps' k obj = cache_reflects mf nsf pr ps k obj"
  by (simp add: cache_reflects_def split: option.split)

lemma init_list_spec:
  assumes hd: "handler_ok pr" and "proc_ok mf nsf pr ps" "distinct (map (\<lambda>(e, obj). key_of pr obj) objs)"
  shows "\<exists>ps'. init_list env pr objs ps = Some ps' \<and> proc_ok mf nsf pr ps' \<and>
           (\<forall>(e, obj) \<in> set objs. passes_namespace_filter env obj \<longrightarrow> cache_reflects mf nsf pr ps' (key_of pr obj) (Some obj)) \<and>
           (\<forall>k. (\<forall>(e, obj) \<in> set objs. passes_namespace_filter env obj \<longrightarrow> key_of pr obj \<noteq> k) \<longrightarrow>
              processor_get k ps' = processor_get k ps)"
  using assms(2,3)
proof (induction objs arbitrary: ps)
  case (Cons x objs)
  obtain e obj where x: "x = (e, obj)" by fastforce
  show ?case
  proof (cases "passes_namespace_filter env obj")
    case True
    note ok = interfere_ok [OF Cons.prems(1), of e]
    obtain r ps1 where p: "process_resource pr (pi_timestamp e) (handler_contexts mf nsf pr []) True None obj (interfere e ps) = Some (r, ps1)"
      "proc_ok mf nsf pr ps1" "cache_reflects mf nsf pr ps1 (key_of pr obj) (Some obj)"
      "\<forall>k. k \<noteq> key_of pr obj \<longrightarrow> processor_get k ps1 = processor_get k ps"
      using process_reflects [OF hd ok, of "pi_timestamp e" "[]" True None obj] by auto
    obtain ps' where ps': "init_list env pr objs ps1 = Some ps'" "proc_ok mf nsf pr ps'"
      "\<forall>(e, obj) \<in> set objs. passes_namespace_filter env obj \<longrightarrow> cache_reflects mf nsf pr ps' (key_of pr obj) (Some obj)"
      "\<forall>k. (\<forall>(e, obj) \<in> set objs. passes_namespace_filter env obj \<longrightarrow> key_of pr obj \<noteq> k) \<longrightarrow> processor_get k ps' = processor_get k ps1"
      using Cons.IH [OF p(2)] Cons.prems(2) by auto
    have "\<forall>(e', obj') \<in> set objs. key_of pr obj' \<noteq> key_of pr obj" using Cons.prems(2) x by force
    then have "processor_get (key_of pr obj) ps' = processor_get (key_of pr obj) ps1" using ps'(4) by blast
    then have "cache_reflects mf nsf pr ps' (key_of pr obj) (Some obj)" using p(3) reflects_get by blast
    then show ?thesis
      using True x p(1,4) ps' by (auto simp: on_init_apply_def create_context_eq [OF ok])
  next
    case False
    then show ?thesis using Cons.IH [OF Cons.prems(1)] Cons.prems(2) x by auto
  qed
qed simp

lemma on_init_simps [simp]:
  "processor_get k (on_init ps) = processor_get k ps" "processor_get k (on_init_done ps) = processor_get k ps"
  "proc_ok mf nsf pr (on_init ps) = proc_ok mf nsf pr ps" "proc_ok mf nsf pr (on_init_done ps) = proc_ok mf nsf pr ps"
  by (simp_all add: on_init_def on_init_done_def processor_get_def proc_ok_def cache_ok_def server_set_not_ready_def)

lemma processor_new_ok:
  assumes "processor_new capacity last_version shared = Some ps"
  shows "proc_ok mf nsf pr (set_namespace_filter nsf (set_metadata_filter mf ps))"
    "processor_get k (set_namespace_filter nsf (set_metadata_filter mf ps)) = None"
proof -
  have "ps_cache ps = c \<Longrightarrow> ring_wf (sc_store c) \<and> es_sync_version (sc_store c) = 0 \<and> es_data (sc_store c) = []" for c
    using assms by (auto simp: processor_new_def server_cache_new_def es_new_def ring_wf_def Let_def split: if_splits)
  then show "proc_ok mf nsf pr (set_namespace_filter nsf (set_metadata_filter mf ps))"
    "processor_get k (set_namespace_filter nsf (set_metadata_filter mf ps)) = None"
    by (simp_all add: proc_ok_def cache_ok_def processor_get_def get_by_key_def set_namespace_filter_def set_metadata_filter_def)
qed

lemma init_phase_start:
  assumes hd: "handler_ok pr" and ok: "proc_ok mf nsf pr ps" and fresh: "\<And>k. processor_get k ps = None"
    and keys: "distinct (map (\<lambda>(e, obj). key_of pr obj) objs)" and valid: "\<forall>(e, obj) \<in> set objs. valid_meta (pr_meta pr obj)"
  shows "\<exists>c. init_phase (processor_env cfg namespaces pr) pr objs ps = Some c \<and>
    start_ok (processor_env cfg namespaces pr) (proc_ok mf nsf pr) (cache_reflects mf nsf pr) (listed_store pr objs) c"
proof -
  let ?env = "processor_env cfg namespaces pr"
  obtain c where c: "init_list ?env pr objs (on_init ps) = Some c" "proc_ok mf nsf pr c"
    and seen: "\<forall>(e, obj) \<in> set objs. passes_namespace_filter ?env obj \<longrightarrow> cache_reflects mf nsf pr c (key_of pr obj) (Some obj)"
    and rest: "\<forall>k. (\<forall>(e, obj) \<in> set objs. passes_namespace_filter ?env obj \<longrightarrow> key_of pr obj \<noteq> k) \<longrightarrow> processor_get k c = None"
    using init_list_spec [OF hd, of mf nsf "on_init ps" objs ?env] ok keys fresh by auto
  have listed: "\<exists>e. (e, obj) \<in> set objs \<and> key_of pr obj = k" if "listed_store pr objs k = Some obj" for k obj
    using that by (force simp: listed_store_def dest!: map_of_SomeD)
  have "cache_reflects mf nsf pr (on_init_done c) k (filtered_store ?env (listed_store pr objs) k)" for k
  proof (cases "filtered_store ?env (listed_store pr objs) k")
    case (Some obj)
    then have "listed_store pr objs k = Some obj" "passes_namespace_filter ?env obj"
      by (auto simp: filtered_store_def split: option.splits if_splits)
    then have "cache_reflects mf nsf pr c k (Some obj)" using listed seen by fastforce
    then show ?thesis using Some reflects_get [of k "on_init_done c" c mf nsf pr] by simp
  next
    case None
    have "key_of pr obj \<noteq> k" if "(e, obj) \<in> set objs" "passes_namespace_filter ?env obj" for e obj
    proof
      assume "key_of pr obj = k"
      then have "listed_store pr objs k = Some obj"
        using that(1) keys by (force simp: listed_store_def comp_def case_prod_unfold intro!: map_of_is_SomeI)
      then show False using None that(2) by (simp add: filtered_store_def)
    qed
    then have "processor_get k c = None" using rest by blast
    then show ?thesis using None by (simp add: cache_reflects_def)
  qed
  moreover have "valid_meta (pr_meta pr obj) \<and> key_of pr obj = k" if "listed_store pr objs k = Some obj" for k obj
    using listed [OF that] valid by auto
  ultimately show ?thesis using c by (simp add: init_phase_def start_ok_def) (simp add: processor_env_def)
qed

section \<open>Kinds without processing of their own\<close>

text \<open>
  Endpoints, EndpointSlices and plugin metadata have handlers whose only method is a \<open>parse\<close> that continues
  with the object (handlers/endpoints.rs, endpoint_slice.rs, plugin_metadata.rs); this is what the default
  handler does too. Their objects are metadata with a payload.
\<close>

record plain_object =
  po_meta :: object_meta
  po_spec :: string

definition plain_processor :: "string \<Rightarrow> (plain_object, 'h, 'j) processor" where
  "plain_processor kind =
     \<lparr>pr_kind = kind, pr_handler = default_handler, pr_meta = po_meta, pr_set_meta = (\<lambda>m obj. obj\<lparr>po_meta := m\<rparr>),
      pr_json = \<lparr>sj_to_value = (\<lambda>obj. None), sj_get = (\<lambda>name v. None), sj_is_null = (\<lambda>v. True), sj_to_string = (\<lambda>v. None)\<rparr>,
      pr_max_trigger_cycles = wc_max_trigger_cycles default_wq_config\<rparr>"

lemma plain_handler_ok: "handler_ok (plain_processor kind)"
  by (simp add: handler_ok_def plain_processor_def default_handler_def same_id_def)

interpretation plain: keyed_processor "plain_processor kind" default_wq_config namespaces mf nsf
  for kind namespaces mf nsf
  by unfold_locales (simp_all add: plain_handler_ok default_wq_config_def)

section \<open>Results\<close>

context keyed_processor
begin

lemma settles:
  assumes "reachable (processor_env cfg namespaces pr) (system_start (processor_env cfg namespaces pr) store c) s"
    "start_ok (processor_env cfg namespaces pr) (proc_ok mf nsf pr) (cache_reflects mf nsf pr) store c"
  shows "\<not> quiet s \<Longrightarrow> \<exists>d s'. internal_step (processor_env cfg namespaces pr) (later d s) s'"
    "quiet s \<Longrightarrow> should_process (processor_env cfg namespaces pr) (sys_store s key) \<Longrightarrow>
     cache_reflects mf nsf pr (sys_proc s) key (sys_store s key)"
  using never_stuck [OF assms] quiet_reflects [OF assms] by blast+

end


text \<open>The witness: one object in the initial list, and a second one that arrives later.\<close>

definition sample_object :: "string \<Rightarrow> plain_object" where
  "sample_object name =
     \<lparr>po_meta = \<lparr>om_name = Some name, om_namespace = Some ''a'', om_annotations = Some [(''x'', ''y'')],
                 om_managed_fields = None, om_generation = None\<rparr>,
      po_spec = ''spec''\<rparr>"

abbreviation sample_processor :: "(plain_object, unit, unit) processor" where
  "sample_processor \<equiv> plain_processor ''Endpoints''"

abbreviation sample_env :: "(plain_object, (plain_object, unit) proc_state, unit process_input) system_env" where
  "sample_env \<equiv> processor_env default_wq_config None sample_processor"

definition sample_inputs :: "(unit process_input \<times> plain_object) list" where
  "sample_inputs = [(\<lparr>pi_timestamp = 5, pi_last_version = 0, pi_shared = ()\<rparr>, sample_object ''b'')]"

lemmas sample_defs = sample_object_def plain_processor_def processor_env_def make_resource_key_def meta_name_def valid_meta_def


section \<open>Cascades of requeues\<close>

text \<open>
  Processing an item may requeue others, with the chain of the items that led there. The cycle limit bounds
  how often a resource can occur in a chain, and with it the length of every chain.
\<close>

definition causes :: "('o, 'h, 'j) processor \<Rightarrow> string \<Rightarrow> trigger_chain \<Rightarrow> requeue_request \<Rightarrow> bool" where
  "causes pr key chain request \<longleftrightarrow>
     (\<exists>timestamp obj status ps r ps'. process_work_item pr timestamp key obj status chain ps = Some (r, ps') \<and>
        request \<in> set (drop (length (ps_requeues ps)) (ps_requeues ps')))"

inductive cascade :: "(string \<Rightarrow> ('o, 'h, 'j) processor) \<Rightarrow> requeue_request \<Rightarrow> bool"
  for prs :: "string \<Rightarrow> ('o, 'h, 'j) processor" where
  Root: "cascade prs (kind, key, [])"
| Next: "cascade prs (kind, key, chain) \<Longrightarrow> causes (prs kind) key chain request \<Longrightarrow> cascade prs request"

lemma cache_change_requeues: "cache_change pr ts change obj ps = Some ps' \<Longrightarrow> ps_requeues ps' = ps_requeues ps"
  by (auto simp: cache_change_def Let_def)

lemma process_resource_requeues:
  assumes "process_resource pr ts ctx is_init status obj ps = Some (r, ps')"
  shows "\<exists>targets. ps_requeues ps' = ps_requeues ps @ concat (map (context_requeue ctx) targets)"
  using assms
  by (auto simp: process_resource_def Let_def processor_save_def send_requeues_def intro: exI [of _ "[]"]
    dest!: cache_change_requeues split: if_splits prod.splits process_result.splits)

lemma process_delete_requeues:
  assumes "process_delete pr ts ctx cached ps = Some ps'"
  shows "\<exists>targets. ps_requeues ps' = ps_requeues ps @ concat (map (context_requeue ctx) targets)"
  using assms
  by (auto simp: process_delete_def Let_def processor_remove_def send_requeues_def
    dest!: cache_change_requeues split: prod.splits option.splits)

lemma causes_within_limit:
  assumes "causes pr key chain (kind', key', chain')"
  shows "chain' = chain_extend (pr_kind pr) key chain \<and> occurrence_count kind' key' chain' < pr_max_trigger_cycles pr"
proof -
  obtain ts obj status ps r ps' where p: "process_work_item pr ts key obj status chain ps = Some (r, ps')"
    and req: "(kind', key', chain') \<in> set (drop (length (ps_requeues ps)) (ps_requeues ps'))"
    using assms unfolding causes_def by blast
  let ?ctx = "create_context pr (chain_extend (pr_kind pr) key chain) ps"
  have "\<exists>targets. ps_requeues ps' = ps_requeues ps @ concat (map (context_requeue ?ctx) targets)"
    using p
    by (auto simp: process_work_item_def Let_def intro: exI [of _ "[]"] split: option.splits
      dest!: process_resource_requeues process_delete_requeues)
  then obtain targets where "(kind', key', chain') \<in> set (concat (map (context_requeue ?ctx) targets))" using req by auto
  then show ?thesis
    by (auto simp: context_requeue_def create_context_def would_exceed_cycle_limit_def split: if_splits)
qed

lemma occurrence_count_list: "occurrence_count kind key chain = count_list chain \<lparr>ts_kind = kind, ts_key = key\<rparr>"
proof (induction chain)
  case (Cons x chain)
  have "(ts_kind x = kind \<and> ts_key x = key) = (x = \<lparr>ts_kind = kind, ts_key = key\<rparr>)" by (cases x) auto
  then show ?case using Cons by (simp add: occurrence_count_def)
qed (simp add: occurrence_count_def)

lemma cascade_counts:
  assumes "cascade prs request" "\<And>kind. pr_kind (prs kind) = kind" "\<And>kind. pr_max_trigger_cycles (prs kind) \<le> m" "0 < m"
  shows "case request of (kind, key, chain) \<Rightarrow> occurrence_count kind key chain < m \<and> (\<forall>x. count_list chain x \<le> m)"
  using assms(1)
proof induction
  case (Root kind key)
  then show ?case using assms(4) by (simp add: occurrence_count_def)
next
  case (Next kind key chain request)
  obtain kind' key' chain' where r: "request = (kind', key', chain')" by (cases request)
  then have c: "chain' = chain @ [\<lparr>ts_kind = kind, ts_key = key\<rparr>]" "occurrence_count kind' key' chain' < m"
    using causes_within_limit [of "prs kind" key chain kind' key' chain'] Next.hyps(2) assms(2) [of kind] assms(3) [of kind]
    by (auto simp: chain_extend_def)
  have "count_list chain' x \<le> m" for x
    using Next.IH by (auto simp: c(1) occurrence_count_list)
  then show ?case using c(2) r by simp
qed

text \<open>
  C36: A cascade that starts from an event and follows the requeues that processing causes meets a resource at
  most as often as the cycle limit allows, so that a cascade over finitely many resources ends: its chains are
  no longer than the limit times the number of resources.
\<close>

theorem trigger_cascade_bounded:
  assumes "cascade prs (kind, key, chain)" "\<And>kind. pr_kind (prs kind) = kind"
    and "\<And>kind. pr_max_trigger_cycles (prs kind) \<le> m" "0 < m"
    and "finite resources" "set chain \<subseteq> resources"
  shows "(\<forall>kind' key'. occurrence_count kind' key' chain \<le> m) \<and> length chain \<le> m * card resources"
proof -
  have count: "count_list chain x \<le> m" for x using cascade_counts [OF assms(1-4)] by simp
  have "length chain = (\<Sum>x\<in>resources. count_list chain x)" using sum_count_set [OF assms(6,5)] by simp
  also have "\<dots> \<le> card resources * m" using sum_bounded_above [of resources "count_list chain" m] count by simp
  finally show ?thesis using count by (simp add: occurrence_count_list mult.commute)
qed

text \<open>The witness: a handler that requeues one resource, with a limit of one.\<close>

definition echo_processor :: "string \<Rightarrow> (plain_object, unit, unit) processor" where
  "echo_processor kind =
     (plain_processor kind)\<lparr>pr_handler := default_handler\<lparr>h_on_change := (\<lambda>ctx obj h. ([(''K'', ''a/b'')], h))\<rparr>,
                            pr_max_trigger_cycles := 1\<rparr>"

lemma echo_causes: "causes (echo_processor ''J'') ''a/c'' [] (''K'', ''a/b'', [\<lparr>ts_kind = ''J'', ts_key = ''a/c''\<rparr>])"
proof -
  let ?pr = "echo_processor ''J''" and ?obj = "sample_object ''c''"
  obtain ps0 where "processor_new 10 0 () = (Some ps0 :: (plain_object, unit) proc_state option)"
    by (simp add: processor_new_def server_cache_new_def es_new_def Let_def)
  define ps where "ps = set_namespace_filter None (set_metadata_filter None ps0)"
  have ok: "proc_ok None None ?pr ps" unfolding ps_def by (rule processor_new_ok) fact
  let ?ctx = "create_context ?pr [\<lparr>ts_kind = ''J'', ts_key = ''a/c''\<rparr>] ps"
  have "cache_ok ?pr (send_requeues ?ctx [(''K'', ''a/b'')] ps)" using ok by (simp add: proc_ok_def send_requeues_def)
  then obtain ps' where ps': "processor_save ?pr 0 ?obj (send_requeues ?ctx [(''K'', ''a/b'')] ps) = Some ps'"
    "ps_requeues ps' = ps_requeues ps @ [(''K'', ''a/b'', [\<lparr>ts_kind = ''J'', ts_key = ''a/c''\<rparr>])]"
    using cache_change_event [of ?pr _ EventUpdate Update 0 ?obj]
    by (fastforce simp: processor_save_def same_rest_def send_requeues_def context_requeue_def create_context_def
      would_exceed_cycle_limit_def occurrence_count_def echo_processor_def)
  have same: "ps\<lparr>ps_shared := ()\<rparr> = ps" by (cases ps) simp
  have "\<exists>r. process_work_item ?pr 0 ''a/c'' (Some ?obj) None [] ps = Some (r, ps')"
    using ps'(1) ok
    by (simp add: process_work_item_def process_resource_def echo_processor_def plain_processor_def default_handler_def
      chain_extend_def namespace_allowed_def create_context_def context_clean_metadata_def proc_ok_def same Let_def)
  then show ?thesis using ps'(2) unfolding causes_def by fastforce
qed

theorem trigger_cascade_bounded_witness:
  "cascade echo_processor (''K'', ''a/b'', [\<lparr>ts_kind = ''J'', ts_key = ''a/c''\<rparr>]) \<and>
   length [\<lparr>ts_kind = ''J'', ts_key = ''a/c''\<rparr>] \<le> 1 * card {\<lparr>ts_kind = ''J'', ts_key = ''a/c''\<rparr>}"
proof -
  have c: "cascade echo_processor (''K'', ''a/b'', [\<lparr>ts_kind = ''J'', ts_key = ''a/c''\<rparr>])"
    by (rule cascade.Next [of echo_processor "''J''" "''a/c''" "[]", OF cascade.Root echo_causes])
  then show ?thesis
    using trigger_cascade_bounded [OF c, of 1 "{\<lparr>ts_kind = ''J'', ts_key = ''a/c''\<rparr>}"]
    by (simp add: echo_processor_def plain_processor_def)
qed

end
