(* ===== verification/Ref_Index.thy ===== *)
theory Ref_Index
  imports Rust_Std "HOL-Library.AList" "HOL-Library.List_Lexorder" "HOL-Library.Char_ord"
begin

text \<open>
  The indices of the controller that remember who refers to whom: the reference manager for Secrets, Services
  and namespaces (ref_manager.rs), the index from Gateways to routes (gateway_route_index.rs), the tracker of
  routes attached to listeners (attached_route_tracker.rs) and the ports of listeners
  (listener_port_manager.rs), all under core/controller/conf_mgr/sync_runtime/resource_processor/.

  Each keeps a forward map, a reverse map, or both, and removes empty entries. A hash map is an association
  list, a hash set a list without duplicates. All four are interpretations of one contract: the index stands
  for a relation, and declaring the references of a value replaces what the relation says of it. The contract
  gives that the users of a source are exactly the values whose last declaration names it.
\<close>

section \<open>Maps to sets\<close>

definition multi_get :: "'k \<Rightarrow> ('k \<times> 'v list) list \<Rightarrow> 'v list" where
  "multi_get k m = (case map_of m k of Some vs \<Rightarrow> vs | None \<Rightarrow> [])"

text \<open>\<open>entry(k).or_default().insert(v)\<close>, and removing a value and then the entry when it is empty.\<close>

definition multi_insert :: "'k \<Rightarrow> 'v \<Rightarrow> ('k \<times> 'v list) list \<Rightarrow> ('k \<times> 'v list) list" where
  "multi_insert k v m = AList.update k (List.insert v (multi_get k m)) m"

definition multi_retain :: "'k \<Rightarrow> ('v \<Rightarrow> bool) \<Rightarrow> ('k \<times> 'v list) list \<Rightarrow> ('k \<times> 'v list) list" where
  "multi_retain k keep m =
     (case map_of m k of
        Some vs \<Rightarrow> let vs = filter keep vs in if vs = [] then AList.delete k m else AList.update k vs m
      | None \<Rightarrow> m)"

abbreviation multi_remove :: "'k \<Rightarrow> 'v \<Rightarrow> ('k \<times> 'v list) list \<Rightarrow> ('k \<times> 'v list) list" where
  "multi_remove k v \<equiv> multi_retain k (\<lambda>w. w \<noteq> v)"

lemma multi_get_insert [simp]:
  "multi_get k' (multi_insert k v m) = (if k' = k then List.insert v (multi_get k m) else multi_get k' m)"
  by (simp add: multi_get_def multi_insert_def update_conv')

lemma multi_get_retain [simp]:
  "multi_get k' (multi_retain k keep m) = (if k' = k then filter keep (multi_get k m) else multi_get k' m)"
  by (auto simp: multi_get_def multi_retain_def update_conv' delete_conv' Let_def split: option.split)

lemma multi_get_Nil [simp]: "multi_get k [] = []"
  by (simp add: multi_get_def)

lemma multi_get_update: "multi_get k' (AList.update k vs m) = (if k' = k then vs else multi_get k' m)"
  by (simp add: multi_get_def update_conv')

lemma multi_get_delete: "multi_get k' (AList.delete k m) = (if k' = k then [] else multi_get k' m)"
  by (simp add: multi_get_def delete_conv')

lemma multi_get_fold_insert:
  "set (multi_get k (fold (\<lambda>s. multi_insert s v) ss m)) = set (multi_get k m) \<union> (if k \<in> set ss then {v} else {})"
  by (induction ss arbitrary: m) auto

lemma multi_get_fold_retain:
  "multi_get k (fold (\<lambda>s. multi_retain s keep) ss m) = (if k \<in> set ss then filter keep (multi_get k m) else multi_get k m)"
  by (induction ss arbitrary: m) auto

section \<open>Kinds and references\<close>

datatype resource_kind =
    Unspecified | GatewayClass | EdgionGatewayConfig | Gateway | HTTPRoute | Service | EndpointSlice | EdgionTls
  | Secret | EdgionPlugins | GRPCRoute | TCPRoute | UDPRoute | PluginMetaData | TLSRoute | LinkSys
  | EdgionStreamPlugins | ReferenceGrant | BackendTLSPolicy | Endpoint | EdgionAcme

fun kind_as_str :: "resource_kind \<Rightarrow> string" where
  "kind_as_str Unspecified = ''Unspecified''"
| "kind_as_str GatewayClass = ''GatewayClass''"
| "kind_as_str EdgionGatewayConfig = ''EdgionGatewayConfig''"
| "kind_as_str Gateway = ''Gateway''"
| "kind_as_str HTTPRoute = ''HTTPRoute''"
| "kind_as_str Service = ''Service''"
| "kind_as_str EndpointSlice = ''EndpointSlice''"
| "kind_as_str EdgionTls = ''EdgionTls''"
| "kind_as_str Secret = ''Secret''"
| "kind_as_str EdgionPlugins = ''EdgionPlugins''"
| "kind_as_str GRPCRoute = ''GRPCRoute''"
| "kind_as_str TCPRoute = ''TCPRoute''"
| "kind_as_str UDPRoute = ''UDPRoute''"
| "kind_as_str PluginMetaData = ''PluginMetaData''"
| "kind_as_str TLSRoute = ''TLSRoute''"
| "kind_as_str LinkSys = ''LinkSys''"
| "kind_as_str EdgionStreamPlugins = ''EdgionStreamPlugins''"
| "kind_as_str ReferenceGrant = ''ReferenceGrant''"
| "kind_as_str BackendTLSPolicy = ''BackendTLSPolicy''"
| "kind_as_str Endpoint = ''Endpoint''"
| "kind_as_str EdgionAcme = ''EdgionAcme''"

text \<open>The derived debug name of a kind is the name of its constructor, which is \<open>kind_as_str\<close> too.\<close>

record resource_ref =
  rr_kind :: resource_kind
  rr_namespace :: "string option"
  rr_name :: string

definition ref_full_key :: "resource_ref \<Rightarrow> string" where
  "ref_full_key r =
     (case rr_namespace r of
        Some ns \<Rightarrow> kind_as_str (rr_kind r) @ ''/'' @ ns @ ''/'' @ rr_name r
      | None \<Rightarrow> kind_as_str (rr_kind r) @ ''//'' @ rr_name r)"

definition ref_resource_key :: "resource_ref \<Rightarrow> string" where
  "ref_resource_key r = (case rr_namespace r of Some ns \<Rightarrow> ns @ ''/'' @ rr_name r | None \<Rightarrow> rr_name r)"

text \<open>Reading a key back; \<open>lower\<close> is the lower case mapping of the standard library.\<close>

definition kind_names :: "(string \<times> resource_kind) list" where
  "kind_names =
     [(''unspecified'', Unspecified), (''gatewayclass'', GatewayClass), (''edgiongwconfig'', EdgionGatewayConfig),
      (''edgiongatewayconfig'', EdgionGatewayConfig), (''ztracegatewayconfig'', EdgionGatewayConfig), (''gateway'', Gateway),
      (''httproute'', HTTPRoute), (''service'', Service), (''endpointslice'', EndpointSlice), (''edgiontls'', EdgionTls),
      (''ztracetls'', EdgionTls), (''secret'', Secret), (''edgionplugins'', EdgionPlugins), (''grpcroute'', GRPCRoute),
      (''tcproute'', TCPRoute), (''udproute'', UDPRoute), (''pluginmetadata'', PluginMetaData), (''tlsroute'', TLSRoute),
      (''linksys'', LinkSys), (''edgionstreamplugins'', EdgionStreamPlugins), (''referencegrant'', ReferenceGrant),
      (''referencegrants'', ReferenceGrant), (''backendtlspolicy'', BackendTLSPolicy),
      (''backendtlspolicies'', BackendTLSPolicy), (''endpoint'', Endpoint), (''endpoints'', Endpoint),
      (''edgionacme'', EdgionAcme)]"

definition from_kind_name :: "(string \<Rightarrow> string) \<Rightarrow> string \<Rightarrow> resource_kind option" where
  "from_kind_name lower kind_str = map_of kind_names (lower kind_str)"

fun splitn3 :: "string list \<Rightarrow> (string \<times> string \<times> string) option" where
  "splitn3 (a # b # c # rest) = Some (a, b, c @ concat (map (\<lambda>p. CHR ''/'' # p) rest))"
| "splitn3 _ = None"

definition ref_from_key :: "(string \<Rightarrow> string) \<Rightarrow> string \<Rightarrow> resource_ref option" where
  "ref_from_key lower key =
     (case splitn3 (split_char CHR ''/'' key) of
        None \<Rightarrow> None
      | Some (k, ns, name) \<Rightarrow>
          map_option (\<lambda>kind. \<lparr>rr_kind = kind, rr_namespace = (if ns = [] then None else Some ns), rr_name = name\<rparr>)
            (from_kind_name lower k))"

definition valid_ref :: "resource_ref \<Rightarrow> bool" where
  "valid_ref r \<longleftrightarrow> (case rr_namespace r of Some ns \<Rightarrow> ns \<noteq> [] \<and> CHR ''/'' \<notin> set ns | None \<Rightarrow> True)"

definition ascii_lower :: "char \<Rightarrow> char" where
  "ascii_lower c = (if of_char c \<in> {65..90 :: nat} then char_of (of_char c + 32 :: nat) else c)"

lemma kind_no_slash [simp]: "CHR ''/'' \<notin> set (kind_as_str k)"
  by (cases k) simp_all

lemma split_join: "split_char c s = p # ps \<Longrightarrow> p @ concat (map (\<lambda>q. c # q) ps) = s"
proof (induction s arbitrary: p ps)
  case (Cons x s)
  obtain q qs where q: "split_char c s = q # qs" using split_char_not_Nil by (metis list.exhaust)
  show ?case
  proof (cases "x = c")
    case True
    then have "p = []" "ps = q # qs" using Cons.prems q by simp_all
    then show ?thesis using Cons.IH [OF q] True by simp
  next
    case False
    then have "p = x # q" "ps = qs" using Cons.prems q by simp_all
    then show ?thesis using Cons.IH [OF q] by simp
  qed
qed simp

lemma from_kind_name_as_str:
  "lower (kind_as_str k) = map ascii_lower (kind_as_str k) \<Longrightarrow> from_kind_name lower (kind_as_str k) = Some k"
  by (cases k) (simp_all add: from_kind_name_def kind_names_def ascii_lower_def char_of_def bit_0)

lemma ref_key_round_trip:
  assumes "valid_ref r" "\<And>k. lower (kind_as_str k) = map ascii_lower (kind_as_str k)"
  shows "ref_from_key lower (ref_full_key r) = Some r"
proof -
  obtain k ns name where r: "r = \<lparr>rr_kind = k, rr_namespace = ns, rr_name = name\<rparr>" by (cases r)
  define n where "n = (case ns of Some ns \<Rightarrow> ns | None \<Rightarrow> [])"
  have n: "CHR ''/'' \<notin> set n" "(if n = [] then None else Some n) = ns"
    using assms(1) by (auto simp: n_def r valid_ref_def split: option.splits)
  obtain p ps where ps: "split_char CHR ''/'' name = p # ps" using split_char_not_Nil by (metis list.exhaust)
  have "ref_full_key r = kind_as_str k @ CHR ''/'' # n @ CHR ''/'' # name"
    by (simp add: ref_full_key_def r n_def split: option.split)
  then have "split_char CHR ''/'' (ref_full_key r) = kind_as_str k # n # p # ps"
    using n(1) ps by (simp add: split_char_append)
  then show ?thesis
    using split_join [OF ps] n(2) from_kind_name_as_str [of lower k, OF assms(2)] by (simp add: ref_from_key_def r)
qed

lemma ref_full_key_inj: "valid_ref r \<Longrightarrow> valid_ref r' \<Longrightarrow> ref_full_key r = ref_full_key r' \<Longrightarrow> r = r'"
  by (metis ref_key_round_trip option.inject)

section \<open>The contract of an index\<close>

text \<open>
  An index stands for a relation between sources and values. Declaring the sources of a value replaces what the
  relation says of it. After any sequence of declarations the users of a source are the values whose last
  declaration names it.
\<close>

locale relation_index =
  fixes ok :: "'st \<Rightarrow> bool"
    and rel :: "'st \<Rightarrow> ('s \<times> 'v) set"
    and valid :: "'v \<Rightarrow> bool"
    and declared :: "'v \<Rightarrow> 's list \<Rightarrow> 'st \<Rightarrow> 'st"
    and users :: "'s \<Rightarrow> 'st \<Rightarrow> 'v list"
  assumes declared_ok: "ok st \<Longrightarrow> valid v \<Longrightarrow> ok (declared v ss st)"
    and declared_rel: "ok st \<Longrightarrow> valid v \<Longrightarrow> rel (declared v ss st) = {(s, w) \<in> rel st. w \<noteq> v} \<union> set ss \<times> {v}"
    and users_rel: "ok st \<Longrightarrow> set (users s st) = {v. (s, v) \<in> rel st}"
begin

lemma declarations_ok:
  "ok st \<Longrightarrow> \<forall>(v, ss) \<in> set ops. valid v \<Longrightarrow> ok (fold (\<lambda>(v, ss). declared v ss) ops st)"
  by (induction ops arbitrary: st) (auto intro: declared_ok)

lemma declarations_rel:
  assumes "ok st" "\<forall>(v, ss) \<in> set ops. valid v"
  shows "(s, v) \<in> rel (fold (\<lambda>(v, ss). declared v ss) ops st) \<longleftrightarrow>
    (case map_of (rev ops) v of Some ss \<Rightarrow> s \<in> set ss | None \<Rightarrow> (s, v) \<in> rel st)"
  using assms
proof (induction ops rule: rev_induct)
  case (snoc op ops)
  obtain w ss where op: "op = (w, ss)" by (cases op)
  have "ok (fold (\<lambda>(v, ss). declared v ss) ops st)" using snoc.prems by (intro declarations_ok) auto
  then show ?case using snoc by (auto simp: op declared_rel)
qed simp

theorem users_after_declarations:
  assumes "ok st" "rel st = {}" "\<forall>(v, ss) \<in> set ops. valid v"
  shows "set (users s (fold (\<lambda>(v, ss). declared v ss) ops st)) = {v. \<exists>ss. map_of (rev ops) v = Some ss \<and> s \<in> set ss}"
  using users_rel [OF declarations_ok [OF assms(1,3)]] declarations_rel [OF assms(1,3)] assms(2)
  by (auto split: option.splits)

end

section \<open>The reference manager\<close>

record ref_manager =
  rm_refs :: "(string \<times> resource_ref list) list"
  rm_dependencies :: "(string \<times> string list) list"

definition ref_manager_new :: ref_manager where
  "ref_manager_new = \<lparr>rm_refs = [], rm_dependencies = []\<rparr>"

definition add_ref :: "string \<Rightarrow> resource_ref \<Rightarrow> ref_manager \<Rightarrow> ref_manager" where
  "add_ref source_key value m =
     \<lparr>rm_refs = multi_insert source_key value (rm_refs m),
      rm_dependencies = multi_insert (ref_full_key value) source_key (rm_dependencies m)\<rparr>"

definition remove_ref :: "string \<Rightarrow> resource_ref \<Rightarrow> ref_manager \<Rightarrow> ref_manager" where
  "remove_ref source_key value m =
     \<lparr>rm_refs = multi_remove source_key value (rm_refs m),
      rm_dependencies = multi_remove (ref_full_key value) source_key (rm_dependencies m)\<rparr>"

definition get_refs :: "string \<Rightarrow> ref_manager \<Rightarrow> resource_ref list" where
  "get_refs source_key m = multi_get source_key (rm_refs m)"

definition get_dependencies :: "string \<Rightarrow> ref_manager \<Rightarrow> string list" where
  "get_dependencies value_key m = multi_get value_key (rm_dependencies m)"

definition clear_value_refs :: "resource_ref \<Rightarrow> ref_manager \<Rightarrow> string list \<times> ref_manager" where
  "clear_value_refs value m =
     (let value_key = ref_full_key value; source_keys = multi_get value_key (rm_dependencies m)
      in (source_keys,
          \<lparr>rm_refs = fold (\<lambda>source_key. multi_remove source_key value) source_keys (rm_refs m),
           rm_dependencies = AList.delete value_key (rm_dependencies m)\<rparr>))"

definition all_source_keys :: "ref_manager \<Rightarrow> string list" where
  "all_source_keys m = map fst (rm_refs m)"

definition ref_manager_stats :: "ref_manager \<Rightarrow> nat \<times> nat \<times> nat" where
  "ref_manager_stats m = (length (rm_refs m), length (rm_dependencies m), sum_list (map (length \<circ> snd) (rm_refs m)))"

definition ref_manager_clear :: "ref_manager \<Rightarrow> ref_manager" where
  "ref_manager_clear m = \<lparr>rm_refs = [], rm_dependencies = []\<rparr>"

text \<open>How the handlers register the references of a resource: clear the old ones, then add the new ones.\<close>

definition register_refs :: "resource_ref \<Rightarrow> string list \<Rightarrow> ref_manager \<Rightarrow> ref_manager" where
  "register_refs value sources m = fold (\<lambda>s. add_ref s value) sources (snd (clear_value_refs value m))"

definition refs_rel :: "ref_manager \<Rightarrow> (string \<times> resource_ref) set" where
  "refs_rel m = {(s, v). v \<in> set (get_refs s m)}"

definition ref_manager_ok :: "ref_manager \<Rightarrow> bool" where
  "ref_manager_ok m \<longleftrightarrow>
     (\<forall>s. \<forall>v \<in> set (get_refs s m). valid_ref v) \<and>
     (\<forall>s v. valid_ref v \<longrightarrow> (v \<in> set (get_refs s m) \<longleftrightarrow> s \<in> set (get_dependencies (ref_full_key v) m)))"

lemma get_refs_add_ref: "set (get_refs s (add_ref s' v m)) = set (get_refs s m) \<union> (if s = s' then {v} else {})"
  by (auto simp: get_refs_def add_ref_def)

lemma get_dependencies_add_ref:
  "set (get_dependencies k (add_ref s v m)) = set (get_dependencies k m) \<union> (if k = ref_full_key v then {s} else {})"
  by (auto simp: get_dependencies_def add_ref_def)

lemma add_ref_ok: "ref_manager_ok m \<Longrightarrow> valid_ref v \<Longrightarrow> ref_manager_ok (add_ref s v m)"
  unfolding ref_manager_ok_def by (auto simp: get_refs_add_ref get_dependencies_add_ref ref_full_key_inj split: if_splits)

lemma get_refs_clear:
  assumes "ref_manager_ok m" "valid_ref v"
  shows "set (get_refs s (snd (clear_value_refs v m))) = set (get_refs s m) - {v}"
  using assms
  by (auto simp: clear_value_refs_def Let_def get_refs_def multi_get_fold_retain ref_manager_ok_def get_dependencies_def)

lemma get_dependencies_clear:
  "get_dependencies k (snd (clear_value_refs v m)) = (if k = ref_full_key v then [] else get_dependencies k m)"
  by (simp add: clear_value_refs_def Let_def get_dependencies_def multi_get_delete)

lemma ref_manager_valid: "ref_manager_ok m \<Longrightarrow> v \<in> set (get_refs s m) \<Longrightarrow> valid_ref v"
  unfolding ref_manager_ok_def by blast

lemma ref_manager_agree:
  "ref_manager_ok m \<Longrightarrow> valid_ref v \<Longrightarrow> s \<in> set (get_dependencies (ref_full_key v) m) \<longleftrightarrow> v \<in> set (get_refs s m)"
  unfolding ref_manager_ok_def by blast

lemma clear_value_refs_ok:
  assumes "ref_manager_ok m" "valid_ref v"
  shows "ref_manager_ok (snd (clear_value_refs v m))"
  unfolding ref_manager_ok_def get_refs_clear [OF assms] get_dependencies_clear
  using ref_manager_valid [OF assms(1)] ref_manager_agree [OF assms(1)] ref_full_key_inj [OF _ assms(2)] by auto

lemma fold_add_ref_ok: "ref_manager_ok m \<Longrightarrow> valid_ref v \<Longrightarrow> ref_manager_ok (fold (\<lambda>s. add_ref s v) ss m)"
  by (induction ss arbitrary: m) (simp_all add: add_ref_ok)

lemma refs_rel_add_ref: "refs_rel (add_ref s v m) = insert (s, v) (refs_rel m)"
  by (auto simp: refs_rel_def get_refs_add_ref split: if_splits)

lemma fold_add_ref_rel: "refs_rel (fold (\<lambda>s. add_ref s v) ss m) = refs_rel m \<union> set ss \<times> {v}"
  by (induction ss arbitrary: m) (auto simp: refs_rel_add_ref)

interpretation refs: relation_index ref_manager_ok refs_rel valid_ref register_refs get_refs
proof
  fix m v ss
  assume "ref_manager_ok m" "valid_ref v"
  note ok = clear_value_refs_ok [OF this] and clear = get_refs_clear [OF this]
  show "ref_manager_ok (register_refs v ss m)"
    unfolding register_refs_def by (rule fold_add_ref_ok [OF ok]) fact
  have "refs_rel (snd (clear_value_refs v m)) = {(s, w) \<in> refs_rel m. w \<noteq> v}" by (auto simp: refs_rel_def clear)
  then show "refs_rel (register_refs v ss m) = {(s, w) \<in> refs_rel m. w \<noteq> v} \<union> set ss \<times> {v}"
    unfolding register_refs_def by (simp add: fold_add_ref_rel)
qed (simp add: refs_rel_def)

section \<open>Routes and their Gateways\<close>

record parent_reference =
  pa_group :: "string option"
  pa_kind :: "string option"
  pa_namespace :: "string option"
  pa_name :: string
  pa_section_name :: "string option"
  pa_port :: "int option"

definition gateway_group :: string where
  "gateway_group = ''gateway.networking.k8s.io''"

definition build_parent_key :: "string option \<Rightarrow> parent_reference \<Rightarrow> string" where
  "build_parent_key route_namespace pr =
     (case pa_namespace pr of
        Some ns \<Rightarrow> ns
      | None \<Rightarrow> (case route_namespace of Some ns \<Rightarrow> ns | None \<Rightarrow> ''default'')) @ ''/'' @ pa_name pr"

definition is_gateway_parent :: "parent_reference \<Rightarrow> bool" where
  "is_gateway_parent pr \<longleftrightarrow>
     (case pa_group pr of Some g \<Rightarrow> g | None \<Rightarrow> gateway_group) = gateway_group \<and>
     (case pa_kind pr of Some k \<Rightarrow> k | None \<Rightarrow> ''Gateway'') = ''Gateway''"

type_synonym route_entry = "resource_kind \<times> string"

record gateway_route_index =
  gi_forward :: "(string \<times> route_entry list) list"
  gi_reverse :: "(route_entry \<times> string list) list"
  gi_hostnames :: "(string \<times> string list) list"
  gi_ports :: "(string \<times> int list) list"

definition gateway_route_index_new :: gateway_route_index where
  "gateway_route_index_new = \<lparr>gi_forward = [], gi_reverse = [], gi_hostnames = [], gi_ports = []\<rparr>"

definition update_gateway_hostnames :: "string \<Rightarrow> string list \<Rightarrow> gateway_route_index \<Rightarrow> bool \<times> gateway_route_index" where
  "update_gateway_hostnames gateway_key hostnames gi =
     (let hostnames = sort hostnames
      in if map_of (gi_hostnames gi) gateway_key = Some hostnames then (False, gi)
         else (True, gi\<lparr>gi_hostnames := AList.update gateway_key hostnames (gi_hostnames gi)\<rparr>))"

definition remove_gateway_hostnames :: "string \<Rightarrow> gateway_route_index \<Rightarrow> gateway_route_index" where
  "remove_gateway_hostnames gateway_key gi = gi\<lparr>gi_hostnames := AList.delete gateway_key (gi_hostnames gi)\<rparr>"

definition update_gateway_ports :: "string \<Rightarrow> int list \<Rightarrow> gateway_route_index \<Rightarrow> bool \<times> gateway_route_index" where
  "update_gateway_ports gateway_key ports gi =
     (let ports = sort ports
      in if map_of (gi_ports gi) gateway_key = Some ports then (False, gi)
         else (True, gi\<lparr>gi_ports := AList.update gateway_key ports (gi_ports gi)\<rparr>))"

definition remove_gateway_ports :: "string \<Rightarrow> gateway_route_index \<Rightarrow> gateway_route_index" where
  "remove_gateway_ports gateway_key gi = gi\<lparr>gi_ports := AList.delete gateway_key (gi_ports gi)\<rparr>"

definition gi_remove_route :: "route_entry \<Rightarrow> gateway_route_index \<Rightarrow> gateway_route_index" where
  "gi_remove_route entry gi =
     (case map_of (gi_reverse gi) entry of
        Some old_gw_keys \<Rightarrow>
          gi\<lparr>gi_reverse := AList.delete entry (gi_reverse gi),
             gi_forward := fold (\<lambda>gw. multi_remove gw entry) old_gw_keys (gi_forward gi)\<rparr>
      | None \<Rightarrow> gi)"

text \<open>\<open>update_route\<close> once the keys of the Gateways are known, and from the parent references.\<close>

definition gi_put_route :: "route_entry \<Rightarrow> string list \<Rightarrow> gateway_route_index \<Rightarrow> gateway_route_index" where
  "gi_put_route entry gateway_keys gi =
     (let gi = gi_remove_route entry gi
      in if gateway_keys = [] then gi
         else gi\<lparr>gi_forward := fold (\<lambda>gw. multi_insert gw entry) gateway_keys (gi_forward gi),
                 gi_reverse := AList.update entry gateway_keys (gi_reverse gi)\<rparr>)"

definition gi_update_route :: "route_entry \<Rightarrow> parent_reference list \<Rightarrow> string \<Rightarrow> gateway_route_index \<Rightarrow> gateway_route_index" where
  "gi_update_route entry parent_refs route_ns gi =
     gi_put_route entry (remdups (map (build_parent_key (Some route_ns)) (filter is_gateway_parent parent_refs))) gi"

definition get_routes_for_gateway :: "string \<Rightarrow> gateway_route_index \<Rightarrow> route_entry list" where
  "get_routes_for_gateway gateway_key gi = multi_get gateway_key (gi_forward gi)"

definition gi_rel :: "gateway_route_index \<Rightarrow> (string \<times> route_entry) set" where
  "gi_rel gi = {(gw, entry). entry \<in> set (get_routes_for_gateway gw gi)}"

definition gi_ok :: "gateway_route_index \<Rightarrow> bool" where
  "gi_ok gi \<longleftrightarrow> (\<forall>gw entry. entry \<in> set (multi_get gw (gi_forward gi)) \<longleftrightarrow> gw \<in> set (multi_get entry (gi_reverse gi)))"

lemma gi_okD: "gi_ok gi \<Longrightarrow> entry \<in> set (multi_get gw (gi_forward gi)) \<longleftrightarrow> gw \<in> set (multi_get entry (gi_reverse gi))"
  unfolding gi_ok_def by blast

lemma gi_remove_route_get:
  "multi_get gw (gi_forward (gi_remove_route entry gi)) =
     (if gw \<in> set (multi_get entry (gi_reverse gi)) then filter (\<lambda>e. e \<noteq> entry) (multi_get gw (gi_forward gi))
      else multi_get gw (gi_forward gi))"
  "multi_get e (gi_reverse (gi_remove_route entry gi)) = (if e = entry then [] else multi_get e (gi_reverse gi))"
  by (auto simp: gi_remove_route_def multi_get_fold_retain multi_get_delete multi_get_def [of entry] delete_conv' split: option.split)

lemma gi_remove_route_ok:
  assumes "gi_ok gi"
  shows "gi_ok (gi_remove_route entry gi)" "gi_rel (gi_remove_route entry gi) = {(gw, e) \<in> gi_rel gi. e \<noteq> entry}"
  using gi_okD [OF assms]
  by (auto simp: gi_ok_def gi_rel_def get_routes_for_gateway_def gi_remove_route_get split: if_splits)

lemma gi_put_route_ok:
  assumes "gi_ok gi"
  shows "gi_ok (gi_put_route entry gws gi)" "gi_rel (gi_put_route entry gws gi) = {(gw, e) \<in> gi_rel gi. e \<noteq> entry} \<union> set gws \<times> {entry}"
proof -
  note ok = gi_remove_route_ok [OF assms, of entry]
  have none: "entry \<notin> set (multi_get gw (gi_forward (gi_remove_route entry gi)))" for gw
    using gi_okD [OF ok(1), of entry gw] by (simp add: gi_remove_route_get(2))
  show "gi_ok (gi_put_route entry gws gi)"
    using ok(1) none gi_okD [OF ok(1)]
    by (auto simp: gi_put_route_def Let_def gi_ok_def multi_get_fold_insert multi_get_update)
  show "gi_rel (gi_put_route entry gws gi) = {(gw, e) \<in> gi_rel gi. e \<noteq> entry} \<union> set gws \<times> {entry}"
    using ok(2) by (auto simp: gi_put_route_def Let_def gi_rel_def get_routes_for_gateway_def multi_get_fold_insert split: if_splits)
qed

interpretation gateway_routes: relation_index gi_ok gi_rel "\<lambda>_. True" gi_put_route get_routes_for_gateway
  by unfold_locales (simp_all add: gi_put_route_ok, simp add: gi_rel_def)

section \<open>Routes attached to listeners\<close>

record attachment =
  at_gateway_key :: string
  at_listener_name :: string

type_synonym listener_map = "(string \<times> (resource_kind \<times> string list) list) list"

record attached_route_tracker =
  tr_forward :: "(string \<times> listener_map) list"
  tr_reverse :: "(route_entry \<times> attachment list) list"

definition attached_route_tracker_new :: attached_route_tracker where
  "attached_route_tracker_new = \<lparr>tr_forward = [], tr_reverse = []\<rparr>"

definition attach :: "route_entry \<Rightarrow> attachment \<Rightarrow> (string \<times> listener_map) list \<Rightarrow> (string \<times> listener_map) list" where
  "attach route att fwd =
     (let listeners = multi_get (at_gateway_key att) fwd;
          kinds = multi_get (at_listener_name att) listeners
      in AList.update (at_gateway_key att)
           (AList.update (at_listener_name att) (multi_insert (fst route) (snd route) kinds) listeners) fwd)"

definition detach :: "route_entry \<Rightarrow> attachment \<Rightarrow> (string \<times> listener_map) list \<Rightarrow> (string \<times> listener_map) list" where
  "detach route att fwd =
     (case map_of fwd (at_gateway_key att) of
        None \<Rightarrow> fwd
      | Some listeners \<Rightarrow>
          (case map_of listeners (at_listener_name att) of
             None \<Rightarrow> fwd
           | Some kinds \<Rightarrow>
               let kinds = multi_remove (fst route) (snd route) kinds;
                   listeners = (if kinds = [] then AList.delete (at_listener_name att) listeners
                                else AList.update (at_listener_name att) kinds listeners)
               in if listeners = [] then AList.delete (at_gateway_key att) fwd
                  else AList.update (at_gateway_key att) listeners fwd))"

definition remove_from_maps :: "route_entry \<Rightarrow> attached_route_tracker \<Rightarrow> attached_route_tracker" where
  "remove_from_maps route t =
     (case map_of (tr_reverse t) route of
        None \<Rightarrow> t
      | Some old \<Rightarrow> \<lparr>tr_forward = fold (detach route) old (tr_forward t), tr_reverse = AList.delete route (tr_reverse t)\<rparr>)"

definition tr_update_route :: "route_entry \<Rightarrow> attachment list \<Rightarrow> attached_route_tracker \<Rightarrow> bool \<times> attached_route_tracker" where
  "tr_update_route route attachments t =
     (if (case map_of (tr_reverse t) route of Some old \<Rightarrow> set old = set attachments | None \<Rightarrow> attachments = [])
      then (False, t)
      else
        let t = remove_from_maps route t
        in if attachments = [] then (True, t)
           else (True, \<lparr>tr_forward = fold (attach route) attachments (tr_forward t),
                        tr_reverse = AList.update route attachments (tr_reverse t)\<rparr>))"

definition tr_remove_route :: "route_entry \<Rightarrow> attached_route_tracker \<Rightarrow> bool \<times> attached_route_tracker" where
  "tr_remove_route route t = (map_of (tr_reverse t) route \<noteq> None, remove_from_maps route t)"

definition route_count :: "(resource_kind \<times> string list) list \<Rightarrow> 32 word" where
  "route_count kinds = sum_list (map (\<lambda>(kind, routes). of_nat (length routes)) kinds)"

definition count_for_listener :: "string \<Rightarrow> string \<Rightarrow> attached_route_tracker \<Rightarrow> 32 word" where
  "count_for_listener gateway_key listener_name t =
     (case map_of (tr_forward t) gateway_key of
        None \<Rightarrow> 0
      | Some listeners \<Rightarrow>
          (case map_of listeners listener_name of Some kinds \<Rightarrow> route_count kinds | None \<Rightarrow> 0) +
          (if listener_name \<noteq> [] then (case map_of listeners [] of Some kinds \<Rightarrow> route_count kinds | None \<Rightarrow> 0) else 0))"

text \<open>The routes attached to one listener name, and the relation of the tracker.\<close>

definition attached_kinds :: "attachment \<Rightarrow> (string \<times> listener_map) list \<Rightarrow> (resource_kind \<times> string list) list" where
  "attached_kinds att fwd = multi_get (at_listener_name att) (multi_get (at_gateway_key att) fwd)"

definition attached_routes :: "attachment \<Rightarrow> attached_route_tracker \<Rightarrow> route_entry list" where
  "attached_routes att t = concat (map (\<lambda>(kind, routes). map (Pair kind) routes) (attached_kinds att (tr_forward t)))"

definition tr_rel :: "attached_route_tracker \<Rightarrow> (attachment \<times> route_entry) set" where
  "tr_rel t = {(att, kind, key). key \<in> set (multi_get kind (attached_kinds att (tr_forward t)))}"

lemma attached_kinds_attach:
  "attached_kinds att' (attach route att fwd) =
     (if att' = att then multi_insert (fst route) (snd route) (attached_kinds att fwd) else attached_kinds att' fwd)"
  by (cases att'; cases att) (auto simp: attached_kinds_def attach_def Let_def multi_get_update)

lemma multi_retain_Nil [simp]: "multi_retain k keep [] = []"
  by (simp add: multi_retain_def)

lemma detach_listeners:
  "multi_get gw (detach route att fwd) =
     (if gw = at_gateway_key att
      then (let listeners = multi_get gw fwd; kinds = multi_remove (fst route) (snd route) (multi_get (at_listener_name att) listeners)
            in if map_of listeners (at_listener_name att) = None then listeners
               else if kinds = [] then AList.delete (at_listener_name att) listeners
               else AList.update (at_listener_name att) kinds listeners)
      else multi_get gw fwd)"
proof (cases "map_of fwd (at_gateway_key att)")
  case (Some listeners)
  then show ?thesis
    by (cases "map_of listeners (at_listener_name att)") (simp_all add: detach_def Let_def multi_get_def update_conv' delete_conv')
qed (simp add: detach_def Let_def multi_get_def)

lemma attached_kinds_detach:
  "attached_kinds att' (detach route att fwd) =
     (if att' = att then multi_remove (fst route) (snd route) (attached_kinds att fwd) else attached_kinds att' fwd)"
proof -
  have "multi_get l m = []" if "map_of m l = None" for l and m :: listener_map using that by (simp add: multi_get_def)
  moreover have "att' = att \<longleftrightarrow> at_gateway_key att' = at_gateway_key att \<and> at_listener_name att' = at_listener_name att"
    by (cases att'; cases att) simp
  ultimately show ?thesis
    by (simp add: attached_kinds_def detach_listeners Let_def multi_get_update multi_get_delete)
qed

lemma attached_kinds_fold_attach:
  "key \<in> set (multi_get kind (attached_kinds att (fold (attach route) atts fwd))) \<longleftrightarrow>
   key \<in> set (multi_get kind (attached_kinds att fwd)) \<or> att \<in> set atts \<and> route = (kind, key)"
proof (induction atts arbitrary: fwd)
  case (Cons a atts)
  then show ?case by (cases route) (simp add: attached_kinds_attach, blast)
qed simp

lemma attached_kinds_fold_detach:
  "key \<in> set (multi_get kind (attached_kinds att (fold (detach route) atts fwd))) \<longleftrightarrow>
   key \<in> set (multi_get kind (attached_kinds att fwd)) \<and> \<not> (att \<in> set atts \<and> route = (kind, key))"
  by (induction atts arbitrary: fwd; cases route) (auto simp: attached_kinds_detach)

lemma update_values: "kv \<in> set (AList.update k v m) \<Longrightarrow> kv = (k, v) \<or> kv \<in> set m"
  by (induction m) (auto split: if_splits)

text \<open>The kinds of a listener are a map to sets: no kind and no route occurs twice.\<close>

definition kind_sets :: "('k \<times> 'v list) list \<Rightarrow> bool" where
  "kind_sets m \<longleftrightarrow> distinct (map fst m) \<and> (\<forall>(k, vs) \<in> set m. distinct vs)"

lemma kind_sets_get: "kind_sets m \<Longrightarrow> distinct (multi_get k m)"
  by (auto simp: kind_sets_def multi_get_def split: option.split dest!: map_of_SomeD)

lemma kind_sets_Nil [simp]: "kind_sets []"
  by (simp add: kind_sets_def)

lemma kind_sets_update: "kind_sets m \<Longrightarrow> distinct vs \<Longrightarrow> kind_sets (AList.update k vs m)"
  by (auto simp: kind_sets_def distinct_update dest!: update_values)

lemma kind_sets_insert [simp]: "kind_sets m \<Longrightarrow> kind_sets (multi_insert k v m)"
  by (simp add: multi_insert_def kind_sets_update distinct_insert kind_sets_get)

lemma kind_sets_retain [simp]: "kind_sets m \<Longrightarrow> kind_sets (multi_retain k keep m)"
proof -
  assume m: "kind_sets m"
  have "kind_sets (AList.delete k m)"
    using m by (auto simp: kind_sets_def distinct_delete) (auto simp: AList.delete_eq)
  moreover have "distinct vs" if "map_of m k = Some vs" for vs
    using kind_sets_get [OF m, of k] that by (simp add: multi_get_def)
  ultimately show ?thesis
    using m by (auto simp: multi_retain_def Let_def kind_sets_update split: option.split)
qed

definition tr_ok :: "attached_route_tracker \<Rightarrow> bool" where
  "tr_ok t \<longleftrightarrow>
     (\<forall>att. kind_sets (attached_kinds att (tr_forward t))) \<and>
     (\<forall>att route. (att, route) \<in> tr_rel t \<longleftrightarrow> att \<in> set (multi_get route (tr_reverse t)))"

lemma kind_sets_fold_attach:
  "\<forall>att. kind_sets (attached_kinds att fwd) \<Longrightarrow> kind_sets (attached_kinds att (fold (attach route) atts fwd))"
  by (induction atts arbitrary: fwd) (simp_all add: attached_kinds_attach)

lemma kind_sets_fold_detach:
  "\<forall>att. kind_sets (attached_kinds att fwd) \<Longrightarrow> kind_sets (attached_kinds att (fold (detach route) atts fwd))"
  by (induction atts arbitrary: fwd) (simp_all add: attached_kinds_detach)

lemma tr_okD: "tr_ok t \<Longrightarrow> (att, route) \<in> tr_rel t \<longleftrightarrow> att \<in> set (multi_get route (tr_reverse t))"
  by (cases route) (simp add: tr_ok_def)

lemma tr_ok_new: "tr_ok attached_route_tracker_new"
  by (simp add: tr_ok_def tr_rel_def attached_kinds_def attached_route_tracker_new_def)

lemma remove_from_maps_ok:
  assumes "tr_ok t"
  shows "tr_ok (remove_from_maps route t)"
    and "tr_rel (remove_from_maps route t) = {(att, r) \<in> tr_rel t. r \<noteq> route}"
proof -
  show rel: "tr_rel (remove_from_maps route t) = {(att, r) \<in> tr_rel t. r \<noteq> route}"
  proof (cases "map_of (tr_reverse t) route")
    case None
    then have "(att, route) \<notin> tr_rel t" for att by (simp add: tr_okD [OF assms] multi_get_def)
    then show ?thesis using None by (auto simp: remove_from_maps_def)
  next
    case (Some old)
    then have "(att, route) \<in> tr_rel t \<longleftrightarrow> att \<in> set old" for att by (simp add: tr_okD [OF assms] multi_get_def)
    then show ?thesis using Some by (auto simp: remove_from_maps_def tr_rel_def attached_kinds_fold_detach)
  qed
  have rev: "multi_get r (tr_reverse (remove_from_maps route t)) = (if r = route then [] else multi_get r (tr_reverse t))" for r
    by (auto simp: remove_from_maps_def multi_get_delete split: option.split) (simp add: multi_get_def)
  have "kind_sets (attached_kinds att (tr_forward (remove_from_maps route t)))" for att
    using assms by (simp add: tr_ok_def remove_from_maps_def kind_sets_fold_detach split: option.split)
  then show "tr_ok (remove_from_maps route t)"
    using assms unfolding tr_ok_def rel rev by auto
qed

lemma tr_update_route_ok:
  assumes "tr_ok t"
  shows "tr_ok (snd (tr_update_route route atts t)) \<and>
         tr_rel (snd (tr_update_route route atts t)) = {(att, r) \<in> tr_rel t. r \<noteq> route} \<union> set atts \<times> {route}"
proof (cases "case map_of (tr_reverse t) route of Some old \<Rightarrow> set old = set atts | None \<Rightarrow> atts = []")
  case True
  then have "(att, route) \<in> tr_rel t \<longleftrightarrow> att \<in> set atts" for att
    by (auto simp: tr_okD [OF assms] multi_get_def split: option.splits)
  then show ?thesis using True assms by (auto simp: tr_update_route_def)
next
  case False
  note removed = remove_from_maps_ok [OF assms, of route]
  show ?thesis
  proof (cases "atts = []")
    case True
    then show ?thesis using False removed by (auto simp: tr_update_route_def Let_def)
  next
    case some: False
    let ?t = "\<lparr>tr_forward = fold (attach route) atts (tr_forward (remove_from_maps route t)),
               tr_reverse = AList.update route atts (tr_reverse (remove_from_maps route t))\<rparr>"
    have up: "snd (tr_update_route route atts t) = ?t" using False some by (simp add: tr_update_route_def Let_def)
    have rel: "tr_rel ?t = tr_rel (remove_from_maps route t) \<union> set atts \<times> {route}"
      by (auto simp: tr_rel_def attached_kinds_fold_attach)
    have "tr_ok ?t"
      using removed(1) tr_okD [OF removed(1)] removed(2) unfolding tr_ok_def rel
      by (auto simp: kind_sets_fold_attach multi_get_update simp del: split_paired_All)
    then show ?thesis using rel removed(2) by (simp add: up)
  qed
qed

lemma pairs_of_multi:
  assumes "distinct (map fst m)"
  shows "set (concat (map (\<lambda>(k, vs). map (Pair k) vs) m)) = {(k, v). v \<in> set (multi_get k m)}"
proof -
  have "v \<in> set (multi_get k m) \<longleftrightarrow> (\<exists>vs. (k, vs) \<in> set m \<and> v \<in> set vs)" for k v
    using assms by (auto simp: multi_get_def split: option.split dest: map_of_SomeD) 
  then show ?thesis by force
qed

lemma attached_routes_set: "tr_ok t \<Longrightarrow> set (attached_routes att t) = {route. (att, route) \<in> tr_rel t}"
  unfolding attached_routes_def tr_rel_def tr_ok_def kind_sets_def by (subst pairs_of_multi) auto

interpretation attached: relation_index tr_ok tr_rel "\<lambda>_. True" "\<lambda>route atts t. snd (tr_update_route route atts t)" attached_routes
  by unfold_locales (auto simp: tr_update_route_ok attached_routes_set)

lemma attached_routes_distinct: "kind_sets m \<Longrightarrow> distinct (concat (map (\<lambda>(k, vs). map (Pair k) vs) m))"
proof (induction m)
  case (Cons kv m)
  obtain k vs where kv: "kv = (k, vs)" by (cases kv)
  have "distinct (map (Pair k) vs)" using Cons.prems by (simp add: kv kind_sets_def distinct_map inj_on_def)
  moreover have "set (map (Pair k) vs) \<inter> set (concat (map (\<lambda>(k, vs). map (Pair k) vs) m)) = {}"
    using Cons.prems by (force simp: kv kind_sets_def)
  ultimately show ?case using Cons by (simp add: kv kind_sets_def)
qed simp

lemma route_count_eq: "route_count kinds = of_nat (length (concat (map (\<lambda>(k, vs). map (Pair k) vs) kinds)))"
  by (induction kinds) (auto simp: route_count_def)

lemma count_for_listener_card:
  assumes "tr_ok t"
  shows "count_for_listener gw l t =
    of_nat (card {route. (\<lparr>at_gateway_key = gw, at_listener_name = l\<rparr>, route) \<in> tr_rel t} +
            (if l = [] then 0 else card {route. (\<lparr>at_gateway_key = gw, at_listener_name = []\<rparr>, route) \<in> tr_rel t}))"
proof -
  have card: "card {route. (att, route) \<in> tr_rel t} = length (attached_routes att t)" for att
  proof -
    have "distinct (attached_routes att t)"
      using assms unfolding attached_routes_def tr_ok_def by (intro attached_routes_distinct) auto
    then show ?thesis using attached_routes_set [OF assms, of att] distinct_card [of "attached_routes att t"] by simp
  qed
  show ?thesis
    by (simp add: card count_for_listener_def attached_routes_def attached_kinds_def multi_get_def route_count_eq split: option.split)
qed

section \<open>Ports of listeners\<close>

record listener_ref =
  lr_gateway_key :: string
  lr_listener_name :: string

definition listener_ref_display :: "listener_ref \<Rightarrow> string" where
  "listener_ref_display l = lr_gateway_key l @ ''/'' @ lr_listener_name l"

text \<open>\<open>upper\<close> is the upper case mapping and \<open>to_string\<close> the decimal form of an \<open>i32\<close> in the standard library.\<close>

definition make_port_key :: "(string \<Rightarrow> string) \<Rightarrow> (int \<Rightarrow> string) \<Rightarrow> int \<Rightarrow> string \<Rightarrow> string option \<Rightarrow> string" where
  "make_port_key upper to_string port protocol hostname =
     (if upper protocol \<in> {''HTTP'', ''HTTPS'', ''TLS''}
      then to_string port @ '':'' @ (case hostname of Some h \<Rightarrow> h | None \<Rightarrow> [])
      else to_string port @ '':'')"

record listener_port_manager =
  pm_port_to_listeners :: "(string \<times> listener_ref list) list"
  pm_gateway_to_ports :: "(string \<times> string list) list"

definition listener_port_manager_new :: listener_port_manager where
  "listener_port_manager_new = \<lparr>pm_port_to_listeners = [], pm_gateway_to_ports = []\<rparr>"

definition drop_ports :: "string \<Rightarrow> string list \<Rightarrow> (string \<times> listener_ref list) list \<Rightarrow> (string \<times> listener_ref list) list" where
  "drop_ports gateway_key = fold (\<lambda>port. multi_retain port (\<lambda>l. lr_gateway_key l \<noteq> gateway_key))"

definition unregister_gateway :: "string \<Rightarrow> listener_port_manager \<Rightarrow> listener_port_manager" where
  "unregister_gateway gateway_key m =
     \<lparr>pm_port_to_listeners = drop_ports gateway_key (multi_get gateway_key (pm_gateway_to_ports m)) (pm_port_to_listeners m),
      pm_gateway_to_ports = AList.delete gateway_key (pm_gateway_to_ports m)\<rparr>"

definition register_gateway :: "string \<Rightarrow> (string \<times> string) list \<Rightarrow> listener_port_manager \<Rightarrow> listener_port_manager" where
  "register_gateway gateway_key listeners m =
     (let gw_map = AList.delete gateway_key (pm_gateway_to_ports m);
          port_map = (case map_of (pm_gateway_to_ports m) gateway_key of
                        Some old \<Rightarrow> drop_ports gateway_key old (pm_port_to_listeners m)
                      | None \<Rightarrow> pm_port_to_listeners m);
          port_map = fold (\<lambda>(name, port). multi_insert port \<lparr>lr_gateway_key = gateway_key, lr_listener_name = name\<rparr>) listeners port_map;
          port_keys = remdups (map snd listeners)
      in \<lparr>pm_port_to_listeners = port_map,
          pm_gateway_to_ports = (if port_keys \<noteq> [] then AList.update gateway_key port_keys gw_map else gw_map)\<rparr>)"

definition get_listeners_for_port :: "string \<Rightarrow> listener_port_manager \<Rightarrow> listener_ref list" where
  "get_listeners_for_port port_key m = multi_get port_key (pm_port_to_listeners m)"

fun join_strs :: "string \<Rightarrow> string list \<Rightarrow> string" where
  "join_strs sep [] = []"
| "join_strs sep [s] = s"
| "join_strs sep (s # ss) = s @ sep @ join_strs sep ss"

definition conflict_reason :: "string \<Rightarrow> listener_ref list \<Rightarrow> string" where
  "conflict_reason port_key listeners =
     ''Port '' @ port_key @ '' conflicts with: '' @ join_strs '', '' (map listener_ref_display listeners)"

definition detect_conflicts :: "string \<Rightarrow> listener_port_manager \<Rightarrow> (string \<times> string \<times> listener_ref list) list" where
  "detect_conflicts gateway_key m =
     (case map_of (pm_gateway_to_ports m) gateway_key of
        None \<Rightarrow> []
      | Some port_keys \<Rightarrow>
          fold (\<lambda>port_key conflicts.
            (case map_of (pm_port_to_listeners m) port_key of
               None \<Rightarrow> conflicts
             | Some listeners \<Rightarrow>
                 if length listeners > 1
                 then fold (\<lambda>l conflicts.
                        if lr_gateway_key l = gateway_key
                        then AList.update (lr_listener_name l) (conflict_reason port_key listeners, listeners) conflicts
                        else conflicts) listeners conflicts
                 else conflicts)) port_keys [])"

definition get_conflicting_gateways :: "string \<Rightarrow> listener_port_manager \<Rightarrow> string list" where
  "get_conflicting_gateways gateway_key m =
     (case map_of (pm_gateway_to_ports m) gateway_key of
        None \<Rightarrow> []
      | Some port_keys \<Rightarrow>
          fold (\<lambda>port_key gws.
            (case map_of (pm_port_to_listeners m) port_key of
               None \<Rightarrow> gws
             | Some listeners \<Rightarrow>
                 if length listeners > 1
                 then fold (\<lambda>l gws. if lr_gateway_key l \<noteq> gateway_key then List.insert (lr_gateway_key l) gws else gws) listeners gws
                 else gws)) port_keys [])"

definition port_manager_clear :: "listener_port_manager \<Rightarrow> listener_port_manager" where
  "port_manager_clear m = m\<lparr>pm_port_to_listeners := [], pm_gateway_to_ports := []\<rparr>"

definition port_manager_stats :: "listener_port_manager \<Rightarrow> nat \<times> nat" where
  "port_manager_stats m = (length (pm_port_to_listeners m), length (pm_gateway_to_ports m))"

text \<open>
  The relation of the manager is between a port with a listener name and a gateway. The listeners of a port
  are a set, and a gateway that occurs at a port has that port in its own list.
\<close>

definition pm_rel :: "listener_port_manager \<Rightarrow> ((string \<times> string) \<times> string) set" where
  "pm_rel m = {((name, port), gw). \<lparr>lr_gateway_key = gw, lr_listener_name = name\<rparr> \<in> set (get_listeners_for_port port m)}"

definition pm_ok :: "listener_port_manager \<Rightarrow> bool" where
  "pm_ok m \<longleftrightarrow>
     (\<forall>port. distinct (get_listeners_for_port port m)) \<and>
     (\<forall>gw port. port \<in> set (multi_get gw (pm_gateway_to_ports m)) \<longleftrightarrow> (\<exists>name. ((name, port), gw) \<in> pm_rel m))"

definition pm_gateways :: "string \<times> string \<Rightarrow> listener_port_manager \<Rightarrow> string list" where
  "pm_gateways np m = map lr_gateway_key (filter (\<lambda>l. lr_listener_name l = fst np) (get_listeners_for_port (snd np) m))"

lemma pm_rel_iff: "((name, port), gw) \<in> pm_rel m \<longleftrightarrow> \<lparr>lr_gateway_key = gw, lr_listener_name = name\<rparr> \<in> set (get_listeners_for_port port m)"
  by (simp add: pm_rel_def)

lemma pm_ok_new: "pm_ok listener_port_manager_new"
  by (simp add: pm_ok_def pm_rel_def get_listeners_for_port_def listener_port_manager_new_def)

lemma drop_ports_get:
  "multi_get port (drop_ports gw ports pm) =
     (if port \<in> set ports then filter (\<lambda>l. lr_gateway_key l \<noteq> gw) (multi_get port pm) else multi_get port pm)"
  by (simp add: drop_ports_def multi_get_fold_retain)

lemma register_ports_get:
  "l \<in> set (multi_get port (fold (\<lambda>(name, port). multi_insert port \<lparr>lr_gateway_key = gw, lr_listener_name = name\<rparr>) ls pm)) \<longleftrightarrow>
   l \<in> set (multi_get port pm) \<or> lr_gateway_key l = gw \<and> (lr_listener_name l, port) \<in> set ls"
proof (induction ls arbitrary: pm)
  case (Cons np ls)
  then show ?case by (cases np; cases l) (simp, blast)
qed simp

lemma register_ports_distinct:
  "\<forall>port. distinct (multi_get port pm) \<Longrightarrow>
   distinct (multi_get port (fold (\<lambda>(name, port). multi_insert port \<lparr>lr_gateway_key = gw, lr_listener_name = name\<rparr>) ls pm))"
  by (induction ls arbitrary: pm) (auto simp: distinct_insert)

lemma register_gateway_listeners:
  assumes "pm_ok m"
  shows "l \<in> set (get_listeners_for_port port (register_gateway gw ls m)) \<longleftrightarrow>
    lr_gateway_key l \<noteq> gw \<and> l \<in> set (get_listeners_for_port port m) \<or>
    lr_gateway_key l = gw \<and> (lr_listener_name l, port) \<in> set ls"
proof -
  have "port \<in> set (multi_get gw (pm_gateway_to_ports m))" if "l \<in> set (get_listeners_for_port port m)" "lr_gateway_key l = gw"
    using assms that by (cases l) (auto simp: pm_ok_def pm_rel_def)
  then show ?thesis
    unfolding register_gateway_def get_listeners_for_port_def Let_def
    by (cases "map_of (pm_gateway_to_ports m) gw") (auto simp: register_ports_get drop_ports_get multi_get_def [of gw])
qed

lemma register_gateway_rel:
  "pm_ok m \<Longrightarrow> pm_rel (register_gateway gw ls m) = {(np, g) \<in> pm_rel m. g \<noteq> gw} \<union> set ls \<times> {gw}"
  by (auto simp: pm_rel_def register_gateway_listeners)

lemma register_gateway_ports:
  "set (multi_get g (pm_gateway_to_ports (register_gateway gw ls m))) =
     (if g = gw then snd ` set ls else set (multi_get g (pm_gateway_to_ports m)))"
  by (simp add: register_gateway_def Let_def multi_get_update multi_get_delete)

lemma register_gateway_ok:
  assumes "pm_ok m"
  shows "pm_ok (register_gateway gw ls m)"
proof -
  have "distinct (get_listeners_for_port port (register_gateway gw ls m))" for port
    using assms unfolding register_gateway_def get_listeners_for_port_def Let_def
    by (auto simp: pm_ok_def get_listeners_for_port_def drop_ports_get intro!: register_ports_distinct split: option.split)
  then show ?thesis
    using assms by (auto simp: pm_ok_def register_gateway_rel register_gateway_ports) (force simp: image_iff)
qed

lemma listener_member:
  "(\<exists>l \<in> set ls. lr_gateway_key l = gw \<and> lr_listener_name l = name) \<longleftrightarrow> \<lparr>lr_gateway_key = gw, lr_listener_name = name\<rparr> \<in> set ls"
proof
  assume "\<exists>l \<in> set ls. lr_gateway_key l = gw \<and> lr_listener_name l = name"
  then obtain l where l: "l \<in> set ls" "lr_gateway_key l = gw" "lr_listener_name l = name" by blast
  then have "l = \<lparr>lr_gateway_key = gw, lr_listener_name = name\<rparr>" by simp
  then show "\<lparr>lr_gateway_key = gw, lr_listener_name = name\<rparr> \<in> set ls" using l(1) by simp
qed force

lemma pm_gateways_set: "set (pm_gateways np m) = {gw. (np, gw) \<in> pm_rel m}"
proof -
  have "gw \<in> set (pm_gateways np m) \<longleftrightarrow>
      (\<exists>l \<in> set (get_listeners_for_port (snd np) m). lr_gateway_key l = gw \<and> lr_listener_name l = fst np)" for gw
    by (auto simp: pm_gateways_def)
  then show ?thesis unfolding listener_member by (cases np) (auto simp: pm_rel_def)
qed

interpretation ports: relation_index pm_ok pm_rel "\<lambda>_. True" register_gateway pm_gateways
  by unfold_locales (simp_all add: register_gateway_ok register_gateway_rel pm_gateways_set)

lemma unregister_gateway_eq: "pm_port_to_listeners (unregister_gateway gw m) = pm_port_to_listeners (register_gateway gw [] m)"
    "pm_gateway_to_ports (unregister_gateway gw m) = pm_gateway_to_ports (register_gateway gw [] m)"
  by (auto simp: unregister_gateway_def register_gateway_def multi_get_def drop_ports_def split: option.split)

lemma unregister_gateway_register: "unregister_gateway gw m = register_gateway gw [] m"
  by (simp add: unregister_gateway_eq)

text \<open>
  A listener is reported exactly when another listener, of this or of another gateway, is registered for the
  same port key.
\<close>

definition shares_port :: "listener_ref \<Rightarrow> listener_port_manager \<Rightarrow> bool" where
  "shares_port l m \<longleftrightarrow> (\<exists>port l'. l \<in> set (get_listeners_for_port port m) \<and> l' \<in> set (get_listeners_for_port port m) \<and> l' \<noteq> l)"

lemma two_elements: "distinct xs \<Longrightarrow> x \<in> set xs \<Longrightarrow> 1 < length xs \<longleftrightarrow> (\<exists>y \<in> set xs. y \<noteq> x)"
proof (cases xs rule: remdups_adj.cases)
  case (3 a b zs)
  then show "distinct xs \<Longrightarrow> x \<in> set xs \<Longrightarrow> ?thesis" by auto
qed auto

lemma dom_fold_conflicts:
  "name \<in> dom (map_of (fold (\<lambda>l conflicts. if P l then AList.update (f l) v conflicts else conflicts) ls c)) \<longleftrightarrow>
   name \<in> dom (map_of c) \<or> (\<exists>l \<in> set ls. P l \<and> f l = name)"
  by (induction ls arbitrary: c) (auto simp: update_conv')

lemma dom_fold_case:
  assumes "\<And>port c. name \<in> dom (map_of (F port c)) \<longleftrightarrow> name \<in> dom (map_of c) \<or> Q port"
  shows "name \<in> dom (map_of (fold F ports c)) \<longleftrightarrow> name \<in> dom (map_of c) \<or> (\<exists>port \<in> set ports. Q port)"
  by (induction ports arbitrary: c) (auto simp only: fold.simps comp_apply id_apply assms list.set insert_iff bex_simps)

lemma detect_conflicts_dom:
  "name \<in> dom (map_of (detect_conflicts gw m)) \<longleftrightarrow>
   (\<exists>port \<in> set (multi_get gw (pm_gateway_to_ports m)).
      1 < length (get_listeners_for_port port m) \<and> \<lparr>lr_gateway_key = gw, lr_listener_name = name\<rparr> \<in> set (get_listeners_for_port port m))"
proof (cases "map_of (pm_gateway_to_ports m) gw")
  case None
  then show ?thesis by (simp add: detect_conflicts_def multi_get_def)
next
  case (Some ports)
  show ?thesis
    unfolding detect_conflicts_def Some option.case multi_get_def [of gw]
    by (subst dom_fold_case [where Q = "\<lambda>port. 1 < length (get_listeners_for_port port m) \<and>
          \<lparr>lr_gateway_key = gw, lr_listener_name = name\<rparr> \<in> set (get_listeners_for_port port m)"])
      (simp_all add: get_listeners_for_port_def multi_get_def dom_fold_conflicts listener_member del: domIff split: option.split)
qed

lemma detect_conflicts_exact:
  assumes "pm_ok m"
  shows "name \<in> dom (map_of (detect_conflicts gw m)) \<longleftrightarrow> shares_port \<lparr>lr_gateway_key = gw, lr_listener_name = name\<rparr> m"
proof -
  let ?l = "\<lparr>lr_gateway_key = gw, lr_listener_name = name\<rparr>"
  have "port \<in> set (multi_get gw (pm_gateway_to_ports m))" if "?l \<in> set (get_listeners_for_port port m)" for port
    using assms that by (auto simp: pm_ok_def pm_rel_def)
  moreover have "1 < length (get_listeners_for_port port m) \<longleftrightarrow> (\<exists>l' \<in> set (get_listeners_for_port port m). l' \<noteq> ?l)"
    if "?l \<in> set (get_listeners_for_port port m)" for port
    using assms that by (intro two_elements) (auto simp: pm_ok_def)
  ultimately show ?thesis unfolding detect_conflicts_dom shares_port_def by blast
qed

lemma detect_conflicts_unknown: "map_of (pm_gateway_to_ports m) gw = None \<Longrightarrow> detect_conflicts gw m = []"
  by (simp add: detect_conflicts_def)

lemma get_conflicting_gateways_fold:
  "set (fold (\<lambda>l gws. if P l then List.insert (f l) gws else gws) ls gws) = set gws \<union> f ` {l \<in> set ls. P l}"
  by (induction ls arbitrary: gws) auto

lemma get_conflicting_gateways_set:
  "set (get_conflicting_gateways gw m) =
     {gw'. gw' \<noteq> gw \<and> (\<exists>port \<in> set (multi_get gw (pm_gateway_to_ports m)). 1 < length (get_listeners_for_port port m) \<and>
        (\<exists>l \<in> set (get_listeners_for_port port m). lr_gateway_key l = gw'))}"
proof (cases "map_of (pm_gateway_to_ports m) gw")
  case (Some ports)
  have "set (fold (\<lambda>port_key gws.
            (case map_of (pm_port_to_listeners m) port_key of
               None \<Rightarrow> gws
             | Some listeners \<Rightarrow>
                 if length listeners > 1
                 then fold (\<lambda>l gws. if lr_gateway_key l \<noteq> gw then List.insert (lr_gateway_key l) gws else gws) listeners gws
                 else gws)) ports gws) =
      set gws \<union> {gw'. gw' \<noteq> gw \<and> (\<exists>port \<in> set ports. 1 < length (get_listeners_for_port port m) \<and>
        (\<exists>l \<in> set (get_listeners_for_port port m). lr_gateway_key l = gw'))}" for gws
    by (induction ports arbitrary: gws)
      (auto simp: get_conflicting_gateways_fold get_listeners_for_port_def multi_get_def split: option.split)
  then show ?thesis using Some by (simp add: get_conflicting_gateways_def multi_get_def)
qed (simp add: get_conflicting_gateways_def multi_get_def)

text \<open>The registrations of a run, in order: a gateway with its listeners, or the removal of a gateway.\<close>

fun port_op :: "string \<times> (string \<times> string) list option \<Rightarrow> listener_port_manager \<Rightarrow> listener_port_manager" where
  "port_op (gw, Some listeners) m = register_gateway gw listeners m"
| "port_op (gw, None) m = unregister_gateway gw m"

definition uses_port :: "(string \<times> (string \<times> string) list option) list \<Rightarrow> string \<Rightarrow> string \<Rightarrow> string \<Rightarrow> bool" where
  "uses_port ops gw name port \<longleftrightarrow>
     (case map_of (rev ops) gw of Some (Some listeners) \<Rightarrow> (name, port) \<in> set listeners | _ \<Rightarrow> False)"

lemma port_op_register: "port_op (gw, ls) m = register_gateway gw (case ls of Some ls \<Rightarrow> ls | None \<Rightarrow> []) m"
  by (cases ls) (simp_all add: unregister_gateway_register)

lemma port_ops_run:
  fixes ops defines "m \<equiv> fold port_op ops listener_port_manager_new"
  shows "pm_ok m" "((name, port), gw) \<in> pm_rel m \<longleftrightarrow> uses_port ops gw name port"
proof -
  let ?ops = "map (\<lambda>(gw, ls). (gw, case ls of Some ls \<Rightarrow> ls | None \<Rightarrow> [])) ops"
  have "port_op = (\<lambda>(gw, ls). register_gateway gw (case ls of Some ls \<Rightarrow> ls | None \<Rightarrow> []))"
    by (auto simp: fun_eq_iff port_op_register)
  then have m: "m = fold (\<lambda>(gw, ls). register_gateway gw ls) ?ops listener_port_manager_new"
    by (simp add: m_def fold_map comp_def case_prod_unfold)
  show "pm_ok m" unfolding m by (rule ports.declarations_ok [OF pm_ok_new]) simp
  have "map_of (rev ?ops) gw = map_option (\<lambda>ls. case ls of Some ls \<Rightarrow> ls | None \<Rightarrow> []) (map_of (rev ops) gw)"
    by (simp add: rev_map map_of_map)
  moreover have "((name, port), gw) \<notin> pm_rel listener_port_manager_new"
    by (simp add: pm_rel_def get_listeners_for_port_def listener_port_manager_new_def)
  ultimately show "((name, port), gw) \<in> pm_rel m \<longleftrightarrow> uses_port ops gw name port"
    using ports.declarations_rel [OF pm_ok_new, of ?ops "(name, port)" gw]
    by (auto simp: m uses_port_def split: option.splits)
qed

text \<open>
  C40: port conflicts are reported exactly. After any sequence of registrations and removals of gateways, a
  listener of a gateway is reported as conflicting exactly when the last registrations have another listener,
  of this or of another gateway, with the same port key, and the gateways reported as in conflict with it are
  exactly the other gateways with such a listener.
\<close>

theorem port_conflicts_exact:
  "(name \<in> dom (map_of (detect_conflicts gw (fold port_op ops listener_port_manager_new))) \<longleftrightarrow>
      (\<exists>port gw' name'. uses_port ops gw name port \<and> uses_port ops gw' name' port \<and> (gw', name') \<noteq> (gw, name))) \<and>
   (gw' \<in> set (get_conflicting_gateways gw (fold port_op ops listener_port_manager_new)) \<longleftrightarrow>
      gw' \<noteq> gw \<and> (\<exists>port name name'. uses_port ops gw name port \<and> uses_port ops gw' name' port))"
  (is "?conflict \<and> ?others")
proof
  let ?m = "fold port_op ops listener_port_manager_new"
  note run = port_ops_run [where ops = ops]
  have listener: "l \<in> set (get_listeners_for_port port ?m) \<longleftrightarrow> uses_port ops (lr_gateway_key l) (lr_listener_name l) port" for l port
    by (cases l) (simp add: run(2) [symmetric] pm_rel_iff)
  show ?conflict
    unfolding detect_conflicts_exact [OF run(1)] shares_port_def listener
    by (simp add: listener_ref.splits(3))
  have port: "port \<in> set (multi_get gw (pm_gateway_to_ports ?m)) \<longleftrightarrow> (\<exists>name. uses_port ops gw name port)" for port
    using run by (auto simp: pm_ok_def)
  have two: "1 < length (get_listeners_for_port port ?m)"
    if "uses_port ops gw name port" "uses_port ops gw' name' port" "gw' \<noteq> gw" for port name name'
  proof -
    let ?l = "\<lparr>lr_gateway_key = gw, lr_listener_name = name\<rparr>" and ?l' = "\<lparr>lr_gateway_key = gw', lr_listener_name = name'\<rparr>"
    have "?l \<in> set (get_listeners_for_port port ?m)" "?l' \<in> set (get_listeners_for_port port ?m)" "?l' \<noteq> ?l"
      using that by (simp_all add: listener)
    then show ?thesis using run(1) two_elements [of "get_listeners_for_port port ?m" ?l] by (auto simp: pm_ok_def)
  qed
  show ?others
    unfolding get_conflicting_gateways_set by (auto simp: port Bex_def listener listener_ref.splits(3)) (use two [unfolded One_nat_def] in blast)
qed

text \<open>
  After any sequence of registrations, each of which replaces the references of one resource, the resources that
  are found for a referenced Secret, Service or namespace are exactly those whose last registration names it.
\<close>

lemma ref_manager_ok_new: "ref_manager_ok ref_manager_new" "refs_rel ref_manager_new = {}"
  by (simp_all add: ref_manager_ok_def refs_rel_def get_refs_def get_dependencies_def ref_manager_new_def)

lemmas registered_refs_ok = refs.declarations_ok [OF ref_manager_ok_new(1)]

lemmas registered_refs = refs.users_after_declarations [OF ref_manager_ok_new]

end
