(* ===== verification/Ref_Grant.thy ===== *)
theory Ref_Grant
  imports Resource_Processor Ref_Index
begin

text \<open>
  Cross-namespace references: the ReferenceGrant resource (types/resources/reference_grant.rs), its store with
  the index by target namespace, the validator of routes and Gateways, and the requeue of the affected
  resources when a grant changes (ref_grant/ and handlers/reference_grant.rs under
  core/controller/conf_mgr/sync_runtime/resource_processor/).

  The store is proved to implement the plain reading of the resource: after any events of the handler a
  reference is allowed exactly when it stays in its namespace or a grant that exists now permits it.
\<close>

section \<open>The resource\<close>

definition is_core_api_group :: "string \<Rightarrow> bool" where
  "is_core_api_group g \<longleftrightarrow> g = [] \<or> g = ''core''"

definition api_groups_match :: "string \<Rightarrow> string \<Rightarrow> bool" where
  "api_groups_match a b \<longleftrightarrow> a = b \<or> is_core_api_group a \<and> is_core_api_group b"

record reference_grant_from =
  gf_group :: string
  gf_kind :: string
  gf_namespace :: string

record reference_grant_to =
  gt_group :: string
  gt_kind :: string
  gt_name :: "string option"

record reference_grant =
  rg_metadata :: object_meta
  rg_from :: "reference_grant_from list"
  rg_to :: "reference_grant_to list"

definition grant_namespace :: "reference_grant \<Rightarrow> string option" where
  "grant_namespace rg = om_namespace (rg_metadata rg)"

text \<open>A reference: namespace, group and kind of its source, then group, kind and name of its target.\<close>

record reference =
  rf_namespace :: string
  rf_group :: string
  rf_kind :: string
  rf_to_group :: string
  rf_to_kind :: string
  rf_to_name :: "string option"

definition allows_reference :: "reference \<Rightarrow> reference_grant \<Rightarrow> bool" where
  "allows_reference rf rg =
     (if \<not> list_ex (\<lambda>f. gf_namespace f = rf_namespace rf \<and> api_groups_match (gf_group f) (rf_group rf) \<and> gf_kind f = rf_kind rf) (rg_from rg)
      then False
      else list_ex (\<lambda>t. api_groups_match (gt_group t) (rf_to_group rf) \<and> gt_kind t = rf_to_kind rf \<and>
             (gt_name t = None \<or> gt_name t = rf_to_name rf)) (rg_to rg))"

section \<open>The store\<close>

record grant_store =
  gs_grants :: "(string \<times> reference_grant) list"
  gs_by_to_namespace :: "(string \<times> reference_grant list) list"

definition grant_store_new :: grant_store where
  "grant_store_new = \<lparr>gs_grants = [], gs_by_to_namespace = []\<rparr>"

definition grant_get :: "string \<Rightarrow> grant_store \<Rightarrow> reference_grant option" where
  "grant_get key gs = map_of (gs_grants gs) key"

definition get_by_ns_name :: "string \<Rightarrow> string \<Rightarrow> grant_store \<Rightarrow> reference_grant option" where
  "get_by_ns_name ns name gs = grant_get (ns @ ''/'' @ name) gs"

definition get_by_to_namespace :: "string \<Rightarrow> grant_store \<Rightarrow> reference_grant list" where
  "get_by_to_namespace to_namespace gs = multi_get to_namespace (gs_by_to_namespace gs)"

definition check_reference_allowed :: "reference \<Rightarrow> string \<Rightarrow> grant_store \<Rightarrow> bool" where
  "check_reference_allowed rf to_namespace gs =
     (if rf_namespace rf = to_namespace then True
      else list_ex (allows_reference rf) (get_by_to_namespace to_namespace gs))"

definition put_namespace :: "(string \<times> reference_grant) list \<Rightarrow> string \<Rightarrow> (string \<times> reference_grant list) list \<Rightarrow> (string \<times> reference_grant list) list" where
  "put_namespace grants ns index =
     (let grants_in_ns = filter (\<lambda>g. grant_namespace g = Some ns) (map snd grants)
      in if grants_in_ns = [] then AList.delete ns index else AList.update ns grants_in_ns index)"

definition rebuild_namespace_index :: "string \<Rightarrow> grant_store \<Rightarrow> grant_store" where
  "rebuild_namespace_index ns gs = gs\<lparr>gs_by_to_namespace := put_namespace (gs_grants gs) ns (gs_by_to_namespace gs)\<rparr>"

definition grant_upsert :: "string \<Rightarrow> reference_grant \<Rightarrow> grant_store \<Rightarrow> grant_store" where
  "grant_upsert key grant gs =
     (let gs = gs\<lparr>gs_grants := AList.update key grant (gs_grants gs)\<rparr>
      in case grant_namespace grant of Some ns \<Rightarrow> rebuild_namespace_index ns gs | None \<Rightarrow> gs)"

definition grant_remove :: "string \<Rightarrow> grant_store \<Rightarrow> reference_grant option \<times> grant_store" where
  "grant_remove key gs =
     (let grant = map_of (gs_grants gs) key;
          gs = gs\<lparr>gs_grants := AList.delete key (gs_grants gs)\<rparr>
      in (grant,
          case grant of
            None \<Rightarrow> gs
          | Some g \<Rightarrow> (case grant_namespace g of Some ns \<Rightarrow> rebuild_namespace_index ns gs | None \<Rightarrow> gs)))"

definition build_index :: "(string \<times> reference_grant) list \<Rightarrow> (string \<times> reference_grant list) list" where
  "build_index grants =
     fold (\<lambda>g index.
       case grant_namespace g of
         Some ns \<Rightarrow> AList.update ns (multi_get ns index @ [g]) index
       | None \<Rightarrow> index) (map snd grants) []"

definition replace_all_grants :: "(string \<times> reference_grant) list \<Rightarrow> grant_store \<Rightarrow> grant_store" where
  "replace_all_grants new_grants gs = \<lparr>gs_grants = new_grants, gs_by_to_namespace = build_index new_grants\<rparr>"

definition build_affected_namespaces :: "(string \<times> reference_grant) list \<Rightarrow> string list \<Rightarrow> (string \<times> reference_grant) list \<Rightarrow> string list" where
  "build_affected_namespaces add_or_update remove current_grants =
     remdups (List.map_filter grant_namespace (map snd add_or_update) @
              List.map_filter (\<lambda>key. Option.bind (map_of current_grants key) grant_namespace) remove)"

definition rebuild_indexes_incremental :: "string list \<Rightarrow> grant_store \<Rightarrow> grant_store" where
  "rebuild_indexes_incremental affected gs =
     (if affected = [] then gs
      else gs\<lparr>gs_by_to_namespace := fold (put_namespace (gs_grants gs)) affected (gs_by_to_namespace gs)\<rparr>)"

definition update_incremental :: "(string \<times> reference_grant) list \<Rightarrow> string list \<Rightarrow> grant_store \<Rightarrow> grant_store" where
  "update_incremental add_or_update remove gs =
     (let affected = build_affected_namespaces add_or_update remove (gs_grants gs);
          grants = fold (\<lambda>(key, grant). AList.update key grant) add_or_update (gs_grants gs);
          grants = fold AList.delete remove grants
      in rebuild_indexes_incremental affected (gs\<lparr>gs_grants := grants\<rparr>))"

definition store_affected_namespaces :: "(string \<times> reference_grant) list \<Rightarrow> (string \<times> reference_grant) list \<Rightarrow> string list \<Rightarrow> grant_store \<Rightarrow> string list" where
  "store_affected_namespaces add upd remove gs =
     (let namespaces = (\<lambda>g. (case grant_namespace g of Some ns \<Rightarrow> [ns] | None \<Rightarrow> []) @ map gf_namespace (rg_from g))
      in remdups (concat (map (namespaces \<circ> snd) (add @ upd)) @
                  concat (map (\<lambda>key. case map_of (gs_grants gs) key of Some g \<Rightarrow> namespaces g | None \<Rightarrow> []) remove)))"

text \<open>
  What the store must hold: the index lists for each namespace exactly the stored grants of that namespace.
  A grant of a cluster has a namespace, which is the part of its key before the slash.
\<close>

definition key_namespace :: "string \<Rightarrow> string" where
  "key_namespace key = takeWhile (\<lambda>c. c \<noteq> CHR ''/'') key"

definition grants_ok :: "grant_store \<Rightarrow> bool" where
  "grants_ok gs \<longleftrightarrow>
     distinct (map fst (gs_grants gs)) \<and>
     (\<forall>key g. map_of (gs_grants gs) key = Some g \<longrightarrow> grant_namespace g = Some (key_namespace key)) \<and>
     (\<forall>ns. set (get_by_to_namespace ns gs) = {g. \<exists>key. map_of (gs_grants gs) key = Some g \<and> grant_namespace g = Some ns})"

lemma grants_okD:
  assumes "grants_ok gs"
  shows "distinct (map fst (gs_grants gs))"
    and "map_of (gs_grants gs) key = Some g \<Longrightarrow> grant_namespace g = Some (key_namespace key)"
    and "set (get_by_to_namespace ns gs) = {g. \<exists>key. map_of (gs_grants gs) key = Some g \<and> grant_namespace g = Some ns}"
  using assms unfolding grants_ok_def by blast+

lemma map_values: "distinct (map fst m) \<Longrightarrow> v \<in> set (map snd m) \<longleftrightarrow> (\<exists>k. map_of m k = Some v)"
  by (force simp: image_iff)

lemma put_namespace_get:
  "multi_get ns' (put_namespace grants ns index) =
     (if ns' = ns then filter (\<lambda>g. grant_namespace g = Some ns) (map snd grants) else multi_get ns' index)"
  by (simp add: put_namespace_def Let_def multi_get_update multi_get_delete)

lemma grants_ok_new: "grants_ok grant_store_new"
  by (simp add: grants_ok_def grant_store_new_def get_by_to_namespace_def)

text \<open>Rebuilding one namespace suffices when the grants of all the others are unchanged.\<close>

lemma rebuild_ok:
  assumes "grants_ok gs" "distinct (map fst grants)"
    and "\<And>key g. map_of grants key = Some g \<Longrightarrow> grant_namespace g = Some (key_namespace key)"
    and "\<And>key. key_namespace key \<noteq> ns \<Longrightarrow> map_of grants key = map_of (gs_grants gs) key"
  shows "grants_ok (rebuild_namespace_index ns (gs\<lparr>gs_grants := grants\<rparr>))"
proof -
  let ?gs = "rebuild_namespace_index ns (gs\<lparr>gs_grants := grants\<rparr>)"
  have grants: "gs_grants ?gs = grants" by (simp add: rebuild_namespace_index_def)
  have "g \<in> set (get_by_to_namespace ns' ?gs) \<longleftrightarrow> (\<exists>key. map_of grants key = Some g \<and> grant_namespace g = Some ns')" for g ns'
  proof (cases "ns' = ns")
    case True
    then show ?thesis
      using map_values [OF assms(2), of g]
      by (auto simp: get_by_to_namespace_def rebuild_namespace_index_def put_namespace_get)
  next
    case False
    then have "get_by_to_namespace ns' ?gs = get_by_to_namespace ns' gs"
      by (simp add: get_by_to_namespace_def rebuild_namespace_index_def put_namespace_get)
    moreover have "map_of grants key = Some g \<and> grant_namespace g = Some ns' \<longleftrightarrow>
        map_of (gs_grants gs) key = Some g \<and> grant_namespace g = Some ns'" for key
      using assms(3) [of key g] grants_okD(2) [OF assms(1), of key g] assms(4) [of key] False by force
    ultimately show ?thesis by (simp add: grants_okD(3) [OF assms(1)])
  qed
  then show ?thesis using assms(2,3) unfolding grants_ok_def grants by blast
qed

definition build_key :: "reference_grant \<Rightarrow> string" where
  "build_key rg = (case grant_namespace rg of Some ns \<Rightarrow> ns | None \<Rightarrow> ''default'') @ ''/'' @ meta_name (rg_metadata rg)"

definition cluster_grant :: "reference_grant \<Rightarrow> bool" where
  "cluster_grant rg \<longleftrightarrow> (case grant_namespace rg of Some ns \<Rightarrow> CHR ''/'' \<notin> set ns | None \<Rightarrow> False)"

lemma key_namespace_append: "CHR ''/'' \<notin> set ns \<Longrightarrow> key_namespace (ns @ CHR ''/'' # rest) = ns"
  by (induction ns) (auto simp: key_namespace_def)

lemma cluster_grant_namespace: "cluster_grant rg \<Longrightarrow> grant_namespace rg = Some (key_namespace (build_key rg))"
  by (auto simp: cluster_grant_def build_key_def key_namespace_append split: option.splits)

lemma grant_upsert_ok:
  assumes "grants_ok gs" "cluster_grant rg"
  shows "grants_ok (grant_upsert (build_key rg) rg gs)"
    and "gs_grants (grant_upsert (build_key rg) rg gs) = AList.update (build_key rg) rg (gs_grants gs)"
proof -
  note ns = cluster_grant_namespace [OF assms(2)]
  show "grants_ok (grant_upsert (build_key rg) rg gs)"
    unfolding grant_upsert_def Let_def ns option.case
    using grants_okD [OF assms(1)] ns by (intro rebuild_ok [OF assms(1)]) (auto simp: distinct_update update_conv' split: if_splits)
  show "gs_grants (grant_upsert (build_key rg) rg gs) = AList.update (build_key rg) rg (gs_grants gs)"
    by (simp add: grant_upsert_def ns rebuild_namespace_index_def)
qed

lemma grant_remove_ok:
  assumes "grants_ok gs"
  shows "grants_ok (snd (grant_remove key gs))"
    and "gs_grants (snd (grant_remove key gs)) = AList.delete key (gs_grants gs)"
proof -
  show "grants_ok (snd (grant_remove key gs))"
  proof (cases "map_of (gs_grants gs) key")
    case None
    then have "AList.delete key (gs_grants gs) = gs_grants gs"
      by (intro delete_id) (simp add: map_of_eq_None_iff)
    then show ?thesis using None assms by (simp add: grant_remove_def)
  next
    case (Some g)
    note ns = grants_okD(2) [OF assms Some]
    have "grants_ok (rebuild_namespace_index (key_namespace key) (gs\<lparr>gs_grants := AList.delete key (gs_grants gs)\<rparr>))"
      using grants_okD [OF assms] by (intro rebuild_ok [OF assms]) (auto simp: distinct_delete delete_conv' split: if_splits)
    then show ?thesis using Some ns by (simp add: grant_remove_def)
  qed
  show "gs_grants (snd (grant_remove key gs)) = AList.delete key (gs_grants gs)"
    by (auto simp: grant_remove_def Let_def rebuild_namespace_index_def split: option.split)
qed

text \<open>Replacing all grants, and an incremental update, keep the index exact as well.\<close>

lemma build_index_get:
  "multi_get ns (build_index grants) = filter (\<lambda>g. grant_namespace g = Some ns) (map snd grants)"
proof -
  have "multi_get ns (fold (\<lambda>g index. case grant_namespace g of Some ns \<Rightarrow> AList.update ns (multi_get ns index @ [g]) index
      | None \<Rightarrow> index) gs index) = multi_get ns index @ filter (\<lambda>g. grant_namespace g = Some ns) gs" for gs index
    by (induction gs arbitrary: index) (auto simp: multi_get_update split: option.split)
  then show ?thesis by (simp add: build_index_def)
qed

lemma replace_all_grants_ok:
  assumes "distinct (map fst grants)" "\<forall>(key, g) \<in> set grants. grant_namespace g = Some (key_namespace key)"
  shows "grants_ok (replace_all_grants grants gs)"
  using assms map_values [OF assms(1)]
  by (auto simp: grants_ok_def replace_all_grants_def get_by_to_namespace_def build_index_get dest: map_of_SomeD)

lemma fold_put_namespace:
  "multi_get ns (fold (put_namespace grants) affected index) =
     (if ns \<in> set affected then filter (\<lambda>g. grant_namespace g = Some ns) (map snd grants) else multi_get ns index)"
  by (induction affected arbitrary: index) (auto simp: put_namespace_get)

lemma fold_update_map:
  "map_of (fold (\<lambda>(key, v). AList.update key v) kvs m) = (map_of m ++ map_of (rev kvs))"
  by (induction kvs rule: rev_induct) (auto simp: update_conv' map_add_def fun_eq_iff split: option.split)

lemma fold_delete_map: "map_of (fold AList.delete keys m) key = (if key \<in> set keys then None else map_of m key)"
  by (induction keys arbitrary: m) (auto simp: delete_conv')

lemma fold_update_distinct: "distinct (map fst m) \<Longrightarrow> distinct (map fst (fold (\<lambda>(key, v). AList.update key v) kvs m))"
  by (induction kvs arbitrary: m) (auto simp: distinct_update)

lemma fold_delete_distinct: "distinct (map fst m) \<Longrightarrow> distinct (map fst (fold AList.delete keys m))"
  by (induction keys arbitrary: m) (auto simp: distinct_delete)

lemma update_incremental_ok:
  assumes ok: "grants_ok gs" and new: "\<forall>(key, g) \<in> set upd. grant_namespace g = Some (key_namespace key)"
  shows "grants_ok (update_incremental upd remove gs)"
proof -
  define grants where "grants = fold AList.delete remove (fold (\<lambda>(key, g). AList.update key g) upd (gs_grants gs))"
  define affected where "affected = build_affected_namespaces upd remove (gs_grants gs)"
  have map: "map_of grants key = (if key \<in> set remove then None else (map_of (gs_grants gs) ++ map_of (rev upd)) key)" for key
    by (simp add: grants_def fold_delete_map fold_update_map)
  have distinct: "distinct (map fst grants)"
    by (simp add: grants_def fold_delete_distinct fold_update_distinct grants_okD(1) [OF ok])
  have added: "grant_namespace g = Some (key_namespace key)" if "map_of (rev upd) key = Some g" for key g
    using new map_of_SomeD [OF that] by auto
  have keyed: "grant_namespace g = Some (key_namespace key)" if "map_of grants key = Some g" for key g
    using that added [of key g] grants_okD(2) [OF ok, of key g] by (auto simp: map map_add_Some_iff split: if_splits)
  have upd_ns: "key_namespace key \<in> set affected" if "map_of (rev upd) key = Some g" for key g
    using added [OF that] map_of_SomeD [OF that]
    by (force simp: affected_def build_affected_namespaces_def set_map_filter)
  have rem_ns: "key_namespace key \<in> set affected" if "key \<in> set remove" "map_of (gs_grants gs) key = Some g" for key g
    using that grants_okD(2) [OF ok that(2)]
    by (force simp: affected_def build_affected_namespaces_def set_map_filter)
  have same: "map_of grants key = map_of (gs_grants gs) key" if "key_namespace key \<notin> set affected" for key
    using that upd_ns [of key] rem_ns [of key]
    by (cases "map_of (rev upd) key"; cases "map_of (gs_grants gs) key") (auto simp: map map_add_def)
  have "g \<in> set (multi_get ns (fold (put_namespace grants) affected (gs_by_to_namespace gs))) \<longleftrightarrow>
      (\<exists>key. map_of grants key = Some g \<and> grant_namespace g = Some ns)" for g ns
  proof (cases "ns \<in> set affected")
    case True
    then show ?thesis using map_values [OF distinct, of g] by (auto simp: fold_put_namespace)
  next
    case False
    have "map_of grants key = Some g \<and> grant_namespace g = Some ns \<longleftrightarrow> map_of (gs_grants gs) key = Some g \<and> grant_namespace g = Some ns" for key
      using keyed [of key g] grants_okD(2) [OF ok, of key g] same [of key] False by force
    then show ?thesis using False grants_okD(3) [OF ok, of ns] by (simp add: fold_put_namespace get_by_to_namespace_def set_eq_iff)
  qed
  then show ?thesis
    using distinct keyed
    by (auto simp: grants_ok_def update_incremental_def Let_def rebuild_indexes_incremental_def get_by_to_namespace_def
        grants_def [symmetric] affected_def [symmetric])
qed

section \<open>The handler and the revalidation\<close>

definition grant_affected_namespaces :: "reference_grant \<Rightarrow> string list" where
  "grant_affected_namespaces rg =
     remdups ((case grant_namespace rg of Some ns \<Rightarrow> [ns] | None \<Rightarrow> []) @ map gf_namespace (rg_from rg))"

text \<open>Requeue requests are a kind with a key; a resource is requeued once however many namespaces lead to it.\<close>

definition ref_target :: "resource_ref \<Rightarrow> string \<times> string" where
  "ref_target r = (kind_as_str (rr_kind r), ref_resource_key r)"

fun requeue_once :: "resource_ref list \<Rightarrow> string list \<Rightarrow> (string \<times> string) list" where
  "requeue_once [] requeued = []"
| "requeue_once (r # refs) requeued =
     (if ref_full_key r \<in> set requeued then requeue_once refs requeued
      else ref_target r # requeue_once refs (ref_full_key r # requeued))"

definition on_reference_grant_changed :: "ref_manager \<Rightarrow> string list \<Rightarrow> (string \<times> string) list" where
  "on_reference_grant_changed manager affected =
     (let namespaces_to_check = (if affected = [] then all_source_keys manager else affected)
      in requeue_once (concat (map (\<lambda>ns. get_refs ns manager) namespaces_to_check)) [])"

definition dispatch :: "(string list \<Rightarrow> (string \<times> string) list) list \<Rightarrow> string list \<Rightarrow> (string \<times> string) list" where
  "dispatch listeners affected = concat (map (\<lambda>listener. listener affected) listeners)"

definition dispatch_change_event :: "(string list \<Rightarrow> (string \<times> string) list) list \<Rightarrow> string list \<Rightarrow> (string \<times> string) list" where
  "dispatch_change_event listeners affected = (if affected = [] then [] else dispatch listeners affected)"

definition trigger_full_cross_ns_revalidation :: "ref_manager \<Rightarrow> (string \<times> string) list" where
  "trigger_full_cross_ns_revalidation manager =
     (if fst (snd (ref_manager_stats manager)) = 0 then []
      else requeue_once (concat (map (\<lambda>ns. get_refs ns manager) (all_source_keys manager))) [])"

definition trigger_gateway_secret_revalidation :: "string list option \<Rightarrow> (string \<times> string) list" where
  "trigger_gateway_secret_revalidation gateway_keys =
     (case gateway_keys of Some keys \<Rightarrow> map (Pair ''Gateway'') keys | None \<Rightarrow> [])"

definition grant_parse :: "reference_grant \<Rightarrow> grant_store \<Rightarrow> grant_store" where
  "grant_parse rg gs = grant_upsert (build_key rg) rg gs"

definition grant_on_delete :: "reference_grant \<Rightarrow> grant_store \<Rightarrow> grant_store" where
  "grant_on_delete rg gs = snd (grant_remove (build_key rg) gs)"

text \<open>A requeue names each resource once, and none is forgotten.\<close>

lemma requeue_once_set:
  assumes "\<forall>r \<in> set refs. valid_ref r"
  shows "set (requeue_once refs requeued) = ref_target ` {r \<in> set refs. ref_full_key r \<notin> set requeued}"
  using assms
proof (induction refs arbitrary: requeued)
  case (Cons r refs)
  have "ref_full_key r' = ref_full_key r \<longleftrightarrow> r' = r" if "r' \<in> set refs" for r'
    using ref_full_key_inj [of r' r] Cons.prems that by auto
  then have "insert (ref_target r) (ref_target ` {r' \<in> set refs. ref_full_key r' \<notin> set (ref_full_key r # requeued)}) =
      ref_target ` {r' \<in> set (r # refs). ref_full_key r' \<notin> set requeued}" if "ref_full_key r \<notin> set requeued"
    using that by auto
  then show ?case using Cons by auto
qed simp

lemma grant_change_requeues:
  assumes "\<forall>(v, ss) \<in> set regs. valid_ref v" "affected \<noteq> []"
  shows "set (on_reference_grant_changed (fold (\<lambda>(v, ss). register_refs v ss) regs ref_manager_new) affected) =
    ref_target ` {v. \<exists>ss. map_of (rev regs) v = Some ss \<and> set ss \<inter> set affected \<noteq> {}}"
proof -
  let ?m = "fold (\<lambda>(v, ss). register_refs v ss) regs ref_manager_new"
  note users = registered_refs [OF assms(1)] and ok = registered_refs_ok [OF assms(1)]
  have "\<forall>r \<in> set (concat (map (\<lambda>ns. get_refs ns ?m) affected)). valid_ref r"
    using ref_manager_valid [OF ok] by auto
  then have "set (on_reference_grant_changed ?m affected) = ref_target ` (\<Union>ns \<in> set affected. set (get_refs ns ?m))"
    using assms(2) by (simp add: on_reference_grant_changed_def requeue_once_set UNION_eq)
  also have "(\<Union>ns \<in> set affected. set (get_refs ns ?m)) = {v. \<exists>ss. map_of (rev regs) v = Some ss \<and> set ss \<inter> set affected \<noteq> {}}"
    by (auto simp: users)
  finally show ?thesis .
qed

text \<open>The events the handler sees for the grants of a cluster, and the grants that exist after them.\<close>

datatype grant_event = Grant_Applied reference_grant | Grant_Deleted reference_grant

fun handle_grant_event :: "grant_event \<Rightarrow> grant_store \<Rightarrow> grant_store" where
  "handle_grant_event (Grant_Applied rg) gs = grant_parse rg gs"
| "handle_grant_event (Grant_Deleted rg) gs = grant_on_delete rg gs"

fun event_grant :: "grant_event \<Rightarrow> reference_grant" where
  "event_grant (Grant_Applied rg) = rg"
| "event_grant (Grant_Deleted rg) = rg"

fun grant_entry :: "grant_event \<Rightarrow> string \<times> reference_grant option" where
  "grant_entry (Grant_Applied rg) = (build_key rg, Some rg)"
| "grant_entry (Grant_Deleted rg) = (build_key rg, None)"

definition grant_exists :: "grant_event list \<Rightarrow> reference_grant \<Rightarrow> bool" where
  "grant_exists events rg \<longleftrightarrow> map_of (rev (map grant_entry events)) (build_key rg) = Some (Some rg)"

text \<open>What a grant permits, as the resource documents it: some source entry and some target entry match.\<close>

definition grant_permits :: "reference \<Rightarrow> reference_grant \<Rightarrow> bool" where
  "grant_permits rf rg \<longleftrightarrow>
     (\<exists>f \<in> set (rg_from rg). gf_namespace f = rf_namespace rf \<and> gf_kind f = rf_kind rf \<and> api_groups_match (gf_group f) (rf_group rf)) \<and>
     (\<exists>t \<in> set (rg_to rg). gt_kind t = rf_to_kind rf \<and> api_groups_match (gt_group t) (rf_to_group rf) \<and>
        (\<forall>name. gt_name t = Some name \<longrightarrow> rf_to_name rf = Some name))"

lemma allows_reference_permits: "allows_reference rf rg \<longleftrightarrow> grant_permits rf rg"
  unfolding allows_reference_def grant_permits_def list_ex_iff by (auto split: option.splits) (metis option.exhaust)

lemma grant_events_run:
  assumes "\<forall>e \<in> set events. cluster_grant (event_grant e)"
  shows "grants_ok (fold handle_grant_event events grant_store_new) \<and>
    map_of (gs_grants (fold handle_grant_event events grant_store_new)) key =
      (case map_of (rev (map grant_entry events)) key of Some g \<Rightarrow> g | None \<Rightarrow> None)"
  using assms
proof (induction events arbitrary: key rule: rev_induct)
  case Nil
  then show ?case by (simp add: grants_ok_new) (simp add: grant_store_new_def)
next
  case (snoc e events)
  then have ok: "grants_ok (fold handle_grant_event events grant_store_new)" by simp
  have "map_of (gs_grants (fold handle_grant_event events grant_store_new)) key =
      (case map_of (rev (map grant_entry events)) key of Some g \<Rightarrow> g | None \<Rightarrow> None)" using snoc by simp
  then show ?case
    using snoc.prems grant_upsert_ok [OF ok] grant_remove_ok [OF ok]
    by (cases e) (simp_all add: grant_parse_def grant_on_delete_def update_conv' delete_conv')
qed

lemma existing_grant:
  assumes "\<forall>e \<in> set events. cluster_grant (event_grant e)"
  shows "(\<exists>key. map_of (gs_grants (fold handle_grant_event events grant_store_new)) key = Some g) \<longleftrightarrow> grant_exists events g"
proof -
  have "fst (grant_entry e) = build_key g" if "grant_entry e = (key, Some g)" for e key using that by (cases e) auto
  then have "key = build_key g" if "map_of (rev (map grant_entry events)) key = Some (Some g)" for key
    using map_of_SomeD [OF that] by force
  then show ?thesis
    using grant_events_run [OF assms] by (auto simp: grant_exists_def split: option.splits)
qed


definition sample_grant :: reference_grant where
  "sample_grant =
     \<lparr>rg_metadata = \<lparr>om_name = Some ''g'', om_namespace = Some ''b'', om_annotations = None, om_managed_fields = None, om_generation = None\<rparr>,
      rg_from = [\<lparr>gf_group = ''gateway.networking.k8s.io'', gf_kind = ''HTTPRoute'', gf_namespace = ''a''\<rparr>],
      rg_to = [\<lparr>gt_group = ''core'', gt_kind = ''Service'', gt_name = None\<rparr>]\<rparr>"

definition sample_reference :: reference where
  "sample_reference =
     \<lparr>rf_namespace = ''a'', rf_group = ''gateway.networking.k8s.io'', rf_kind = ''HTTPRoute'', rf_to_group = [],
      rf_to_kind = ''Service'', rf_to_name = Some ''s''\<rparr>"


section \<open>The validator of routes and Gateways\<close>

text \<open>What the validation reads of a backend reference and of a certificate reference.\<close>

record backend_ref =
  br_group :: "string option"
  br_kind :: "string option"
  br_namespace :: "string option"
  br_name :: string

record backend_object_reference =
  bo_group :: string
  bo_kind :: "string option"
  bo_namespace :: "string option"
  bo_name :: string

record secret_object_reference =
  so_group :: "string option"
  so_kind :: "string option"
  so_namespace :: "string option"
  so_name :: string

definition from_gateway_api :: "string \<Rightarrow> string \<Rightarrow> string \<Rightarrow> string \<Rightarrow> string \<Rightarrow> reference" where
  "from_gateway_api ns kind to_group to_kind name =
     \<lparr>rf_namespace = ns, rf_group = gateway_group, rf_kind = kind, rf_to_group = to_group, rf_to_kind = to_kind, rf_to_name = Some name\<rparr>"

definition quoted :: "string \<Rightarrow> string" where
  "quoted s = [CHR 0x27] @ s @ [CHR 0x27]"

definition validate_route_backend_refs :: "string \<Rightarrow> string \<Rightarrow> backend_object_reference list \<Rightarrow> grant_store \<Rightarrow> string list" where
  "validate_route_backend_refs route_namespace route_kind backend_refs gs =
     List.map_filter (\<lambda>br.
       case bo_namespace br of
         None \<Rightarrow> None
       | Some backend_ns \<Rightarrow>
           if backend_ns = route_namespace then None
           else let kind = (case bo_kind br of Some k \<Rightarrow> k | None \<Rightarrow> ''Service'')
                in if check_reference_allowed (from_gateway_api route_namespace route_kind (bo_group br) kind (bo_name br)) backend_ns gs then None
                   else Some (''Cross-namespace reference not allowed: '' @ route_kind @ '' in namespace '' @ quoted route_namespace @
                     '' cannot reference '' @ kind @ ''/'' @ bo_name br @ '' in namespace '' @ quoted backend_ns @ '' (no ReferenceGrant)''))
       backend_refs"

definition validate_gateway_certificate_refs :: "string \<Rightarrow> secret_object_reference list \<Rightarrow> grant_store \<Rightarrow> string list" where
  "validate_gateway_certificate_refs gateway_namespace certificate_refs gs =
     List.map_filter (\<lambda>cr.
       case so_namespace cr of
         None \<Rightarrow> None
       | Some cert_ns \<Rightarrow>
           if cert_ns = gateway_namespace then None
           else if check_reference_allowed (from_gateway_api gateway_namespace ''Gateway''
                     (case so_group cr of Some g \<Rightarrow> g | None \<Rightarrow> []) (case so_kind cr of Some k \<Rightarrow> k | None \<Rightarrow> ''Secret'') (so_name cr)) cert_ns gs
           then None
           else Some (''Cross-namespace reference not allowed: Gateway in namespace '' @ quoted gateway_namespace @
             '' cannot reference Secret '' @ quoted (so_name cr) @ '' in namespace '' @ quoted cert_ns @ '' (no ReferenceGrant)''))
       certificate_refs"

definition normalize_group :: "string option \<Rightarrow> string" where
  "normalize_group g = (case g of Some g \<Rightarrow> g | None \<Rightarrow> [])"

definition normalize_kind :: "string option \<Rightarrow> string" where
  "normalize_kind k = (case k of Some k \<Rightarrow> k | None \<Rightarrow> ''Service'')"

definition check_cross_namespace_ref :: "grant_store \<Rightarrow> string \<Rightarrow> string \<Rightarrow> string \<Rightarrow> string \<Rightarrow> string \<Rightarrow> string \<Rightarrow> string option" where
  "check_cross_namespace_ref gs route_namespace route_kind backend_ns g kind name =
     (if check_reference_allowed (from_gateway_api route_namespace route_kind g kind name) backend_ns gs then None
      else Some (''Cross-namespace reference not allowed: '' @ route_kind @ '' in namespace '' @ quoted route_namespace @
        '' cannot reference '' @ (if g = [] then ''core'' else g) @ ''/'' @ kind @ ''/'' @ name @ '' in namespace '' @ quoted backend_ns @
        '' (no ReferenceGrant)''))"

text \<open>\<open>enabled\<close> is the setting \<open>validation.enable_reference_grant_validation\<close> of the controller.\<close>

definition is_cross_ns_ref_allowed :: "bool \<Rightarrow> grant_store \<Rightarrow> string \<Rightarrow> string \<Rightarrow> string \<Rightarrow> string option \<Rightarrow> string option \<Rightarrow> string \<Rightarrow> bool" where
  "is_cross_ns_ref_allowed enabled gs route_namespace route_kind backend_namespace backend_group backend_kind backend_name =
     (if \<not> enabled then True
      else check_reference_allowed (from_gateway_api route_namespace route_kind (normalize_group backend_group)
             (normalize_kind backend_kind) backend_name) backend_namespace gs)"

text \<open>A route is seen through its metadata and the backend references of its rules.\<close>

record route_view =
  rv_metadata :: object_meta
  rv_rules :: "backend_ref list option list option"

definition validate_rules :: "string \<Rightarrow> bool \<Rightarrow> grant_store \<Rightarrow> route_view \<Rightarrow> string list" where
  "validate_rules route_kind enabled gs route =
     (if \<not> enabled then []
      else
        let route_namespace = (case om_namespace (rv_metadata route) of Some ns \<Rightarrow> ns | None \<Rightarrow> ''default'');
            rules = (case rv_rules route of Some rules \<Rightarrow> rules | None \<Rightarrow> []);
            backend_refs = concat (map (\<lambda>refs. case refs of Some refs \<Rightarrow> refs | None \<Rightarrow> []) rules)
        in List.map_filter (\<lambda>br.
             case br_namespace br of
               None \<Rightarrow> None
             | Some backend_ns \<Rightarrow>
                 if backend_ns = route_namespace then None
                 else check_cross_namespace_ref gs route_namespace route_kind backend_ns
                   (normalize_group (br_group br)) (normalize_kind (br_kind br)) (br_name br)) backend_refs)"

definition validate_http_route_if_enabled :: "bool \<Rightarrow> grant_store \<Rightarrow> route_view \<Rightarrow> string list" where
  "validate_http_route_if_enabled = validate_rules ''HTTPRoute''"

definition validate_grpc_route_if_enabled :: "bool \<Rightarrow> grant_store \<Rightarrow> route_view \<Rightarrow> string list" where
  "validate_grpc_route_if_enabled = validate_rules ''GRPCRoute''"

definition validate_tcp_route_if_enabled :: "bool \<Rightarrow> grant_store \<Rightarrow> route_view \<Rightarrow> string list" where
  "validate_tcp_route_if_enabled = validate_rules ''TCPRoute''"

definition validate_udp_route_if_enabled :: "bool \<Rightarrow> grant_store \<Rightarrow> route_view \<Rightarrow> string list" where
  "validate_udp_route_if_enabled = validate_rules ''UDPRoute''"

definition validate_tls_route_if_enabled :: "bool \<Rightarrow> grant_store \<Rightarrow> route_view \<Rightarrow> string list" where
  "validate_tls_route_if_enabled = validate_rules ''TLSRoute''"

text \<open>A route passes exactly when every backend reference into another namespace is allowed.\<close>

lemma validate_rules_accepts:
  "validate_rules kind enabled gs route = [] \<longleftrightarrow>
     (\<forall>rules refs br backend_ns. rv_rules route = Some rules \<and> Some refs \<in> set rules \<and> br \<in> set refs \<and> br_namespace br = Some backend_ns \<longrightarrow>
        is_cross_ns_ref_allowed enabled gs (case om_namespace (rv_metadata route) of Some ns \<Rightarrow> ns | None \<Rightarrow> ''default'') kind backend_ns
          (br_group br) (br_kind br) (br_name br))"
proof (cases enabled)
  case True
  define ns where "ns = (case om_namespace (rv_metadata route) of Some ns \<Rightarrow> ns | None \<Rightarrow> ''default'')"
  define rules where "rules = (case rv_rules route of Some rules \<Rightarrow> rules | None \<Rightarrow> [])"
  have nil: "List.map_filter f xs = [] \<longleftrightarrow> (\<forall>x \<in> set xs. f x = None)" for f :: "backend_ref \<Rightarrow> string option" and xs
    by (auto simp: map_filter_def filter_empty_conv)
  have one: "(case br_namespace br of None \<Rightarrow> None
      | Some backend_ns \<Rightarrow> if backend_ns = ns then None
          else check_cross_namespace_ref gs ns kind backend_ns (normalize_group (br_group br)) (normalize_kind (br_kind br)) (br_name br)) = None \<longleftrightarrow>
      (\<forall>backend_ns. br_namespace br = Some backend_ns \<longrightarrow> is_cross_ns_ref_allowed enabled gs ns kind backend_ns (br_group br) (br_kind br) (br_name br))" for br
    by (cases "br_namespace br")
      (simp_all add: True check_cross_namespace_ref_def is_cross_ns_ref_allowed_def check_reference_allowed_def from_gateway_api_def)
  have all: "br \<in> set (concat (map (\<lambda>refs. case refs of Some refs \<Rightarrow> refs | None \<Rightarrow> []) rules)) \<longleftrightarrow>
      (\<exists>refs. Some refs \<in> set rules \<and> br \<in> set refs)" for br
    by (auto split: option.splits)
  have off: "(if \<not> enabled then [] else xs) = xs" for xs :: "string list" by (simp add: True)
  show ?thesis
    unfolding validate_rules_def Let_def ns_def [symmetric] rules_def [symmetric] off nil one Ball_def all
    unfolding rules_def by (cases "rv_rules route") (simp, simp, blast)
qed (simp add: validate_rules_def is_cross_ns_ref_allowed_def)

end
