(* ===== verification/Gateway_Handler.thy ===== *)
theory Gateway_Handler
  imports Ref_Grant
begin

text \<open>
  The controller's handlers for Gateways, GatewayClasses, Secrets, Services and ReferenceGrants
  (handlers/gateway.rs, gateway_class.rs, secret.rs, service.rs, reference_grant.rs, with the helpers of
  handlers/mod.rs and status_utils.rs, all under core/controller/conf_mgr/sync_runtime/resource_processor/),
  as values of the handler record of Resource_Processor over one record of shared stores.

  Results: a change of a Secret requeues exactly the resources whose last processing refers to it; the
  Gateway processor is an instance of the keyed processor, so its cache settles; and port conflicts between
  Gateways are never reported, because ports are registered and looked up under different keys.
\<close>

section \<open>Conditions\<close>

record condition =
  co_type :: string
  co_status :: string
  co_reason :: string
  co_message :: string
  co_last_transition_time :: string
  co_observed_generation :: "int option"

text \<open>\<open>now\<close> is the time that \<open>now_rfc3339\<close> reads.\<close>

definition condition_true :: "string \<Rightarrow> string \<Rightarrow> string \<Rightarrow> string \<Rightarrow> int option \<Rightarrow> condition" where
  "condition_true now type reason message generation =
     \<lparr>co_type = type, co_status = ''True'', co_reason = reason, co_message = message,
      co_last_transition_time = now, co_observed_generation = generation\<rparr>"

definition condition_false :: "string \<Rightarrow> string \<Rightarrow> string \<Rightarrow> string \<Rightarrow> int option \<Rightarrow> condition" where
  "condition_false now type reason message generation =
     \<lparr>co_type = type, co_status = ''False'', co_reason = reason, co_message = message,
      co_last_transition_time = now, co_observed_generation = generation\<rparr>"

fun update_condition :: "condition \<Rightarrow> condition list \<Rightarrow> condition list" where
  "update_condition c [] = [c]"
| "update_condition c (old # cs) =
     (if co_type old = co_type c
      then (if co_status old \<noteq> co_status c then c
            else c\<lparr>co_last_transition_time := co_last_transition_time old\<rparr>) # cs
      else old # update_condition c cs)"

lemma update_condition_find:
  "find (\<lambda>c. co_type c = t) (update_condition new cs) =
     (if t = co_type new
      then (case find (\<lambda>c. co_type c = t) cs of
              Some old \<Rightarrow> Some (if co_status old \<noteq> co_status new then new else new\<lparr>co_last_transition_time := co_last_transition_time old\<rparr>)
            | None \<Rightarrow> Some new)
      else find (\<lambda>c. co_type c = t) cs)"
  by (induction cs) auto

lemma update_condition_types: "co_type ` set (update_condition c cs) = insert (co_type c) (co_type ` set cs)"
  by (induction cs) auto

lemma update_condition_distinct: "distinct (map co_type cs) \<Longrightarrow> distinct (map co_type (update_condition c cs))"
proof (induction cs)
  case (Cons old cs)
  have "co_type ` set (update_condition c cs) = insert (co_type c) (co_type ` set cs)" by (rule update_condition_types)
  then show ?case using Cons by auto
qed simp

section \<open>Shared stores\<close>

record secret =
  sec_metadata :: object_meta
  sec_data :: "(string \<times> string) list option"
  sec_string_data :: "(string \<times> string) list option"

record service =
  svc_metadata :: object_meta
  svc_cluster_ip :: "string option option"

record shared_stores =
  sh_secret_refs :: ref_manager
  sh_cross_ns_refs :: ref_manager
  sh_service_refs :: ref_manager
  sh_secrets :: "(string \<times> secret) list"
  sh_grants :: grant_store
  sh_ports :: listener_port_manager
  sh_route_index :: gateway_route_index
  sh_tracker :: attached_route_tracker
  sh_registry_requeues :: "(string \<times> string) list"

definition shared_stores_new :: shared_stores where
  "shared_stores_new =
     \<lparr>sh_secret_refs = ref_manager_new, sh_cross_ns_refs = ref_manager_new, sh_service_refs = ref_manager_new, sh_secrets = [],
      sh_grants = grant_store_new, sh_ports = listener_port_manager_new, sh_route_index = gateway_route_index_new,
      sh_tracker = attached_route_tracker_new, sh_registry_requeues = []\<rparr>"

definition format_secret_key :: "string option \<Rightarrow> string \<Rightarrow> string" where
  "format_secret_key ns name = (case ns of Some ns \<Rightarrow> ns @ ''/'' @ name | None \<Rightarrow> name)"

definition secret_make_key :: "string option \<Rightarrow> string \<Rightarrow> string" where
  "secret_make_key ns name = (case ns of Some ns \<Rightarrow> ns @ ''/'' @ name | None \<Rightarrow> name)"

definition get_secret :: "string option \<Rightarrow> string \<Rightarrow> (string \<times> secret) list \<Rightarrow> secret option" where
  "get_secret ns name secrets = map_of secrets (secret_make_key ns name)"

definition replace_all_secrets :: "(string \<times> secret) list \<Rightarrow> (string \<times> secret) list \<Rightarrow> (string \<times> secret) list" where
  "replace_all_secrets new_secrets secrets = new_secrets"

definition update_secrets :: "(string \<times> secret) list \<Rightarrow> string list \<Rightarrow> (string \<times> secret) list \<Rightarrow> (string \<times> secret) list" where
  "update_secrets upsert remove secrets =
     fold (\<lambda>(key, secret). AList.update key secret) upsert (fold AList.delete remove secrets)"

lemma format_secret_key_eq: "format_secret_key = secret_make_key"
  by (simp add: fun_eq_iff format_secret_key_def secret_make_key_def)

section \<open>Secrets and Services\<close>

text \<open>Requests to requeue what refers to a key.\<close>

definition dependents :: "ref_manager \<Rightarrow> string \<Rightarrow> (string \<times> string) list" where
  "dependents manager key =
     map (\<lambda>r. (kind_as_str (rr_kind r), case rr_namespace r of Some ns \<Rightarrow> ns @ ''/'' @ rr_name r | None \<Rightarrow> rr_name r)) (get_refs key manager)"

definition secret_key :: "secret \<Rightarrow> string" where
  "secret_key s = format_secret_key (om_namespace (sec_metadata s)) (meta_name (sec_metadata s))"

definition trigger_cascading_requeue :: "string \<Rightarrow> shared_stores \<Rightarrow> (string \<times> string) list" where
  "trigger_cascading_requeue key sh = dependents (sh_secret_refs sh) key"

definition secret_parse :: "secret \<Rightarrow> shared_stores \<Rightarrow> secret process_result \<times> shared_stores" where
  "secret_parse s sh = (Continue s, sh\<lparr>sh_secrets := update_secrets [(secret_key s, s)] [] (sh_secrets sh)\<rparr>)"

definition secret_on_change :: "secret \<Rightarrow> shared_stores \<Rightarrow> (string \<times> string) list \<times> shared_stores" where
  "secret_on_change s sh = (trigger_cascading_requeue (secret_key s) sh, sh)"

definition secret_on_delete :: "secret \<Rightarrow> shared_stores \<Rightarrow> (string \<times> string) list \<times> shared_stores" where
  "secret_on_delete s sh =
     (trigger_cascading_requeue (secret_key s) sh, sh\<lparr>sh_secrets := update_secrets [] [secret_key s] (sh_secrets sh)\<rparr>)"

definition secret_handler :: "(secret, shared_stores) handler" where
  "secret_handler = default_handler\<lparr>h_parse := \<lambda>ctx. secret_parse, h_on_change := \<lambda>ctx. secret_on_change,
     h_on_delete := \<lambda>ctx. secret_on_delete\<rparr>"

definition requeue_dependent_routes :: "service \<Rightarrow> shared_stores \<Rightarrow> (string \<times> string) list" where
  "requeue_dependent_routes svc sh =
     dependents (sh_service_refs sh)
       ((case om_namespace (svc_metadata svc) of Some ns \<Rightarrow> ns | None \<Rightarrow> ''default'') @ ''/'' @ meta_name (svc_metadata svc))"

definition service_handler :: "(service, shared_stores) handler" where
  "service_handler = default_handler\<lparr>h_on_change := \<lambda>ctx svc sh. (requeue_dependent_routes svc sh, sh),
     h_on_delete := \<lambda>ctx svc sh. (requeue_dependent_routes svc sh, sh)\<rparr>"

section \<open>ReferenceGrants\<close>

text \<open>The requeue of the revalidation goes to the registry directly, outside the trigger chain of the handler.\<close>

definition dispatch_grant :: "reference_grant \<Rightarrow> shared_stores \<Rightarrow> shared_stores" where
  "dispatch_grant rg sh =
     sh\<lparr>sh_registry_requeues := sh_registry_requeues sh @
         dispatch_change_event [on_reference_grant_changed (sh_cross_ns_refs sh)] (grant_affected_namespaces rg)\<rparr>"

definition reference_grant_handler :: "(reference_grant, shared_stores) handler" where
  "reference_grant_handler = default_handler\<lparr>
     h_parse := \<lambda>ctx rg sh. (Continue rg, sh\<lparr>sh_grants := grant_parse rg (sh_grants sh)\<rparr>),
     h_on_change := \<lambda>ctx rg sh. ([], dispatch_grant rg sh),
     h_on_delete := \<lambda>ctx rg sh. ([], dispatch_grant rg (sh\<lparr>sh_grants := grant_on_delete rg (sh_grants sh)\<rparr>))\<rparr>"

section \<open>GatewayClasses\<close>

record gateway_class =
  gc_metadata :: object_meta
  gc_controller_name :: string
  gc_conditions :: "condition list option"

definition gateway_class_update_status :: "string \<Rightarrow> gateway_class \<Rightarrow> string list \<Rightarrow> gateway_class" where
  "gateway_class_update_status now gc errors =
     (let generation = om_generation (gc_metadata gc);
          conditions = (case gc_conditions gc of Some cs \<Rightarrow> cs | None \<Rightarrow> []);
          conditions = update_condition
            (if errors = [] then condition_true now ''Accepted'' ''Accepted'' ''GatewayClass accepted'' generation
             else condition_false now ''Accepted'' ''Invalid'' (join_strs ''; '' errors) generation) conditions;
          conditions = update_condition
            (condition_true now ''SupportedVersion'' ''SupportedVersion'' ''Gateway API version is supported'' generation) conditions
      in gc\<lparr>gc_conditions := Some conditions\<rparr>)"

definition gateway_class_handler :: "string \<Rightarrow> string \<Rightarrow> (gateway_class, shared_stores) handler" where
  "gateway_class_handler now controller_name = default_handler\<lparr>
     h_filter := \<lambda>gc. gc_controller_name gc = controller_name,
     h_update_status := \<lambda>ctx gc errors sh. (gateway_class_update_status now gc errors, sh)\<rparr>"

section \<open>Gateways\<close>

record route_group_kind =
  rk_group :: "string option"
  rk_kind :: string

record gateway_tls =
  gt_certificate_refs :: "secret_object_reference list option"
  gt_secrets :: "secret list option"

record listener =
  li_name :: string
  li_hostname :: "string option"
  li_port :: int
  li_protocol :: string
  li_tls :: "gateway_tls option"
  li_allowed_kinds :: "route_group_kind list option option"

record gateway_address =
  ga_type :: "string option"
  ga_value :: string

record listener_status =
  ls_name :: string
  ls_supported_kinds :: "route_group_kind list"
  ls_attached_routes :: "32 word"
  ls_conditions :: "condition list"

record gateway_status =
  gws_addresses :: "gateway_address list option"
  gws_conditions :: "condition list option"
  gws_listeners :: "listener_status list option"

record gateway =
  gw_metadata :: object_meta
  gw_class_name :: string
  gw_listeners :: "listener list option"
  gw_addresses :: "gateway_address list option"
  gw_status :: "gateway_status option"

text \<open>
  The configuration of the handler and what it calls outside the repository: the case mapping, the decimal and
  the debug form of the standard library, the clock, the PEM reader, and the Services that the list of the
  Service processor decodes to.
\<close>

record gateway_env =
  ge_class_name :: "string option"
  ge_default_address :: "string option"
  ge_upper :: "string \<Rightarrow> string"
  ge_to_string :: "int \<Rightarrow> string"
  ge_debug :: "string list \<Rightarrow> string"
  ge_now :: string
  ge_valid_pem :: "string \<Rightarrow> bool"
  ge_services :: "service list option"
  ge_grant_validation :: bool

definition gateway_filter :: "gateway_env \<Rightarrow> gateway \<Rightarrow> bool" where
  "gateway_filter env g = (case ge_class_name env of Some class_name \<Rightarrow> gw_class_name g = class_name | None \<Rightarrow> True)"

definition gateway_ref :: "gateway \<Rightarrow> resource_ref" where
  "gateway_ref g = \<lparr>rr_kind = Gateway, rr_namespace = om_namespace (gw_metadata g), rr_name = meta_name (gw_metadata g)\<rparr>"

definition listener_ports :: "gateway_env \<Rightarrow> listener list \<Rightarrow> (string \<times> string) list" where
  "listener_ports env = map (\<lambda>l. (li_name l, make_port_key (ge_upper env) (ge_to_string env) (li_port l) (li_protocol l) (li_hostname l)))"

definition cert_secret_ns :: "gateway \<Rightarrow> secret_object_reference \<Rightarrow> string option" where
  "cert_secret_ns g cr = (case so_namespace cr of Some ns \<Rightarrow> Some ns | None \<Rightarrow> om_namespace (gw_metadata g))"

definition register_cert_ref :: "gateway \<Rightarrow> secret_object_reference \<Rightarrow> shared_stores \<Rightarrow> shared_stores" where
  "register_cert_ref g cr sh =
     (let secret_ns = cert_secret_ns g cr;
          sh = sh\<lparr>sh_secret_refs := add_ref (format_secret_key secret_ns (so_name cr)) (gateway_ref g) (sh_secret_refs sh)\<rparr>;
          cert_ns = (case secret_ns of Some ns \<Rightarrow> ns | None \<Rightarrow> []);
          gateway_ns = (case om_namespace (gw_metadata g) of Some ns \<Rightarrow> ns | None \<Rightarrow> [])
      in if cert_ns \<noteq> gateway_ns then sh\<lparr>sh_cross_ns_refs := add_ref cert_ns (gateway_ref g) (sh_cross_ns_refs sh)\<rparr> else sh)"

definition parse_listener :: "gateway \<Rightarrow> listener \<Rightarrow> shared_stores \<Rightarrow> listener \<times> shared_stores" where
  "parse_listener g l sh =
     (case li_tls l of
        None \<Rightarrow> (l, sh)
      | Some tls \<Rightarrow>
          (case gt_certificate_refs tls of
             None \<Rightarrow> (l, sh)
           | Some cert_refs \<Rightarrow>
               if cert_refs = [] then (l, sh)
               else
                 let sh = fold (register_cert_ref g) cert_refs sh;
                     resolved = List.map_filter (\<lambda>cr. get_secret (cert_secret_ns g cr) (so_name cr) (sh_secrets sh)) cert_refs
                 in (if resolved \<noteq> [] then l\<lparr>li_tls := Some (tls\<lparr>gt_secrets := Some resolved\<rparr>)\<rparr> else l, sh)))"

fun parse_listeners :: "gateway \<Rightarrow> listener list \<Rightarrow> shared_stores \<Rightarrow> listener list \<times> shared_stores" where
  "parse_listeners g [] sh = ([], sh)"
| "parse_listeners g (l # ls) sh =
     (let (l, sh) = parse_listener g l sh; (ls, sh) = parse_listeners g ls sh in (l # ls, sh))"

definition gateway_parse :: "gateway_env \<Rightarrow> gateway \<Rightarrow> shared_stores \<Rightarrow> gateway process_result \<times> shared_stores" where
  "gateway_parse env g sh =
     (let sh = sh\<lparr>sh_secret_refs := snd (clear_value_refs (gateway_ref g) (sh_secret_refs sh))\<rparr>;
          sh = sh\<lparr>sh_cross_ns_refs := snd (clear_value_refs (gateway_ref g) (sh_cross_ns_refs sh))\<rparr>
      in case gw_listeners g of
           None \<Rightarrow> (Continue g, sh)
         | Some listeners \<Rightarrow>
             let sh = sh\<lparr>sh_ports := register_gateway (ref_full_key (gateway_ref g)) (listener_ports env listeners) (sh_ports sh)\<rparr>;
                 (listeners, sh) = parse_listeners g listeners sh
             in (Continue (g\<lparr>gw_listeners := Some listeners\<rparr>), sh))"

definition gateway_key :: "gateway \<Rightarrow> string" where
  "gateway_key g = (case om_namespace (gw_metadata g) of Some ns \<Rightarrow> ns | None \<Rightarrow> []) @ ''/'' @ meta_name (gw_metadata g)"

definition gateway_on_change :: "gateway \<Rightarrow> shared_stores \<Rightarrow> (string \<times> string) list \<times> shared_stores" where
  "gateway_on_change g sh =
     (let conflicting = map (Pair ''Gateway'') (remdups (get_conflicting_gateways (gateway_key g) (sh_ports sh)));
          listeners = (case gw_listeners g of Some ls \<Rightarrow> ls | None \<Rightarrow> []);
          (hostnames_changed, gi) = update_gateway_hostnames (gateway_key g) (List.map_filter li_hostname listeners) (sh_route_index sh);
          (ports_changed, gi) = update_gateway_ports (gateway_key g) (map li_port listeners) gi;
          routes = (if hostnames_changed \<or> ports_changed
                    then map (\<lambda>(kind, key). (kind_as_str kind, key)) (get_routes_for_gateway (gateway_key g) gi) else [])
      in (conflicting @ routes, sh\<lparr>sh_route_index := gi\<rparr>))"

definition gateway_on_delete :: "gateway \<Rightarrow> shared_stores \<Rightarrow> (string \<times> string) list \<times> shared_stores" where
  "gateway_on_delete g sh =
     (let key = ref_full_key (gateway_ref g);
          conflicting = get_conflicting_gateways key (sh_ports sh)
      in (map (Pair ''Gateway'') conflicting,
          sh\<lparr>sh_secret_refs := snd (clear_value_refs (gateway_ref g) (sh_secret_refs sh)),
             sh_cross_ns_refs := snd (clear_value_refs (gateway_ref g) (sh_cross_ns_refs sh)),
             sh_ports := unregister_gateway key (sh_ports sh),
             sh_route_index := remove_gateway_ports key (remove_gateway_hostnames key (sh_route_index sh))\<rparr>))"

subsection \<open>Status\<close>

datatype gateway_resolved_refs_error =
    InvalidCertRef string
  | SecretNotFound string string
  | SecretInvalid string string string
  | RefNotPermitted string string
  | InvalidRouteKind string string string

fun refs_error_message :: "gateway_resolved_refs_error \<Rightarrow> string" where
  "refs_error_message (InvalidCertRef kind) = ''Invalid certificateRef kind '' @ quoted kind @ '', must be '' @ quoted ''Secret''"
| "refs_error_message (SecretNotFound ns name) = ''Secret '' @ quoted (ns @ ''/'' @ name) @ '' not found''"
| "refs_error_message (SecretInvalid ns name reason) = ''Secret '' @ quoted (ns @ ''/'' @ name) @ '' invalid: '' @ reason"
| "refs_error_message (RefNotPermitted ns name) =
     ''Cross-namespace reference to Secret '' @ quoted (ns @ ''/'' @ name) @ '' not allowed by ReferenceGrant''"
| "refs_error_message (InvalidRouteKind g kind protocol) =
     ''Route kind '' @ quoted (g @ ''/'' @ kind) @ '' is not supported for protocol '' @ quoted protocol"

definition pick_gateway_resolved_refs_reason :: "gateway_resolved_refs_error list \<Rightarrow> string" where
  "pick_gateway_resolved_refs_reason errors =
     (if list_ex (\<lambda>e. case e of InvalidRouteKind _ _ _ \<Rightarrow> True | _ \<Rightarrow> False) errors then ''InvalidRouteKinds''
      else if list_ex (\<lambda>e. case e of RefNotPermitted _ _ \<Rightarrow> True | _ \<Rightarrow> False) errors then ''RefNotPermitted''
      else ''InvalidCertificateRef'')"

definition check_secret_data :: "gateway_env \<Rightarrow> string \<Rightarrow> string \<Rightarrow> secret \<Rightarrow> gateway_resolved_refs_error list" where
  "check_secret_data env ns name secret =
     (case sec_data secret of
        None \<Rightarrow> [SecretInvalid ns name ''no data'']
      | Some data \<Rightarrow>
          (case (map_of data ''tls.crt'', map_of data ''tls.key'') of
             (Some cert, Some key) \<Rightarrow>
               if cert = [] \<or> key = [] then [SecretInvalid ns name ''empty certificate or key data'']
               else (if ge_valid_pem env cert then [] else [SecretInvalid ns name ''invalid certificate PEM data'']) @
                    (if ge_valid_pem env key then [] else [SecretInvalid ns name ''invalid private key PEM data''])
           | _ \<Rightarrow> [SecretInvalid ns name (''missing required keys '' @ quoted ''tls.crt'' @ '' and/or '' @ quoted ''tls.key'')]))"

definition check_cert_ref :: "gateway_env \<Rightarrow> shared_stores \<Rightarrow> gateway \<Rightarrow> secret_object_reference \<Rightarrow> gateway_resolved_refs_error list" where
  "check_cert_ref env sh g cr =
     (let gateway_ns = (case om_namespace (gw_metadata g) of Some ns \<Rightarrow> ns | None \<Rightarrow> ''default'');
          cert_kind = (case so_kind cr of Some k \<Rightarrow> k | None \<Rightarrow> ''Secret'');
          cert_group = (case so_group cr of Some g \<Rightarrow> g | None \<Rightarrow> []);
          cert_ns = (case cert_secret_ns g cr of Some ns \<Rightarrow> ns | None \<Rightarrow> ''default'')
      in if cert_kind \<noteq> ''Secret'' then [InvalidCertRef cert_kind]
         else if \<not> is_core_api_group cert_group then [InvalidCertRef (''group:'' @ cert_group)]
         else (case get_secret (Some cert_ns) (so_name cr) (sh_secrets sh) of
                 None \<Rightarrow> [SecretNotFound cert_ns (so_name cr)]
               | Some secret \<Rightarrow> check_secret_data env cert_ns (so_name cr) secret) @
              (if gateway_ns \<noteq> cert_ns \<and> ge_grant_validation env \<and>
                  \<not> check_reference_allowed (from_gateway_api gateway_ns ''Gateway'' [] ''Secret'' (so_name cr)) cert_ns (sh_grants sh)
               then [RefNotPermitted cert_ns (so_name cr)] else []))"

definition validate_listener_resolved_refs :: "gateway_env \<Rightarrow> shared_stores \<Rightarrow> gateway \<Rightarrow> listener \<Rightarrow> gateway_resolved_refs_error list" where
  "validate_listener_resolved_refs env sh g l =
     (case li_tls l of
        None \<Rightarrow> []
      | Some tls \<Rightarrow>
          (case gt_certificate_refs tls of
             None \<Rightarrow> []
           | Some certificate_refs \<Rightarrow> concat (map (check_cert_ref env sh g) certificate_refs)))"

definition gateway_api_kind :: "string \<Rightarrow> route_group_kind" where
  "gateway_api_kind kind = \<lparr>rk_group = Some gateway_group, rk_kind = kind\<rparr>"

definition get_supported_kinds_for_protocol :: "gateway_env \<Rightarrow> string \<Rightarrow> route_group_kind list" where
  "get_supported_kinds_for_protocol env protocol =
     (let p = ge_upper env protocol
      in if p \<in> {''HTTP'', ''HTTPS''} then [gateway_api_kind ''HTTPRoute'', gateway_api_kind ''GRPCRoute'']
         else if p = ''TCP'' then [gateway_api_kind ''TCPRoute'']
         else if p = ''UDP'' then [gateway_api_kind ''UDPRoute'']
         else if p = ''TLS'' then [gateway_api_kind ''TLSRoute'']
         else [])"

definition kind_group :: "route_group_kind \<Rightarrow> string" where
  "kind_group k = (case rk_group k of Some g \<Rightarrow> g | None \<Rightarrow> gateway_group)"

definition compute_supported_kinds :: "gateway_env \<Rightarrow> listener \<Rightarrow> route_group_kind list \<times> gateway_resolved_refs_error list" where
  "compute_supported_kinds env l =
     (let protocol_kinds = get_supported_kinds_for_protocol env (li_protocol l);
          valid = (\<lambda>k. list_ex (\<lambda>p. kind_group p = kind_group k \<and> rk_kind p = rk_kind k) protocol_kinds)
      in case Option.bind (li_allowed_kinds l) id of
           None \<Rightarrow> (protocol_kinds, [])
         | Some requested \<Rightarrow>
             if requested = [] then (protocol_kinds, [])
             else (filter valid requested,
                   map (\<lambda>k. InvalidRouteKind (kind_group k) (rk_kind k) (li_protocol l)) (filter (\<lambda>k. \<not> valid k) requested)))"

definition lookup_service_cluster_ip :: "gateway_env \<Rightarrow> string \<Rightarrow> string \<Rightarrow> string option" where
  "lookup_service_cluster_ip env ns name =
     (case ge_services env of
        None \<Rightarrow> None
      | Some services \<Rightarrow>
          (case List.map_filter (\<lambda>svc.
              if (case om_namespace (svc_metadata svc) of Some ns \<Rightarrow> ns | None \<Rightarrow> ''default'') \<noteq> ns \<or> meta_name (svc_metadata svc) \<noteq> name
              then None
              else (case svc_cluster_ip svc of
                      Some (Some ip) \<Rightarrow> if ip \<noteq> [] \<and> ip \<noteq> ''None'' then Some ip else None
                    | _ \<Rightarrow> None)) services of
             [] \<Rightarrow> None
           | ip # _ \<Rightarrow> Some ip))"

definition ip_address :: "string \<Rightarrow> gateway_address" where
  "ip_address v = \<lparr>ga_type = Some ''IPAddress'', ga_value = v\<rparr>"

definition derive_gateway_addresses :: "gateway_env \<Rightarrow> gateway \<Rightarrow> gateway_address list" where
  "derive_gateway_addresses env g =
     (let ns = (case om_namespace (gw_metadata g) of Some ns \<Rightarrow> ns | None \<Rightarrow> ''default'');
          name = meta_name (gw_metadata g);
          cluster_ip = (if name \<noteq> [] then lookup_service_cluster_ip env ns name else None);
          fallback = (case cluster_ip of
                        Some ip \<Rightarrow> [ip_address ip]
                      | None \<Rightarrow> (case ge_default_address env of Some addr \<Rightarrow> [ip_address addr] | None \<Rightarrow> [ip_address ''0.0.0.0'']))
      in case gw_addresses g of
           Some addresses \<Rightarrow> if addresses \<noteq> [] then addresses else fallback
         | None \<Rightarrow> fallback)"

definition update_listener_conditions ::
    "string \<Rightarrow> string list \<Rightarrow> int option \<Rightarrow> bool \<Rightarrow> gateway_resolved_refs_error list \<Rightarrow> listener_status \<Rightarrow> listener_status" where
  "update_listener_conditions now validation_errors generation is_conflicted errors ls =
     (let accepted =
            (if validation_errors = [] then condition_true now ''Accepted'' ''Accepted'' ''Listener accepted'' generation
             else condition_false now ''Accepted'' ''Invalid'' (join_strs ''; '' validation_errors) generation);
          resolved =
            (if errors \<noteq> [] then condition_false now ''ResolvedRefs'' (pick_gateway_resolved_refs_reason errors)
               (join_strs ''; '' (map refs_error_message errors)) generation
             else condition_true now ''ResolvedRefs'' ''ResolvedRefs'' ''All references resolved'' generation);
          programmed =
            (if is_conflicted then condition_false now ''Programmed'' ''ListenerConflict'' ''Listener not programmed due to port conflict'' generation
             else if errors \<noteq> [] then condition_false now ''Programmed'' ''Invalid'' ''Listener not programmed due to unresolved references'' generation
             else condition_true now ''Programmed'' ''Programmed'' ''Listener configuration programmed'' generation);
          ready =
            (if is_conflicted then condition_false now ''Ready'' ''ListenerConflict'' ''Listener not ready due to port conflict'' generation
             else if errors \<noteq> [] then condition_false now ''Ready'' ''Pending'' ''Listener not ready due to unresolved references'' generation
             else condition_true now ''Ready'' ''Ready'' ''Listener is ready'' generation)
      in ls\<lparr>ls_conditions := fold update_condition [accepted, resolved, programmed, ready] (ls_conditions ls)\<rparr>)"

record listener_info =
  if_name :: string
  if_supported_kinds :: "route_group_kind list"
  if_route_count :: "32 word"
  if_errors :: "gateway_resolved_refs_error list"

definition listener_info_of :: "gateway_env \<Rightarrow> shared_stores \<Rightarrow> gateway \<Rightarrow> listener \<Rightarrow> listener_info" where
  "listener_info_of env sh g l =
     (let ns = (case om_namespace (gw_metadata g) of Some ns \<Rightarrow> ns | None \<Rightarrow> ''default'');
          (supported, kind_errors) = compute_supported_kinds env l
      in \<lparr>if_name = li_name l, if_supported_kinds = supported,
          if_route_count = count_for_listener (ns @ ''/'' @ meta_name (gw_metadata g)) (li_name l) (sh_tracker sh),
          if_errors = validate_listener_resolved_refs env sh g l @ kind_errors\<rparr>)"

definition update_listener_status ::
    "gateway_env \<Rightarrow> string list \<Rightarrow> int option \<Rightarrow> (string \<times> string \<times> listener_ref list) list \<Rightarrow> listener_info \<Rightarrow> listener_status \<Rightarrow> listener_status" where
  "update_listener_status env validation_errors generation conflicts info ls =
     (let ls = ls\<lparr>ls_supported_kinds := if_supported_kinds info, ls_attached_routes := if_route_count info\<rparr>;
          conflict = map_of conflicts (ls_name ls);
          cond = (case conflict of
                    Some (reason, _) \<Rightarrow> condition_true (ge_now env) ''Conflicted'' ''ListenerConflict'' reason generation
                  | None \<Rightarrow> condition_false (ge_now env) ''Conflicted'' ''NoConflicts'' ''No port conflicts'' generation);
          ls = ls\<lparr>ls_conditions := update_condition cond (ls_conditions ls)\<rparr>
      in update_listener_conditions (ge_now env) validation_errors generation (conflict \<noteq> None) (if_errors info) ls)"

text \<open>The status of the first entry with the name of the listener is updated, or that of a new entry at the end.\<close>

fun put_listener_status :: "(listener_status \<Rightarrow> listener_status) \<Rightarrow> listener_info \<Rightarrow> listener_status list \<Rightarrow> listener_status list" where
  "put_listener_status f info [] =
     [f \<lparr>ls_name = if_name info, ls_supported_kinds = if_supported_kinds info, ls_attached_routes = 0, ls_conditions = []\<rparr>]"
| "put_listener_status f info (ls # rest) =
     (if ls_name ls = if_name info then f ls # rest else ls # put_listener_status f info rest)"

definition gateway_conditions ::
    "gateway_env \<Rightarrow> string list \<Rightarrow> int option \<Rightarrow> (string \<times> string \<times> listener_ref list) list \<Rightarrow> condition list \<Rightarrow> condition list" where
  "gateway_conditions env validation_errors generation conflicts conditions =
     (let now = ge_now env;
          conditions = update_condition
            (if validation_errors = [] then condition_true now ''Accepted'' ''Accepted'' ''Gateway accepted'' generation
             else condition_false now ''Accepted'' ''Invalid'' (join_strs ''; '' validation_errors) generation) conditions;
          conditions =
            (if conflicts \<noteq> []
             then update_condition (condition_true now ''ListenersNotValid'' ''ListenerConflict''
                    (''Listeners have port conflicts: '' @ ge_debug env (map fst conflicts)) generation) conditions
             else filter (\<lambda>c. co_type c \<noteq> ''ListenersNotValid'') conditions);
          conditions = update_condition (condition_true now ''Programmed'' ''Programmed'' ''Gateway configuration programmed'' generation) conditions
      in update_condition (condition_true now ''Ready'' ''Ready'' ''Gateway is ready'' generation) conditions)"

definition gateway_update_status :: "gateway_env \<Rightarrow> gateway \<Rightarrow> string list \<Rightarrow> shared_stores \<Rightarrow> gateway" where
  "gateway_update_status env g validation_errors sh =
     (let generation = om_generation (gw_metadata g);
          listeners = (case gw_listeners g of Some ls \<Rightarrow> ls | None \<Rightarrow> []);
          infos = map (listener_info_of env sh g) listeners;
          status = (case gw_status g of Some s \<Rightarrow> s | None \<Rightarrow> \<lparr>gws_addresses = None, gws_conditions = None, gws_listeners = None\<rparr>);
          conflicts = detect_conflicts (gateway_key g) (sh_ports sh);
          conditions = gateway_conditions env validation_errors generation conflicts
            (case gws_conditions status of Some cs \<Rightarrow> cs | None \<Rightarrow> []);
          statuses = (case gws_listeners status of Some ls \<Rightarrow> ls | None \<Rightarrow> []);
          statuses = fold (\<lambda>info. put_listener_status (update_listener_status env validation_errors generation conflicts info) info) infos statuses;
          statuses = filter (\<lambda>ls. ls_name ls \<in> set (map li_name listeners)) statuses
      in g\<lparr>gw_status := Some \<lparr>gws_addresses = Some (derive_gateway_addresses env g), gws_conditions = Some conditions,
            gws_listeners = Some (if infos \<noteq> [] then statuses else [])\<rparr>\<rparr>)"

definition gateway_handler :: "gateway_env \<Rightarrow> (gateway, shared_stores) handler" where
  "gateway_handler env = default_handler\<lparr>
     h_filter := gateway_filter env,
     h_parse := \<lambda>ctx. gateway_parse env,
     h_on_change := \<lambda>ctx. gateway_on_change,
     h_on_delete := \<lambda>ctx. gateway_on_delete,
     h_update_status := \<lambda>ctx g errors sh. (gateway_update_status env g errors sh, sh)\<rparr>"

section \<open>Routes seen by the Gateways\<close>

definition requeue_parent_gateways :: "parent_reference list option \<Rightarrow> string \<Rightarrow> (string \<times> string) list" where
  "requeue_parent_gateways parent_refs route_ns =
     (case parent_refs of
        None \<Rightarrow> []
      | Some refs \<Rightarrow> map (\<lambda>pr. (''Gateway'', build_parent_key (Some route_ns) pr)) (filter is_gateway_parent refs))"

definition parent_attachment :: "string \<Rightarrow> parent_reference \<Rightarrow> attachment" where
  "parent_attachment route_ns pr =
     \<lparr>at_gateway_key = (case pa_namespace pr of Some ns \<Rightarrow> ns | None \<Rightarrow> route_ns) @ ''/'' @ pa_name pr,
      at_listener_name = (case pa_section_name pr of Some s \<Rightarrow> s | None \<Rightarrow> [])\<rparr>"

definition update_attached_route_tracker ::
    "resource_kind \<Rightarrow> string \<Rightarrow> string \<Rightarrow> parent_reference list option \<Rightarrow> attached_route_tracker \<Rightarrow> bool \<times> attached_route_tracker" where
  "update_attached_route_tracker kind route_ns route_name parent_refs t =
     (let route = (kind, route_ns @ ''/'' @ route_name)
      in case parent_refs of
           None \<Rightarrow> tr_remove_route route t
         | Some refs \<Rightarrow> tr_update_route route (remdups (map (parent_attachment route_ns) (filter is_gateway_parent refs))) t)"

definition remove_from_attached_route_tracker :: "resource_kind \<Rightarrow> string \<Rightarrow> string \<Rightarrow> attached_route_tracker \<Rightarrow> bool \<times> attached_route_tracker" where
  "remove_from_attached_route_tracker kind route_ns route_name t = tr_remove_route (kind, route_ns @ ''/'' @ route_name) t"

definition update_gateway_route_index ::
    "resource_kind \<Rightarrow> string \<Rightarrow> string \<Rightarrow> parent_reference list option \<Rightarrow> gateway_route_index \<Rightarrow> gateway_route_index" where
  "update_gateway_route_index kind route_ns route_name parent_refs gi =
     gi_update_route (kind, route_ns @ ''/'' @ route_name) (case parent_refs of Some refs \<Rightarrow> refs | None \<Rightarrow> []) route_ns gi"

definition remove_from_gateway_route_index :: "resource_kind \<Rightarrow> string \<Rightarrow> string \<Rightarrow> gateway_route_index \<Rightarrow> gateway_route_index" where
  "remove_from_gateway_route_index kind route_ns route_name gi = gi_remove_route (kind, route_ns @ ''/'' @ route_name) gi"

section \<open>The processors\<close>

definition gateway_processor :: "gateway_env \<Rightarrow> (gateway, 'j) serde_json \<Rightarrow> (gateway, shared_stores, 'j) processor" where
  "gateway_processor env sj =
     \<lparr>pr_kind = ''Gateway'', pr_handler = gateway_handler env, pr_meta = gw_metadata, pr_set_meta = (\<lambda>m g. g\<lparr>gw_metadata := m\<rparr>),
      pr_json = sj, pr_max_trigger_cycles = wc_max_trigger_cycles default_wq_config\<rparr>"

definition secret_processor :: "(secret, 'j) serde_json \<Rightarrow> (secret, shared_stores, 'j) processor" where
  "secret_processor sj =
     \<lparr>pr_kind = ''Secret'', pr_handler = secret_handler, pr_meta = sec_metadata, pr_set_meta = (\<lambda>m s. s\<lparr>sec_metadata := m\<rparr>),
      pr_json = sj, pr_max_trigger_cycles = wc_max_trigger_cycles default_wq_config\<rparr>"

lemma gateway_parse_continues: "\<exists>g' sh'. gateway_parse env g sh = (Continue g', sh') \<and> gw_metadata g' = gw_metadata g"
  by (simp add: gateway_parse_def Let_def case_prod_unfold split: option.split)

lemma gateway_handler_ok: "handler_ok (gateway_processor env sj)"
proof -
  have "gw_metadata (gateway_update_status env g errors sh) = gw_metadata g" for g errors sh
    by (simp add: gateway_update_status_def Let_def)
  then show ?thesis
    using gateway_parse_continues
    by (fastforce simp: handler_ok_def gateway_processor_def gateway_handler_def default_handler_def same_id_def)
qed

lemma secret_handler_ok: "handler_ok (secret_processor sj)"
  by (simp add: handler_ok_def secret_processor_def secret_handler_def default_handler_def same_id_def secret_parse_def)

interpretation gateways: keyed_processor "gateway_processor env sj" default_wq_config namespaces mf nsf
  for env sj namespaces mf nsf
  by unfold_locales (simp_all add: gateway_handler_ok default_wq_config_def)

interpretation secrets: keyed_processor "secret_processor sj" default_wq_config namespaces mf nsf
  for sj namespaces mf nsf
  by unfold_locales (simp_all add: secret_handler_ok default_wq_config_def)

section \<open>What the handlers register\<close>

definition listener_cert_refs :: "listener \<Rightarrow> secret_object_reference list" where
  "listener_cert_refs l =
     (case li_tls l of None \<Rightarrow> [] | Some tls \<Rightarrow> (case gt_certificate_refs tls of None \<Rightarrow> [] | Some refs \<Rightarrow> refs))"

definition gateway_cert_refs :: "gateway \<Rightarrow> secret_object_reference list" where
  "gateway_cert_refs g = concat (map listener_cert_refs (case gw_listeners g of Some ls \<Rightarrow> ls | None \<Rightarrow> []))"

text \<open>The keys of the Secrets a Gateway names in its listeners, and the foreign namespaces they are in.\<close>

definition gateway_secret_keys :: "gateway \<Rightarrow> string list" where
  "gateway_secret_keys g = map (\<lambda>cr. secret_make_key (cert_secret_ns g cr) (so_name cr)) (gateway_cert_refs g)"

lemma parse_listener_stores: "snd (parse_listener g l sh) = fold (register_cert_ref g) (listener_cert_refs l) sh"
  by (simp add: parse_listener_def listener_cert_refs_def Let_def split: option.split)

lemma parse_listeners_stores: "snd (parse_listeners g ls sh) = fold (register_cert_ref g) (concat (map listener_cert_refs ls)) sh"
  by (induction ls arbitrary: sh) (simp_all add: Let_def case_prod_unfold parse_listener_stores)

lemma register_cert_refs_secrets:
  "sh_secret_refs (fold (register_cert_ref g) crs sh) =
     fold (\<lambda>s. add_ref s (gateway_ref g)) (map (\<lambda>cr. secret_make_key (cert_secret_ns g cr) (so_name cr)) crs) (sh_secret_refs sh)"
  by (induction crs arbitrary: sh) (simp_all add: register_cert_ref_def Let_def format_secret_key_eq)

lemma register_cert_refs_others:
  "sh_secrets (fold (register_cert_ref g) crs sh) = sh_secrets sh"
  "sh_ports (fold (register_cert_ref g) crs sh) = sh_ports sh"
  by (induction crs arbitrary: sh) (simp_all add: register_cert_ref_def Let_def)

lemma gateway_parse_secret_refs:
  "sh_secret_refs (snd (gateway_parse env g sh)) = register_refs (gateway_ref g) (gateway_secret_keys g) (sh_secret_refs sh)"
  by (cases "gw_listeners g")
    (simp_all add: gateway_parse_def Let_def case_prod_unfold parse_listeners_stores register_cert_refs_secrets
      register_refs_def gateway_secret_keys_def gateway_cert_refs_def)

lemma gateway_parse_ports:
  "sh_ports (snd (gateway_parse env g sh)) =
     (case gw_listeners g of
        Some ls \<Rightarrow> register_gateway (ref_full_key (gateway_ref g)) (listener_ports env ls) (sh_ports sh)
      | None \<Rightarrow> sh_ports sh)"
  by (cases "gw_listeners g")
    (simp_all add: gateway_parse_def Let_def case_prod_unfold parse_listeners_stores register_cert_refs_others)

text \<open>The calls of the handlers in the order in which the workers make them.\<close>

datatype handler_call =
    Parse_Gateway gateway | Change_Gateway gateway | Delete_Gateway gateway
  | Parse_Secret secret | Delete_Secret secret
  | Parse_Grant reference_grant | Delete_Grant reference_grant

fun handle :: "gateway_env \<Rightarrow> handler_call \<Rightarrow> shared_stores \<Rightarrow> shared_stores" where
  "handle env (Parse_Gateway g) sh = snd (gateway_parse env g sh)"
| "handle env (Change_Gateway g) sh = snd (gateway_on_change g sh)"
| "handle env (Delete_Gateway g) sh = snd (gateway_on_delete g sh)"
| "handle env (Parse_Secret s) sh = snd (secret_parse s sh)"
| "handle env (Delete_Secret s) sh = snd (secret_on_delete s sh)"
| "handle env (Parse_Grant rg) sh = sh\<lparr>sh_grants := grant_parse rg (sh_grants sh)\<rparr>"
| "handle env (Delete_Grant rg) sh = dispatch_grant rg (sh\<lparr>sh_grants := grant_on_delete rg (sh_grants sh)\<rparr>)"

fun gateway_entry :: "handler_call \<Rightarrow> (resource_ref \<times> gateway option) list" where
  "gateway_entry (Parse_Gateway g) = [(gateway_ref g, Some g)]"
| "gateway_entry (Delete_Gateway g) = [(gateway_ref g, None)]"
| "gateway_entry _ = []"

text \<open>The Gateway that was last processed under a reference, if it has not been deleted since.\<close>

definition current_gateway :: "handler_call list \<Rightarrow> resource_ref \<Rightarrow> gateway option" where
  "current_gateway calls r = Option.bind (map_of (rev (concat (map gateway_entry calls))) r) id"

lemma secret_refs_run:
  "sh_secret_refs (fold (handle env) calls sh) =
     fold (\<lambda>(v, ss). register_refs v ss)
       (map (\<lambda>(r, g). (r, case g of Some g \<Rightarrow> gateway_secret_keys g | None \<Rightarrow> [])) (concat (map gateway_entry calls))) (sh_secret_refs sh)"
proof (induction calls arbitrary: sh)
  case (Cons c calls)
  have "sh_secret_refs (handle env c sh) =
      fold (\<lambda>(v, ss). register_refs v ss)
        (map (\<lambda>(r, g). (r, case g of Some g \<Rightarrow> gateway_secret_keys g | None \<Rightarrow> [])) (gateway_entry c)) (sh_secret_refs sh)"
    by (cases c) (simp_all add: gateway_parse_secret_refs gateway_on_change_def gateway_on_delete_def secret_parse_def
        secret_on_delete_def dispatch_grant_def register_refs_def Let_def case_prod_unfold)
  then show ?case by (simp add: Cons.IH)
qed simp

lemma current_gateway_ref: "current_gateway calls r = Some g \<Longrightarrow> r = gateway_ref g"
proof -
  assume "current_gateway calls r = Some g"
  then have "map_of (rev (concat (map gateway_entry calls))) r = Some (Some g)" by (simp add: current_gateway_def bind_eq_Some_conv)
  from map_of_SomeD [OF this] obtain c where "(r, Some g) \<in> set (gateway_entry c)" by auto
  then show ?thesis by (cases c) auto
qed

lemma secret_users:
  assumes "\<forall>(r, g) \<in> set (concat (map gateway_entry calls)). valid_ref r"
  shows "set (get_refs key (sh_secret_refs (fold (handle env) calls shared_stores_new))) =
    {r. \<exists>g. current_gateway calls r = Some g \<and> key \<in> set (gateway_secret_keys g)}"
proof -
  let ?keys = "\<lambda>g. case g of Some g \<Rightarrow> gateway_secret_keys g | None \<Rightarrow> []"
  let ?ops = "map (\<lambda>(r, g). (r, ?keys g)) (concat (map gateway_entry calls))"
  have "\<forall>(v, ss) \<in> set ?ops. valid_ref v" using assms by auto
  from registered_refs [OF this, of key]
  have "set (get_refs key (sh_secret_refs (fold (handle env) calls shared_stores_new))) =
      {r. \<exists>ss. map_of (rev ?ops) r = Some ss \<and> key \<in> set ss}"
    by (simp add: secret_refs_run shared_stores_new_def)
  moreover have "map_of (rev ?ops) r = map_option ?keys (map_of (rev (concat (map gateway_entry calls))) r)" for r
    by (simp add: rev_map map_of_map)
  then have "(\<exists>ss. map_of (rev ?ops) r = Some ss \<and> key \<in> set ss) \<longleftrightarrow>
      (\<exists>g. current_gateway calls r = Some g \<and> key \<in> set (gateway_secret_keys g))" for r
    by (cases "map_of (rev (concat (map gateway_entry calls))) r") (auto simp: current_gateway_def split: option.splits)
  ultimately show ?thesis by simp
qed

text \<open>
  C37: a change or a deletion of a Secret reaches the Gateways that use it. After any calls of the handlers of
  Gateways, Secrets and ReferenceGrants, in any order, the Secret handler requeues exactly the Gateways that
  exist and name the Secret in a certificate reference of one of their listeners when they were last processed.
\<close>

theorem secret_change_requeues_gateways:
  assumes "\<forall>(r, g) \<in> set (concat (map gateway_entry calls)). valid_ref r"
  shows "set (fst (secret_on_change s (fold (handle env) calls shared_stores_new))) =
      {(''Gateway'', ref_resource_key (gateway_ref g)) | g.
         current_gateway calls (gateway_ref g) = Some g \<and> secret_key s \<in> set (gateway_secret_keys g)} \<and>
    set (fst (secret_on_delete s (fold (handle env) calls shared_stores_new))) =
      {(''Gateway'', ref_resource_key (gateway_ref g)) | g.
         current_gateway calls (gateway_ref g) = Some g \<and> secret_key s \<in> set (gateway_secret_keys g)}"
proof -
  have "set (dependents (sh_secret_refs (fold (handle env) calls shared_stores_new)) key) =
      {(''Gateway'', ref_resource_key (gateway_ref g)) | g.
         current_gateway calls (gateway_ref g) = Some g \<and> key \<in> set (gateway_secret_keys g)}" for key
  proof -
    let ?refs = "get_refs key (sh_secret_refs (fold (handle env) calls shared_stores_new))"
    have "set ?refs = gateway_ref ` {g. current_gateway calls (gateway_ref g) = Some g \<and> key \<in> set (gateway_secret_keys g)}"
      using secret_users [OF assms, of key] current_gateway_ref by (auto simp: image_iff) metis
    then have "ref_target ` set ?refs = (\<lambda>g. (''Gateway'', ref_resource_key (gateway_ref g))) `
        {g. current_gateway calls (gateway_ref g) = Some g \<and> key \<in> set (gateway_secret_keys g)}"
      by (simp add: image_image ref_target_def gateway_ref_def)
    moreover have "set (dependents m key) = ref_target ` set (get_refs key m)" for m
      by (simp add: dependents_def ref_target_def [abs_def] ref_resource_key_def)
    ultimately show ?thesis by auto
  qed
  then show ?thesis by (simp add: secret_on_change_def secret_on_delete_def trigger_cascading_requeue_def)
qed

text \<open>Two Gateways with one HTTPS listener each; the second one is deleted.\<close>

definition sample_gateway :: "string \<Rightarrow> gateway" where
  "sample_gateway name =
     \<lparr>gw_metadata = \<lparr>om_name = Some name, om_namespace = Some ''a'', om_annotations = None, om_managed_fields = None, om_generation = None\<rparr>,
      gw_class_name = ''edgion'',
      gw_listeners = Some [\<lparr>li_name = ''https'', li_hostname = None, li_port = 443, li_protocol = ''HTTPS'',
         li_tls = Some \<lparr>gt_certificate_refs = Some [\<lparr>so_group = None, so_kind = None, so_namespace = None, so_name = ''tls''\<rparr>], gt_secrets = None\<rparr>,
         li_allowed_kinds = None\<rparr>],
      gw_addresses = None, gw_status = None\<rparr>"

definition sample_secret :: secret where
  "sample_secret =
     \<lparr>sec_metadata = \<lparr>om_name = Some ''tls'', om_namespace = Some ''a'', om_annotations = None, om_managed_fields = None, om_generation = None\<rparr>,
      sec_data = None, sec_string_data = None\<rparr>"

lemma sample_gateway_ref: "gateway_ref (sample_gateway name) = \<lparr>rr_kind = Gateway, rr_namespace = Some ''a'', rr_name = name\<rparr>"
  by (simp add: gateway_ref_def sample_gateway_def meta_name_def)

theorem secret_change_requeues_gateways_witness:
  "\<forall>env. (''Gateway'', ''a/x'') \<in> set (fst (secret_on_change sample_secret (fold (handle env)
      [Parse_Gateway (sample_gateway ''x''), Parse_Gateway (sample_gateway ''y''), Delete_Gateway (sample_gateway ''y'')] shared_stores_new)))"
proof -
  let ?calls = "[Parse_Gateway (sample_gateway ''x''), Parse_Gateway (sample_gateway ''y''), Delete_Gateway (sample_gateway ''y'')]"
  have valid: "\<forall>(r, g) \<in> set (concat (map gateway_entry ?calls)). valid_ref r" by (simp add: sample_gateway_ref valid_ref_def)
  have "current_gateway ?calls (gateway_ref (sample_gateway ''x'')) = Some (sample_gateway ''x'')"
    by (simp add: current_gateway_def sample_gateway_ref)
  moreover have "secret_key sample_secret \<in> set (gateway_secret_keys (sample_gateway ''x''))"
    by (simp add: secret_key_def sample_secret_def gateway_secret_keys_def gateway_cert_refs_def listener_cert_refs_def sample_gateway_def
        cert_secret_ns_def format_secret_key_def secret_make_key_def meta_name_def)
  moreover have "ref_resource_key (gateway_ref (sample_gateway ''x'')) = ''a/x''" by (simp add: sample_gateway_ref ref_resource_key_def)
  ultimately show ?thesis using secret_change_requeues_gateways [OF valid, of sample_secret] by force
qed

section \<open>Port conflicts\<close>

text \<open>Ports are registered under the full key of a Gateway, which is never its key without the kind.\<close>

definition plain_gateway :: "gateway \<Rightarrow> bool" where
  "plain_gateway g \<longleftrightarrow>
     CHR ''/'' \<notin> set (meta_name (gw_metadata g)) \<and>
     (case om_namespace (gw_metadata g) of Some ns \<Rightarrow> CHR ''/'' \<notin> set ns | None \<Rightarrow> True)"

definition registered_full :: "shared_stores \<Rightarrow> bool" where
  "registered_full sh \<longleftrightarrow> dom (map_of (pm_gateway_to_ports (sh_ports sh))) \<subseteq> range (\<lambda>g. ref_full_key (gateway_ref g))"

lemma gateway_key_differs: "plain_gateway g \<Longrightarrow> gateway_key g \<noteq> ref_full_key (gateway_ref g')"
proof
  assume plain: "plain_gateway g" and eq: "gateway_key g = ref_full_key (gateway_ref g')"
  let ?slashes = "\<lambda>s. length (filter (\<lambda>c. c = CHR ''/'') s)"
  have none: "filter (\<lambda>c. c = CHR ''/'') s = []" if "CHR ''/'' \<notin> set s" for s using that by (auto simp: filter_empty_conv)
  have "?slashes (gateway_key g) = 1" using plain by (auto simp: plain_gateway_def gateway_key_def none split: option.splits)
  moreover have "?slashes (ref_full_key (gateway_ref g')) \<ge> 2" by (simp add: ref_full_key_def gateway_ref_def split: option.split)
  moreover have "?slashes (gateway_key g) = ?slashes (ref_full_key (gateway_ref g'))" by (rule arg_cong [OF eq])
  ultimately show False by linarith
qed

lemma registered_full_register:
  "dom (map_of (pm_gateway_to_ports (register_gateway key ls m))) \<subseteq> insert key (dom (map_of (pm_gateway_to_ports m)))"
  "dom (map_of (pm_gateway_to_ports (unregister_gateway key m))) \<subseteq> dom (map_of (pm_gateway_to_ports m))"
  by (auto simp: register_gateway_def unregister_gateway_def Let_def update_conv' delete_conv' split: if_splits)

lemma handle_ports:
  "sh_ports (handle env c sh) =
     (case c of
        Parse_Gateway g \<Rightarrow>
          (case gw_listeners g of
             Some ls \<Rightarrow> register_gateway (ref_full_key (gateway_ref g)) (listener_ports env ls) (sh_ports sh)
           | None \<Rightarrow> sh_ports sh)
      | Delete_Gateway g \<Rightarrow> unregister_gateway (ref_full_key (gateway_ref g)) (sh_ports sh)
      | _ \<Rightarrow> sh_ports sh)"
  by (cases c) (simp_all add: gateway_parse_ports gateway_on_change_def gateway_on_delete_def secret_parse_def secret_on_delete_def
      dispatch_grant_def Let_def case_prod_unfold)

lemma handle_registered_full:
  assumes "registered_full sh"
  shows "registered_full (handle env c sh)"
proof -
  let ?full = "range (\<lambda>g. ref_full_key (gateway_ref g))"
  have keep: "dom (map_of (pm_gateway_to_ports (sh_ports sh))) \<subseteq> ?full" using assms by (simp only: registered_full_def)
  have reg: "dom (map_of (pm_gateway_to_ports (register_gateway (ref_full_key (gateway_ref g)) ls (sh_ports sh)))) \<subseteq> ?full" for g ls
    using registered_full_register(1) [of "ref_full_key (gateway_ref g)" ls "sh_ports sh"] keep by blast
  have unreg: "dom (map_of (pm_gateway_to_ports (unregister_gateway (ref_full_key (gateway_ref g)) (sh_ports sh)))) \<subseteq> ?full" for g
    using registered_full_register(2) [of "ref_full_key (gateway_ref g)" "sh_ports sh"] keep by blast
  show ?thesis
    unfolding registered_full_def handle_ports
    by (cases c) (simp_all only: handler_call.case reg unreg keep split: option.split, simp_all add: reg keep)
qed

lemma run_registered_full: "registered_full (fold (handle env) calls shared_stores_new)"
proof -
  have "registered_full sh \<Longrightarrow> registered_full (fold (handle env) calls sh)" for sh
    by (induction calls arbitrary: sh) (simp_all add: handle_registered_full)
  moreover have "registered_full shared_stores_new"
    by (simp add: registered_full_def shared_stores_new_def listener_port_manager_new_def)
  ultimately show ?thesis .
qed

lemma no_conflicts_seen:
  assumes "registered_full sh" "plain_gateway g"
  shows "detect_conflicts (gateway_key g) (sh_ports sh) = []" "get_conflicting_gateways (gateway_key g) (sh_ports sh) = []"
proof -
  have "gateway_key g \<notin> range (\<lambda>g. ref_full_key (gateway_ref g))" using gateway_key_differs [OF assms(2)] by blast
  then have "gateway_key g \<notin> dom (map_of (pm_gateway_to_ports (sh_ports sh)))" using assms(1) unfolding registered_full_def by blast
  then have "map_of (pm_gateway_to_ports (sh_ports sh)) (gateway_key g) = None" by (simp only: domIff not_not)
  then show "detect_conflicts (gateway_key g) (sh_ports sh) = []" "get_conflicting_gateways (gateway_key g) (sh_ports sh) = []"
    by (simp_all add: detect_conflicts_def get_conflicting_gateways_def)
qed

text \<open>The status of a listener, looked up by name.\<close>

definition listener_status_of :: "string \<Rightarrow> gateway \<Rightarrow> listener_status option" where
  "listener_status_of name g =
     (case gw_status g of
        None \<Rightarrow> None
      | Some st \<Rightarrow> (case gws_listeners st of None \<Rightarrow> None | Some lss \<Rightarrow> find (\<lambda>ls. ls_name ls = name) lss))"

definition condition_of :: "string \<Rightarrow> condition list \<Rightarrow> condition option" where
  "condition_of type cs = find (\<lambda>c. co_type c = type) cs"

lemma put_listener_status_find:
  assumes "\<And>ls. ls_name (f ls) = ls_name ls"
  shows "find (\<lambda>ls. ls_name ls = name) (put_listener_status f info lss) =
    (if name = if_name info
     then Some (f (case find (\<lambda>ls. ls_name ls = name) lss of
            Some ls \<Rightarrow> ls
          | None \<Rightarrow> \<lparr>ls_name = if_name info, ls_supported_kinds = if_supported_kinds info, ls_attached_routes = 0, ls_conditions = []\<rparr>))
     else find (\<lambda>ls. ls_name ls = name) lss)"
  by (induction lss) (auto simp: assms)

lemma update_listener_status_name: "ls_name (update_listener_status env errs generation conflicts info ls) = ls_name ls"
  by (simp add: update_listener_status_def update_listener_conditions_def Let_def)

lemma put_listeners_find:
  assumes name: "\<And>info ls. ls_name (F info ls) = ls_name ls" and step: "\<And>info ls. P (F info ls)"
    and "info \<in> set infos"
  shows "\<exists>ls. find (\<lambda>ls. ls_name ls = if_name info) (fold (\<lambda>info. put_listener_status (F info) info) infos lss) = Some ls \<and> P ls"
  using assms(3)
proof (induction infos rule: rev_induct)
  case (snoc last infos)
  then show ?case by (cases "if_name info = if_name last") (auto simp: put_listener_status_find [OF name] step)
qed simp

lemma find_filter_name: "name \<in> N \<Longrightarrow> find (\<lambda>ls. ls_name ls = name) (filter (\<lambda>ls. ls_name ls \<in> N) lss) = find (\<lambda>ls. ls_name ls = name) lss"
  by (induction lss) auto

lemma not_conflicted:
  "\<exists>c. condition_of ''Conflicted'' (ls_conditions (update_listener_status env errs generation [] info ls)) = Some c \<and> co_status c = ''False''"
  by (simp add: condition_of_def update_listener_status_def update_listener_conditions_def Let_def update_condition_find
      condition_true_def condition_false_def split: option.split)

lemma listeners_valid:
  "''ListenersNotValid'' \<notin> co_type ` set (gateway_conditions env errs generation [] cs)"
  by (auto simp: gateway_conditions_def Let_def update_condition_types condition_true_def)

text \<open>
  C39: port conflicts between Gateways are never reported. Whatever calls of the handlers came before, and
  whatever ports the Gateways share, the status of a Gateway says of every listener that it has no conflict and
  does not say that listeners are invalid, and a change of the Gateway requeues only routes and no other Gateway.
\<close>

theorem gateway_conflicts_never_reported:
  assumes "plain_gateway g"
  shows "(\<forall>l \<in> set (case gw_listeners g of Some ls \<Rightarrow> ls | None \<Rightarrow> []).
      \<exists>ls c. listener_status_of (li_name l) (gateway_update_status env g errs (fold (handle env) calls shared_stores_new)) = Some ls \<and>
        condition_of ''Conflicted'' (ls_conditions ls) = Some c \<and> co_status c = ''False'') \<and>
    (\<exists>st cs. gw_status (gateway_update_status env g errs (fold (handle env) calls shared_stores_new)) = Some st \<and>
      gws_conditions st = Some cs \<and> ''ListenersNotValid'' \<notin> co_type ` set cs) \<and>
    set (fst (gateway_on_change g (fold (handle env) calls shared_stores_new))) \<subseteq>
      (\<lambda>(kind, key). (kind_as_str kind, key)) `
        set (get_routes_for_gateway (gateway_key g) (sh_route_index (fold (handle env) calls shared_stores_new)))"
  (is "?listeners \<and> ?valid \<and> ?requeue")
proof (intro conjI)
  let ?sh = "fold (handle env) calls shared_stores_new"
  let ?ls = "case gw_listeners g of Some ls \<Rightarrow> ls | None \<Rightarrow> []"
  let ?infos = "map (listener_info_of env ?sh g) ?ls"
  note none = no_conflicts_seen [OF run_registered_full assms, of env calls]
  show ?valid by (auto simp: gateway_update_status_def Let_def none listeners_valid)
  have routes: "get_routes_for_gateway key (snd (update_gateway_ports k ports gi)) = get_routes_for_gateway key gi"
      "get_routes_for_gateway key (snd (update_gateway_hostnames k hosts gi)) = get_routes_for_gateway key gi" for key k ports hosts gi
    by (simp_all add: get_routes_for_gateway_def update_gateway_ports_def update_gateway_hostnames_def Let_def)
  show ?requeue by (auto simp: gateway_on_change_def Let_def case_prod_unfold none routes)
  show ?listeners
  proof
    fix l assume l: "l \<in> set ?ls"
    let ?F = "update_listener_status env errs (om_generation (gw_metadata g)) []"
    let ?old = "case gws_listeners (case gw_status g of Some s \<Rightarrow> s
        | None \<Rightarrow> \<lparr>gws_addresses = None, gws_conditions = None, gws_listeners = None\<rparr>) of Some ls \<Rightarrow> ls | None \<Rightarrow> []"
    have name: "if_name (listener_info_of env ?sh g l) = li_name l"
      by (simp add: listener_info_of_def Let_def case_prod_unfold)
    have "listener_info_of env ?sh g l \<in> set ?infos" using l by simp
    then have "\<exists>ls. find (\<lambda>ls. ls_name ls = if_name (listener_info_of env ?sh g l))
          (fold (\<lambda>info. put_listener_status (?F info) info) ?infos ?old) = Some ls \<and>
        (\<exists>c. condition_of ''Conflicted'' (ls_conditions ls) = Some c \<and> co_status c = ''False'')"
      by (intro put_listeners_find) (simp_all add: update_listener_status_name not_conflicted)
    then obtain ls c where "find (\<lambda>ls. ls_name ls = li_name l) (fold (\<lambda>info. put_listener_status (?F info) info) ?infos ?old) = Some ls"
      and c: "condition_of ''Conflicted'' (ls_conditions ls) = Some c" "co_status c = ''False''"
      unfolding name by blast
    then have "listener_status_of (li_name l) (gateway_update_status env g errs ?sh) = Some ls"
      using l by (cases "gw_listeners g") (auto simp: listener_status_of_def gateway_update_status_def Let_def none find_filter_name)
    then show "\<exists>ls c. listener_status_of (li_name l) (gateway_update_status env g errs ?sh) = Some ls \<and>
        condition_of ''Conflicted'' (ls_conditions ls) = Some c \<and> co_status c = ''False''" using c by blast
  qed
qed

text \<open>
  Two Gateways listen on the same port. The port manager has the conflict under the keys it was registered with,
  the status of the second Gateway shows none.
\<close>

definition sample_gateway_env :: gateway_env where
  "sample_gateway_env =
     \<lparr>ge_class_name = None, ge_default_address = None, ge_upper = id, ge_to_string = (\<lambda>n. if n = 443 then ''443'' else ''80''),
      ge_debug = concat, ge_now = ''now'', ge_valid_pem = (\<lambda>_. True), ge_services = None, ge_grant_validation = True\<rparr>"

definition sample_calls :: "handler_call list" where
  "sample_calls = [Parse_Gateway (sample_gateway ''x''), Parse_Gateway (sample_gateway ''y'')]"

lemma sample_full_key: "ref_full_key (gateway_ref (sample_gateway name)) = ''Gateway/a/'' @ name"
  by (simp add: sample_gateway_ref ref_full_key_def)

lemma sample_ports:
  "sh_ports (handle sample_gateway_env (Parse_Gateway (sample_gateway name)) sh) =
     register_gateway (''Gateway/a/'' @ name) [(''https'', ''443:'')] (sh_ports sh)"
proof -
  have "gw_listeners (sample_gateway name) \<noteq> None" by (simp add: sample_gateway_def)
  moreover have "listener_ports sample_gateway_env ls = [(''https'', ''443:'')]" if "gw_listeners (sample_gateway name) = Some ls" for ls
    using that by (auto simp: listener_ports_def sample_gateway_def sample_gateway_env_def make_port_key_def)
  ultimately show ?thesis by (auto simp: handle_ports sample_full_key simp del: handle.simps)
qed

theorem gateway_conflicts_never_reported_witness:
  "get_conflicting_gateways ''Gateway/a/y'' (sh_ports (fold (handle sample_gateway_env) sample_calls shared_stores_new)) = [''Gateway/a/x''] \<and>
   (\<exists>ls c. listener_status_of ''https'' (gateway_update_status sample_gateway_env (sample_gateway ''y'') []
        (fold (handle sample_gateway_env) sample_calls shared_stores_new)) = Some ls \<and>
      condition_of ''Conflicted'' (ls_conditions ls) = Some c \<and> co_status c = ''False'')"
proof
  show "get_conflicting_gateways ''Gateway/a/y'' (sh_ports (fold (handle sample_gateway_env) sample_calls shared_stores_new)) = [''Gateway/a/x'']"
    by (simp add: sample_calls_def sample_ports del: handle.simps)
      (simp add: shared_stores_new_def register_gateway_def listener_port_manager_new_def multi_insert_def multi_get_def
        get_conflicting_gateways_def Let_def AList.delete_eq)
  have "plain_gateway (sample_gateway ''y'')" by (simp add: plain_gateway_def sample_gateway_def meta_name_def)
  from gateway_conflicts_never_reported [OF this, of sample_gateway_env "[]" sample_calls]
  show "\<exists>ls c. listener_status_of ''https'' (gateway_update_status sample_gateway_env (sample_gateway ''y'') []
        (fold (handle sample_gateway_env) sample_calls shared_stores_new)) = Some ls \<and>
      condition_of ''Conflicted'' (ls_conditions ls) = Some c \<and> co_status c = ''False''"
    by (simp add: sample_gateway_def)
qed

text \<open>
  Deleting a Gateway leaves its hostnames and ports in the route index, for the same reason: when the Gateway
  is created again, its routes are not requeued.
\<close>

lemma cached_update:
  "update_gateway_hostnames k hs gi = (b, gi') \<Longrightarrow> map_of (gi_hostnames gi') k = Some (sort hs) \<and> gi_ports gi' = gi_ports gi"
  "update_gateway_ports k ps gi = (b, gi') \<Longrightarrow> map_of (gi_ports gi') k = Some (sort ps) \<and> gi_hostnames gi' = gi_hostnames gi"
  by (auto simp: update_gateway_hostnames_def update_gateway_ports_def Let_def update_conv' split: if_splits)

lemma recreated_gateway_requeues_nothing:
  assumes "plain_gateway g" "registered_full sh"
  shows "fst (gateway_on_change g (snd (gateway_on_delete g (snd (gateway_on_change g sh))))) = []"
proof -
  let ?sh = "snd (gateway_on_delete g (snd (gateway_on_change g sh)))"
  let ?ls = "case gw_listeners g of Some ls \<Rightarrow> ls | None \<Rightarrow> []"
  have "registered_full ?sh"
    using handle_registered_full [OF handle_registered_full [OF assms(2), of _ "Change_Gateway g"], of _ "Delete_Gateway g"] by simp
  note none = no_conflicts_seen(2) [OF this assms(1)]
  obtain b gi where hosts: "update_gateway_hostnames (gateway_key g) (List.map_filter li_hostname ?ls) (sh_route_index sh) = (b, gi)" by force
  obtain b' gi' where ports: "update_gateway_ports (gateway_key g) (map li_port ?ls) gi = (b', gi')" by force
  have index: "sh_route_index ?sh = remove_gateway_ports (ref_full_key (gateway_ref g)) (remove_gateway_hostnames (ref_full_key (gateway_ref g)) gi')"
    by (simp add: gateway_on_delete_def gateway_on_change_def Let_def hosts ports)
  have "map_of (gi_hostnames (sh_route_index ?sh)) (gateway_key g) = Some (sort (List.map_filter li_hostname ?ls))"
    "map_of (gi_ports (sh_route_index ?sh)) (gateway_key g) = Some (sort (map li_port ?ls))"
    using cached_update(1) [OF hosts] cached_update(2) [OF ports] gateway_key_differs [OF assms(1), of g]
    by (simp_all add: index remove_gateway_ports_def remove_gateway_hostnames_def delete_conv')
  then have "update_gateway_hostnames (gateway_key g) (List.map_filter li_hostname ?ls) (sh_route_index ?sh) = (False, sh_route_index ?sh)"
    "update_gateway_ports (gateway_key g) (map li_port ?ls) (sh_route_index ?sh) = (False, sh_route_index ?sh)"
    by (simp_all add: update_gateway_hostnames_def update_gateway_ports_def)
  then show ?thesis unfolding gateway_on_change_def [of g ?sh] Let_def none by simp
qed

end
