(* ===== verification/Spec2Isabelle.thy ===== *)
theory Spec2Isabelle
  imports Weighted_Selector Backend_Handlers Conf_Sync Dsl_Plugin Ip_Access Gateway_Handler
begin

text \<open>
  A verification development for Edgion, an API gateway written in Rust (sources under src/src/).

  \<^bold>\<open>The program.\<close> A controller (core/controller) watches the resources of a cluster, processes them, and serves the
  results to gateways by list and watch. A gateway (core/gateway) keeps a copy of these resources, derives from
  them its backends, routes and plugins, and handles requests: it matches a route, runs the plugins of the
  route, and chooses a backend. What is modelled follows a resource from the cluster to the backend that a request
  reaches, the language of scripted plugins, and the checks by IP address.

  \<^bold>\<open>Conventions.\<close> A Rust function is a HOL function of its arguments and of the state it changes, which it returns. A
  struct is a record, an enum a datatype. A hash map is an association list and a hash set a list without
  duplicates; results speak of the map or the set only. A panic is None, a Result a sum with the error at the
  left. Strings are lists of UTF-8 bytes. Integers keep their width (64 word for u64) where they are computed
  with, and are int or nat where they are only stored or compared. Code that is not in the repository (serde, the
  regex, base64, x509 and ketama crates, the clock, the request session, the network) is a parameter.

  \<^bold>\<open>The theories.\<close>

  \<^item> Edgion_Prelude: the types of machine integers, checked list access, and shared list lemmas. Rust_Std: splitting,
    trimming, and the parsers and printers of integers and IP addresses of the standard library.

  \<^item> Work_Queue (sync_runtime/workqueue.rs, conf_center/kubernetes/resource_controller.rs): the queue, its delay loop,
    the tasks in flight and the worker as atomic steps that interleave, an inductive step relation. Every run of
    its own steps ends, no state is stuck, and at rest the last object of every key has been processed. The
    locale reconciler states this for any processing function that keeps an invariant.

  \<^item> Resource_Processor (resource_processor/processor.rs, handler.rs, context.rs): the pipeline from a work item over
    the methods of a handler to the cache. The locale keyed_processor makes every handler that keeps the identity
    of its objects a reconciler: the cache settles on the processed form of the current objects (C35), and a cascade
    of requeues is bounded by the cycle limit (C36).

  \<^item> Ref_Index (ref_manager.rs, gateway_route_index.rs, attached_route_tracker.rs, listener_port_manager.rs): the indices
    of who refers to whom, four interpretations of the locale relation_index; port conflicts are exact (C40).
    Ref_Grant (ref_grant/, reference_grant.rs): the store of ReferenceGrants answers as the grants that exist say, and
    a change requeues what it concerns (C38). Gateway_Handler (handlers/gateway.rs, secret.rs, service.rs,
    gateway_class.rs, reference_grant.rs): the handlers over one record of shared stores; a Secret reaches its
    Gateways (C37), and port conflicts are never reported (C39).

  \<^item> Event_Store (cache_server/): the circular store of events refines the whole history (C23, and C24 where it does
    not). Conf_Client (gateway/conf_sync/cache_client/): the cache of a gateway, its compressed events, and the list
    and watch loop. Conf_Sync: both ends and the stream between them as one system, in which no side panics and a fair
    round of deliveries makes the copy equal to the original (C21).

  \<^item> Endpoint_Discovery, Backend_Handlers (backends/discovery/): the stores of Endpoints and EndpointSlices with their
    index by service (C19, C20), the handlers fed by the client (C5), and the choice of a backend, which is a current
    and healthy one after a full set and may be a stale one after a partial update (C1 to C4). The property of this
    theory, C22, joins the two ends: the slices of a gateway follow those of the controller.

  \<^item> Health_Status (backends/health/check/): verdicts by thresholds (C17, C18). Lb_Runtime, Lb_Selection,
    Weighted_Selector (gateway/lb/): connection counts, smoothed latencies, draining, and the selection algorithms,
    with fairness over a cycle and where it fails (C6 to C16).

  \<^item> Dsl_Value, Dsl_Bytecode, Dsl_Vm, Dsl_Compiler (plugins/http/dsl/lang/): values, instruction set, stack machine and
    compiler of the scripts of plugins. Dsl_Semantics is a reference semantics on syntax trees; Dsl_Reach,
    Dsl_Expr_Correct, Dsl_Stmt_Correct and Dsl_Correct show that compiled scripts implement it (C25). Dsl_Validator: what
    the validator accepts stays in bounds (C27); Dsl_Pipeline: what the compiler emits passes its structural checks
    (C28); Dsl_Plugin: the plugin from its source to the answer of a request (C26, C29). Plugin_Log: its log (C30).

  \<^item> Ip_Radix (common/matcher/ip_radix_tree/): the matcher answers by the longest prefix (C31). Ip_Access: the IP
    restriction of streams and of requests and the real address of a client (C32 to C34).

  \<^bold>\<open>Bounds and fuel.\<close> The machine of scripts runs with a step budget, as in the source (max_steps of its limits): the
  correctness result gives the exact outcome for every budget, with the error of the limit when it is too small, and
  that a large enough one exists. The reference semantics of loops counts iterations up to the limit of the source.
  All other recursive functions are total. The queue of the controller has the capacity of its configuration, at
  least one; versions are 64 bit, and results about runs assume that a run does not use them up.

  \<^bold>\<open>Not modelled.\<close> Routing of requests (gateway/routes, gateway/runtime, common/matcher/radix_tree and host_match), the
  other plugins (gateway/plugins), external systems (link_sys), TLS (gateway/tls), ACME (services/acme), the APIs and
  command lines of both programs, the configuration centres except for the worker of one kind, the remaining
  resource handlers, and observation. Most of it is input and output or glue around libraries outside the
  repository: sessions and peers of the proxy library, TLS stacks, HTTP, Redis, LDAP and OIDC clients,
  serialisation and schema types. The parser of scripts is built from the combinators of a parsing library. The
  manifest lists every part with its reason.
\<close>

section \<open>Properties that span components\<close>


definition example_slice_sync :: "(endpoint_slice, (nat, nat, nat list, nat) backends) sync_env" where
  "example_slice_sync =
     (let ns = (\<lambda>sl. km_namespace (sl_meta sl)); nm = (\<lambda>sl. case_option [] id (km_name (sl_meta sl)))
      in \<lparr>se_ops = slice_ops example_env, se_ns = ns, se_nm = nm, se_key_name = resource_key ns nm,
          se_prepare = (\<lambda>_ sl. sl), se_transmit = id, se_server_id = ''s1''\<rparr>)"


end
